(* ===== verification/Prelude.thy ===== *)
theory Prelude
  imports Main "HOL-Library.Word" "HOL-Library.Sublist"
begin

unbundle bit_operations_syntax

text \<open>
  The shared base of the development: the types every component speaks about (bytes,
  fallible results), little-endian words and the CRC-32C of the Go standard library, and
  the list facts about prefixes and concatenated blocks that the storage proofs use.

  Conventions.  A Go byte slice is a list of 8-bit words, a Go string is an Isabelle
  \<open>string\<close> (a list of bytes as well).  A function that returns an \<open>error\<close> returns
  \<open>'e + 'a\<close>, \<open>Inl\<close> the error; a method that changes its receiver even when it fails
  returns the pair of an error option and the new receiver.
\<close>

named_theorems split_results
  \<comment> \<open>case splits for fallible results\<close>

lemmas [split_results] = sum.splits option.splits prod.splits if_splits

type_synonym byte = "8 word"
type_synonym bytes = "byte list"

section \<open>Fallible results\<close>

definition bind_sum :: "'e + 'a \<Rightarrow> ('a \<Rightarrow> 'e + 'b) \<Rightarrow> 'e + 'b" where
  "bind_sum r f = (case r of Inl e \<Rightarrow> Inl e | Inr x \<Rightarrow> f x)"

lemma bind_sum_simps [simp]:
  "bind_sum (Inl e) f = Inl e"
  "bind_sum (Inr x) f = f x"
  by (simp_all add: bind_sum_def)

lemma bind_sum_Inr_iff:
  "bind_sum r f = Inr y \<longleftrightarrow> (\<exists>x. r = Inr x \<and> f x = Inr y)"
  by (cases r) simp_all

text \<open>The loop that maps a fallible function over a slice and returns its first error.\<close>

fun map_sum_list :: "('a \<Rightarrow> 'e + 'b) \<Rightarrow> 'a list \<Rightarrow> 'e + 'b list" where
  "map_sum_list f [] = Inr []"
| "map_sum_list f (x # xs) =
     (case f x of Inl e \<Rightarrow> Inl e
      | Inr y \<Rightarrow> (case map_sum_list f xs of Inl e \<Rightarrow> Inl e | Inr ys \<Rightarrow> Inr (y # ys)))"

lemma map_sum_list_cong [fundef_cong]:
  "xs = ys \<Longrightarrow> (\<And>x. x \<in> set ys \<Longrightarrow> f x = g x) \<Longrightarrow> map_sum_list f xs = map_sum_list g ys"
proof (induction ys arbitrary: xs)
  case Nil
  then show ?case by simp
next
  case (Cons y ys)
  then show ?case by (simp split: sum.splits)
qed

lemma map_sum_list_Inr_length: "map_sum_list f xs = Inr ys \<Longrightarrow> length ys = length xs"
  by (induction xs arbitrary: ys) (auto split: sum.splits)

lemma map_sum_list_Inr_iff:
  "map_sum_list f xs = Inr ys \<longleftrightarrow> list_all2 (\<lambda>x y. f x = Inr y) xs ys"
proof (induction xs arbitrary: ys)
  case Nil
  then show ?case by auto
next
  case (Cons x xs)
  have "map_sum_list f (x # xs) = Inr ys \<longleftrightarrow>
      (\<exists>y ys'. f x = Inr y \<and> map_sum_list f xs = Inr ys' \<and> ys = y # ys')"
    by (auto split: sum.splits)
  then show ?case
    by (auto simp: Cons.IH list_all2_Cons1)
qed

section \<open>Little-endian 32-bit words\<close>

text \<open>\<open>binary.LittleEndian.PutUint32\<close> and \<open>binary.LittleEndian.Uint32\<close>.\<close>

definition put_u32 :: "32 word \<Rightarrow> bytes" where
  "put_u32 w = [ucast w, ucast (drop_bit 8 w), ucast (drop_bit 16 w), ucast (drop_bit 24 w)]"

fun get_u32 :: "bytes \<Rightarrow> 32 word" where
  "get_u32 (a # b # c # d # _) =
     ucast a OR push_bit 8 (ucast b) OR push_bit 16 (ucast c) OR push_bit 24 (ucast d)"
| "get_u32 _ = 0"

lemma length_put_u32 [simp]: "length (put_u32 w) = 4"
  by (simp add: put_u32_def)

lemma get_put_u32 [simp]: "get_u32 (put_u32 w @ bs) = w"
proof -
  have "bit (get_u32 (put_u32 w @ bs)) n = bit w n" if "n < 32" for n
  proof -
    from that consider "n < 8" | "8 \<le> n" "n < 16" | "16 \<le> n" "n < 24" | "24 \<le> n" "n < 32"
      by (meson not_le)
    then show ?thesis
      by cases (auto simp: put_u32_def bit_simps)
  qed
  then show ?thesis
    by (auto intro!: bit_word_eqI)
qed

lemma get_put_u32_Nil [simp]: "get_u32 (put_u32 w) = w"
  using get_put_u32 [of w "[]"] by simp

section \<open>CRC-32C\<close>

text \<open>
  \<open>crc32.Checksum\<close> with the Castagnoli table: the reflected polynomial \<open>0x82F63B78\<close>, initial value and
  final mask all ones, one byte at a time.
\<close>

definition crc_bit :: "32 word \<Rightarrow> 32 word" where
  "crc_bit c = (if bit c 0 then drop_bit 1 c XOR 0x82F63B78 else drop_bit 1 c)"

definition crc_byte :: "32 word \<Rightarrow> byte \<Rightarrow> 32 word" where
  "crc_byte c b =
     crc_bit (crc_bit (crc_bit (crc_bit (crc_bit (crc_bit (crc_bit (crc_bit (c XOR ucast b))))))))"

definition crc32c :: "bytes \<Rightarrow> 32 word" where
  "crc32c bs = NOT (foldl crc_byte (NOT 0) bs)"

lemma crc32c_Nil [simp]: "crc32c [] = 0"
  by (simp add: crc32c_def)

section \<open>Prefixes of concatenated blocks\<close>

lemma prefix_take_iff: "prefix xs ys \<longleftrightarrow> xs = take (length xs) ys"
  by (metis append_take_drop_id prefix_def take_is_prefix append_eq_conv_conj)

lemma take_eq_prefix: "prefix xs ys \<Longrightarrow> n \<le> length xs \<Longrightarrow> take n xs = take n ys"
  by (auto simp: prefix_def)

lemma prefix_take_mono: "m \<le> n \<Longrightarrow> prefix (take m xs) (take n xs)"
  by (metis min.absorb1 take_is_prefix take_take)

section \<open>Sums over lists, used for counters and sizes\<close>

lemma sum_list_map_append [simp]:
  "sum_list (map f (xs @ ys)) = sum_list (map f xs) + (sum_list (map f ys) :: 'b::comm_monoid_add)"
  by simp

lemma sum_list_filter_split:
  "sum_list (map f xs) =
     sum_list (map f (filter P xs)) + (sum_list (map f (filter (\<lambda>x. \<not> P x) xs)) :: 'b::comm_monoid_add)"
  by (induction xs) (simp_all add: ac_simps)

section \<open>Sorting by two keys\<close>

lemma insort_key_lex:
  fixes f :: "'a \<Rightarrow> 'k::linorder" and g :: "'a \<Rightarrow> 'l::linorder"
  assumes "sorted_wrt (\<lambda>x y. f x < f y \<or> f x = f y \<and> g x \<le> g y) ys" "\<forall>y\<in>set ys. g x \<le> g y"
  shows "sorted_wrt (\<lambda>x y. f x < f y \<or> f x = f y \<and> g x \<le> g y) (insort_key f x ys)"
  using assms by (induction ys) (auto simp: set_insort_key)

lemma sort_key_lex:
  fixes f :: "'a \<Rightarrow> 'k::linorder" and g :: "'a \<Rightarrow> 'l::linorder"
  shows "sorted_wrt (\<lambda>x y. f x < f y \<or> f x = f y \<and> g x \<le> g y) (sort_key f (sort_key g xs))"
proof -
  have "sorted_wrt (\<lambda>x y. f x < f y \<or> f x = f y \<and> g x \<le> g y) (sort_key f ys)"
    if "sorted (map g ys)" for ys
    using that by (induction ys) (auto intro: insort_key_lex)
  then show ?thesis by simp
qed

end
