(* ===== verification/Wal.thy ===== *)
theory Wal
  imports Prelude "HOL-Library.AList"
begin

text \<open>
  The write-ahead log, \<open>src/internal/wal/wal.go\<close>.

  The log of a process is the record \<open>wal\<close>: the active segment's file and the buffer in
  front of it, how much of the file is whole frames (\<open>w_written\<close>), how much of that is known to be
  on disk (\<open>w_synced\<close>), and the sealed segments of the directory.  Every call into the
  operating system has an outcome in \<open>wal_io\<close>, so that a failed or partial write, a failed
  truncation, a failed fsync and a failed create are branches of the model.

  \<open>Sync\<close> is two steps, because it runs its fsync without the lock appends take:
  \<open>sync_begin\<close> writes the buffer out and captures what the fsync covers, \<open>sync_end\<close> is the fsync
  and what follows it, and appends may come between them.  The relation \<open>wal_step\<close> is
  the interleaving of all operations; \<open>syncing\<close> (the lock \<open>Sync\<close>, \<open>Rotate\<close> and \<open>Close\<close>
  share) is the \<open>inflight\<close> component of its states.

  The record type \<open>'r\<close> and its JSON rendering (\<open>marshal\<close>, and \<open>unmarshal\<close> for the decoding
  done by \<open>Replay\<close>) are parameters; \<open>WalEncoding\<close> models the conversion around them.
\<close>

section \<open>Constants and frames\<close>

definition magic :: bytes where
  "magic = [0x52, 0x54, 0x57, 0x41, 0x4C, 1]"   \<comment> \<open>\<open>"RTWAL\x01"\<close>\<close>

definition maxFrame :: nat where
  "maxFrame = 67108864"

definition bufferSize :: nat where
  "bufferSize = 262144"

definition frame :: "bytes \<Rightarrow> bytes" where
  "frame payload = put_u32 (of_nat (length payload)) @ put_u32 (crc32c payload) @ payload"

section \<open>The log and its operations\<close>

datatype wal_error =
    EncodeFailed | TooLarge nat | Closed | WriteFailed | CutFailed | FsyncFailed
  | DirSyncFailed | CreateFailed | ActiveSegment nat | RemoveFailed | RenameFailed

datatype write_outcome = WriteOk | WriteFails nat   \<comment> \<open>failed after this many bytes landed\<close>

record wal_io =
  io_cut_first :: bool        \<comment> \<open>the truncation of a torn frame before a write succeeds\<close>
  io_write :: write_outcome
  io_cut_after :: bool        \<comment> \<open>the truncation after a partial write succeeds\<close>
  io_fsync :: bool
  io_dirsync :: bool
  io_create :: bool

definition io_ok :: wal_io where
  "io_ok = \<lparr>io_cut_first = True, io_write = WriteOk, io_cut_after = True, io_fsync = True,
            io_dirsync = True, io_create = True\<rparr>"

record wal =
  w_sealed :: "(nat \<times> bytes) list"      \<comment> \<open>the other segments of the directory, by number\<close>
  w_quarantine :: "(nat \<times> bytes) list"
  w_file :: bytes                       \<comment> \<open>contents of the active segment's file\<close>
  w_active :: nat
  w_closed :: bool
  w_buffer :: bytes
  w_written :: nat
  w_synced :: nat
  w_torn :: bool
  w_pending :: int
  w_listed :: bool

text \<open>\<open>os.File.Truncate\<close>: shorter cuts, longer pads with zeros.\<close>

definition truncate_file :: "nat \<Rightarrow> bytes \<Rightarrow> bytes" where
  "truncate_file n bs = take n bs @ replicate (n - length bs) 0"

definition write_out :: "wal_io \<Rightarrow> wal \<Rightarrow> wal_error option \<times> wal" where
  "write_out io l =
     (if w_buffer l = [] then (None, l)
      else case io_write io of
        WriteOk \<Rightarrow>
          (None, l\<lparr>w_file := w_file l @ w_buffer l,
                   w_written := w_written l + length (w_buffer l), w_buffer := []\<rparr>)
      | WriteFails n \<Rightarrow>
          (let l' = l\<lparr>w_file := w_file l @ take n (w_buffer l)\<rparr>
           in if n = 0 then (Some WriteFailed, l')
              else if io_cut_after io
              then (Some WriteFailed, l'\<lparr>w_file := truncate_file (w_written l) (w_file l')\<rparr>)
              else (Some WriteFailed, l'\<lparr>w_torn := True\<rparr>)))"

definition writeLocked :: "wal_io \<Rightarrow> wal \<Rightarrow> wal_error option \<times> wal" where
  "writeLocked io l =
     (if w_torn l
      then if io_cut_first io
           then write_out io (l\<lparr>w_file := truncate_file (w_written l) (w_file l), w_torn := False\<rparr>)
           else (Some CutFailed, l)
      else write_out io l)"

definition dirtyLocked :: "wal \<Rightarrow> bool" where
  "dirtyLocked l \<longleftrightarrow>
     w_buffer l \<noteq> [] \<or> w_torn l \<or> w_written l \<noteq> w_synced l \<or> \<not> w_listed l"

definition append_payload :: "wal_io \<Rightarrow> bytes \<Rightarrow> wal \<Rightarrow> wal_error option \<times> wal" where
  "append_payload io payload l =
     (if length payload > maxFrame then (Some (TooLarge (length payload)), l)
      else if w_closed l then (Some Closed, l)
      else
        (let full = w_buffer l \<noteq> [] \<and> length (w_buffer l) + 8 + length payload > bufferSize;
             (err, l') = (if full then writeLocked io l else (None, l))
         in case err of
              Some e \<Rightarrow> (Some e, l')
            | None \<Rightarrow> (None, l'\<lparr>w_buffer := w_buffer l' @ frame payload,
                               w_pending := w_pending l' + 1\<rparr>)))"

definition wal_append ::
  "('r \<Rightarrow> bytes option) \<Rightarrow> wal_io \<Rightarrow> 'r \<Rightarrow> wal \<Rightarrow> wal_error option \<times> wal" where
  "wal_append marshal io rec l =
     (case marshal rec of
        None \<Rightarrow> (Some EncodeFailed, l)
      | Some payload \<Rightarrow> append_payload io payload l)"

definition persist :: "wal_io \<Rightarrow> bool \<Rightarrow> wal_error option" where
  "persist io listed =
     (if \<not> io_fsync io then Some FsyncFailed
      else if \<not> listed then (if io_dirsync io then None else Some DirSyncFailed)
      else None)"

type_synonym covers = "nat \<times> bool \<times> int"   \<comment> \<open>\<open>upTo\<close>, \<open>listed\<close>, \<open>covered\<close>\<close>

definition sync_begin :: "wal_io \<Rightarrow> wal \<Rightarrow> (wal_error + covers option) \<times> wal" where
  "sync_begin io l =
     (if w_closed l \<or> \<not> dirtyLocked l then (Inr None, l)
      else case writeLocked io l of
        (Some e, l') \<Rightarrow> (Inl e, l')
      | (None, l') \<Rightarrow> (Inr (Some (w_written l', w_listed l', w_pending l')), l'))"

definition sync_end :: "wal_io \<Rightarrow> covers \<Rightarrow> wal \<Rightarrow> wal_error option \<times> wal" where
  "sync_end io cov l =
     (case cov of (upTo, listed, covered) \<Rightarrow>
        (case persist io listed of
           Some e \<Rightarrow> (Some e, l)
         | None \<Rightarrow> (None, l\<lparr>w_synced := upTo, w_listed := True,
                            w_pending := w_pending l - covered\<rparr>)))"

text \<open>\<open>Sync\<close> with nothing appended while its fsync runs.\<close>

definition wal_sync :: "wal_io \<Rightarrow> wal \<Rightarrow> wal_error option \<times> wal" where
  "wal_sync io l =
     (case sync_begin io l of
        (Inl e, l') \<Rightarrow> (Some e, l')
      | (Inr None, l') \<Rightarrow> (None, l')
      | (Inr (Some cov), l') \<Rightarrow> sync_end io cov l')"

definition syncLocked :: "wal_io \<Rightarrow> wal \<Rightarrow> wal_error option \<times> wal" where
  "syncLocked io l =
     (if \<not> dirtyLocked l then (None, l)
      else case writeLocked io l of
        (Some e, l') \<Rightarrow> (Some e, l')
      | (None, l') \<Rightarrow>
          (case persist io (w_listed l') of
             Some e \<Rightarrow> (Some e, l')
           | None \<Rightarrow> (None, l'\<lparr>w_synced := w_written l', w_listed := True, w_pending := 0\<rparr>)))"

text \<open>A created segment is opened for appending, so one that is already there keeps its bytes.\<close>

definition createSegment :: "nat \<Rightarrow> wal \<Rightarrow> bytes" where
  "createSegment n l = (case map_of (w_sealed l) n of None \<Rightarrow> [] | Some bs \<Rightarrow> bs)"

definition rotate :: "wal_io \<Rightarrow> wal \<Rightarrow> (wal_error + nat) \<times> wal" where
  "rotate io l =
     (if w_closed l then (Inl Closed, l)
      else case syncLocked io l of
        (Some e, l') \<Rightarrow> (Inl e, l')
      | (None, l') \<Rightarrow>
          (if \<not> io_create io then (Inl CreateFailed, l')
           else
             (Inr (w_active l'),
              l'\<lparr>w_sealed := AList.update (w_active l') (w_file l')
                              (AList.delete (w_active l' + 1) (w_sealed l')),
                 w_file := createSegment (w_active l' + 1) l',
                 w_active := w_active l' + 1,
                 w_buffer := magic, w_written := 0, w_synced := 0, w_torn := False,
                 w_pending := 0, w_listed := False\<rparr>)))"

definition remove_segment :: "bool \<Rightarrow> nat \<Rightarrow> wal \<Rightarrow> wal_error option \<times> wal" where
  "remove_segment ok n l =
     (if n = w_active l then (Some (ActiveSegment n), l)
      else if ok then (None, l\<lparr>w_sealed := AList.delete n (w_sealed l)\<rparr>)
      else (Some RemoveFailed, l))"

definition segments :: "wal \<Rightarrow> nat list" where
  "segments l = sort (w_active l # map fst (w_sealed l))"

definition orphans :: "wal \<Rightarrow> nat list" where
  "orphans l = filter (\<lambda>n. n \<noteq> w_active l) (segments l)"

definition quarantine :: "bool \<Rightarrow> bool \<Rightarrow> nat \<Rightarrow> wal \<Rightarrow> wal_error option \<times> wal" where
  "quarantine rename_ok sync_ok n l =
     (if n = w_active l then (Some (ActiveSegment n), l)
      else case (rename_ok, map_of (w_sealed l) n) of
        (True, Some bs) \<Rightarrow>
          (if sync_ok then None else Some DirSyncFailed,
           l\<lparr>w_sealed := AList.delete n (w_sealed l), w_quarantine := w_quarantine l @ [(n, bs)]\<rparr>)
      | _ \<Rightarrow> (Some RenameFailed, l))"

text \<open>\<open>Open\<close> over a directory that holds these segments.\<close>

definition wal_open :: "(nat \<times> bytes) list \<Rightarrow> wal" where
  "wal_open dir =
     (let existing = sort (map fst dir); next = (if existing = [] then 1 else last existing + 1)
      in \<lparr>w_sealed = dir, w_quarantine = [], w_file = [], w_active = next, w_closed = False,
          w_buffer = magic, w_written = 0, w_synced = 0, w_torn = False, w_pending = 0,
          w_listed = False\<rparr>)"

definition wal_close :: "wal_io \<Rightarrow> wal \<Rightarrow> wal_error option \<times> wal" where
  "wal_close io l =
     (if w_closed l then (None, l)
      else let (err, l') = syncLocked io l in (err, l'\<lparr>w_closed := True\<rparr>))"

section \<open>Replay\<close>

datatype 'e replay_error = Corrupt | Callback 'e | NoSegment

text \<open>The loop of \<open>Replay\<close> over the rest of the file, threading the callback's state.\<close>

function replay_loop ::
  "(bytes \<Rightarrow> 'r option) \<Rightarrow> ('r \<Rightarrow> 's \<Rightarrow> 'e option \<times> 's) \<Rightarrow> bytes \<Rightarrow> 's \<Rightarrow> 'e replay_error option \<times> 's"
where
  "replay_loop unmarshal fn bs s =
     (if length bs < 8 then (None, s)
      else
        (let len = unat (get_u32 (take 4 bs)); checksum = get_u32 (take 4 (drop 4 bs));
             body = drop 8 bs
         in if len > maxFrame then (Some Corrupt, s)
            else if length body < len then (None, s)
            else
              (let payload = take len body; rest = drop len body
               in if len = 0 \<or> crc32c payload \<noteq> checksum
                  then (if list_all (\<lambda>b. b = 0) rest then (None, s) else (Some Corrupt, s))
                  else case unmarshal payload of
                    None \<Rightarrow> (Some Corrupt, s)
                  | Some rec \<Rightarrow>
                      (case fn rec s of
                         (Some e, s') \<Rightarrow> (Some (Callback e), s')
                       | (None, s') \<Rightarrow> replay_loop unmarshal fn rest s'))))"
  by pat_completeness auto
termination
  by (relation "measure (\<lambda>(_, _, bs, _). length bs)") auto

declare replay_loop.simps [simp del]

definition replay_bytes ::
  "(bytes \<Rightarrow> 'r option) \<Rightarrow> ('r \<Rightarrow> 's \<Rightarrow> 'e option \<times> 's) \<Rightarrow> bytes \<Rightarrow> 's \<Rightarrow> 'e replay_error option \<times> 's"
where
  "replay_bytes unmarshal fn bs s =
     (if length bs < length magic then (None, s)
      else if take (length magic) bs \<noteq> magic then (Some Corrupt, s)
      else replay_loop unmarshal fn (drop (length magic) bs) s)"

definition replay ::
  "(bytes \<Rightarrow> 'r option) \<Rightarrow> ('r \<Rightarrow> 's \<Rightarrow> 'e option \<times> 's) \<Rightarrow> nat \<Rightarrow> wal \<Rightarrow> 's
     \<Rightarrow> 'e replay_error option \<times> 's"
where
  "replay unmarshal fn n l s =
     (case map_of ((w_active l, w_file l) # w_sealed l) n of
        None \<Rightarrow> (Some NoSegment, s)
      | Some bs \<Rightarrow> replay_bytes unmarshal fn bs s)"

text \<open>The callback the store replays with: collect the records, never fail.\<close>

definition collect_fn :: "'r \<Rightarrow> 'r list \<Rightarrow> unit option \<times> 'r list" where
  "collect_fn rec acc = (None, acc @ [rec])"

definition read_segment :: "(bytes \<Rightarrow> 'r option) \<Rightarrow> bytes \<Rightarrow> unit replay_error option \<times> 'r list" where
  "read_segment unmarshal bs = replay_bytes unmarshal collect_fn bs []"

text \<open>\<open>Floor\<close>: the sequence number of the first record of the oldest sealed segment that has one.\<close>

definition first_fn :: "'r \<Rightarrow> 'r option \<Rightarrow> unit option \<times> 'r option" where
  "first_fn rec _ = (Some (), Some rec)"

fun floor_of ::
  "(bytes \<Rightarrow> 'r option) \<Rightarrow> ('r \<Rightarrow> nat) \<Rightarrow> wal \<Rightarrow> nat list \<Rightarrow> unit replay_error + nat option" where
  "floor_of unmarshal seq l [] = Inr None"
| "floor_of unmarshal seq l (n # ns) =
     (case replay unmarshal first_fn n l None of
        (_, Some rec) \<Rightarrow> Inr (Some (seq rec))
      | (None, None) \<Rightarrow> floor_of unmarshal seq l ns
      | (Some NoSegment, None) \<Rightarrow> floor_of unmarshal seq l ns
      | (Some e, None) \<Rightarrow> Inl e)"

definition floor_seq ::
  "(bytes \<Rightarrow> 'r option) \<Rightarrow> ('r \<Rightarrow> nat) \<Rightarrow> wal \<Rightarrow> unit replay_error + nat option" where
  "floor_seq unmarshal seq l = floor_of unmarshal seq l (orphans l)"

end
