(* ===== verification/WalReplay.thy ===== *)
theory WalReplay
  imports Wal
begin

text \<open>
  What \<open>Replay\<close> reads: a segment holding whole frames gives back exactly their records, a
  segment cut anywhere gives back the records whose frames survived whole, a tail of zeros is
  a torn write, and a damaged frame with data behind it is reported as corrupt.
\<close>

section \<open>Streams of frames\<close>

definition payload_ok :: "bytes \<Rightarrow> bool" where
  "payload_ok p \<longleftrightarrow> p \<noteq> [] \<and> length p \<le> maxFrame"

definition frames :: "bytes list \<Rightarrow> bytes" where
  "frames ps = concat (map frame ps)"

definition stream :: "bytes list \<Rightarrow> bytes" where
  "stream ps = magic @ frames ps"

text \<open>How many frames lie whole within the first \<open>n\<close> bytes.\<close>

fun whole_frames :: "nat \<Rightarrow> bytes list \<Rightarrow> nat" where
  "whole_frames n [] = 0"
| "whole_frames n (p # ps) =
     (if length (frame p) \<le> n then Suc (whole_frames (n - length (frame p)) ps) else 0)"

text \<open>The records \<open>rs\<close> are what decoding the payloads \<open>ps\<close> gives.\<close>

abbreviation decodes :: "(bytes \<Rightarrow> 'r option) \<Rightarrow> bytes list \<Rightarrow> 'r list \<Rightarrow> bool" where
  "decodes unmarshal ps rs \<equiv> list_all2 (\<lambda>p r. unmarshal p = Some r) ps rs"

text \<open>A callback run over records in order, stopping at its first error.\<close>

fun run_fn :: "('r \<Rightarrow> 's \<Rightarrow> 'e option \<times> 's) \<Rightarrow> 'r list \<Rightarrow> 's \<Rightarrow> 'e option \<times> 's" where
  "run_fn fn [] s = (None, s)"
| "run_fn fn (r # rs) s =
     (case fn r s of (Some e, s') \<Rightarrow> (Some e, s') | (None, s') \<Rightarrow> run_fn fn rs s')"

lemma frames_simps [simp]:
  "frames [] = []"
  "frames (p # ps) = frame p @ frames ps"
  "frames (ps @ qs) = frames ps @ frames qs"
  by (simp_all add: frames_def)

lemma stream_snoc [simp]: "stream (ps @ [p]) = stream ps @ frame p"
  by (simp add: stream_def)

lemma stream_Nil [simp]: "stream [] = magic"
  by (simp add: stream_def)

lemma length_frame [simp]: "length (frame p) = 8 + length p"
  by (simp add: frame_def)

lemma length_magic [simp]: "length magic = 6"
  by (simp add: magic_def)

lemma block_not_Nil [simp]: "magic \<noteq> []" "frame p \<noteq> []"
  by (simp_all add: magic_def frame_def put_u32_def)

lemma run_collect [simp]: "run_fn collect_fn rs acc = (None, acc @ rs)"
  by (induction rs arbitrary: acc) (simp_all add: collect_fn_def)

section \<open>Whole frames\<close>

lemma unat_length: "length p \<le> maxFrame \<Longrightarrow> unat (of_nat (length p) :: 32 word) = length p"
  by (simp add: maxFrame_def unat_of_nat)

lemma unat_frame_length: "payload_ok p \<Longrightarrow> unat (of_nat (length p) :: 32 word) = length p"
  by (simp add: payload_ok_def unat_length)

text \<open>The loop at a complete header.\<close>

lemma replay_header:
  "replay_loop unmarshal fn (put_u32 l @ put_u32 c @ body) s =
    (if unat l > maxFrame then (Some Corrupt, s)
     else if length body < unat l then (None, s)
     else if unat l = 0 \<or> crc32c (take (unat l) body) \<noteq> c
       then (if list_all (\<lambda>b. b = 0) (drop (unat l) body) then (None, s) else (Some Corrupt, s))
     else case unmarshal (take (unat l) body) of
         None \<Rightarrow> (Some Corrupt, s)
       | Some rec \<Rightarrow>
           (case fn rec s of (Some e, s') \<Rightarrow> (Some (Callback e), s')
            | (None, s') \<Rightarrow> replay_loop unmarshal fn (drop (unat l) body) s'))"
  by (subst replay_loop.simps) (simp add: Let_def)

text \<open>One turn of the loop, at a frame whose payload decodes.\<close>

lemma replay_frame:
  assumes "payload_ok p" "unmarshal p = Some r"
  shows "replay_loop unmarshal fn (frame p @ bs) s =
    (case fn r s of (Some e, s') \<Rightarrow> (Some (Callback e), s')
     | (None, s') \<Rightarrow> replay_loop unmarshal fn bs s')"
  using assms unat_frame_length [OF assms(1)]
  by (simp add: frame_def replay_header payload_ok_def split: option.split prod.split)

lemma replay_frames:
  assumes "list_all payload_ok ps" "decodes unmarshal ps rs"
  shows "replay_loop unmarshal fn (frames ps @ bs) s =
    (case run_fn fn rs s of (Some e, s') \<Rightarrow> (Some (Callback e), s')
     | (None, s') \<Rightarrow> replay_loop unmarshal fn bs s')"
  using assms(2,1)
proof (induction arbitrary: s rule: list_all2_induct)
  case Nil
  then show ?case by simp
next
  case (Cons p ps r rs)
  then show ?case
    by (auto simp: replay_frame split: option.split prod.split)
qed

lemma replay_Nil [simp]: "replay_loop unmarshal fn [] s = (None, s)"
  by (simp add: replay_loop.simps)

section \<open>Cut files\<close>

text \<open>A frame cut short is a torn write: the loop stops there and reports nothing.\<close>

lemma replay_torn_frame:
  assumes "payload_ok p" "n < length (frame p)"
  shows "replay_loop unmarshal fn (take n (frame p)) s = (None, s)"
proof (cases "n < 8")
  case True
  then show ?thesis by (simp add: replay_loop.simps)
next
  case False
  then have "take n (frame p) =
      put_u32 (of_nat (length p)) @ put_u32 (crc32c p) @ take (n - 8) p"
    by (simp add: frame_def)
  moreover from assms(2) False have "n - 8 < length p"
    by simp
  ultimately show ?thesis
    using assms unat_frame_length [OF assms(1)] by (simp add: replay_header payload_ok_def)
qed

lemma take_frames_cut:
  "take n (frames ps) =
     frames (take (whole_frames n ps) ps) @
     (if whole_frames n ps < length ps
      then take (n - length (frames (take (whole_frames n ps) ps))) (frame (ps ! whole_frames n ps))
      else [])"
  by (induction n ps rule: whole_frames.induct) simp_all

lemma whole_frames_le [simp]: "whole_frames n ps \<le> length ps"
  by (induction n ps rule: whole_frames.induct) simp_all

lemma whole_frames_next:
  "whole_frames n ps < length ps \<Longrightarrow>
   n - length (frames (take (whole_frames n ps) ps)) < length (frame (ps ! whole_frames n ps))"
  by (induction n ps rule: whole_frames.induct) (auto simp: less_Suc_eq_0_disj)

text \<open>Frames that fit in the cut are counted.\<close>

lemma whole_frames_covers:
  "length (frames (take k ps)) \<le> n \<Longrightarrow> k \<le> length ps \<Longrightarrow> k \<le> whole_frames n ps"
proof (induction n ps arbitrary: k rule: whole_frames.induct)
  case (1 n)
  then show ?case by simp
next
  case (2 n p ps)
  show ?case
  proof (cases k)
    case (Suc j)
    with "2.prems" have "length (frame p) \<le> n" "length (frames (take j ps)) \<le> n - length (frame p)"
      "j \<le> length ps"
      by simp_all
    with "2.IH" Suc show ?thesis by simp
  qed simp
qed

lemma replay_cut_frames:
  assumes "list_all payload_ok ps" "decodes unmarshal ps rs"
  shows "replay_loop unmarshal fn (take n (frames ps)) s =
    (case run_fn fn (take (whole_frames n ps) rs) s of
       (Some e, s') \<Rightarrow> (Some (Callback e), s') | (None, s') \<Rightarrow> (None, s'))"
proof -
  let ?k = "whole_frames n ps"
  have ok: "list_all payload_ok (take ?k ps)" "decodes unmarshal (take ?k ps) (take ?k rs)"
    using assms by (simp_all add: list_all_iff list_all2_takeI) (meson in_set_takeD)
  have tail: "replay_loop unmarshal fn
      (if ?k < length ps then take (n - length (frames (take ?k ps))) (frame (ps ! ?k)) else []) s'
      = (None, s')" for s'
    using assms(1) whole_frames_next [of n ps]
    by (auto intro!: replay_torn_frame simp: list_all_length)
  show ?thesis
    by (subst take_frames_cut, subst replay_frames [OF ok]) (simp only: tail)
qed

lemma replay_bytes_stream:
  "replay_bytes unmarshal fn (magic @ bs) s = replay_loop unmarshal fn bs s"
  by (simp add: replay_bytes_def)

lemma replay_bytes_short:
  "length bs < length magic \<Longrightarrow> replay_bytes unmarshal fn bs s = (None, s)"
  by (simp add: replay_bytes_def)

text \<open>Reading any cut of a stream gives the records whose frames survived whole.\<close>

lemma read_cut_stream:
  assumes "list_all payload_ok ps" "decodes unmarshal ps rs"
  shows "read_segment unmarshal (take n (stream ps)) = (None, take (whole_frames (n - 6) ps) rs)"
proof (cases "n < 6")
  case True
  moreover from this have "whole_frames (n - 6) ps = 0"
    by (cases ps) simp_all
  ultimately show ?thesis
    by (simp add: read_segment_def replay_bytes_short stream_def)
next
  case False
  then have "take n (stream ps) = magic @ take (n - 6) (frames ps)"
    by (simp add: stream_def)
  then show ?thesis
    by (simp add: read_segment_def replay_bytes_stream replay_cut_frames [OF assms])
qed

lemma read_stream:
  assumes "list_all payload_ok ps" "decodes unmarshal ps rs"
  shows "read_segment unmarshal (stream ps) = (None, rs)"
  using replay_frames [OF assms, of collect_fn "[]" "[]"]
  by (simp add: read_segment_def stream_def replay_bytes_stream)

section \<open>Zero tails and damage\<close>

lemma put_u32_0: "put_u32 0 = replicate 4 0"
  by (simp add: put_u32_def numeral_eq_Suc)

lemma replay_zeros: "replay_loop unmarshal fn (replicate k 0) s = (None, s)"
proof (cases "k < 8")
  case True
  then show ?thesis by (simp add: replay_loop.simps)
next
  case False
  then obtain j where "k = 4 + (4 + j)"
    by (metis add.assoc le_Suc_ex not_le numeral_Bit0)
  then have "replicate k (0 :: byte) = put_u32 0 @ put_u32 0 @ replicate j 0"
    by (simp only: put_u32_0 replicate_add)
  then show ?thesis
    by (simp add: replay_header list_all_length)
qed

text \<open>
  A frame whose checksum does not match: the end of the log when only zeros follow, damage
  otherwise.
\<close>

lemma replay_bad_frame:
  assumes "length p \<le> maxFrame" "crc32c p \<noteq> c \<or> p = []"
  shows "replay_loop unmarshal fn (put_u32 (of_nat (length p)) @ put_u32 c @ p @ rest) s =
    (if list_all (\<lambda>b. b = 0) rest then (None, s) else (Some Corrupt, s))"
  using assms unat_length [OF assms(1)] by (auto simp: replay_header)

end
