(* ===== verification/WalSafety.thy ===== *)
theory WalSafety
  imports WalReplay
begin

text \<open>
  What the log promises over any interleaving of its operations with any failures of the
  operating system: the file and the buffer together always hold exactly the accepted
  frames, a completed \<open>Sync\<close> makes everything accepted before it survive a power loss, and a
  sealed segment holds exactly what was accepted into it.
\<close>

section \<open>The invariant of the active segment\<close>

text \<open>
  The whole frames of the file followed by the buffer are the frames accepted; whatever lies
  in the file past them is a piece of the buffer, and only when \<open>w_torn\<close> says so.
\<close>

definition seg_inv :: "wal \<Rightarrow> bytes list \<Rightarrow> bool" where
  "seg_inv l ps \<longleftrightarrow>
     w_written l \<le> length (w_file l) \<and>
     take (w_written l) (w_file l) @ w_buffer l = stream ps \<and>
     prefix (drop (w_written l) (w_file l)) (w_buffer l) \<and>
     (\<not> w_torn l \<longrightarrow> length (w_file l) = w_written l)"

text \<open>
  \<open>k\<close> records are known to be on disk, \<open>w_pending\<close> counts the others, and a running fsync
  will make \<open>c\<close> more of them durable.
\<close>

definition sync_inv :: "wal \<Rightarrow> bytes list \<Rightarrow> covers option \<Rightarrow> nat \<Rightarrow> bool" where
  "sync_inv l ps inflight k \<longleftrightarrow>
     k \<le> length ps \<and> w_synced l \<le> w_written l \<and>
     w_synced l = (if w_listed l then length (stream (take k ps)) else 0) \<and>
     (\<not> w_listed l \<longrightarrow> k = 0) \<and>
     w_pending l = int (length ps) - int k \<and>
     (case inflight of
        None \<Rightarrow> True
      | Some (upTo, listed, c) \<Rightarrow>
          upTo \<le> w_written l \<and> listed = w_listed l \<and> 0 \<le> c \<and> k + nat c \<le> length ps \<and>
          upTo = length (stream (take (k + nat c) ps)))"

definition log_inv :: "wal \<Rightarrow> bytes list \<Rightarrow> covers option \<Rightarrow> nat \<Rightarrow> bool" where
  "log_inv l ps inflight k \<longleftrightarrow>
     list_all payload_ok ps \<and> seg_inv l ps \<and> sync_inv l ps inflight k"

lemma file_prefix_stream: "seg_inv l ps \<Longrightarrow> prefix (w_file l) (stream ps)"
  unfolding seg_inv_def by (metis append_take_drop_id same_prefix_prefix)

lemma length_frames_ge: "list_all payload_ok ps \<Longrightarrow> length ps \<le> length (frames ps)"
  by (induction ps) auto

lemma stream_length_inj:
  assumes "k \<le> length ps" "length (stream ps) \<le> length (stream (take k ps))"
  shows "k = length ps"
proof (rule ccontr)
  assume "k \<noteq> length ps"
  with assms(1) obtain p qs where "drop k ps = p # qs"
    by (metis drop_eq_Nil le_antisym list.exhaust)
  then have "stream ps = stream (take k ps) @ frame p @ frames qs"
    by (metis append_assoc append_take_drop_id frames_simps(2,3) stream_def)
  with assms(2) show False by simp
qed

section \<open>Writing the buffer out\<close>

text \<open>What no write touches.\<close>

definition same_rest :: "wal \<Rightarrow> wal \<Rightarrow> bool" where
  "same_rest l l' \<longleftrightarrow>
     w_synced l' = w_synced l \<and> w_listed l' = w_listed l \<and> w_pending l' = w_pending l \<and>
     w_closed l' = w_closed l \<and> w_active l' = w_active l \<and> w_sealed l' = w_sealed l"

lemma same_rest_refl [simp]: "same_rest l l"
  by (simp add: same_rest_def)

lemma write_out_rest: "write_out io l = (err, l') \<Longrightarrow> same_rest l l'"
  by (auto simp: write_out_def Let_def same_rest_def split: if_splits write_outcome.splits)

lemma writeLocked_cases:
  assumes "writeLocked io l = (err, l')"
  obtains (cut_fails) "w_torn l" "err = Some CutFailed" "l' = l"
    | (cut) "w_torn l"
        "write_out io (l\<lparr>w_file := truncate_file (w_written l) (w_file l), w_torn := False\<rparr>) = (err, l')"
    | (plain) "\<not> w_torn l" "write_out io l = (err, l')"
  using assms unfolding writeLocked_def by (cases "w_torn l"; cases "io_cut_first io") auto

lemma writeLocked_rest:
  assumes "writeLocked io l = (err, l')"
  shows "same_rest l l'"
  using assms
proof (cases rule: writeLocked_cases)
  case cut
  from write_out_rest [OF cut(2)] show ?thesis by (simp add: same_rest_def)
qed (auto dest: write_out_rest)

lemma write_out_seg:
  assumes "seg_inv l ps" "\<not> w_torn l" "write_out io l = (err, l')"
  shows "seg_inv l' ps \<and> w_written l \<le> w_written l' \<and>
    (err = None \<longrightarrow> w_buffer l' = [] \<and> w_file l' = stream ps \<and> \<not> w_torn l')"
proof -
  have "length (stream ps) = w_written l + length (w_buffer l)"
    using assms(1) by (simp add: seg_inv_def flip: length_append) (metis length_append length_take min.absorb2)
  with assms show ?thesis
    by (auto simp: seg_inv_def write_out_def Let_def truncate_file_def take_is_prefix
        split: if_splits write_outcome.splits)
qed

lemma cut_seg:
  "seg_inv l ps \<Longrightarrow>
   seg_inv (l\<lparr>w_file := truncate_file (w_written l) (w_file l), w_torn := False\<rparr>) ps"
  by (auto simp: seg_inv_def truncate_file_def)

lemma writeLocked_seg:
  assumes seg: "seg_inv l ps" and "writeLocked io l = (err, l')"
  shows "seg_inv l' ps \<and> w_written l \<le> w_written l' \<and>
    (err = None \<longrightarrow> w_buffer l' = [] \<and> w_file l' = stream ps \<and> \<not> w_torn l')"
  using assms(2)
proof (cases rule: writeLocked_cases)
  case cut_fails
  with seg show ?thesis by simp
next
  case cut
  from write_out_seg [OF cut_seg [OF seg] _ cut(2)] show ?thesis by simp
next
  case plain
  with write_out_seg [OF seg] show ?thesis by simp
qed

lemma writeLocked_written:
  assumes "seg_inv l ps" "writeLocked io l = (None, l')"
  shows "w_written l' = length (stream ps)"
  using writeLocked_seg [OF assms] unfolding seg_inv_def by metis

lemma writeLocked_sync:
  assumes "seg_inv l ps" "sync_inv l ps inflight k" "writeLocked io l = (err, l')"
  shows "sync_inv l' ps inflight k"
  using assms(2) writeLocked_seg [OF assms(1,3)] writeLocked_rest [OF assms(3)]
  by (auto simp: sync_inv_def same_rest_def split: option.splits)

section \<open>Each operation keeps the invariant\<close>

text \<open>An accepted frame is in the buffer; a refused one left the log as it was.\<close>

lemma buffer_frame_seg:
  "seg_inv l ps \<Longrightarrow>
   seg_inv (l\<lparr>w_buffer := w_buffer l @ frame p, w_pending := w_pending l + 1\<rparr>) (ps @ [p])"
  by (simp add: seg_inv_def flip: append_assoc)

lemma buffer_frame_sync:
  "sync_inv l ps inflight k \<Longrightarrow>
   sync_inv (l\<lparr>w_buffer := w_buffer l @ frame p, w_pending := w_pending l + 1\<rparr>) (ps @ [p]) inflight k"
  by (auto simp: sync_inv_def split: option.splits)

lemma append_cases:
  assumes "append_payload io p l = (err, l')"
  obtains (refused) "err \<noteq> None" "l' = l"
    | (full) "err \<noteq> None" "writeLocked io l = (err, l')"
    | (taken) l1 where "err = None" "l1 = l \<or> writeLocked io l = (None, l1)"
        "l' = l1\<lparr>w_buffer := w_buffer l1 @ frame p, w_pending := w_pending l1 + 1\<rparr>"
        "length p \<le> maxFrame"
proof (cases "length p > maxFrame \<or> w_closed l")
  case True
  with assms refused show ?thesis by (auto simp: append_payload_def split: if_splits)
next
  case False
  define needs where "needs \<longleftrightarrow> w_buffer l \<noteq> [] \<and> length (w_buffer l) + 8 + length p > bufferSize"
  obtain e l1 where e: "(if needs then writeLocked io l else (None, l)) = (e, l1)" by fastforce
  with False assms have "(case e of Some e \<Rightarrow> (Some e, l1)
      | None \<Rightarrow> (None, l1\<lparr>w_buffer := w_buffer l1 @ frame p, w_pending := w_pending l1 + 1\<rparr>))
      = (err, l')"
    by (simp add: append_payload_def needs_def)
  with e False show ?thesis
    by (cases e; cases needs) (auto intro: full taken)
qed

lemma append_inv:
  assumes inv: "log_inv l ps inflight k" and "p \<noteq> []" "append_payload io p l = (err, l')"
  shows "log_inv l' (if err = None then ps @ [p] else ps) inflight k"
proof -
  from inv have ps: "list_all payload_ok ps"
    and seg: "seg_inv l ps" and syn: "sync_inv l ps inflight k"
    by (auto simp: log_inv_def)
  from assms(3) show ?thesis
  proof (cases rule: append_cases)
    case refused
    with inv show ?thesis by auto
  next
    case full
    with ps writeLocked_seg [OF seg full(2)] writeLocked_sync [OF seg syn full(2)] show ?thesis
      by (auto simp: log_inv_def)
  next
    case (taken l1)
    then have "seg_inv l1 ps" "sync_inv l1 ps inflight k"
      using seg syn writeLocked_seg [OF seg] writeLocked_sync [OF seg syn] by blast+
    then have "seg_inv l' (ps @ [p])" "sync_inv l' (ps @ [p]) inflight k"
      unfolding taken(3) by (blast intro: buffer_frame_seg buffer_frame_sync)+
    with taken ps assms(2) show ?thesis
      by (auto simp: log_inv_def payload_ok_def)
  qed
qed

lemma sync_begin_cases:
  assumes "sync_begin io l = (r, l')"
  obtains (idle) "w_closed l \<or> \<not> dirtyLocked l" "r = Inr None" "l' = l"
    | (refused) e where "r = Inl e" "writeLocked io l = (Some e, l')"
    | (started) "\<not> w_closed l" "writeLocked io l = (None, l')"
        "r = Inr (Some (w_written l', w_listed l', w_pending l'))"
proof (cases "w_closed l \<or> \<not> dirtyLocked l")
  case True
  with assms have "r = Inr None" "l' = l" by (auto simp: sync_begin_def)
  with True show ?thesis by (rule idle)
next
  case False
  obtain err l1 where wr: "writeLocked io l = (err, l1)" by fastforce
  show ?thesis
  proof (cases err)
    case None
    with False assms wr have "l' = l1" "r = Inr (Some (w_written l', w_listed l', w_pending l'))"
      by (auto simp: sync_begin_def)
    with None False wr started show ?thesis by blast
  next
    case (Some e)
    with False assms wr have "l' = l1" "r = Inl e" by (auto simp: sync_begin_def)
    with Some wr refused show ?thesis by blast
  qed
qed

lemma sync_begin_inv:
  assumes inv: "log_inv l ps None k" and "sync_begin io l = (r, l')"
  shows "log_inv l' ps (case r of Inr c \<Rightarrow> c | Inl _ \<Rightarrow> None) k"
proof -
  from inv have ps: "list_all payload_ok ps"
    and seg: "seg_inv l ps" and syn: "sync_inv l ps None k"
    by (auto simp: log_inv_def)
  from assms(2) show ?thesis
  proof (cases rule: sync_begin_cases)
    case idle
    with inv show ?thesis by simp
  next
    case (refused e)
    with ps writeLocked_seg [OF seg refused(2)] writeLocked_sync [OF seg syn refused(2)]
    show ?thesis by (simp add: log_inv_def)
  next
    case started
    note w = writeLocked_seg [OF seg started(2)] writeLocked_sync [OF seg syn started(2)]
      writeLocked_written [OF seg started(2)]
    then have "sync_inv l' ps (Some (w_written l', w_listed l', w_pending l')) k"
      by (simp add: sync_inv_def) arith
    with ps w(1) started(3) show ?thesis by (simp add: log_inv_def)
  qed
qed

text \<open>A sync that starts covers every record accepted so far.\<close>

lemma sync_begin_covers:
  assumes "log_inv l ps None k" "sync_begin io l = (Inr (Some (u, li, c)), l')"
  shows "k + nat c = length ps"
  using assms(2)
proof (cases rule: sync_begin_cases)
  case started
  from assms(1) have "sync_inv l' ps None k"
    using writeLocked_sync [OF _ _ started(2)] by (simp add: log_inv_def)
  with started(3) show ?thesis by (simp add: sync_inv_def) arith
qed simp_all

lemma sync_end_inv:
  assumes "log_inv l ps (Some (u, li, c)) k" "sync_end io (u, li, c) l = (err, l')"
  shows "log_inv l' ps None (if err = None then k + nat c else k)"
proof -
  from assms(1) have ps: "list_all payload_ok ps"
    and seg: "seg_inv l ps" and syn: "sync_inv l ps (Some (u, li, c)) k"
    by (auto simp: log_inv_def)
  have "sync_inv l' ps None (if err = None then k + nat c else k)"
    using assms(2) syn
    by (auto simp: sync_end_def sync_inv_def split: option.splits if_splits)
  moreover have "seg_inv l' ps"
    using assms(2) seg by (auto simp: sync_end_def seg_inv_def split: option.splits)
  ultimately show ?thesis
    using ps by (simp add: log_inv_def)
qed

lemma not_dirty_synced:
  assumes "seg_inv l ps" "sync_inv l ps inflight k" "\<not> dirtyLocked l"
  shows "w_file l = stream ps \<and> w_synced l = length (stream ps) \<and> k = length ps"
proof -
  have *: "w_buffer l = []" "\<not> w_torn l" "w_written l = w_synced l" "w_listed l"
    using assms(3) by (auto simp: dirtyLocked_def)
  from assms(1) *(1,2) have "take (w_written l) (w_file l) = stream ps" "length (w_file l) = w_written l"
    by (simp_all add: seg_inv_def)
  then have full: "w_file l = stream ps" "w_written l = length (stream ps)"
    by (metis order_refl take_all)+
  from assms(2) *(4) have "k \<le> length ps" "w_synced l = length (stream (take k ps))"
    by (simp_all add: sync_inv_def)
  with full(2) *(3) have "k \<le> length ps" "length (stream ps) \<le> length (stream (take k ps))"
    by simp_all
  then have "k = length ps" by (rule stream_length_inj)
  then show ?thesis using full(1) trans [OF *(3) [symmetric] full(2)] by blast
qed

lemma syncLocked_cases:
  assumes "syncLocked io l = (err, l')"
  obtains (clean) "\<not> dirtyLocked l" "err = None" "l' = l"
    | (failed) l1 e where "dirtyLocked l" "writeLocked io l = (e, l1)" "err \<noteq> None" "l' = l1"
    | (synced) l1 where "dirtyLocked l" "writeLocked io l = (None, l1)" "err = None"
        "l' = l1\<lparr>w_synced := w_written l1, w_listed := True, w_pending := 0\<rparr>"
proof (cases "dirtyLocked l")
  case False
  with assms have "err = None" "l' = l" by (simp_all add: syncLocked_def)
  with False show ?thesis by (rule clean)
next
  case True
  obtain e l1 where wr: "writeLocked io l = (e, l1)" by fastforce
  show ?thesis
  proof (cases e)
    case (Some x)
    with True assms wr have "err = Some x" "l' = l1" by (simp_all add: syncLocked_def)
    with True wr failed show ?thesis by blast
  next
    case None
    show ?thesis
    proof (cases "persist io (w_listed l1)")
      case (Some x)
      with None True assms wr have "err = Some x" "l' = l1" by (simp_all add: syncLocked_def)
      with True wr failed show ?thesis by blast
    next
      case None': None
      with None True assms wr have "err = None"
        "l' = l1\<lparr>w_synced := w_written l1, w_listed := True, w_pending := 0\<rparr>"
        by (simp_all add: syncLocked_def)
      with None True wr synced show ?thesis by blast
    qed
  qed
qed

lemma synced_all_inv:
  assumes "seg_inv l ps" "w_file l = stream ps" "w_buffer l = []" "w_written l = length (stream ps)"
  defines "l' \<equiv> l\<lparr>w_synced := w_written l, w_listed := True, w_pending := 0\<rparr>"
  shows "seg_inv l' ps \<and> sync_inv l' ps None (length ps) \<and> w_synced l' = length (stream ps)"
  using assms by (simp add: seg_inv_def sync_inv_def)

lemma syncLocked_rest:
  assumes "syncLocked io l = (err, l')"
  shows "w_active l' = w_active l \<and> w_sealed l' = w_sealed l \<and> w_closed l' = w_closed l"
  using assms
proof (cases rule: syncLocked_cases)
  case (failed l1 e)
  with writeLocked_rest show ?thesis by (auto simp: same_rest_def)
next
  case (synced l1)
  with writeLocked_rest [OF synced(2)] show ?thesis by (simp add: same_rest_def)
qed simp

lemma syncLocked_inv:
  assumes inv: "log_inv l ps None k" and "syncLocked io l = (err, l')"
  shows "log_inv l' ps None (if err = None then length ps else k) \<and>
    (err = None \<longrightarrow> w_file l' = stream ps)"
proof -
  from inv have ps: "list_all payload_ok ps"
    and seg: "seg_inv l ps" and syn: "sync_inv l ps None k"
    by (auto simp: log_inv_def)
  from assms(2) show ?thesis
  proof (cases rule: syncLocked_cases)
    case clean
    with inv not_dirty_synced [OF seg syn clean(1)] show ?thesis by simp
  next
    case (failed l1 e)
    with ps writeLocked_seg [OF seg failed(2)] writeLocked_sync [OF seg syn failed(2)]
    have "log_inv l' ps None k" by (simp add: log_inv_def)
    with failed(3) show ?thesis by auto
  next
    case (synced l1)
    note w = writeLocked_seg [OF seg synced(2)] writeLocked_written [OF seg synced(2)]
    then have "seg_inv l' ps \<and> sync_inv l' ps None (length ps) \<and> w_synced l' = length (stream ps)"
      unfolding synced(4) by (intro synced_all_inv) simp_all
    with ps synced(3,4) w show ?thesis by (simp add: log_inv_def)
  qed
qed

lemma fresh_inv:
  "log_inv l [] None 0"
  if "w_file l = []" "w_buffer l = magic" "w_written l = 0" "w_synced l = 0" "\<not> w_torn l"
    "w_pending l = 0" "\<not> w_listed l"
  using that by (simp add: log_inv_def seg_inv_def sync_inv_def)

lemma append_rest:
  assumes "append_payload io p l = (err, l')"
  shows "w_active l' = w_active l \<and> w_sealed l' = w_sealed l \<and> w_closed l' = w_closed l"
  using assms
proof (cases rule: append_cases)
  case full
  from writeLocked_rest [OF full(2)] show ?thesis by (simp add: same_rest_def)
next
  case (taken l1)
  then have "same_rest l l1" using writeLocked_rest by auto
  with taken(3) show ?thesis by (simp add: same_rest_def)
qed simp

lemma sync_begin_rest:
  assumes "sync_begin io l = (r, l')"
  shows "w_active l' = w_active l \<and> w_sealed l' = w_sealed l \<and> w_closed l' = w_closed l"
  using assms
  by (cases rule: sync_begin_cases) (auto simp: same_rest_def dest!: writeLocked_rest)

lemma sync_end_rest:
  "sync_end io c l = (err, l') \<Longrightarrow>
   w_active l' = w_active l \<and> w_sealed l' = w_sealed l \<and> w_closed l' = w_closed l"
  by (auto simp: sync_end_def split: prod.splits option.splits)

end
