(* ===== verification/WalSystem.thy ===== *)
theory WalSystem
  imports WalSafety
begin

text \<open>
  The log as its users run it: any interleaving of \<open>Append\<close>, the two halves of \<open>Sync\<close>,
  \<open>Rotate\<close>, \<open>Remove\<close>, \<open>Quarantine\<close> and \<open>Close\<close>, each with any outcome of its system calls.
  The state adds to the log what its callers know: which records \<open>Append\<close> accepted into the
  active segment, how many of them a completed \<open>Sync\<close> promised, what every segment sealed so
  far was given, and the fsync that is running.
\<close>

section \<open>The system and its steps\<close>

record 'r wal_sys =
  y_log :: wal
  y_accepted :: "'r list"                 \<comment> \<open>accepted into the active segment\<close>
  y_inflight :: "(covers \<times> nat) option"   \<comment> \<open>the running fsync, and how many were accepted before it\<close>
  y_promised :: nat                       \<comment> \<open>how many of them a \<open>Sync\<close> that returned nil covered\<close>
  y_sealed :: "(nat \<times> 'r list) list"      \<comment> \<open>what each sealed segment was given\<close>

definition initial :: "(nat \<times> bytes) list \<Rightarrow> 'r wal_sys" where
  "initial dir = \<lparr>y_log = wal_open dir, y_accepted = [], y_inflight = None, y_promised = 0,
                  y_sealed = []\<rparr>"

datatype 'r wal_op =
    OpAppend wal_io 'r | OpSyncBegin wal_io | OpSyncEnd wal_io | OpRotate wal_io
  | OpRemove bool nat | OpQuarantine bool bool nat | OpClose wal_io

inductive wal_step :: "('r \<Rightarrow> bytes option) \<Rightarrow> 'r wal_sys \<Rightarrow> 'r wal_op \<Rightarrow> 'r wal_sys \<Rightarrow> bool"
  for marshal :: "'r \<Rightarrow> bytes option" where
  accept: "wal_append marshal io rec (y_log s) = (None, l) \<Longrightarrow>
    wal_step marshal s (OpAppend io rec) (s\<lparr>y_log := l, y_accepted := y_accepted s @ [rec]\<rparr>)"
| refuse: "wal_append marshal io rec (y_log s) = (Some e, l) \<Longrightarrow>
    wal_step marshal s (OpAppend io rec) (s\<lparr>y_log := l\<rparr>)"
| sync_idle: "y_inflight s = None \<Longrightarrow> sync_begin io (y_log s) = (Inr None, l) \<Longrightarrow>
    wal_step marshal s (OpSyncBegin io)
      (s\<lparr>y_log := l, y_promised := if w_closed l then y_promised s else length (y_accepted s)\<rparr>)"
| sync_refused: "y_inflight s = None \<Longrightarrow> sync_begin io (y_log s) = (Inl e, l) \<Longrightarrow>
    wal_step marshal s (OpSyncBegin io) (s\<lparr>y_log := l\<rparr>)"
| sync_started: "y_inflight s = None \<Longrightarrow> sync_begin io (y_log s) = (Inr (Some cov), l) \<Longrightarrow>
    wal_step marshal s (OpSyncBegin io)
      (s\<lparr>y_log := l, y_inflight := Some (cov, length (y_accepted s))\<rparr>)"
| sync_done: "y_inflight s = Some (cov, n) \<Longrightarrow> sync_end io cov (y_log s) = (None, l) \<Longrightarrow>
    wal_step marshal s (OpSyncEnd io) (s\<lparr>y_log := l, y_inflight := None, y_promised := n\<rparr>)"
| sync_failed: "y_inflight s = Some (cov, n) \<Longrightarrow> sync_end io cov (y_log s) = (Some e, l) \<Longrightarrow>
    wal_step marshal s (OpSyncEnd io) (s\<lparr>y_log := l, y_inflight := None\<rparr>)"
| rotated: "y_inflight s = None \<Longrightarrow> rotate io (y_log s) = (Inr n, l) \<Longrightarrow>
    wal_step marshal s (OpRotate io)
      (s\<lparr>y_log := l, y_accepted := [], y_promised := 0,
         y_sealed := AList.update n (y_accepted s) (y_sealed s)\<rparr>)"
| not_rotated: "y_inflight s = None \<Longrightarrow> rotate io (y_log s) = (Inl e, l) \<Longrightarrow>
    wal_step marshal s (OpRotate io) (s\<lparr>y_log := l\<rparr>)"
| removed: "remove_segment ok n (y_log s) = (None, l) \<Longrightarrow>
    wal_step marshal s (OpRemove ok n) (s\<lparr>y_log := l, y_sealed := AList.delete n (y_sealed s)\<rparr>)"
| not_removed: "remove_segment ok n (y_log s) = (Some e, l) \<Longrightarrow>
    wal_step marshal s (OpRemove ok n) (s\<lparr>y_log := l\<rparr>)"
| quarantined: "quarantine rename_ok sync_ok n (y_log s) = (err, l) \<Longrightarrow>
    wal_step marshal s (OpQuarantine rename_ok sync_ok n)
      (s\<lparr>y_log := l, y_sealed := if map_of (w_sealed l) n = None then AList.delete n (y_sealed s)
                               else y_sealed s\<rparr>)"
| closed: "y_inflight s = None \<Longrightarrow> wal_close io (y_log s) = (err, l) \<Longrightarrow>
    wal_step marshal s (OpClose io) (s\<lparr>y_log := l\<rparr>)"

inductive wal_reachable ::
  "('r \<Rightarrow> bytes option) \<Rightarrow> (nat \<times> bytes) list \<Rightarrow> 'r wal_sys \<Rightarrow> bool"
  for marshal :: "'r \<Rightarrow> bytes option" and dir :: "(nat \<times> bytes) list" where
  start: "wal_reachable marshal dir (initial dir)"
| step: "wal_reachable marshal dir s \<Longrightarrow> wal_step marshal s op s' \<Longrightarrow> wal_reachable marshal dir s'"

inductive_cases wal_stepE: "wal_step marshal s op s'"

section \<open>The codec the log relies on\<close>

text \<open>
  The rendering of a record in a frame: it is never empty, and decoding it gives the record up to
  \<open>norm\<close>, what the encoding keeps of it (\<open>WalEncoding\<close> says what that is: timestamps to the
  microsecond).
\<close>

definition codec_ok ::
  "('r \<Rightarrow> bytes option) \<Rightarrow> (bytes \<Rightarrow> 'r option) \<Rightarrow> ('r \<Rightarrow> 'r) \<Rightarrow> bool" where
  "codec_ok marshal unmarshal norm \<longleftrightarrow>
     (\<forall>r p. marshal r = Some p \<longrightarrow> p \<noteq> [] \<and> unmarshal p = Some (norm r))"

abbreviation encodes :: "('r \<Rightarrow> bytes option) \<Rightarrow> 'r list \<Rightarrow> bytes list \<Rightarrow> bool" where
  "encodes marshal rs ps \<equiv> list_all2 (\<lambda>r p. marshal r = Some p) rs ps"

lemma encodes_decodes:
  "codec_ok marshal unmarshal norm \<Longrightarrow> encodes marshal rs ps \<Longrightarrow> decodes unmarshal ps (map norm rs)"
  unfolding list_all2_conv_all_nth codec_ok_def by simp

section \<open>The invariant of the system\<close>

definition active_ok :: "('r \<Rightarrow> bytes option) \<Rightarrow> 'r wal_sys \<Rightarrow> bytes list \<Rightarrow> nat \<Rightarrow> bool" where
  "active_ok marshal s ps k \<longleftrightarrow>
     encodes marshal (y_accepted s) ps \<and>
     log_inv (y_log s) ps (map_option fst (y_inflight s)) k \<and> y_promised s \<le> k \<and>
     (case y_inflight s of None \<Rightarrow> True | Some ((_, _, c), n) \<Rightarrow> n \<le> k + nat c)"

definition sealed_ok :: "('r \<Rightarrow> bytes option) \<Rightarrow> wal \<Rightarrow> (nat \<times> 'r list) list \<Rightarrow> bool" where
  "sealed_ok marshal l hist \<longleftrightarrow>
     (\<forall>n. w_active l \<le> n \<longrightarrow> map_of (w_sealed l) n = None) \<and>
     (\<forall>n rs. map_of hist n = Some rs \<longrightarrow>
        (\<exists>ps. encodes marshal rs ps \<and> list_all payload_ok ps \<and>
              map_of (w_sealed l) n = Some (stream ps)))"

definition sys_inv :: "('r \<Rightarrow> bytes option) \<Rightarrow> 'r wal_sys \<Rightarrow> bool" where
  "sys_inv marshal s \<longleftrightarrow>
     (\<exists>ps k. active_ok marshal s ps k) \<and> sealed_ok marshal (y_log s) (y_sealed s)"

lemma sys_invI:
  "active_ok marshal s ps k \<Longrightarrow> sealed_ok marshal (y_log s) (y_sealed s) \<Longrightarrow> sys_inv marshal s"
  by (auto simp: sys_inv_def)

lemma sealed_ok_same:
  "sealed_ok marshal l hist \<Longrightarrow>
   w_active l' = w_active l \<and> w_sealed l' = w_sealed l \<and> w_closed l' = w_closed l \<Longrightarrow>
   sealed_ok marshal l' hist"
  by (simp add: sealed_ok_def)

lemma sealed_ok_delete:
  "sealed_ok marshal l hist \<Longrightarrow>
   sealed_ok marshal (l\<lparr>w_sealed := AList.delete n (w_sealed l)\<rparr>) (AList.delete n hist)"
  by (auto simp: sealed_ok_def delete_conv')

lemma sealed_ok_rotate:
  assumes "sealed_ok marshal l hist" "encodes marshal rs ps" "list_all payload_ok ps"
    "w_file l = stream ps" "w_active l' = w_active l + 1"
    "w_sealed l' = AList.update (w_active l) (w_file l) (AList.delete (w_active l + 1) (w_sealed l))"
  shows "sealed_ok marshal l' (AList.update (w_active l) rs hist)"
proof -
  have "map_of hist n = None" if "w_active l \<le> n" for n
    using assms(1) that unfolding sealed_ok_def by (metis option.distinct(1) option.exhaust)
  with assms show ?thesis
    by (auto simp: sealed_ok_def update_conv' delete_conv')
qed

subsection \<open>Every step keeps it\<close>

lemma initial_ok: "sys_inv marshal (initial dir)"
proof (rule sys_invI)
  show "active_ok marshal (initial dir) [] 0"
    by (simp add: active_ok_def initial_def fresh_inv wal_open_def Let_def)
  let ?ns = "sort (map fst dir)"
  have "map_of dir n = None" if "?ns = [] \<longrightarrow> 1 \<le> n" "?ns \<noteq> [] \<longrightarrow> last ?ns < n" for n
  proof (rule ccontr)
    assume "map_of dir n \<noteq> None"
    then have "n \<in> set ?ns" by (auto simp: map_of_eq_None_iff)
    then obtain i where i: "i < length ?ns" "n = ?ns ! i" by (metis in_set_conv_nth)
    then have "?ns \<noteq> []" by (metis length_0_conv not_less_zero)
    with i have "n \<le> last ?ns"
      using sorted_nth_mono [OF sorted_sort, of i "length ?ns - 1" "map fst dir"]
      by (simp add: last_conv_nth)
    with that \<open>?ns \<noteq> []\<close> show False by simp
  qed
  then show "sealed_ok marshal (y_log (initial dir)) (y_sealed (initial dir))"
    by (auto simp: sealed_ok_def initial_def wal_open_def Let_def)
qed

lemma accept_ok:
  assumes "codec_ok marshal unmarshal norm" "active_ok marshal s ps k"
    "wal_append marshal io rec (y_log s) = (err, l)"
  obtains p where "active_ok marshal
    (s\<lparr>y_log := l, y_accepted := if err = None then y_accepted s @ [rec] else y_accepted s\<rparr>)
    (if err = None then ps @ [p] else ps) k"
proof (cases "marshal rec")
  case None
  with assms that show ?thesis by (auto simp: wal_append_def active_ok_def)
next
  case (Some p)
  with assms have "p \<noteq> []" "append_payload io p (y_log s) = (err, l)"
    by (auto simp: codec_ok_def wal_append_def)
  with assms(2) have "log_inv l (if err = None then ps @ [p] else ps) (map_option fst (y_inflight s)) k"
    by (intro append_inv) (auto simp: active_ok_def)
  moreover have "encodes marshal (if err = None then y_accepted s @ [rec] else y_accepted s)
      (if err = None then ps @ [p] else ps)"
    using assms(2) Some by (simp add: active_ok_def list_all2_appendI)
  ultimately show ?thesis
    using assms(2) that [of p] by (auto simp: active_ok_def)
qed

lemma wal_append_rest:
  "wal_append marshal io rec l = (err, l') \<Longrightarrow>
   w_active l' = w_active l \<and> w_sealed l' = w_sealed l \<and> w_closed l' = w_closed l"
  using append_rest by (fastforce simp: wal_append_def split: option.splits)

lemma promise_all:
  assumes "active_ok marshal s ps k" "y_inflight s = None" "sync_begin io (y_log s) = (Inr None, l)"
    "\<not> w_closed l"
  shows "length (y_accepted s) = k"
  using assms(3)
proof (cases rule: sync_begin_cases)
  case idle
  with assms have "\<not> dirtyLocked (y_log s)" by simp
  with assms(1,2) have "k = length ps"
    using not_dirty_synced by (auto simp: active_ok_def log_inv_def)
  with assms(1) show ?thesis
    by (auto simp: active_ok_def dest: list_all2_lengthD)
qed auto

lemma rotate_cases:
  assumes "rotate io l = (r, l')"
  obtains (closed) "r = Inl Closed" "l' = l"
    | (failed) l1 err e where "syncLocked io l = (err, l1)" "r = Inl e" "l' = l1"
    | (sealed) l1 where "syncLocked io l = (None, l1)" "r = Inr (w_active l1)" "\<not> w_closed l"
        "l' = l1\<lparr>w_sealed := AList.update (w_active l1) (w_file l1)
                              (AList.delete (w_active l1 + 1) (w_sealed l1)),
                 w_file := createSegment (w_active l1 + 1) l1,
                 w_active := w_active l1 + 1,
                 w_buffer := magic, w_written := 0, w_synced := 0, w_torn := False,
                 w_pending := 0, w_listed := False\<rparr>"
proof (cases "w_closed l")
  case True
  with assms closed show ?thesis by (auto simp: rotate_def)
next
  case False
  obtain err l1 where s: "syncLocked io l = (err, l1)" by fastforce
  show ?thesis
  proof (cases err)
    case (Some e)
    with False assms s have "r = Inl e" "l' = l1" by (auto simp: rotate_def)
    with s show ?thesis by (rule failed)
  next
    case None
    show ?thesis
    proof (cases "io_create io")
      case True
      with None False assms s have "r = Inr (w_active l1)" 
        "l' = l1\<lparr>w_sealed := AList.update (w_active l1) (w_file l1)
                              (AList.delete (w_active l1 + 1) (w_sealed l1)),
                 w_file := createSegment (w_active l1 + 1) l1,
                 w_active := w_active l1 + 1,
                 w_buffer := magic, w_written := 0, w_synced := 0, w_torn := False,
                 w_pending := 0, w_listed := False\<rparr>"
        by (simp_all add: rotate_def)
      with s None False sealed show ?thesis by blast
    next
      case c: False
      with None False assms s have "r = Inl CreateFailed" "l' = l1" by (auto simp: rotate_def)
      with s show ?thesis by (rule failed)
    qed
  qed
qed

lemma createSegment_new:
  "sealed_ok marshal l hist \<Longrightarrow> createSegment (w_active l + 1) l = []"
  by (simp add: createSegment_def sealed_ok_def)

lemma rotated_ok:
  assumes act: "active_ok marshal s ps k" "y_inflight s = None"
    and sea: "sealed_ok marshal (y_log s) (y_sealed s)"
    and rot: "rotate io (y_log s) = (Inr n, l)"
  shows "sys_inv marshal (s\<lparr>y_log := l, y_accepted := [], y_promised := 0,
           y_sealed := AList.update n (y_accepted s) (y_sealed s)\<rparr>)"
  using rot
proof (cases rule: rotate_cases)
  case (sealed l1)
  from act have log: "log_inv (y_log s) ps None k" and enc: "encodes marshal (y_accepted s) ps"
    by (auto simp: active_ok_def)
  note s1 = syncLocked_inv [OF log sealed(1)] syncLocked_rest [OF sealed(1)]
  then have sea1: "sealed_ok marshal l1 (y_sealed s)" using sealed_ok_same [OF sea] by blast
  have "log_inv l [] None 0"
    unfolding sealed(4) by (intro fresh_inv) (simp_all add: createSegment_new [OF sea1, simplified])
  moreover have "sealed_ok marshal l (AList.update (w_active l1) (y_accepted s) (y_sealed s))"
    using s1 log by (intro sealed_ok_rotate [OF sea1 enc]) (simp_all add: sealed(4) log_inv_def)
  ultimately show ?thesis
    using act(2) sealed(2) by (intro sys_invI [of _ _ "[]" 0]) (simp_all add: active_ok_def)
qed simp_all

lemma not_rotated_ok:
  assumes act: "active_ok marshal s ps k" "y_inflight s = None"
    and sea: "sealed_ok marshal (y_log s) (y_sealed s)"
    and rot: "rotate io (y_log s) = (Inl e, l)"
  shows "sys_inv marshal (s\<lparr>y_log := l\<rparr>)"
  using rot
proof (cases rule: rotate_cases)
  case closed
  with act sea show ?thesis by (intro sys_invI [of _ _ ps k]) simp_all
next
  case (failed l1 err e)
  from act have log: "log_inv (y_log s) ps None k" by (auto simp: active_ok_def)
  note s1 = syncLocked_inv [OF log failed(1)] syncLocked_rest [OF failed(1)]
  from log have "k \<le> length ps" by (simp add: log_inv_def sync_inv_def)
  with s1 act sealed_ok_same [OF sea] failed(3) show ?thesis
    by (intro sys_invI [of _ _ ps "if err = None then length ps else k"]) (auto simp: active_ok_def)
qed simp_all

lemma closed_ok:
  assumes act: "active_ok marshal s ps k" "y_inflight s = None"
    and sea: "sealed_ok marshal (y_log s) (y_sealed s)"
    and cl: "wal_close io (y_log s) = (err, l)"
  shows "sys_inv marshal (s\<lparr>y_log := l\<rparr>)"
proof (cases "w_closed (y_log s)")
  case True
  with cl have "l = y_log s" by (simp add: wal_close_def)
  with act(1) sea show ?thesis by (intro sys_invI [of _ _ ps k]) (simp_all add: active_ok_def)
next
  case False
  obtain e l1 where s: "syncLocked io (y_log s) = (e, l1)" by fastforce
  with False cl have l: "l = l1\<lparr>w_closed := True\<rparr>" by (simp add: wal_close_def)
  from act have log: "log_inv (y_log s) ps None k" by (auto simp: active_ok_def)
  note s1 = syncLocked_inv [OF log s] syncLocked_rest [OF s]
  from log have "k \<le> length ps" by (simp add: log_inv_def sync_inv_def)
  moreover have "log_inv l ps None (if e = None then length ps else k)"
    using s1 unfolding l by (simp add: log_inv_def seg_inv_def sync_inv_def)
  moreover have "sealed_ok marshal l (y_sealed s)"
    using s1 sea unfolding l by (simp add: sealed_ok_def)
  ultimately show ?thesis
    using act by (intro sys_invI [of _ _ ps "if e = None then length ps else k"])
      (auto simp: active_ok_def)
qed

lemma log_inv_sealed:
  "log_inv (l\<lparr>w_sealed := d\<rparr>) ps c k = log_inv l ps c k"
  "log_inv (l\<lparr>w_sealed := d, w_quarantine := q\<rparr>) ps c k = log_inv l ps c k"
  by (cases c; simp add: log_inv_def seg_inv_def sync_inv_def)+

lemma quarantine_cases:
  assumes "quarantine rename_ok sync_ok n l = (err, l')"
  obtains (kept) "err \<noteq> None" "l' = l"
    | (moved) bs where "n \<noteq> w_active l" "map_of (w_sealed l) n = Some bs"
        "l' = l\<lparr>w_sealed := AList.delete n (w_sealed l), w_quarantine := w_quarantine l @ [(n, bs)]\<rparr>"
  using assms unfolding quarantine_def
  by (cases "n = w_active l"; cases rename_ok; cases "map_of (w_sealed l) n") auto

lemma quarantined_ok:
  assumes act: "active_ok marshal s ps k"
    and sea: "sealed_ok marshal (y_log s) (y_sealed s)"
    and q: "quarantine rename_ok sync_ok n (y_log s) = (err, l)"
  shows "sys_inv marshal (s\<lparr>y_log := l, y_sealed := if map_of (w_sealed l) n = None
           then AList.delete n (y_sealed s) else y_sealed s\<rparr>)"
  using q
proof (cases rule: quarantine_cases)
  case kept
  have "map_of (w_sealed (y_log s)) n = None \<longrightarrow>
      map_of (AList.delete n (y_sealed s)) = map_of (y_sealed s)"
  proof (cases "map_of (y_sealed s) n")
    case None
    then show ?thesis by (simp add: delete_conv' fun_eq_iff)
  next
    case (Some rs)
    with sea have "map_of (w_sealed (y_log s)) n \<noteq> None" by (fastforce simp: sealed_ok_def)
    then show ?thesis by blast
  qed
  with act sea kept show ?thesis
    by (intro sys_invI [of _ _ ps k]) (auto simp: active_ok_def sealed_ok_def)
next
  case (moved bs)
  have "sealed_ok marshal l (AList.delete n (y_sealed s))"
    using sealed_ok_delete [OF sea, of n] by (simp add: sealed_ok_def moved(3))
  with act moved show ?thesis
    by (intro sys_invI [of _ _ ps k]) (simp_all add: active_ok_def log_inv_sealed delete_conv')
qed

lemma removed_ok:
  assumes act: "active_ok marshal s ps k"
    and sea: "sealed_ok marshal (y_log s) (y_sealed s)"
    and r: "remove_segment ok n (y_log s) = (None, l)"
  shows "sys_inv marshal (s\<lparr>y_log := l, y_sealed := AList.delete n (y_sealed s)\<rparr>)"
proof -
  from r have l: "l = y_log s\<lparr>w_sealed := AList.delete n (w_sealed (y_log s))\<rparr>"
    by (auto simp: remove_segment_def split: if_splits)
  have "sealed_ok marshal l (AList.delete n (y_sealed s))"
    unfolding l by (rule sealed_ok_delete [OF sea])
  with act show ?thesis
    by (intro sys_invI [of _ _ ps k]) (simp_all add: active_ok_def l log_inv_sealed)
qed

lemma sync_begin_ok:
  assumes act: "active_ok marshal s ps k" "y_inflight s = None"
    and sea: "sealed_ok marshal (y_log s) (y_sealed s)"
    and b: "sync_begin io (y_log s) = (r, l)"
  shows "log_inv l ps (case r of Inr c \<Rightarrow> c | Inl _ \<Rightarrow> None) k \<and>
         sealed_ok marshal l (y_sealed s) \<and> length (y_accepted s) = length ps"
  using sync_begin_inv [OF _ b] act sealed_ok_same [OF sea sync_begin_rest [OF b]]
  by (auto simp: active_ok_def dest: list_all2_lengthD)

lemma sync_end_ok:
  assumes act: "active_ok marshal s ps k" "y_inflight s = Some (cov, n)"
    and sea: "sealed_ok marshal (y_log s) (y_sealed s)"
    and e: "sync_end io cov (y_log s) = (err, l)"
  shows "sys_inv marshal (s\<lparr>y_log := l, y_inflight := None,
           y_promised := if err = None then n else y_promised s\<rparr>)"
proof -
  obtain u li c where cov: "cov = (u, li, c)" by (cases cov)
  from act have "log_inv (y_log s) ps (Some (u, li, c)) k"
    by (simp add: active_ok_def cov)
  from sync_end_inv [OF this e [unfolded cov]] act sealed_ok_same [OF sea sync_end_rest [OF e]]
  show ?thesis
    by (intro sys_invI [of _ _ ps "if err = None then k + nat c else k"])
      (auto simp: active_ok_def cov)
qed

text \<open>The invariant of the log's whole state holds after every step.\<close>

lemma step_ok:
  assumes codec: "codec_ok marshal unmarshal norm" and inv: "sys_inv marshal s"
    and step: "wal_step marshal s op s'"
  shows "sys_inv marshal s'"
proof -
  from inv obtain ps k where act: "active_ok marshal s ps k"
    and sea: "sealed_ok marshal (y_log s) (y_sealed s)"
    by (auto simp: sys_inv_def)
  from step show ?thesis
  proof cases
    case (accept io rec l)
    from accept_ok [OF codec act accept(3)] obtain p where
      "active_ok marshal (s\<lparr>y_log := l, y_accepted := y_accepted s @ [rec]\<rparr>) (ps @ [p]) k"
      by auto
    then show ?thesis unfolding accept(2)
      by (rule sys_invI) (simp add: sealed_ok_same [OF sea wal_append_rest [OF accept(3)]])
  next
    case (refuse io rec e l)
    from accept_ok [OF codec act refuse(3)] have "active_ok marshal (s\<lparr>y_log := l\<rparr>) ps k"
      by auto
    then show ?thesis unfolding refuse(2)
      by (rule sys_invI) (simp add: sealed_ok_same [OF sea wal_append_rest [OF refuse(3)]])
  next
    case (sync_idle io l)
    from sync_begin_ok [OF act sync_idle(3) sea sync_idle(4)] promise_all [OF act sync_idle(3,4)] act
    show ?thesis unfolding sync_idle(2)
      by (intro sys_invI [of _ _ ps k]) (auto simp: active_ok_def sync_idle(3))
  next
    case (sync_refused io e l)
    from sync_begin_ok [OF act sync_refused(3) sea sync_refused(4)] act
    show ?thesis unfolding sync_refused(2)
      by (intro sys_invI [of _ _ ps k]) (auto simp: active_ok_def sync_refused(3))
  next
    case (sync_started io cov l)
    obtain u li c where cov: "cov = (u, li, c)" by (cases cov)
    have "log_inv (y_log s) ps None k"
      using act sync_started(3) by (simp add: active_ok_def)
    from sync_begin_ok [OF act sync_started(3) sea sync_started(4)] act
      sync_begin_covers [OF this sync_started(4) [unfolded cov]]
    show ?thesis unfolding sync_started(2)
      by (intro sys_invI [of _ _ ps k]) (auto simp: active_ok_def cov)
  next
    case (sync_done cov n io l)
    from sync_end_ok [OF act sync_done(3) sea sync_done(4)]
    show ?thesis unfolding sync_done(2) by simp
  next
    case (sync_failed cov n io e l)
    from sync_end_ok [OF act sync_failed(3) sea sync_failed(4)]
    show ?thesis unfolding sync_failed(2) by simp
  next
    case (rotated io n l)
    show ?thesis unfolding rotated(2) by (rule rotated_ok [OF act rotated(3) sea rotated(4)])
  next
    case (not_rotated io e l)
    show ?thesis unfolding not_rotated(2)
      by (rule not_rotated_ok [OF act not_rotated(3) sea not_rotated(4)])
  next
    case (removed ok n l)
    show ?thesis unfolding removed(2) by (rule removed_ok [OF act sea removed(3)])
  next
    case (not_removed ok n e l)
    then have "l = y_log s" by (auto simp: remove_segment_def split: if_splits)
    then have "s' = s" unfolding not_removed(2) by simp
    with inv show ?thesis by blast
  next
    case (quarantined rename_ok sync_ok n err l)
    show ?thesis unfolding quarantined(2) by (rule quarantined_ok [OF act sea quarantined(3)])
  next
    case (closed io err l)
    show ?thesis unfolding closed(2) by (rule closed_ok [OF act closed(3) sea closed(4)])
  qed
qed

lemma reachable_ok:
  assumes "codec_ok marshal unmarshal norm" "wal_reachable marshal dir s"
  shows "sys_inv marshal s"
  using assms(2) by (induction rule: wal_reachable.induct) (auto intro: initial_ok step_ok [OF assms(1)])

end
