(* ===== verification/WalClaims.thy ===== *)
theory WalClaims
  imports WalSystem
begin

text \<open>
  What the log promises its users, for every interleaving and every failure of the
  operating system: durability of a completed \<open>Sync\<close>, exactness of a sealed segment,
  recovery once the disk does, and the line between a torn write and a damaged file.
\<close>

section \<open>Reading an active segment after a crash\<close>

lemma read_crashed:
  assumes codec: "codec_ok marshal unmarshal norm" and act: "active_ok marshal s ps k"
  shows "\<exists>j. read_segment unmarshal (take n (w_file (y_log s))) = (None, take j (map norm (y_accepted s))) \<and>
     (w_synced (y_log s) \<le> n \<longrightarrow> k \<le> j)"
proof -
  define f where "f = w_file (y_log s)"
  from act have enc: "encodes marshal (y_accepted s) ps"
    and log: "list_all payload_ok ps" "seg_inv (y_log s) ps"
      "sync_inv (y_log s) ps (map_option fst (y_inflight s)) k"
    by (auto simp: active_ok_def log_inv_def)
  define m where "m = min n (length f)"
  have "take n f = take m f" by (simp add: m_def min_def)
  also have "\<dots> = take m (stream ps)"
    by (rule take_eq_prefix) (simp_all add: file_prefix_stream [OF log(2)] f_def m_def)
  finally have "take n f = take m (stream ps)" .
  with read_cut_stream [OF log(1) encodes_decodes [OF codec enc], of m]
  have read: "read_segment unmarshal (take n f) = (None, take (whole_frames (m - 6) ps) (map norm (y_accepted s)))"
    by simp
  have "k \<le> whole_frames (m - 6) ps" if n: "w_synced (y_log s) \<le> n"
  proof (cases "w_listed (y_log s)")
    case True
    with log n have "length (stream (take k ps)) \<le> m" "k \<le> length ps"
      by (auto simp: sync_inv_def seg_inv_def m_def f_def)
    then show ?thesis by (intro whole_frames_covers) (auto simp: stream_def)
  next
    case False
    with log(3) show ?thesis by (simp add: sync_inv_def)
  qed
  with read show ?thesis unfolding f_def by blast
qed

text \<open>
  C1: after any interleaving of the log's operations with any failures, the active segment
  cut at any byte replays without an error to a prefix of the records accepted into it, in
  order; and cut anywhere at or past what is known to be on disk, to a prefix that holds every
  record accepted before a \<open>Sync\<close> that reported success began.  When a \<open>Sync\<close> has promised
  anything, the segment's directory entry is durable too.
\<close>

theorem wal_sync_durable:
  assumes "codec_ok marshal unmarshal norm" "wal_reachable marshal dir s"
  shows "(\<exists>j. read_segment unmarshal (take n (w_file (y_log s))) = (None, take j (map norm (y_accepted s))) \<and>
            (w_synced (y_log s) \<le> n \<longrightarrow> y_promised s \<le> j)) \<and>
         (0 < y_promised s \<longrightarrow> w_listed (y_log s))"
proof -
  from reachable_ok [OF assms] obtain ps k where act: "active_ok marshal s ps k"
    by (auto simp: sys_inv_def)
  then have "y_promised s \<le> k" "\<not> w_listed (y_log s) \<longrightarrow> k = 0"
    by (auto simp: active_ok_def log_inv_def sync_inv_def)
  with read_crashed [OF assms(1) act, of n] show ?thesis by (meson leD le_trans not_gr0 le_zero_eq)
qed

text \<open>A codec and a run of the log, to instantiate the hypotheses.\<close>

definition demo_marshal :: "byte \<Rightarrow> bytes option" where
  "demo_marshal b = (if b = 0 then None else Some [b])"

fun demo_unmarshal :: "bytes \<Rightarrow> byte option" where
  "demo_unmarshal [b] = (if b = 0 then None else Some b)"
| "demo_unmarshal _ = None"

lemma demo_codec: "codec_ok demo_marshal demo_unmarshal (\<lambda>b. b)"
  by (simp add: codec_ok_def demo_marshal_def)

text \<open>One record accepted and synced, then one more accepted and not synced.\<close>

definition demo_log :: wal where
  "demo_log = (wal_open [])\<lparr>w_file := stream [[7]], w_buffer := frame [9], w_written := 15,
     w_synced := 15, w_listed := True, w_pending := 1\<rparr>"

definition demo_state :: "byte wal_sys" where
  "demo_state = \<lparr>y_log = demo_log, y_accepted = [7, 9], y_inflight = None, y_promised = 1,
     y_sealed = []\<rparr>"

lemma demo_reachable: "wal_reachable demo_marshal [] demo_state"
proof -
  define s1 :: "byte wal_sys" where
    "s1 = (initial [])\<lparr>y_log := (wal_open [])\<lparr>w_buffer := stream [[7]], w_pending := 1\<rparr>,
                      y_accepted := [7]\<rparr>"
  define l2 where "l2 = (wal_open [])\<lparr>w_file := stream [[7]], w_buffer := [], w_written := 15, w_pending := 1\<rparr>"
  define s2 where "s2 = s1\<lparr>y_log := l2, y_inflight := Some ((15, False, 1), 1)\<rparr>"
  define l3 where "l3 = l2\<lparr>w_synced := 15, w_listed := True, w_pending := 0\<rparr>"
  define s3 where "s3 = s2\<lparr>y_log := l3, y_inflight := None, y_promised := 1\<rparr>"
  have "wal_step demo_marshal (initial []) (OpAppend io_ok 7) s1"
    using wal_step.accept [of demo_marshal io_ok 7 "initial []" "y_log s1"]
    by (simp add: s1_def initial_def wal_append_def demo_marshal_def append_payload_def
        wal_open_def maxFrame_def bufferSize_def stream_def)
  moreover have "wal_step demo_marshal s1 (OpSyncBegin io_ok) s2"
    using wal_step.sync_started [of s1 io_ok "(15, False, 1)" l2 demo_marshal]
    by (simp add: s2_def s1_def l2_def initial_def wal_open_def sync_begin_def dirtyLocked_def
        writeLocked_def write_out_def io_ok_def stream_def)
  moreover have "wal_step demo_marshal s2 (OpSyncEnd io_ok) s3"
    using wal_step.sync_done [of s2 "(15, False, 1)" 1 io_ok l3 demo_marshal]
    by (simp add: s3_def s2_def l3_def l2_def s1_def initial_def wal_open_def sync_end_def
        persist_def io_ok_def)
  moreover have "wal_step demo_marshal s3 (OpAppend io_ok 9) demo_state"
    using wal_step.accept [of demo_marshal io_ok 9 s3 demo_log]
    by (simp add: demo_state_def demo_log_def s3_def s2_def l3_def l2_def s1_def initial_def
        wal_append_def demo_marshal_def append_payload_def wal_open_def maxFrame_def
        bufferSize_def)
  ultimately show ?thesis by (meson wal_reachable.intros)
qed

theorem wal_sync_durable_witness:
  "\<exists>j\<ge>1. read_segment demo_unmarshal (take 20 (w_file demo_log)) = (None, take j [7, 9])"
  using wal_sync_durable [OF demo_codec demo_reachable, of 20]
  by (auto simp: demo_state_def demo_log_def)

section \<open>Sealed segments\<close>

text \<open>What replaying records through a callback returns.\<close>

definition callback_result :: "'e option \<times> 's \<Rightarrow> 'e replay_error option \<times> 's" where
  "callback_result r = (map_option Callback (fst r), snd r)"

lemma replay_stream:
  assumes "list_all payload_ok ps" "decodes unmarshal ps rs"
  shows "replay_bytes unmarshal fn (stream ps) st = callback_result (run_fn fn rs st)"
  using replay_frames [OF assms, of fn "[]" st]
  by (simp add: stream_def replay_bytes_stream callback_result_def split: option.split prod.split)

text \<open>
  Every sealed segment, for as long as it has not been removed or quarantined and whatever
  else the log does and fails to do meanwhile, replays through any callback exactly the records
  that were accepted into it while it was active, in order, as the encoding keeps them.
\<close>

theorem wal_sealed_exact:
  assumes "codec_ok marshal unmarshal norm" "wal_reachable marshal dir s"
    "map_of (y_sealed s) n = Some rs"
  shows "replay unmarshal fn n (y_log s) st = callback_result (run_fn fn (map norm rs) st)"
proof -
  from reachable_ok [OF assms(1,2)] assms(3) obtain ps where
    ps: "encodes marshal rs ps" "list_all payload_ok ps" "map_of (w_sealed (y_log s)) n = Some (stream ps)"
    and "n \<noteq> w_active (y_log s)"
    unfolding sys_inv_def sealed_ok_def by fastforce
  then have "replay unmarshal fn n (y_log s) st = replay_bytes unmarshal fn (stream ps) st"
    by (simp add: replay_def)
  with replay_stream [OF ps(2) encodes_decodes [OF assms(1) ps(1)]] show ?thesis by simp
qed

text \<open>
  a rotation that succeeds returns the segment that was active, which then replays to
  exactly the records accepted into it, and starts an empty one after it; a rotation that fails keeps
  the active segment, whose whole frames and buffer together are still exactly those records.
\<close>

theorem wal_rotate_seals:
  assumes "codec_ok marshal unmarshal norm" "wal_reachable marshal dir s" "y_inflight s = None"
    "rotate io (y_log s) = (r, l)"
  shows "case r of
      Inr n \<Rightarrow> n = w_active (y_log s) \<and> w_active l = n + 1 \<and> w_pending l = 0 \<and> w_file l = [] \<and>
        replay unmarshal collect_fn n l [] = (None, map norm (y_accepted s))
    | Inl e \<Rightarrow> w_active l = w_active (y_log s) \<and> w_sealed l = w_sealed (y_log s) \<and>
        read_segment unmarshal (take (w_written l) (w_file l) @ w_buffer l) = (None, map norm (y_accepted s))"
proof -
  from reachable_ok [OF assms(1,2)] obtain ps k where
    act: "active_ok marshal s ps k" and sea: "sealed_ok marshal (y_log s) (y_sealed s)"
    by (auto simp: sys_inv_def)
  then have log: "log_inv (y_log s) ps None k" and enc: "encodes marshal (y_accepted s) ps"
    using assms(3) by (simp_all add: active_ok_def)
  then have ok: "list_all payload_ok ps" by (simp add: log_inv_def)
  note dec = encodes_decodes [OF assms(1) enc]
  have kept: "read_segment unmarshal (take (w_written l1) (w_file l1) @ w_buffer l1) = (None, map norm (y_accepted s))"
    if "seg_inv l1 ps" for l1
    using that read_stream [OF ok dec] by (simp add: seg_inv_def)
  from assms(4) show ?thesis
  proof (cases rule: rotate_cases)
    case closed
    with kept log show ?thesis by (simp add: log_inv_def)
  next
    case (failed l1 err e)
    with syncLocked_inv [OF log failed(1)] syncLocked_rest [OF failed(1)] kept [of l1]
    show ?thesis by (simp add: log_inv_def)
  next
    case (sealed l1)
    note s1 = syncLocked_inv [OF log sealed(1)] syncLocked_rest [OF sealed(1)]
    then have "createSegment (w_active l1 + 1) l1 = []"
      using createSegment_new [OF sealed_ok_same [OF sea]] by blast
    with s1 replay_stream [OF ok dec, of collect_fn "[]"] show ?thesis
      by (simp add: sealed replay_def update_conv' callback_result_def)
  qed
qed

definition demo_rotated_log :: wal where
  "demo_rotated_log = (wal_open [])\<lparr>w_sealed := [(1, stream [[7], [9]])], w_active := 2\<rparr>"

lemma demo_rotate: "rotate io_ok demo_log = (Inr 1, demo_rotated_log)"
  by (simp add: rotate_def syncLocked_def dirtyLocked_def writeLocked_def write_out_def persist_def
      io_ok_def demo_log_def demo_rotated_log_def wal_open_def createSegment_def stream_def)

definition demo_rotated :: "byte wal_sys" where
  "demo_rotated = \<lparr>y_log = demo_rotated_log, y_accepted = [], y_inflight = None, y_promised = 0,
     y_sealed = [(1, [7, 9])]\<rparr>"

lemma demo_rotated_reachable: "wal_reachable demo_marshal [] demo_rotated"
proof (rule wal_reachable.step [OF demo_reachable])
  show "wal_step demo_marshal demo_state (OpRotate io_ok) demo_rotated"
    using wal_step.rotated [of demo_state io_ok 1 demo_rotated_log demo_marshal] demo_rotate
    by (simp add: demo_state_def demo_rotated_def)
qed

theorem wal_sealed_exact_witness:
  "replay demo_unmarshal collect_fn 1 demo_rotated_log [] = (None, [7, 9])"
  using wal_sealed_exact [OF demo_codec demo_rotated_reachable, of 1 "[7, 9]" collect_fn "[]"]
  by (simp add: demo_rotated_def callback_result_def collect_fn_def)

theorem wal_rotate_seals_witness:
  "replay demo_unmarshal collect_fn 1 demo_rotated_log [] = (None, [7, 9]) \<and>
   w_active demo_rotated_log = 2"
  using wal_rotate_seals [OF demo_codec demo_reachable, of io_ok "Inr 1" demo_rotated_log] demo_rotate
  by (auto simp: demo_state_def)

section \<open>Recovery\<close>

lemma persist_io_ok [simp]: "persist io_ok listed = None"
  by (simp add: persist_def io_ok_def)

lemma writeLocked_io_ok: "fst (writeLocked io_ok l) = None"
  by (simp add: writeLocked_def write_out_def io_ok_def)

lemma wal_sync_io_ok:
  assumes inv: "log_inv l ps None k" and "\<not> w_closed l"
  shows "\<exists>l'. wal_sync io_ok l = (None, l') \<and> log_inv l' ps None (length ps)"
proof (cases "dirtyLocked l")
  case False
  with inv not_dirty_synced [of l ps None k] have "k = length ps" by (simp add: log_inv_def)
  with False inv show ?thesis by (simp add: wal_sync_def sync_begin_def)
next
  case True
  obtain l1 where "writeLocked io_ok l = (None, l1)"
    using writeLocked_io_ok [of l] by (metis prod.collapse)
  with True assms(2) have b: "sync_begin io_ok l = (Inr (Some (w_written l1, w_listed l1, w_pending l1)), l1)"
    by (simp add: sync_begin_def)
  obtain l2 where e: "sync_end io_ok (w_written l1, w_listed l1, w_pending l1) l1 = (None, l2)"
    by (simp add: sync_end_def)
  from sync_begin_inv [OF inv b] have "log_inv l1 ps (Some (w_written l1, w_listed l1, w_pending l1)) k"
    by simp
  from sync_end_inv [OF this e] sync_begin_covers [OF inv b] have "log_inv l2 ps None (length ps)"
    by simp
  moreover from b e have "wal_sync io_ok l = (None, l2)" by (simp add: wal_sync_def)
  ultimately show ?thesis by blast
qed

text \<open>
  C4: no failure sticks.  In every reachable state of an open log, whatever failed before, a
  \<open>Sync\<close> whose system calls succeed returns nil, and from then on the active segment cut
  anywhere past what is known to be on disk replays to everything accepted so far.
\<close>

theorem wal_sync_recovers:
  assumes "codec_ok marshal unmarshal norm" "wal_reachable marshal dir s" "y_inflight s = None"
    "\<not> w_closed (y_log s)"
  shows "\<exists>l. wal_sync io_ok (y_log s) = (None, l) \<and> w_pending l = 0 \<and>
    (\<forall>n. w_synced l \<le> n \<longrightarrow> read_segment unmarshal (take n (w_file l)) = (None, map norm (y_accepted s)))"
proof -
  from reachable_ok [OF assms(1,2)] obtain ps k where act: "active_ok marshal s ps k"
    by (auto simp: sys_inv_def)
  with assms(3) have "log_inv (y_log s) ps None k" by (simp add: active_ok_def)
  from wal_sync_io_ok [OF this assms(4)] obtain l where
    l: "wal_sync io_ok (y_log s) = (None, l)" "log_inv l ps None (length ps)" by blast
  define s' where "s' = s\<lparr>y_log := l, y_promised := length ps\<rparr>"
  from act assms(3) l(2) have act': "active_ok marshal s' ps (length ps)"
    by (simp add: active_ok_def s'_def)
  then have len: "length (y_accepted s) = length ps"
    by (auto simp: active_ok_def s'_def dest: list_all2_lengthD)
  have "read_segment unmarshal (take n (w_file l)) = (None, map norm (y_accepted s))" if "w_synced l \<le> n" for n
    using read_crashed [OF assms(1) act', of n] that len by (auto simp: s'_def)
  moreover have "w_pending l = 0" using l(2) by (simp add: log_inv_def sync_inv_def)
  ultimately show ?thesis using l(1) by blast
qed

theorem wal_sync_recovers_witness:
  "\<exists>l. wal_sync io_ok demo_log = (None, l) \<and> w_pending l = 0 \<and>
    read_segment demo_unmarshal (take (w_synced l) (w_file l)) = (None, [7, 9])"
proof -
  have "y_log demo_state = demo_log" "y_inflight demo_state = None" "y_accepted demo_state = [7, 9]"
    "\<not> w_closed demo_log" by (simp_all add: demo_state_def demo_log_def wal_open_def)
  with wal_sync_recovers [OF demo_codec demo_reachable] show ?thesis by auto
qed

text \<open>
  C5: behind any records, a frame whose checksum does not match its payload, or of length
  zero, ends the replay after those records: without an error when only zeros follow it (a torn
  write), and as corruption when anything else does.
\<close>

theorem wal_damage_reported:
  assumes "codec_ok marshal unmarshal norm" "encodes marshal rs ps" "list_all payload_ok ps"
    "length p \<le> maxFrame" "crc32c p \<noteq> c \<or> p = []"
  shows "read_segment unmarshal (stream ps @ put_u32 (of_nat (length p)) @ put_u32 c @ p @ rest) =
    (if list_all (\<lambda>b. b = 0) rest then None else Some Corrupt, map norm rs)"
proof -
  note dec = encodes_decodes [OF assms(1,2)]
  show ?thesis
    using replay_frames [OF assms(3) dec, of collect_fn _ "[]"] replay_bad_frame [OF assms(4,5), of unmarshal collect_fn rest "map norm rs"]
    by (simp add: read_segment_def stream_def replay_bytes_stream)
qed

theorem wal_damage_reported_witness:
  "read_segment demo_unmarshal (stream [[7]] @ put_u32 1 @ put_u32 0 @ [9] @ [1]) = (Some Corrupt, [7]) \<and>
   read_segment demo_unmarshal (stream [[7]] @ put_u32 1 @ put_u32 0 @ [9] @ [0]) = (None, [7])"
proof -
  have "crc32c [9] \<noteq> 0"
    by (simp add: crc32c_def crc_byte_def crc_bit_def)
  then show ?thesis
    using wal_damage_reported [OF demo_codec, of "[7]" "[[7]]" "[9]" 0 "[1]"]
      wal_damage_reported [OF demo_codec, of "[7]" "[[7]]" "[9]" 0 "[0]"]
    by (simp add: demo_marshal_def payload_ok_def maxFrame_def)
qed

end
