(* ===== verification/GoText.thy ===== *)
theory GoText
  imports Prelude "HOL-Library.Char_ord"
begin

text \<open>
  The pieces of the Go standard library the model's text handling uses, over strings as lists
  of bytes (characters): decimal rendering and parsing of integers (\<open>strconv\<close>), the ASCII
  helpers of \<open>strings\<close>, and UTF-8 validity with the repair of \<open>strings.ToValidUTF8\<close>.
\<close>

section \<open>Decimal numbers\<close>

definition digit_char :: "nat \<Rightarrow> char" where
  "digit_char d = char_of (48 + d)"

definition is_digit :: "char \<Rightarrow> bool" where
  "is_digit c \<longleftrightarrow> 48 \<le> (of_char c :: nat) \<and> (of_char c :: nat) \<le> 57"

definition digit_val :: "char \<Rightarrow> nat" where
  "digit_val c = of_char c - 48"

fun show_nat :: "nat \<Rightarrow> string" where
  "show_nat n = (if n < 10 then [digit_char n] else show_nat (n div 10) @ [digit_char (n mod 10)])"

declare show_nat.simps [simp del]

definition show_int :: "int \<Rightarrow> string" where
  "show_int i = (if i < 0 then CHR ''-'' # show_nat (nat (- i)) else show_nat (nat i))"

definition nat_of_digits :: "string \<Rightarrow> nat" where
  "nat_of_digits cs = foldl (\<lambda>n c. 10 * n + digit_val c) 0 cs"

text \<open>\<open>strconv.ParseUint\<close> in base ten, below \<open>2 ^ bits\<close>.\<close>

definition parse_uint :: "nat \<Rightarrow> string \<Rightarrow> nat option" where
  "parse_uint bits cs =
     (if cs \<noteq> [] \<and> list_all is_digit cs \<and> nat_of_digits cs < 2 ^ bits
      then Some (nat_of_digits cs) else None)"

text \<open>\<open>strconv.ParseInt\<close> and \<open>strconv.Atoi\<close> in base ten: an optional sign, then digits.\<close>

definition parse_int :: "nat \<Rightarrow> string \<Rightarrow> int option" where
  "parse_int bits cs =
     (let (neg, ds) = (case cs of
          [] \<Rightarrow> (False, [])
        | c # ds \<Rightarrow> (if c = CHR ''-'' then (True, ds) else if c = CHR ''+'' then (False, ds)
                    else (False, cs)))
      in if ds = [] \<or> \<not> list_all is_digit ds then None
         else if neg
         then (if nat_of_digits ds \<le> 2 ^ (bits - 1) then Some (- int (nat_of_digits ds)) else None)
         else (if nat_of_digits ds < 2 ^ (bits - 1) then Some (int (nat_of_digits ds)) else None))"

lemma digit_char_simps [simp]:
  assumes "d < 10"
  shows "is_digit (digit_char d)" "digit_val (digit_char d) = d"
  using assms by (simp_all add: is_digit_def digit_char_def digit_val_def)

lemma show_nat_digits: "list_all is_digit (show_nat n)"
  by (induction n rule: show_nat.induct) (subst show_nat.simps, simp)

lemma show_nat_not_Nil [simp]: "show_nat n \<noteq> []"
  by (subst show_nat.simps) simp

lemma nat_of_digits_snoc [simp]:
  "nat_of_digits (cs @ [c]) = 10 * nat_of_digits cs + digit_val c"
  by (simp add: nat_of_digits_def)

lemma nat_of_digits_Nil [simp]: "nat_of_digits [] = 0"
  by (simp add: nat_of_digits_def)

lemma nat_of_show_nat [simp]: "nat_of_digits (show_nat n) = n"
proof (induction n rule: show_nat.induct)
  case (1 n)
  show ?case
  proof (cases "n < 10")
    case True
    then have "show_nat n = [] @ [digit_char n]" by (subst show_nat.simps) simp
    with True show ?thesis by (simp only: nat_of_digits_snoc) simp
  next
    case False
    then have "show_nat n = show_nat (n div 10) @ [digit_char (n mod 10)]"
      by (subst show_nat.simps) simp
    with 1 False show ?thesis by simp
  qed
qed

lemma parse_uint_show: "n < 2 ^ bits \<Longrightarrow> parse_uint bits (show_nat n) = Some n"
  by (simp add: parse_uint_def show_nat_digits)

lemma hd_show_nat: "is_digit (hd (show_nat n))"
  using show_nat_digits [of n] by (cases "show_nat n") auto

lemma sign_not_digit [simp]: "\<not> is_digit (CHR ''-'')" "\<not> is_digit (CHR ''+'')"
  by (simp_all add: is_digit_def)

lemma parse_int_show:
  assumes "- (2 ^ (bits - 1)) \<le> i" "i < 2 ^ (bits - 1)"
  shows "parse_int bits (show_int i) = Some i"
proof (cases "i < 0")
  case True
  with assms(1) have "nat (- i) \<le> 2 ^ (bits - 1)" by (simp add: nat_le_iff)
  with True show ?thesis by (simp add: parse_int_def show_int_def show_nat_digits)
next
  case False
  with assms(2) have "nat i < 2 ^ (bits - 1)" by (simp add: nat_less_iff)
  moreover obtain c cs where s: "show_nat (nat i) = c # cs" by (metis show_nat_not_Nil list.exhaust)
  moreover have "is_digit c" using hd_show_nat [of "nat i"] s by simp
  ultimately show ?thesis
    using False show_nat_digits [of "nat i"] nat_of_show_nat [of "nat i"]
    by (auto simp: parse_int_def show_int_def)
qed

section \<open>UTF-8\<close>

text \<open>
  \<open>utf8.DecodeRune\<close> on the bytes of a string: the rune and its width, \<open>U+FFFD\<close> and one byte for
  anything that is not well-formed (overlong forms, surrogates, values above \<open>U+10FFFF\<close>).
\<close>

definition is_cont :: "nat \<Rightarrow> bool" where
  "is_cont b \<longleftrightarrow> 0x80 \<le> b \<and> b \<le> 0xBF"

fun decode_rune :: "nat list \<Rightarrow> nat \<times> nat" where
  "decode_rune [] = (0xFFFD, 0)"
| "decode_rune (a # bs) =
     (if a < 0x80 then (a, 1)
      else if 0xC2 \<le> a \<and> a \<le> 0xDF then
        (case bs of b # _ \<Rightarrow> if is_cont b then ((a - 0xC0) * 64 + (b - 0x80), 2) else (0xFFFD, 1)
         | _ \<Rightarrow> (0xFFFD, 1))
      else if 0xE0 \<le> a \<and> a \<le> 0xEF then
        (case bs of b # c # _ \<Rightarrow>
           if (if a = 0xE0 then 0xA0 else 0x80) \<le> b \<and> b \<le> (if a = 0xED then 0x9F else 0xBF) \<and> is_cont c
           then ((a - 0xE0) * 4096 + (b - 0x80) * 64 + (c - 0x80), 3) else (0xFFFD, 1)
         | _ \<Rightarrow> (0xFFFD, 1))
      else if 0xF0 \<le> a \<and> a \<le> 0xF4 then
        (case bs of b # c # d # _ \<Rightarrow>
           if (if a = 0xF0 then 0x90 else 0x80) \<le> b \<and> b \<le> (if a = 0xF4 then 0x8F else 0xBF)
              \<and> is_cont c \<and> is_cont d
           then ((a - 0xF0) * 262144 + (b - 0x80) * 4096 + (c - 0x80) * 64 + (d - 0x80), 4) else (0xFFFD, 1)
         | _ \<Rightarrow> (0xFFFD, 1))
      else (0xFFFD, 1))"

declare decode_rune.simps(2) [simp del]

lemma decode_rune_width: "bs \<noteq> [] \<Longrightarrow> 0 < snd (decode_rune bs) \<and> snd (decode_rune bs) \<le> length bs"
  by (cases bs) (auto simp: decode_rune.simps split: list.splits)

text \<open>Decoding runs over the bytes; \<open>runes\<close> is Go's \<open>[]rune(s)\<close>.\<close>

function decode_runes :: "nat list \<Rightarrow> (nat \<times> nat list) list" where
  "decode_runes bs =
     (if bs = [] then []
      else (fst (decode_rune bs), take (snd (decode_rune bs)) bs)
           # decode_runes (drop (snd (decode_rune bs)) bs))"
  by auto
termination
  by (relation "measure length") (use decode_rune_width in \<open>auto simp: diff_less\<close>)

declare decode_runes.simps [simp del]

definition bytes_of :: "string \<Rightarrow> nat list" where
  "bytes_of s = map of_char s"

definition runes :: "string \<Rightarrow> nat list" where
  "runes s = map fst (decode_runes (bytes_of s))"

text \<open>\<open>utf8.ValidString\<close>: no decoding step gave up (a width-one \<open>U+FFFD\<close>).\<close>

definition bad_rune :: "nat \<times> nat list \<Rightarrow> bool" where
  "bad_rune p \<longleftrightarrow> fst p = 0xFFFD \<and> length (snd p) = 1"

definition valid_utf8 :: "string \<Rightarrow> bool" where
  "valid_utf8 s \<longleftrightarrow> list_all (\<lambda>p. \<not> bad_rune p) (decode_runes (bytes_of s))"

lemma decode_runes_Nil [simp]: "decode_runes [] = []"
  by (simp add: decode_runes.simps)

lemma decode_runes_not_Nil:
  "bs \<noteq> [] \<Longrightarrow> decode_runes bs = (fst (decode_rune bs), take (snd (decode_rune bs)) bs)
     # decode_runes (drop (snd (decode_rune bs)) bs)"
  by (subst decode_runes.simps) simp

lemma concat_decode_runes: "concat (map snd (decode_runes bs)) = bs"
proof (induction bs rule: decode_runes.induct)
  case (1 bs)
  then show ?case by (cases "bs = []") (simp_all add: decode_runes_not_Nil)
qed

lemma decode_runes_ascii:
  "\<forall>b\<in>set bs. b < 0x80 \<Longrightarrow> decode_runes bs = map (\<lambda>b. (b, [b])) bs"
  by (induction bs) (simp_all add: decode_runes_not_Nil decode_rune.simps)

lemma length_decode_runes: "length (decode_runes bs) \<le> length bs"
proof (induction bs rule: decode_runes.induct)
  case (1 bs)
  show ?case
  proof (cases "bs = []")
    case False
    with 1 have "length (decode_runes (drop (snd (decode_rune bs)) bs)) \<le> length bs - snd (decode_rune bs)"
      by simp
    moreover have "0 < snd (decode_rune bs)" "snd (decode_rune bs) \<le> length bs"
      using decode_rune_width [OF False] by simp_all
    ultimately show ?thesis by (simp add: decode_runes_not_Nil [OF False])
  qed simp
qed

section \<open>Splitting and formatting\<close>

text \<open>\<open>strings.Split\<close> on one character.\<close>

fun split_on :: "char \<Rightarrow> string \<Rightarrow> string list" where
  "split_on c [] = [[]]"
| "split_on c (x # xs) =
     (if x = c then [] # split_on c xs
      else case split_on c xs of [] \<Rightarrow> [[x]] | w # ws \<Rightarrow> (x # w) # ws)"

lemma split_on_not_Nil [simp]: "split_on c s \<noteq> []"
  by (induction s) (auto split: list.splits)

lemma split_on_no_sep: "w \<in> set (split_on c s) \<Longrightarrow> c \<notin> set w"
  by (induction s arbitrary: w) (auto split: list.splits if_splits)

text \<open>\<open>%0nd\<close> of a natural number, and \<open>%08x\<close> of a 32-bit word.\<close>

definition pad_zero :: "nat \<Rightarrow> string \<Rightarrow> string" where
  "pad_zero n s = replicate (n - length s) (CHR ''0'') @ s"

definition hex_digit :: "nat \<Rightarrow> char" where
  "hex_digit d = (if d < 10 then char_of (48 + d) else char_of (87 + d))"

definition show_hex8 :: "32 word \<Rightarrow> string" where
  "show_hex8 w = map (\<lambda>i. hex_digit (unat (drop_bit (4 * i) w AND 0xF))) (rev [0..<8])"

lemma length_show_hex8 [simp]: "length (show_hex8 w) = 8"
  by (simp add: show_hex8_def)

lemma nat_of_digits_pad [simp]: "nat_of_digits (pad_zero n s) = nat_of_digits s"
proof -
  have "nat_of_digits (replicate k (CHR ''0'') @ s) = nat_of_digits s" for k
    by (induction k) (simp_all add: nat_of_digits_def digit_val_def)
  then show ?thesis by (simp add: pad_zero_def)
qed

lemma pad_zero_digits: "list_all is_digit s \<Longrightarrow> list_all is_digit (pad_zero n s)"
  by (auto simp: pad_zero_def list_all_iff is_digit_def)

end
