(* ===== verification/RecordModel.thy ===== *)
theory RecordModel
  imports GoText
begin

text \<open>
  The record model, \<open>src/internal/model/record.go\<close>: the tagged value of a promoted field and
  the log record.  A \<open>float64\<close> is its IEEE 754 bit pattern; its rendering is a parameter
  (\<open>fmt\<close>, what \<open>strconv.FormatFloat(v, 'g', -1, 64)\<close> gives).  A time is its nanoseconds since the
  epoch, a Go map an association list, a nil slice \<open>None\<close>.
\<close>

type_synonym float64 = "64 word"

text \<open>\<open>math.IsNaN\<close> and \<open>math.IsInf\<close> on the bit pattern: the exponent is all ones.\<close>

definition float_nonfinite :: "float64 \<Rightarrow> bool" where
  "float_nonfinite f \<longleftrightarrow> drop_bit 52 f AND 0x7FF = 0x7FF"

definition float_nan :: "float64 \<Rightarrow> bool" where
  "float_nan f \<longleftrightarrow> float_nonfinite f \<and> take_bit 52 f \<noteq> 0"

datatype kind = KindNull | KindBool | KindInt | KindFloat | KindString | KindJSON

fun kind_string :: "kind \<Rightarrow> string" where
  "kind_string KindBool = ''boolean''"
| "kind_string KindInt = ''int''"
| "kind_string KindFloat = ''float''"
| "kind_string KindString = ''string''"
| "kind_string KindJSON = ''json''"
| "kind_string KindNull = ''null''"

record fvalue =
  v_kind :: kind
  v_bool :: bool
  v_int :: int
  v_float :: float64
  v_str :: string

definition NullV :: fvalue where
  "NullV = \<lparr>v_kind = KindNull, v_bool = False, v_int = 0, v_float = 0, v_str = []\<rparr>"
definition BoolV :: "bool \<Rightarrow> fvalue" where "BoolV b = NullV\<lparr>v_kind := KindBool, v_bool := b\<rparr>"
definition IntV :: "int \<Rightarrow> fvalue" where "IntV i = NullV\<lparr>v_kind := KindInt, v_int := i\<rparr>"
definition FloatV :: "float64 \<Rightarrow> fvalue" where "FloatV f = NullV\<lparr>v_kind := KindFloat, v_float := f\<rparr>"
definition StrV :: "string \<Rightarrow> fvalue" where "StrV s = NullV\<lparr>v_kind := KindString, v_str := s\<rparr>"
definition JSONV :: "string \<Rightarrow> fvalue" where "JSONV s = NullV\<lparr>v_kind := KindJSON, v_str := s\<rparr>"

definition show_bool :: "bool \<Rightarrow> string" where
  "show_bool b = (if b then ''true'' else ''false'')"

text \<open>\<open>Value.MarshalJSON\<close>, over the library's rendering of floats and strings as JSON.\<close>

definition value_json ::
  "(float64 \<Rightarrow> string) \<Rightarrow> (string \<Rightarrow> string) \<Rightarrow> fvalue \<Rightarrow> string" where
  "value_json json_float json_string v =
     (case v_kind v of
        KindBool \<Rightarrow> show_bool (v_bool v)
      | KindInt \<Rightarrow> show_int (v_int v)
      | KindFloat \<Rightarrow> (if float_nonfinite (v_float v) then ''null'' else json_float (v_float v))
      | KindString \<Rightarrow> json_string (v_str v)
      | KindJSON \<Rightarrow> v_str v
      | KindNull \<Rightarrow> ''null'')"

definition value_text :: "(float64 \<Rightarrow> string) \<Rightarrow> fvalue \<Rightarrow> string" where
  "value_text fmt v =
     (case v_kind v of
        KindBool \<Rightarrow> show_bool (v_bool v)
      | KindInt \<Rightarrow> show_int (v_int v)
      | KindFloat \<Rightarrow> fmt (v_float v)
      | KindString \<Rightarrow> v_str v
      | KindJSON \<Rightarrow> v_str v
      | KindNull \<Rightarrow> '''')"

record rec =
  r_ts :: int
  r_ingest_ts :: int
  r_stream :: string
  r_seq :: nat
  r_host :: string
  r_port :: int
  r_level :: string
  r_msg :: string
  r_raw :: string
  r_json :: "string option"
  r_type :: string
  r_fields :: "(string \<times> fvalue) list"

definition is_object :: "rec \<Rightarrow> bool" where
  "is_object r \<longleftrightarrow> r_type r = ''object'' \<and> r_json r \<noteq> None"

text \<open>The wire format of the API: the timestamps in milliseconds, the line itself for a text line.\<close>

record wire =
  wire_timestamp :: int
  wire_streamid :: string
  wire_host :: string
  wire_port :: int
  wire_content :: string
  wire_type :: string
  wire_seq :: nat
  wire_ingest_ts :: int
  wire_level :: string
  wire_msg :: string
  wire_fields :: "(string \<times> fvalue) list"

definition wire_of :: "(string \<Rightarrow> string) \<Rightarrow> rec \<Rightarrow> wire" where
  "wire_of json_string r =
     \<lparr>wire_timestamp = r_ts r div 1000000, wire_streamid = r_stream r, wire_host = r_host r,
      wire_port = r_port r,
      wire_content = (case r_json r of None \<Rightarrow> json_string (r_raw r) | Some j \<Rightarrow> j),
      wire_type = r_type r, wire_seq = r_seq r, wire_ingest_ts = r_ingest_ts r div 1000000,
      wire_level = r_level r, wire_msg = r_msg r, wire_fields = r_fields r\<rparr>"

definition empty_rec :: rec where
  "empty_rec = \<lparr>r_ts = 0, r_ingest_ts = 0, r_stream = '''', r_seq = 0, r_host = '''', r_port = 0,
     r_level = '''', r_msg = '''', r_raw = '''', r_json = None, r_type = '''', r_fields = []\<rparr>"

end
