(* ===== verification/WalEncoding.thy ===== *)
theory WalEncoding
  imports RecordModel WalSystem
begin

text \<open>
  The record encoding of the log, \<open>src/internal/wal/encoding.go\<close>: the conversion between a
  record and the structure that is rendered as JSON.  The JSON rendering itself and the text of
  a float are parameters.
\<close>

record wal_value =
  wv_kind :: nat
  wv_bool :: bool
  wv_int :: int
  wv_float :: float64
  wv_str :: string
  wv_nonfinite :: string

record wal_record =
  wr_ts :: int
  wr_ingest_ts :: int
  wr_stream :: string
  wr_seq :: nat
  wr_level :: string
  wr_msg :: string
  wr_host :: string
  wr_port :: int
  wr_raw :: string
  wr_type :: string
  wr_json :: "string option"
  wr_fields :: "(string \<times> wal_value) list"

text \<open>The numbers of the kinds, \<open>iota\<close> in \<open>model.Kind\<close>; one past them reads as null everywhere.\<close>

fun kind_code :: "kind \<Rightarrow> nat" where
  "kind_code KindNull = 0"
| "kind_code KindBool = 1"
| "kind_code KindInt = 2"
| "kind_code KindFloat = 3"
| "kind_code KindString = 4"
| "kind_code KindJSON = 5"

definition kind_of_code :: "nat \<Rightarrow> kind" where
  "kind_of_code n = (if n = 1 then KindBool else if n = 2 then KindInt else if n = 3 then KindFloat
     else if n = 4 then KindString else if n = 5 then KindJSON else KindNull)"

definition encode_value :: "(float64 \<Rightarrow> string) \<Rightarrow> fvalue \<Rightarrow> wal_value" where
  "encode_value fmt v =
     (let w = \<lparr>wv_kind = kind_code (v_kind v), wv_bool = v_bool v, wv_int = v_int v,
               wv_float = v_float v, wv_str = v_str v, wv_nonfinite = ''''\<rparr>
      in if float_nonfinite (v_float v)
         then w\<lparr>wv_float := 0, wv_nonfinite := fmt (v_float v)\<rparr> else w)"

definition encode :: "(float64 \<Rightarrow> string) \<Rightarrow> rec \<Rightarrow> wal_record" where
  "encode fmt r =
     \<lparr>wr_ts = r_ts r div 1000, wr_ingest_ts = r_ingest_ts r div 1000, wr_stream = r_stream r,
      wr_seq = r_seq r, wr_level = r_level r, wr_msg = r_msg r, wr_host = r_host r,
      wr_port = r_port r, wr_raw = r_raw r, wr_type = r_type r, wr_json = r_json r,
      wr_fields = map (\<lambda>(k, v). (k, encode_value fmt v)) (r_fields r)\<rparr>"

definition decode_value :: "(string \<Rightarrow> float64 option) \<Rightarrow> wal_value \<Rightarrow> string + fvalue" where
  "decode_value parse_float w =
     (let v = \<lparr>v_kind = kind_of_code (wv_kind w), v_bool = wv_bool w, v_int = wv_int w,
               v_float = wv_float w, v_str = wv_str w\<rparr>
      in if wv_nonfinite w = '''' then Inr v
         else case parse_float (wv_nonfinite w) of
            None \<Rightarrow> Inl (wv_nonfinite w)
          | Some f \<Rightarrow> Inr (v\<lparr>v_float := f\<rparr>))"

definition decode :: "(string \<Rightarrow> float64 option) \<Rightarrow> wal_record \<Rightarrow> string + rec" where
  "decode parse_float w =
     (case map_sum_list (\<lambda>(k, v). case decode_value parse_float v of
              Inl e \<Rightarrow> Inl e | Inr v' \<Rightarrow> Inr (k, v')) (wr_fields w) of
        Inl e \<Rightarrow> Inl e
      | Inr fs \<Rightarrow> Inr
          \<lparr>r_ts = wr_ts w * 1000, r_ingest_ts = wr_ingest_ts w * 1000, r_stream = wr_stream w,
           r_seq = wr_seq w, r_host = wr_host w, r_port = wr_port w, r_level = wr_level w,
           r_msg = wr_msg w, r_raw = wr_raw w, r_json = wr_json w, r_type = wr_type w,
           r_fields = fs\<rparr>)"

text \<open>\<open>marshal\<close>, and what \<open>Replay\<close> does with a payload.\<close>

definition marshal ::
  "(float64 \<Rightarrow> string) \<Rightarrow> (wal_record \<Rightarrow> bytes option) \<Rightarrow> rec \<Rightarrow> bytes option" where
  "marshal fmt to_json r = to_json (encode fmt r)"

definition unmarshal ::
  "(string \<Rightarrow> float64 option) \<Rightarrow> (bytes \<Rightarrow> wal_record option) \<Rightarrow> bytes \<Rightarrow> rec option" where
  "unmarshal parse_float of_json p =
     (case of_json p of
        None \<Rightarrow> None
      | Some w \<Rightarrow> (case decode parse_float w of Inl _ \<Rightarrow> None | Inr r \<Rightarrow> Some r))"

section \<open>What the encoding keeps\<close>

text \<open>
  Timestamps to the microsecond, every float but the payload of a NaN, everything else as it is.
\<close>

definition keep_float :: "(float64 \<Rightarrow> string) \<Rightarrow> (string \<Rightarrow> float64 option) \<Rightarrow> float64 \<Rightarrow> float64" where
  "keep_float fmt parse_float f =
     (if float_nonfinite f then the (parse_float (fmt f)) else f)"

definition keep_micros :: "(float64 \<Rightarrow> string) \<Rightarrow> (string \<Rightarrow> float64 option) \<Rightarrow> rec \<Rightarrow> rec" where
  "keep_micros fmt parse_float r = r\<lparr>r_ts := r_ts r - r_ts r mod 1000,
     r_ingest_ts := r_ingest_ts r - r_ingest_ts r mod 1000,
     r_fields := map (\<lambda>(k, v). (k, v\<lparr>v_float := keep_float fmt parse_float (v_float v)\<rparr>)) (r_fields r)\<rparr>"

text \<open>
  What the code relies on in \<open>strconv\<close>: the text of a value JSON cannot spell is not empty and
  parses, as the same infinity, or as some NaN for a NaN.
\<close>

definition float_text_ok :: "(float64 \<Rightarrow> string) \<Rightarrow> (string \<Rightarrow> float64 option) \<Rightarrow> bool" where
  "float_text_ok fmt parse_float \<longleftrightarrow>
     (\<forall>f. float_nonfinite f \<longrightarrow> fmt f \<noteq> '''' \<and>
        (\<exists>g. parse_float (fmt f) = Some g \<and> (if float_nan f then float_nan g else g = f)))"

text \<open>
  And in \<open>encoding/json\<close>: the rendering of a structure whose texts are \<open>clean\<close> (valid UTF-8, the
  payload compact JSON) is not empty and reads back as the structure.
\<close>

definition json_ok ::
  "(wal_record \<Rightarrow> bool) \<Rightarrow> (wal_record \<Rightarrow> bytes option) \<Rightarrow> (bytes \<Rightarrow> wal_record option) \<Rightarrow> bool" where
  "json_ok clean to_json of_json \<longleftrightarrow>
     (\<forall>w b. clean w \<longrightarrow> to_json w = Some b \<longrightarrow> b \<noteq> [] \<and> of_json b = Some w)"

lemma kind_of_code_code [simp]: "kind_of_code (kind_code k) = k"
  by (cases k) (simp_all add: kind_of_code_def)

lemma decode_encode_value:
  assumes "float_text_ok fmt parse_float"
  shows "decode_value parse_float (encode_value fmt v) =
    Inr (v\<lparr>v_float := keep_float fmt parse_float (v_float v)\<rparr>)"
proof (cases "float_nonfinite (v_float v)")
  case True
  with assms obtain g where "fmt (v_float v) \<noteq> ''''" "parse_float (fmt (v_float v)) = Some g"
    unfolding float_text_ok_def by blast
  with True show ?thesis by (simp add: decode_value_def encode_value_def keep_float_def)
next
  case False
  then show ?thesis by (simp add: decode_value_def encode_value_def keep_float_def)
qed

lemma decode_encode:
  assumes "float_text_ok fmt parse_float"
  shows "decode parse_float (encode fmt r) = Inr (keep_micros fmt parse_float r)"
proof -
  have "map_sum_list (\<lambda>(k, v). case decode_value parse_float v of
            Inl e \<Rightarrow> Inl e | Inr v' \<Rightarrow> Inr (k, v')) (map (\<lambda>(k, v). (k, encode_value fmt v)) fs) =
        Inr (map (\<lambda>(k, v). (k, v\<lparr>v_float := keep_float fmt parse_float (v_float v)\<rparr>)) fs)"
    for fs :: "(string \<times> fvalue) list"
    by (induction fs) (auto simp: decode_encode_value [OF assms])
  then show ?thesis
    by (simp add: decode_def encode_def keep_micros_def minus_mod_eq_div_mult)
qed

lemma unmarshal_marshal:
  assumes "float_text_ok fmt parse_float" "json_ok clean to_json of_json" "clean (encode fmt r)"
    "marshal fmt to_json r = Some p"
  shows "p \<noteq> [] \<and> unmarshal parse_float of_json p = Some (keep_micros fmt parse_float r)"
  using assms by (auto simp: marshal_def unmarshal_def json_ok_def decode_encode)

text \<open>The log's theorems hold of this codec, over the records whose texts are clean.\<close>

lemma wal_codec:
  assumes "float_text_ok fmt parse_float" "json_ok clean to_json of_json"
  shows "codec_ok (\<lambda>r. if clean (encode fmt r) then marshal fmt to_json r else None)
    (unmarshal parse_float of_json) (keep_micros fmt parse_float)"
  unfolding codec_ok_def using unmarshal_marshal [OF assms] by (metis option.distinct(1))


definition demo_fmt :: "float64 \<Rightarrow> string" where
  "demo_fmt f = show_nat (unat f)"

definition demo_parse :: "string \<Rightarrow> float64 option" where
  "demo_parse s = map_option of_nat (parse_uint 64 s)"

lemma demo_float_text: "float_text_ok demo_fmt demo_parse"
proof -
  have "parse_uint 64 (show_nat (unat f)) = Some (unat f)" for f :: float64
    using unsigned_less [of f] by (intro parse_uint_show) simp
  then show ?thesis by (simp add: float_text_ok_def demo_fmt_def demo_parse_def)
qed

definition demo_rec :: rec where
  "demo_rec = empty_rec\<lparr>r_ts := 1234567, r_stream := ''web'', r_seq := 7,
     r_fields := [(''ratio'', FloatV 0x7FF0000000000000), (''n'', IntV 3)]\<rparr>"


end
