(* ===== verification/LogStore.thy ===== *)
theory LogStore
  imports RecordModel "HOL-Library.AList"
begin

text \<open>
  Live delivery and the in-memory store: \<open>src/internal/logstore/logstore.go\<close> (the subscriber
  fanout) and \<open>src/internal/logstore/memory.go\<close> (the ring of recent records per stream).

  A subscription is its channel: the events buffered in it, its capacity, and the count of events
  dropped because it was full.  \<open>Memory\<close> keeps a ring per stream; both stores of the server
  use the same ring.
\<close>

section \<open>The fanout\<close>

datatype event = EventLine rec | EventStreams "string list"

record subscription =
  s_stream :: string
  s_cap :: nat
  s_queue :: "event list"
  s_dropped :: nat
  s_closed :: bool

record fanout =
  f_next :: nat
  f_subs :: "(nat \<times> subscription) list"
  f_gone :: "(nat \<times> subscription) list"   \<comment> \<open>closed ones, whose readers drain what is buffered\<close>
  f_closed :: bool

definition empty_fanout :: fanout where
  "empty_fanout = \<lparr>f_next = 0, f_subs = [], f_gone = [], f_closed = False\<rparr>"

definition send :: "event \<Rightarrow> subscription \<Rightarrow> subscription" where
  "send e s = (if length (s_queue s) < s_cap s then s\<lparr>s_queue := s_queue s @ [e]\<rparr>
               else s\<lparr>s_dropped := s_dropped s + 1\<rparr>)"

definition subscribe :: "string \<Rightarrow> int \<Rightarrow> fanout \<Rightarrow> subscription \<times> nat option \<times> fanout" where
  "subscribe stream buffer f =
     (let cap = (if buffer < 1 then 256 else nat buffer);
          s = \<lparr>s_stream = stream, s_cap = cap, s_queue = [], s_dropped = 0, s_closed = False\<rparr>
      in if f_closed f then (s\<lparr>s_closed := True\<rparr>, None, f)
         else (s, Some (f_next f), f\<lparr>f_next := f_next f + 1, f_subs := (f_next f, s) # f_subs f\<rparr>))"

definition unsubscribe :: "nat \<Rightarrow> fanout \<Rightarrow> fanout" where
  "unsubscribe i f =
     (case map_of (f_subs f) i of
        None \<Rightarrow> f
      | Some s \<Rightarrow> f\<lparr>f_subs := AList.delete i (f_subs f), f_gone := (i, s\<lparr>s_closed := True\<rparr>) # f_gone f\<rparr>)"

definition watches :: "subscription \<Rightarrow> event \<Rightarrow> bool" where
  "watches s e = (case e of EventLine r \<Rightarrow> s_stream s = '''' \<or> s_stream s = r_stream r
                          | EventStreams _ \<Rightarrow> True)"

definition publish_line :: "rec \<Rightarrow> fanout \<Rightarrow> fanout" where
  "publish_line r f = f\<lparr>f_subs := map (\<lambda>(i, s).
     (i, if s_stream s = '''' \<or> s_stream s = r_stream r then send (EventLine r) s else s)) (f_subs f)\<rparr>"

definition publish_streams :: "string list \<Rightarrow> fanout \<Rightarrow> fanout" where
  "publish_streams names f = f\<lparr>f_subs := map (\<lambda>(i, s). (i, send (EventStreams names) s)) (f_subs f)\<rparr>"

definition fanout_close :: "fanout \<Rightarrow> fanout" where
  "fanout_close f =
     (if f_closed f then f
      else f\<lparr>f_closed := True, f_subs := [],
             f_gone := map (\<lambda>(i, s). (i, s\<lparr>s_closed := True\<rparr>)) (f_subs f) @ f_gone f\<rparr>)"

text \<open>The reader's side of a channel: the oldest buffered event.\<close>

definition receive :: "subscription \<Rightarrow> event option \<times> subscription" where
  "receive s = (case s_queue s of [] \<Rightarrow> (None, s) | e # es \<Rightarrow> (Some e, s\<lparr>s_queue := es\<rparr>))"

section \<open>The ring\<close>

record 'a ring =
  g_items :: "'a option list"
  g_start :: nat
  g_count :: nat

definition new_ring :: "nat \<Rightarrow> 'a ring" where
  "new_ring n = \<lparr>g_items = replicate n None, g_start = 0, g_count = 0\<rparr>"

definition ring_push :: "'a \<Rightarrow> 'a ring \<Rightarrow> 'a ring" where
  "ring_push x r =
     (let n = length (g_items r); r' = r\<lparr>g_items := (g_items r)[(g_start r + g_count r) mod n := Some x]\<rparr>
      in if g_count r = n then r'\<lparr>g_start := (g_start r + 1) mod n\<rparr>
         else r'\<lparr>g_count := g_count r + 1\<rparr>)"

definition ring_slice :: "int \<Rightarrow> 'a ring \<Rightarrow> 'a option list" where
  "ring_slice limit r =
     (let count = (if 0 < limit \<and> limit < int (g_count r) then nat limit else g_count r)
      in map (\<lambda>i. g_items r ! ((g_start r + i) mod length (g_items r))) [g_count r - count ..< g_count r])"

definition last_n :: "nat \<Rightarrow> 'a list \<Rightarrow> 'a list" where
  "last_n n xs = drop (length xs - n) xs"

text \<open>What a ring of capacity \<open>n\<close> holds: the last \<open>n\<close> of everything pushed.\<close>

definition ring_holds :: "nat \<Rightarrow> 'a ring \<Rightarrow> 'a list \<Rightarrow> bool" where
  "ring_holds n r xs \<longleftrightarrow>
     0 < n \<and> length (g_items r) = n \<and> g_start r < n \<and> g_count r = length (last_n n xs) \<and>
     (\<forall>i < g_count r. g_items r ! ((g_start r + i) mod n) = Some (last_n n xs ! i))"

lemma length_last_n [simp]: "length (last_n n xs) = min n (length xs)"
  by (simp add: last_n_def)

lemma last_n_all [simp]: "length xs \<le> n \<Longrightarrow> last_n n xs = xs"
  by (simp add: last_n_def)

lemma last_n_last_n [simp]: "last_n m (last_n n xs) = last_n (min m n) xs"
  by (cases "length xs \<le> n") (auto simp: last_n_def min_def)

lemma nth_last_n: "i < min n (length xs) \<Longrightarrow> last_n n xs ! i = xs ! (length xs - min n (length xs) + i)"
  by (auto simp: last_n_def min_def)

lemma new_ring_holds: "0 < n \<Longrightarrow> ring_holds n (new_ring n) []"
  by (simp add: ring_holds_def new_ring_def)

lemma mod_add_eq_iff:
  fixes a i j n :: nat
  assumes "i < n" "j < n"
  shows "(a + i) mod n = (a + j) mod n \<longleftrightarrow> i = j"
proof
  have *: "i = j" if "i \<le> j" "j < n" "(a + j) mod n = (a + i) mod n" for i j
  proof -
    from that have "n dvd j - i" by (simp add: mod_eq_dvd_iff_nat)
    with that show ?thesis by (metis diff_is_0_eq dvd_imp_le le_antisym less_imp_diff_less not_le zero_less_iff_neq_zero)
  qed
  assume "(a + i) mod n = (a + j) mod n"
  then show "i = j" using * [of i j] * [of j i] assms by (cases "i \<le> j") auto
qed simp

lemma last_n_snoc:
  "last_n n (xs @ [x]) = (if length xs < n then last_n n xs @ [x]
     else if n = 0 then [] else tl (last_n n xs) @ [x])"
  by (auto simp: last_n_def Suc_diff_le drop_Suc tl_drop)

lemma ring_push_holds:
  assumes "ring_holds n r xs"
  shows "ring_holds n (ring_push x r) (xs @ [x])"
proof (cases "length xs < n")
  case True
  with assms have c: "g_count r = length xs" by (simp add: ring_holds_def)
  with True assms show ?thesis
    by (auto simp: ring_holds_def ring_push_def Let_def last_n_snoc nth_append nth_list_update
        mod_add_eq_iff less_Suc_eq)
next
  case False
  with assms have c: "g_count r = n" "0 < n" "length (last_n n xs) = n" by (simp_all add: ring_holds_def)
  define s where "s = g_start r"
  have e: "(s + n) mod n = s" "s < n" using assms by (simp_all add: ring_holds_def s_def)
  have shift: "((s + 1) mod n + i) mod n = (s + Suc i) mod n" for i
    by (simp add: mod_add_left_eq)
  have "(g_items r)[s := Some x] ! ((s + Suc i) mod n) = Some ((tl (last_n n xs) @ [x]) ! i)"
    if "i < n" for i
  proof (cases "Suc i < n")
    case True
    then have "(s + Suc i) mod n \<noteq> s" using e mod_add_eq_iff [of "Suc i" n 0 s] by simp
    with True assms c have "(g_items r)[s := Some x] ! ((s + Suc i) mod n) = Some (last_n n xs ! Suc i)"
      using spec [of "\<lambda>i. i < n \<longrightarrow> g_items r ! ((g_start r + i) mod n) = Some (last_n n xs ! i)" "Suc i"]
      by (auto simp: ring_holds_def s_def)
    moreover have "i < length (tl (last_n n xs))" using True c(3) by simp
    then have "(tl (last_n n xs) @ [x]) ! i = last_n n xs ! Suc i"
      by (simp only: nth_append nth_tl if_True)
    ultimately show ?thesis by simp
  next
    case f: False
    with that have i: "Suc i = n" by simp
    with c(3) have "length (tl (last_n n xs)) = i" by (simp del: length_last_n)
    then have "(tl (last_n n xs) @ [x]) ! i = x" by (metis nth_append_length)
    moreover have "(g_items r)[s := Some x] ! ((s + Suc i) mod n) = Some x"
      using i e assms by (simp add: ring_holds_def)
    ultimately show ?thesis by simp
  qed
  with False assms c e shift show ?thesis
    by (simp add: ring_holds_def ring_push_def Let_def last_n_snoc flip: s_def)
qed

lemma map_nth_drop: "map (\<lambda>i. xs ! i) [length xs - k ..< length xs] = last_n k xs"
  by (auto simp: last_n_def intro!: nth_equalityI)

lemma ring_slice_holds:
  assumes "ring_holds n r xs"
  shows "ring_slice limit r = map Some (if 0 < limit then last_n (min (nat limit) n) xs else last_n n xs)"
proof -
  define ys where "ys = last_n n xs"
  define k where "k = (if 0 < limit \<and> limit < int (g_count r) then nat limit else g_count r)"
  have c: "g_count r = length ys" and k: "k \<le> length ys"
    using assms by (auto simp: ring_holds_def ys_def k_def)
  have "ring_slice limit r = map (\<lambda>i. g_items r ! ((g_start r + i) mod length (g_items r)))
      [length ys - k ..< length ys]"
    by (simp add: ring_slice_def Let_def k_def flip: c)
  also have "\<dots> = map (\<lambda>i. Some (ys ! i)) [length ys - k ..< length ys]"
    using assms c by (auto simp: ring_holds_def ys_def)
  also have "\<dots> = map Some (last_n k ys)"
    using map_nth_drop [of ys k] by (metis (no_types, lifting) map_map o_def map_eq_conv)
  also have "last_n k ys = (if 0 < limit then last_n (min (nat limit) n) xs else last_n n xs)"
  proof (cases "0 < limit \<and> limit < int (length ys)")
    case True
    then show ?thesis by (simp add: k_def c ys_def min_def) 
  next
    case False
    then have "k = length ys" by (auto simp: k_def c)
    then have "last_n k ys = ys" by simp
    moreover have "last_n (nat limit) ys = ys" if "0 < limit"
      using False that by (intro last_n_all) linarith
    ultimately show ?thesis
      using last_n_last_n [of "nat limit" n xs] by (simp add: ys_def)
  qed
  finally show ?thesis .
qed

section \<open>The memory store\<close>

record memory =
  m_fanout :: fanout
  m_seq :: nat
  m_size :: nat
  m_order :: "string list"
  m_streams :: "(string \<times> rec ring) list"

definition new_memory :: "int \<Rightarrow> memory" where
  "new_memory n = \<lparr>m_fanout = empty_fanout, m_seq = 0, m_size = (if n < 1 then 100 else nat n),
     m_order = [], m_streams = []\<rparr>"

text \<open>Append to the ring of its stream, a new one for a stream not seen before.\<close>

definition push_stream ::
  "nat \<Rightarrow> rec \<Rightarrow> (string \<times> rec ring) list \<Rightarrow> (string \<times> rec ring) list" where
  "push_stream n r streams =
     (let g = (case map_of streams (r_stream r) of None \<Rightarrow> new_ring n | Some g \<Rightarrow> g)
      in AList.update (r_stream r) (ring_push r g) streams)"

definition memory_append :: "rec \<Rightarrow> memory \<Rightarrow> memory" where
  "memory_append r0 m =
     (let r = r0\<lparr>r_seq := m_seq m + 1\<rparr>; known = (map_of (m_streams m) (r_stream r) \<noteq> None);
          order = (if known then m_order m else m_order m @ [r_stream r]);
          f = (if known then m_fanout m else publish_streams order (m_fanout m))
      in m\<lparr>m_seq := m_seq m + 1, m_streams := push_stream (m_size m) r (m_streams m),
           m_order := order, m_fanout := publish_line r f\<rparr>)"

text \<open>\<open>Backlog\<close> over the rings, which the durable store shares.\<close>

definition rings_backlog :: "nat \<Rightarrow> (string \<times> rec ring) list \<Rightarrow> string \<Rightarrow> int \<Rightarrow> rec list" where
  "rings_backlog n streams stream limit =
     (if stream \<noteq> []
      then (case map_of streams stream of
              None \<Rightarrow> []
            | Some g \<Rightarrow> map the (ring_slice limit g))
      else
        (let merged = sort_key r_seq (concat (map (\<lambda>(_, g). map the (ring_slice 0 g)) streams));
             limit' = (if limit \<le> 0 then n else nat limit)
         in if limit' < length merged then drop (length merged - limit') merged else merged))"

definition memory_backlog :: "string \<Rightarrow> int \<Rightarrow> memory \<Rightarrow> rec list" where
  "memory_backlog stream limit m = rings_backlog (m_size m) (m_streams m) stream limit"

definition memory_streams :: "memory \<Rightarrow> string list" where
  "memory_streams m = m_order m"

definition memory_close :: "memory \<Rightarrow> memory" where
  "memory_close m = m\<lparr>m_fanout := fanout_close (m_fanout m)\<rparr>"

section \<open>What the rings of a store hold\<close>

text \<open>
  \<open>hist\<close> is every record appended, in order; the rings hold the last \<open>n\<close> of each stream.
\<close>

definition of_stream :: "string \<Rightarrow> rec list \<Rightarrow> rec list" where
  "of_stream s hist = (if s = [] then hist else filter (\<lambda>r. r_stream r = s) hist)"

definition rings_hold :: "nat \<Rightarrow> (string \<times> rec ring) list \<Rightarrow> rec list \<Rightarrow> bool" where
  "rings_hold n streams hist \<longleftrightarrow>
     0 < n \<and> distinct (map fst streams) \<and>
     (\<forall>s. case map_of streams s of
            None \<Rightarrow> filter (\<lambda>r. r_stream r = s) hist = []
          | Some g \<Rightarrow> ring_holds n g (filter (\<lambda>r. r_stream r = s) hist))"

lemma push_stream_holds:
  assumes "rings_hold n streams hist"
  shows "rings_hold n (push_stream n r streams) (hist @ [r])"
proof -
  let ?s = "r_stream r"
  let ?h = "filter (\<lambda>x. r_stream x = ?s) hist"
  define g where "g = (case map_of streams ?s of None \<Rightarrow> new_ring n | Some g \<Rightarrow> g)"
  have n: "0 < n" using assms by (simp add: rings_hold_def)
  have at: "case map_of streams s of None \<Rightarrow> filter (\<lambda>r. r_stream r = s) hist = []
        | Some g \<Rightarrow> ring_holds n g (filter (\<lambda>r. r_stream r = s) hist)" for s
    using assms unfolding rings_hold_def by blast
  from at [of ?s] have "ring_holds n g ?h"
    unfolding g_def by (cases "map_of streams ?s") (simp_all add: new_ring_holds [OF n])
  from ring_push_holds [OF this, of r]
  have "ring_holds n (ring_push r g) (filter (\<lambda>x. r_stream x = ?s) (hist @ [r]))" by simp
  moreover have "filter (\<lambda>x. r_stream x = s) (hist @ [r]) = filter (\<lambda>x. r_stream x = s) hist"
    if "s \<noteq> ?s" for s
    using that by simp
  ultimately have "case map_of (push_stream n r streams) s of
      None \<Rightarrow> filter (\<lambda>r. r_stream r = s) (hist @ [r]) = []
    | Some g \<Rightarrow> ring_holds n g (filter (\<lambda>r. r_stream r = s) (hist @ [r]))" for s
    using at [of s] unfolding push_stream_def Let_def g_def [symmetric]
    by (cases "s = ?s"; cases "map_of streams s") (simp_all add: update_conv' del: filter_append)
  moreover have "distinct (map fst (push_stream n r streams))"
    using assms by (simp add: rings_hold_def push_stream_def Let_def distinct_update)
  ultimately show ?thesis using n unfolding rings_hold_def by blast
qed

lemma stream_backlog:
  assumes "rings_hold n streams hist" "s \<noteq> []"
  shows "rings_backlog n streams s limit =
    last_n (if 0 < limit then min (nat limit) n else n) (of_stream s hist)"
proof -
  have "case map_of streams s of None \<Rightarrow> filter (\<lambda>r. r_stream r = s) hist = []
        | Some g \<Rightarrow> ring_holds n g (filter (\<lambda>r. r_stream r = s) hist)"
    using assms(1) unfolding rings_hold_def by blast
  with assms(2) show ?thesis
    by (auto simp: rings_backlog_def of_stream_def ring_slice_holds o_def split: option.splits)
qed

text \<open>
  Merging all the rings: the records still held, in the order of \<open>seq\<close>, which is the order
  they were appended in.
\<close>

definition seq_sorted :: "rec list \<Rightarrow> bool" where
  "seq_sorted xs \<longleftrightarrow> sorted_wrt (<) (map r_seq xs)"

lemma seq_sorted_filter: "seq_sorted xs \<Longrightarrow> seq_sorted (filter P xs)"
  unfolding seq_sorted_def sorted_wrt_map by (rule sorted_wrt_filter)

lemma seq_sorted_inj:
  assumes "seq_sorted xs"
  shows "inj_on r_seq (set xs)" "distinct xs"
  using strict_sorted_iff [of "map r_seq xs"] assms
  by (auto simp: seq_sorted_def distinct_map)

lemma seq_sorted_unique:
  assumes "seq_sorted xs" "seq_sorted ys" "set xs = set ys"
  shows "xs = ys"
proof -
  from assms have "map r_seq xs = map r_seq ys"
    by (intro strict_sorted_equal) (auto simp: seq_sorted_def)
  moreover have "inj_on r_seq (set xs \<union> set ys)" using seq_sorted_inj [OF assms(1)] assms(3) by simp
  ultimately show ?thesis by (simp add: inj_on_map_eq_map)
qed

lemma sort_key_seq_sorted:
  assumes "distinct xs" "inj_on r_seq (set xs)"
  shows "seq_sorted (sort_key r_seq xs)"
  using assms by (simp add: seq_sorted_def strict_sorted_iff distinct_map)

lemma set_last_n: "x \<in> set (last_n n xs) \<Longrightarrow> x \<in> set xs"
  by (auto simp: last_n_def dest: in_set_dropD)

lemma distinct_last_n: "distinct xs \<Longrightarrow> distinct (last_n n xs)"
  by (simp add: last_n_def)

lemma last_n_append: "length ys \<ge> n \<Longrightarrow> last_n n (xs @ ys) = last_n n ys"
  by (simp add: last_n_def)

lemma last_n_filter_keep:
  assumes "\<forall>x\<in>set (last_n m xs). P x"
  shows "last_n m (filter P xs) = last_n m xs"
proof -
  have xs: "xs = take (length xs - m) xs @ last_n m xs" by (simp add: last_n_def)
  have keep: "filter P (last_n m xs) = last_n m xs" using assms by (simp add: filter_id_conv)
  show ?thesis
  proof (cases "length xs \<le> m")
    case True
    with keep show ?thesis by simp
  next
    case False
    have "filter P xs = filter P (take (length xs - m) xs) @ last_n m xs"
      by (subst xs) (simp only: filter_append keep)
    with False show ?thesis by (simp add: last_n_append)
  qed
qed

lemma last_n_of_stream:
  assumes "m \<le> n" "r \<in> set (last_n m xs)" "Q r"
  shows "r \<in> set (last_n n (filter Q xs))"
proof -
  have "filter Q xs = filter Q (take (length xs - m) xs) @ filter Q (last_n m xs)"
    by (simp add: last_n_def flip: filter_append)
  moreover have "length (filter Q (last_n m xs)) \<le> n"
    using assms(1) length_filter_le [of Q "last_n m xs"] by simp
  ultimately have "\<exists>ys. last_n n (filter Q xs) = ys @ filter Q (last_n m xs)"
    by (simp add: last_n_def)
  with assms show ?thesis by auto
qed

definition held :: "nat \<Rightarrow> rec list \<Rightarrow> rec \<Rightarrow> bool" where
  "held n hist r \<longleftrightarrow> r \<in> set (last_n n (filter (\<lambda>x. r_stream x = r_stream r) hist))"

lemma distinct_concat_streams:
  assumes "distinct (map fst (streams :: (string \<times> 'g) list))"
    "\<And>s g. (s, g) \<in> set streams \<Longrightarrow> distinct (F s g) \<and> (\<forall>r\<in>set (F s g). r_stream r = s)"
  shows "distinct (concat (map (\<lambda>(s, g). F s g) streams))"
  using assms
proof (induction streams)
  case (Cons p streams)
  obtain s g where p: "p = (s, g)" by (cases p)
  have disj: "set (F s g) \<inter> set (F s' g') = {}" if "(s', g') \<in> set streams" for s' g'
  proof -
    have "s' \<noteq> s" using that Cons.prems(1) by (force simp: p)
    then show ?thesis using Cons.prems(2) [of s g] Cons.prems(2) [of s' g'] that p by force
  qed
  then have "set (F s g) \<inter> set (concat (map (\<lambda>(s, g). F s g) streams)) = {}" by fastforce
  moreover have "distinct (concat (map (\<lambda>(s, g). F s g) streams))"
    by (rule Cons.IH) (use Cons.prems in auto)
  moreover have "distinct (F s g)" using Cons.prems(2) [of s g] by (simp add: p)
  ultimately show ?case by (simp add: p)
qed simp

lemma merged_rings:
  assumes hold: "rings_hold n streams hist" and sorted: "seq_sorted hist"
  shows "sort_key r_seq (concat (map (\<lambda>(_, g). map the (ring_slice 0 g)) streams)) =
    filter (held n hist) hist" (is "sort_key r_seq (concat (map ?f streams)) = _")
proof (rule seq_sorted_unique)
  have ring: "map the (ring_slice 0 g) = last_n n (filter (\<lambda>r. r_stream r = s) hist)"
    if "(s, g) \<in> set streams" for s g
  proof -
    from that hold have "map_of streams s = Some g" by (simp add: rings_hold_def)
    moreover have "case map_of streams s of None \<Rightarrow> filter (\<lambda>r. r_stream r = s) hist = []
        | Some g \<Rightarrow> ring_holds n g (filter (\<lambda>r. r_stream r = s) hist)"
      using hold unfolding rings_hold_def by blast
    ultimately show ?thesis by (simp add: ring_slice_holds o_def)
  qed
  have mem: "r \<in> set hist \<and> r_stream r = s"
    if "(s, g) \<in> set streams" "r \<in> set (map the (ring_slice 0 g))" for s g r
    using set_last_n [OF that(2) [unfolded ring [OF that(1)]]] by simp
  have "distinct (map the (ring_slice 0 g))" if "(s, g) \<in> set streams" for s g
    unfolding ring [OF that] using seq_sorted_inj [OF sorted] by (simp add: distinct_last_n)
  with mem hold have "distinct (concat (map (\<lambda>(_, g). map the (ring_slice 0 g)) streams))"
    by (intro distinct_concat_streams) (auto simp: rings_hold_def simp del: set_map)
  moreover have "set (concat (map ?f streams)) = set (filter (held n hist) hist)"
  proof (intro set_eqI iffI)
    fix r assume "r \<in> set (concat (map ?f streams))"
    then obtain s g where sg: "(s, g) \<in> set streams" "r \<in> set (map the (ring_slice 0 g))" by auto
    with mem [OF sg] sg(2) [unfolded ring [OF sg(1)]] show "r \<in> set (filter (held n hist) hist)"
      by (simp add: held_def)
  next
    fix r assume r: "r \<in> set (filter (held n hist) hist)"
    then have "filter (\<lambda>x. r_stream x = r_stream r) hist \<noteq> []" by (auto simp: filter_empty_conv)
    moreover have "case map_of streams (r_stream r) of None \<Rightarrow> filter (\<lambda>x. r_stream x = r_stream r) hist = []
        | Some g \<Rightarrow> ring_holds n g (filter (\<lambda>x. r_stream x = r_stream r) hist)"
      using hold unfolding rings_hold_def by blast
    ultimately obtain g where g: "(r_stream r, g) \<in> set streams"
      by (cases "map_of streams (r_stream r)") (auto dest: map_of_SomeD)
    with r ring [OF g] have "r \<in> set (map the (ring_slice 0 g))" by (simp add: held_def)
    with g show "r \<in> set (concat (map ?f streams))" by force
  qed
  moreover have "inj_on r_seq (set (filter (held n hist) hist))"
    by (rule seq_sorted_inj [OF seq_sorted_filter [OF sorted]])
  ultimately show "seq_sorted (sort_key r_seq (concat (map ?f streams)))"
    "set (sort_key r_seq (concat (map ?f streams))) = set (filter (held n hist) hist)"
    by (simp_all add: sort_key_seq_sorted)
  show "seq_sorted (filter (held n hist) hist)" by (rule seq_sorted_filter [OF sorted])
qed

lemma rings_backlog_holds:
  assumes "rings_hold n streams hist" "seq_sorted hist" "0 < limit" "nat limit \<le> n"
  shows "rings_backlog n streams s limit = last_n (nat limit) (of_stream s hist)"
proof (cases "s = []")
  case False
  with stream_backlog [OF assms(1) False, of limit] assms(3,4) show ?thesis by (simp add: min_def)
next
  case True
  have "rings_backlog n streams [] limit = last_n (nat limit) (filter (held n hist) hist)"
    using assms(3) merged_rings [OF assms(1,2)]
    by (simp add: rings_backlog_def Let_def last_n_def)
  also have "\<dots> = last_n (nat limit) hist"
    by (rule last_n_filter_keep) (simp add: held_def last_n_of_stream [OF assms(4)])
  finally show ?thesis using True by (simp add: of_stream_def)
qed

lemma rings_backlog_all:
  assumes "rings_hold n streams hist" "seq_sorted hist" "limit \<le> 0"
  shows "rings_backlog n streams s limit = last_n n (of_stream s hist)"
proof (cases "s = []")
  case False
  with stream_backlog [OF assms(1) False, of limit] assms(3) show ?thesis by simp
next
  case True
  have "rings_backlog n streams [] limit = last_n n (filter (held n hist) hist)"
    using assms(3) merged_rings [OF assms(1,2)]
    by (simp add: rings_backlog_def Let_def last_n_def)
  also have "\<dots> = last_n n hist"
    by (rule last_n_filter_keep) (auto simp: held_def intro!: last_n_of_stream [OF order_refl])
  finally show ?thesis using True by (simp add: of_stream_def)
qed

section \<open>The interface of a store\<close>

text \<open>
  \<open>logstore.Store\<close>, as its clients rely on it.  \<open>repr st h\<close>: the store's rings stand for the
  history \<open>h\<close> of accepted records.  An append either accepts the record with the next
  sequence number and publishes it once, or refuses it and changes nothing a client sees.
\<close>

definition published :: "rec \<Rightarrow> string list option \<Rightarrow> fanout \<Rightarrow> fanout" where
  "published r names f = publish_line r (case names of None \<Rightarrow> f | Some ns \<Rightarrow> publish_streams ns f)"

locale log_store =
  fixes repr :: "'st \<Rightarrow> rec list \<Rightarrow> bool"
    and append_rec :: "'io \<Rightarrow> rec \<Rightarrow> 'st \<Rightarrow> bool \<times> 'st"
    and backlog :: "string \<Rightarrow> int \<Rightarrow> 'st \<Rightarrow> rec list"
    and feeds :: "'st \<Rightarrow> fanout"
    and keep :: "'st \<Rightarrow> nat"
  assumes ordered: "repr st h \<Longrightarrow> seq_sorted h \<and> (\<forall>r\<in>set h. 0 < r_seq r)"
    and accepted: "repr st h \<Longrightarrow> append_rec io r st = (True, st') \<Longrightarrow>
      \<exists>q names. repr st' (h @ [r\<lparr>r_seq := q\<rparr>]) \<and> keep st' = keep st \<and>
        feeds st' = published (r\<lparr>r_seq := q\<rparr>) names (feeds st)"
    and refused: "repr st h \<Longrightarrow> append_rec io r st = (False, st') \<Longrightarrow>
      repr st' h \<and> keep st' = keep st \<and> feeds st' = feeds st"
    and newest: "repr st h \<Longrightarrow> limit \<le> int (keep st) \<Longrightarrow>
      backlog s limit st = last_n (if limit \<le> 0 then keep st else nat limit) (of_stream s h)"
begin

text \<open>A run of appends: the records accepted, with their sequence numbers.\<close>

fun append_all :: "('io \<times> rec) list \<Rightarrow> 'st \<Rightarrow> 'st" where
  "append_all [] st = st"
| "append_all ((io, r) # rs) st = append_all rs (snd (append_rec io r st))"

lemma append_all_repr:
  "repr st h \<Longrightarrow> \<exists>h'. repr (append_all rs st) (h @ h') \<and> keep (append_all rs st) = keep st"
proof (induction rs arbitrary: st h)
  case Nil
  then show ?case by (auto intro: exI [of _ "[]"])
next
  case (Cons p rs)
  obtain io r where p: "p = (io, r)" by (cases p)
  obtain ok st' where a: "append_rec io r st = (ok, st')" by fastforce
  have "\<exists>h1. repr st' (h @ h1) \<and> keep st' = keep st"
  proof (cases ok)
    case True
    with a accepted [OF Cons.prems, of io r st'] show ?thesis by auto
  next
    case False
    with a refused [OF Cons.prems, of io r st'] show ?thesis by (auto intro: exI [of _ "[]"])
  qed
  with Cons.IH a p show ?case by (metis append.assoc append_all.simps(2) snd_conv)
qed

end

section \<open>The memory store is one\<close>

definition memory_repr :: "memory \<Rightarrow> rec list \<Rightarrow> bool" where
  "memory_repr m h \<longleftrightarrow>
     rings_hold (m_size m) (m_streams m) h \<and> map r_seq h = [1 ..< m_seq m + 1] \<and>
     set (m_order m) = fst ` set (m_streams m) \<and> distinct (m_order m)"

lemma seq_upto_sorted:
  assumes "map r_seq h = [1 ..< n + 1]"
  shows "seq_sorted h \<and> (\<forall>r\<in>set h. 0 < r_seq r)"
proof -
  have "\<forall>q\<in>set (map r_seq h). 0 < q" unfolding assms by auto
  moreover have "sorted_wrt (<) (map r_seq h)" unfolding assms by (rule sorted_wrt_upt)
  ultimately show ?thesis by (simp add: seq_sorted_def del: upt_Suc)
qed

lemma memory_append_repr:
  assumes "memory_repr m h"
  shows "memory_repr (memory_append r m) (h @ [r\<lparr>r_seq := m_seq m + 1\<rparr>])"
  using assms push_stream_holds [of "m_size m" "m_streams m" h "r\<lparr>r_seq := m_seq m + 1\<rparr>"]
  by (auto simp: memory_repr_def memory_append_def Let_def push_stream_def update_keys
      map_of_eq_None_iff dom_update)

lemma memory_append_feeds:
  "\<exists>names. m_fanout (memory_append r m) = published (r\<lparr>r_seq := m_seq m + 1\<rparr>) names (m_fanout m)"
  by (cases "map_of (m_streams m) (r_stream r)")
    (auto simp: memory_append_def Let_def published_def intro: exI [of _ None] exI [of _ "Some _"])

interpretation memory: log_store memory_repr "\<lambda>(_ :: unit) r m. (True, memory_append r m)"
  memory_backlog m_fanout m_size
proof
  show "memory_repr m h \<Longrightarrow> seq_sorted h \<and> (\<forall>r\<in>set h. 0 < r_seq r)" for m h
    by (rule seq_upto_sorted) (simp add: memory_repr_def)
  show "memory_repr m h \<Longrightarrow> limit \<le> int (m_size m) \<Longrightarrow>
      memory_backlog s limit m = last_n (if limit \<le> 0 then m_size m else nat limit) (of_stream s h)"
    for m h limit s
    using rings_backlog_holds [of "m_size m" "m_streams m" h limit s]
      rings_backlog_all [of "m_size m" "m_streams m" h limit s] seq_upto_sorted [of h "m_seq m"]
    by (auto simp: memory_backlog_def memory_repr_def)
  show "\<exists>q names. memory_repr m' (h @ [r\<lparr>r_seq := q\<rparr>]) \<and> m_size m' = m_size m \<and>
        m_fanout m' = published (r\<lparr>r_seq := q\<rparr>) names (m_fanout m)"
    if "memory_repr m h" "(True, memory_append r m) = (True, m')" for m h r m' and io :: unit
  proof -
    have "m_size (memory_append r m) = m_size m" by (simp add: memory_append_def Let_def)
    with that memory_append_repr [OF that(1), of r] memory_append_feeds [of r m] show ?thesis by auto
  qed
qed simp

text \<open>Records numbered from 1 in the order they were appended.\<close>

definition numbered :: "rec list \<Rightarrow> rec list" where
  "numbered rs = map (\<lambda>(q, r). r\<lparr>r_seq := q\<rparr>) (zip [1 ..< length rs + 1] rs)"

lemma numbered_snoc: "numbered (rs @ [r]) = numbered rs @ [r\<lparr>r_seq := length rs + 1\<rparr>]"
proof -
  have "[1 ..< length (rs @ [r]) + 1] = [1 ..< length rs + 1] @ [length rs + 1]"
    using upt_Suc_append [of 1 "length rs + 1"] by (simp del: upt_Suc)
  then show ?thesis by (simp add: numbered_def del: upt_Suc)
qed

lemma memory_append_simps [simp]:
  "m_seq (memory_append r m) = m_seq m + 1"
  "m_size (memory_append r m) = m_size m"
  by (simp_all add: memory_append_def Let_def)

lemma memory_append_order:
  "set (m_order m) = fst ` set (m_streams m) \<Longrightarrow>
   set (m_order (memory_append r m)) = insert (r_stream r) (set (m_order m))"
  by (auto simp: memory_append_def Let_def map_of_eq_None_iff)

lemma memory_run:
  "memory_repr (fold memory_append rs (new_memory n)) (numbered rs) \<and>
   m_seq (fold memory_append rs (new_memory n)) = length rs \<and>
   m_size (fold memory_append rs (new_memory n)) = m_size (new_memory n) \<and>
   set (m_order (fold memory_append rs (new_memory n))) = r_stream ` set rs"
proof (induction rs rule: rev_induct)
  case Nil
  then show ?case
    by (simp add: memory_repr_def new_memory_def numbered_def rings_hold_def)
next
  case (snoc r rs)
  let ?m = "fold memory_append rs (new_memory n)"
  from snoc have "set (m_order ?m) = fst ` set (m_streams ?m)" by (simp add: memory_repr_def)
  with snoc memory_append_repr [of ?m "numbered rs" r] memory_append_order [of ?m r] show ?case
    by (simp add: numbered_snoc)
qed

text \<open>
  C7: whatever was appended, the in-memory store's backlog of a stream, or of every stream
  merged, is exactly the newest records of it, as many as asked for (all it keeps for a limit
  of zero or less), in the order they arrived, with the sequence numbers counting from 1;
  and it lists every stream once.
\<close>

theorem memory_backlog_exact:
  fixes n limit :: int
  defines "keep \<equiv> if n < 1 then 100 else nat n"
  assumes "limit \<le> int keep"
  shows "memory_backlog s limit (fold memory_append rs (new_memory n)) =
      last_n (if limit \<le> 0 then keep else nat limit) (of_stream s (numbered rs)) \<and>
    set (memory_streams (fold memory_append rs (new_memory n))) = r_stream ` set rs \<and>
    distinct (memory_streams (fold memory_append rs (new_memory n)))"
proof -
  have "m_size (new_memory n) = keep" by (simp add: new_memory_def keep_def)
  with memory_run [of rs n] memory.newest [of "fold memory_append rs (new_memory n)" "numbered rs" limit s]
    assms(2)
  have "memory_backlog s limit (fold memory_append rs (new_memory n)) =
      last_n (if limit \<le> 0 then keep else nat limit) (of_stream s (numbered rs))" by simp
  with memory_run [of rs n] show ?thesis unfolding memory_streams_def memory_repr_def by blast
qed

theorem memory_backlog_exact_witness:
  "map r_seq (memory_backlog ''a'' 2 (fold memory_append
      (map (\<lambda>s. empty_rec\<lparr>r_stream := s\<rparr>) [''a'', ''b'', ''a'', ''a'', ''b'']) (new_memory 3))) = [3, 4]"
proof -
  let ?rs = "map (\<lambda>s. empty_rec\<lparr>r_stream := s\<rparr>) [''a'', ''b'', ''a'', ''a'', ''b'']"
  have "of_stream ''a'' (numbered (map (\<lambda>s. empty_rec\<lparr>r_stream := s\<rparr>) [''a'', ''b'', ''a'', ''a'', ''b''])) =
      map (\<lambda>q. empty_rec\<lparr>r_stream := ''a'', r_seq := q\<rparr>) [1, 3, 4]"
    by (simp add: of_stream_def numbered_def empty_rec_def upt_rec)
  with memory_backlog_exact [of 2 3 "''a''" ?rs]
  have "memory_backlog ''a'' 2 (fold memory_append ?rs (new_memory 3)) =
      last_n 2 (map (\<lambda>q. empty_rec\<lparr>r_stream := ''a'', r_seq := q\<rparr>) [1, 3, 4])" by simp
  then show ?thesis by (simp only:) (simp add: last_n_def)
qed

section \<open>Delivery to a subscriber\<close>

datatype fan_op =
    FanSubscribe string int | FanUnsubscribe nat | FanLine rec | FanStreams "string list"
  | FanReceive nat

definition fan_receive :: "nat \<Rightarrow> fanout \<Rightarrow> event option \<times> fanout" where
  "fan_receive i f =
     (case map_of (f_subs f) i of
        None \<Rightarrow> (None, f)
      | Some s \<Rightarrow> (fst (receive s), f\<lparr>f_subs := AList.update i (snd (receive s)) (f_subs f)\<rparr>))"

fun fan_run :: "fan_op list \<Rightarrow> fanout \<Rightarrow> fanout" where
  "fan_run [] f = f"
| "fan_run (FanSubscribe s b # ops) f = fan_run ops (snd (snd (subscribe s b f)))"
| "fan_run (FanUnsubscribe j # ops) f = fan_run ops (unsubscribe j f)"
| "fan_run (FanLine r # ops) f = fan_run ops (publish_line r f)"
| "fan_run (FanStreams ns # ops) f = fan_run ops (publish_streams ns f)"
| "fan_run (FanReceive j # ops) f = fan_run ops (snd (fan_receive j f))"

text \<open>What subscriber \<open>i\<close> received over a run, and what was published to it.\<close>

fun fan_received :: "nat \<Rightarrow> fan_op list \<Rightarrow> fanout \<Rightarrow> event list" where
  "fan_received i [] f = []"
| "fan_received i (FanReceive j # ops) f =
     (case fan_receive j f of (e, f') \<Rightarrow>
        (case e of Some e \<Rightarrow> if i = j then e # fan_received i ops f' else fan_received i ops f'
                 | None \<Rightarrow> fan_received i ops f'))"
| "fan_received i (op # ops) f = fan_received i ops (fan_run [op] f)"

fun fan_events :: "fan_op list \<Rightarrow> event list" where
  "fan_events [] = []"
| "fan_events (FanLine r # ops) = EventLine r # fan_events ops"
| "fan_events (FanStreams ns # ops) = EventStreams ns # fan_events ops"
| "fan_events (_ # ops) = fan_events ops"

definition fan_ok :: "fanout \<Rightarrow> bool" where
  "fan_ok f \<longleftrightarrow> (\<forall>i s. map_of (f_subs f) i = Some s \<longrightarrow> i < f_next f)"

lemma map_of_map_subs:
  "map_of (map (\<lambda>(i, s). (i, g s)) xs) i = map_option g (map_of xs i)"
  by (induction xs) auto

definition sees :: "event \<Rightarrow> subscription \<Rightarrow> subscription" where
  "sees e s = (if watches s e then send e s else s)"

lemma fan_step_sub:
  assumes "fan_ok f" "map_of (f_subs f) i = Some s" "\<forall>j. op = FanUnsubscribe j \<longrightarrow> j \<noteq> i"
  shows "fan_ok (fan_run [op] f) \<and> map_of (f_subs (fan_run [op] f)) i = Some
    (case op of FanLine r \<Rightarrow> sees (EventLine r) s
     | FanStreams ns \<Rightarrow> sees (EventStreams ns) s
     | FanReceive j \<Rightarrow> if j = i then snd (receive s) else s
     | _ \<Rightarrow> s)"
proof (cases op)
  case (FanSubscribe st b)
  have "i < f_next f" using assms(1,2) by (simp add: fan_ok_def)
  with FanSubscribe assms show ?thesis
    by (auto simp: subscribe_def Let_def fan_ok_def less_SucI split: if_splits)
next
  case (FanUnsubscribe j)
  with assms show ?thesis
    by (auto simp: unsubscribe_def fan_ok_def delete_conv' split: option.splits if_splits)
next
  case (FanLine r)
  with assms show ?thesis
    by (auto simp: publish_line_def fan_ok_def map_of_map_subs sees_def watches_def split: prod.splits)
next
  case (FanStreams ns)
  with assms show ?thesis
    by (auto simp: publish_streams_def fan_ok_def map_of_map_subs sees_def watches_def split: prod.splits)
next
  case (FanReceive j)
  with assms show ?thesis
    by (cases "map_of (f_subs f) j")
      (auto simp: fan_receive_def fan_ok_def update_conv' split: if_splits)
qed

text \<open>What a subscription has been given and not lost, \<open>base\<close> the events meant for it.\<close>

definition accounts :: "event list \<Rightarrow> nat \<Rightarrow> event list \<Rightarrow> subscription \<Rightarrow> bool" where
  "accounts got lost base s \<longleftrightarrow>
     subseq (got @ s_queue s) base \<and> lost + length base = s_dropped s + length (got @ s_queue s)"

lemma send_accounts:
  "accounts got lost base s \<Longrightarrow> accounts got lost (base @ [e]) (send e s)"
  unfolding accounts_def send_def
  by (auto simp flip: append_assoc intro: list_emb_append_mono subseq_append')

lemma sees_accounts:
  "accounts got lost base s \<Longrightarrow>
   accounts got lost (base @ filter (watches s) [e]) (sees e s)"
  by (simp add: sees_def send_accounts)

lemma receive_accounts:
  assumes "accounts got lost base s"
  shows "accounts (got @ (case fst (receive s) of None \<Rightarrow> [] | Some e \<Rightarrow> [e])) lost base (snd (receive s))"
  using assms by (cases "s_queue s") (auto simp: accounts_def receive_def)

lemma sub_fixed [simp]:
  "s_stream (sees e s) = s_stream s" "s_stream (snd (receive s)) = s_stream s"
  by (auto simp: sees_def send_def receive_def split: list.splits)

lemma watches_cong: "s_stream s' = s_stream s \<Longrightarrow> watches s' = watches s"
  by (auto simp: watches_def fun_eq_iff split: event.splits)

lemma fan_run_cons: "fan_run (op # ops) f = fan_run ops (fan_run [op] f)"
  by (cases op) simp_all

lemma fan_events_cons: "fan_events (op # ops) = fan_events [op] @ fan_events ops"
  by (cases op) simp_all

lemma fan_received_cons:
  "fan_received i (op # ops) f = fan_received i [op] f @ fan_received i ops (fan_run [op] f)"
  by (cases op) (auto split: prod.splits option.splits)

lemma fan_step_accounts:
  assumes "fan_ok f" "map_of (f_subs f) i = Some s" "op \<noteq> FanUnsubscribe i" "accounts got lost base s"
  shows "\<exists>s'. fan_ok (fan_run [op] f) \<and> map_of (f_subs (fan_run [op] f)) i = Some s' \<and>
    s_stream s' = s_stream s \<and>
    accounts (got @ fan_received i [op] f) lost (base @ filter (watches s) (fan_events [op])) s'"
  using fan_step_sub [OF assms(1,2), of op] assms(3,4) sees_accounts [OF assms(4)]
    receive_accounts [OF assms(4)] assms(2)
  by (cases op) (auto simp: fan_receive_def split: option.splits)

lemma fan_run_accounts:
  assumes "fan_ok f" "map_of (f_subs f) i = Some s" "FanUnsubscribe i \<notin> set ops"
    "accounts got lost base s"
  shows "\<exists>s'. map_of (f_subs (fan_run ops f)) i = Some s' \<and>
    accounts (got @ fan_received i ops f) lost (base @ filter (watches s) (fan_events ops)) s'"
  using assms
proof (induction ops arbitrary: f s got base)
  case Nil
  then show ?case by auto
next
  case (Cons op ops)
  from Cons.prems fan_step_accounts [OF Cons.prems(1,2) _ Cons.prems(4), of op] obtain s1 where
    s1: "fan_ok (fan_run [op] f)" "map_of (f_subs (fan_run [op] f)) i = Some s1" "s_stream s1 = s_stream s"
      "accounts (got @ fan_received i [op] f) lost (base @ filter (watches s) (fan_events [op])) s1"
    by auto
  from Cons.IH [OF s1(1,2) _ s1(4)] Cons.prems(3) watches_cong [OF s1(3)] show ?case
    by (subst fan_run_cons, subst fan_received_cons, subst fan_events_cons) simp
qed

text \<open>
  C8: whatever is published to whoever, a subscriber that has not closed receives, together
  with what is still buffered for it, the events it watches in the order they were published,
  less exactly as many as its drop counter says; nothing twice and nothing it does not watch.
\<close>

theorem fanout_delivery:
  assumes "fan_ok f" "subscribe stream buffer f = (s, Some i, f')" "FanUnsubscribe i \<notin> set ops"
  shows "\<exists>s'. map_of (f_subs (fan_run ops f')) i = Some s' \<and>
    subseq (fan_received i ops f' @ s_queue s') (filter (watches s) (fan_events ops)) \<and>
    length (fan_received i ops f' @ s_queue s') + s_dropped s' = length (filter (watches s) (fan_events ops)) \<and>
    (s_dropped s' = 0 \<longrightarrow> fan_received i ops f' @ s_queue s' = filter (watches s) (fan_events ops))"
proof -
  from assms(2) have f': "map_of (f_subs f') i = Some s" "fan_ok f'" and s: "s_queue s = []" "s_dropped s = 0"
    using assms(1) by (auto simp: subscribe_def Let_def fan_ok_def less_SucI split: if_splits)
  then have "accounts [] 0 [] s" by (simp add: accounts_def)
  from fan_run_accounts [OF f'(2,1) assms(3) this] obtain s' where
    s': "map_of (f_subs (fan_run ops f')) i = Some s'"
      "accounts (fan_received i ops f') 0 (filter (watches s) (fan_events ops)) s'" by auto
  then have "s_dropped s' = 0 \<longrightarrow> fan_received i ops f' @ s_queue s' = filter (watches s) (fan_events ops)"
    using subseq_same_length by (fastforce simp: accounts_def)
  with s' show ?thesis by (auto simp: accounts_def)
qed

theorem fanout_delivery_witness:
  "\<exists>s'. map_of (f_subs (fan_run [FanLine empty_rec, FanLine empty_rec, FanReceive 0, FanLine empty_rec,
       FanLine empty_rec] (snd (snd (subscribe [] 2 empty_fanout))))) 0 = Some s' \<and> s_dropped s' = 1"
proof -
  let ?ops = "[FanLine empty_rec, FanLine empty_rec, FanReceive 0, FanLine empty_rec, FanLine empty_rec]"
  let ?s = "fst (subscribe [] 2 empty_fanout)"
  let ?f = "snd (snd (subscribe [] 2 empty_fanout))"
  have "subscribe [] 2 empty_fanout = (?s, Some 0, ?f)"
    by (simp add: subscribe_def empty_fanout_def Let_def)
  moreover have "fan_ok empty_fanout" by (simp add: fan_ok_def empty_fanout_def)
  ultimately obtain s' where s': "map_of (f_subs (fan_run ?ops ?f)) 0 = Some s'"
    "length (fan_received 0 ?ops ?f @ s_queue s') + s_dropped s' = length (filter (watches ?s) (fan_events ?ops))"
    using fanout_delivery [of empty_fanout "[]" 2 ?s 0 ?f ?ops] by auto
  have "map_option s_dropped (map_of (f_subs (fan_run ?ops ?f)) 0) = Some 1" by code_simp
  with s' show ?thesis by auto
qed

end
