(* ===== verification/Catalog.thy ===== *)
theory Catalog
  imports RecordModel "HOL-Library.AList"
begin

text \<open>
  The catalog, \<open>src/internal/catalog/catalog.go\<close> with its tables in \<open>schema.sql\<close>.

  A table is a list of its rows; every method of \<open>Catalog\<close> is the transaction it runs, with
  the statements of the source as updates of the tables.  \<open>ok\<close> is whether the database carries
  the transaction out: when it does not, it rolls back and nothing changes.  Timestamps of the
  tables are microseconds; \<open>now\<close> is the clock.
\<close>

section \<open>The tables\<close>

definition StateLive :: string where "StateLive = ''live''"
definition StateTombstoned :: string where "StateTombstoned = ''tombstoned''"

record cat_file =
  fl_id :: nat
  fl_stream :: string
  fl_path :: string
  fl_level :: int
  fl_min_ts :: int
  fl_max_ts :: int
  fl_min_seq :: nat
  fl_max_seq :: nat
  fl_rows :: int
  fl_bytes :: int
  fl_has_raw :: bool
  fl_state :: string
  fl_created :: "int option"
  fl_level_floor :: string
  fl_tombstoned_at :: "int option"

record column =
  cl_name :: string
  cl_source_key :: string
  cl_kind :: string
  cl_polymorphic :: bool
  cl_null_count :: int
  cl_min_value :: string
  cl_max_value :: string
  cl_has_range :: bool

record schema_key =
  k_kind :: string
  k_polymorphic :: bool
  k_occurrences :: int
  k_first_seen :: int
  k_last_seen :: int

record stream_row =
  sr_first_seen :: int
  sr_last_seen :: int
  sr_rows :: int
  sr_bytes :: int

record catalog =
  c_files :: "cat_file list"
  c_columns :: "(nat \<times> column) list"
  c_keys :: "((string \<times> string) \<times> schema_key) list"
  c_streams :: "(string \<times> stream_row) list"
  c_pending :: "(string \<times> int) list"
  c_max_seq :: "nat option"       \<comment> \<open>the row \<open>max_seq\<close> of \<open>meta\<close>\<close>
  c_recounted :: bool             \<comment> \<open>the row \<open>rollups_recounted\<close> of \<open>meta\<close>\<close>
  c_next_id :: nat                \<comment> \<open>\<open>AUTOINCREMENT\<close>\<close>

datatype cat_error = DbFailed | DuplicateColumn string | Registered string | RemoveObject

definition empty_catalog :: catalog where
  "empty_catalog = \<lparr>c_files = [], c_columns = [], c_keys = [], c_streams = [], c_pending = [],
     c_max_seq = None, c_recounted = True, c_next_id = 1\<rparr>"

section \<open>Registering a file\<close>

definition file_at :: "string \<Rightarrow> catalog \<Rightarrow> cat_file option" where
  "file_at path c = find (\<lambda>f. fl_path f = path) (c_files c)"

text \<open>The upsert of \<open>schema_keys\<close>.\<close>

definition upsert_key ::
  "cat_file \<Rightarrow> bool \<Rightarrow> column \<Rightarrow> ((string \<times> string) \<times> schema_key) list \<Rightarrow> ((string \<times> string) \<times> schema_key) list"
where
  "upsert_key f count col keys =
     (let occurrences = (if count then fl_rows f - cl_null_count col else 0);
          new = \<lparr>k_kind = cl_kind col, k_polymorphic = cl_polymorphic col, k_occurrences = occurrences,
                 k_first_seen = fl_min_ts f, k_last_seen = fl_max_ts f\<rparr>
      in AList.update (fl_stream f, cl_source_key col)
           (case map_of keys (fl_stream f, cl_source_key col) of
              None \<Rightarrow> new
            | Some old \<Rightarrow> old
                \<lparr>k_occurrences := k_occurrences old + occurrences,
                 k_last_seen := max (k_last_seen old) (fl_max_ts f),
                 k_polymorphic := k_polymorphic old \<or> cl_polymorphic col \<or> k_kind old \<noteq> cl_kind col,
                 k_kind := (if k_kind old = cl_kind col then k_kind old else ''string'')\<rparr>) keys)"

text \<open>The upsert of \<open>streams\<close>.\<close>

definition upsert_stream :: "cat_file \<Rightarrow> (string \<times> stream_row) list \<Rightarrow> (string \<times> stream_row) list" where
  "upsert_stream f streams =
     AList.update (fl_stream f)
       (case map_of streams (fl_stream f) of
          None \<Rightarrow> \<lparr>sr_first_seen = fl_min_ts f, sr_last_seen = fl_max_ts f, sr_rows = fl_rows f,
                   sr_bytes = fl_bytes f\<rparr>
        | Some old \<Rightarrow> old
            \<lparr>sr_first_seen := min (sr_first_seen old) (fl_min_ts f),
             sr_last_seen := max (sr_last_seen old) (fl_max_ts f),
             sr_rows := sr_rows old + fl_rows f, sr_bytes := sr_bytes old + fl_bytes f\<rparr>) streams"

definition set_meta_max :: "nat \<Rightarrow> nat option \<Rightarrow> nat option" where
  "set_meta_max q m = Some (case m of None \<Rightarrow> q | Some old \<Rightarrow> if q > old then q else old)"

text \<open>The row with its defaults, and the inserts that follow once the path is known to be new.\<close>

definition file_row :: "int \<Rightarrow> nat \<Rightarrow> cat_file \<Rightarrow> cat_file" where
  "file_row now i f = f\<lparr>fl_id := i, fl_state := (if fl_state f = [] then StateLive else fl_state f),
     fl_created := (case fl_created f of None \<Rightarrow> Some now | t \<Rightarrow> t), fl_tombstoned_at := None\<rparr>"

definition insert_rows :: "cat_file \<Rightarrow> column list \<Rightarrow> bool \<Rightarrow> catalog \<Rightarrow> catalog" where
  "insert_rows f cols count c = c
     \<lparr>c_files := c_files c @ [f], c_next_id := c_next_id c + 1,
      c_columns := c_columns c @ map (\<lambda>col. (fl_id f, if cl_has_range col then col
         else col\<lparr>cl_min_value := [], cl_max_value := []\<rparr>)) cols,
      c_keys := fold (upsert_key f count) cols (c_keys c),
      c_streams := upsert_stream f (c_streams c),
      c_max_seq := set_meta_max (fl_max_seq f) (c_max_seq c)\<rparr>"

definition insertFileTx ::
  "int \<Rightarrow> cat_file \<Rightarrow> column list \<Rightarrow> bool \<Rightarrow> catalog \<Rightarrow> cat_error + (nat \<times> bool \<times> catalog)" where
  "insertFileTx now f0 cols count c0 =
     (let c = c0\<lparr>c_pending := AList.delete (fl_path f0) (c_pending c0)\<rparr>
      in case file_at (fl_path f0) c of
           Some old \<Rightarrow> Inr (fl_id old, True, c)
         | None \<Rightarrow>
             (if \<not> distinct (map cl_name cols) then Inl (DuplicateColumn (fl_path f0))
              else Inr (c_next_id c, False,
                        insert_rows (file_row now (c_next_id c) f0) cols count c)))"

definition register ::
  "bool \<Rightarrow> int \<Rightarrow> cat_file \<Rightarrow> column list \<Rightarrow> catalog \<Rightarrow> (cat_error + (nat \<times> bool)) \<times> catalog" where
  "register ok now f cols c =
     (if \<not> ok then (Inl DbFailed, c)
      else case insertFileTx now f cols True c of
        Inl e \<Rightarrow> (Inl e, c)
      | Inr (i, existed, c') \<Rightarrow> (Inr (i, existed), c'))"

section \<open>Retiring files\<close>

definition file_by_id :: "nat \<Rightarrow> catalog \<Rightarrow> cat_file option" where
  "file_by_id i c = find (\<lambda>f. fl_id f = i) (c_files c)"

definition adjustRollupTx :: "nat \<Rightarrow> int \<Rightarrow> catalog \<Rightarrow> catalog" where
  "adjustRollupTx i sign c =
     (case file_by_id i c of
        None \<Rightarrow> c
      | Some f \<Rightarrow>
          (case map_of (c_streams c) (fl_stream f) of
             None \<Rightarrow> c
           | Some r \<Rightarrow> c\<lparr>c_streams := AList.update (fl_stream f)
               (r\<lparr>sr_rows := max 0 (sr_rows r + sign * fl_rows f),
                 sr_bytes := max 0 (sr_bytes r + sign * fl_bytes f)\<rparr>) (c_streams c)\<rparr>))"

definition tombstone_row :: "int \<Rightarrow> nat \<Rightarrow> cat_file \<Rightarrow> cat_file" where
  "tombstone_row now i f =
     (if fl_id f = i \<and> fl_state f = StateLive
      then f\<lparr>fl_state := StateTombstoned, fl_tombstoned_at := Some now\<rparr> else f)"

fun retireTx :: "int \<Rightarrow> nat list \<Rightarrow> catalog \<Rightarrow> catalog" where
  "retireTx now [] c = c"
| "retireTx now (i # ids) c =
     retireTx now ids
       (if \<exists>f\<in>set (c_files c). fl_id f = i \<and> fl_state f = StateLive
        then adjustRollupTx i (-1) (c\<lparr>c_files := map (tombstone_row now i) (c_files c)\<rparr>)
        else c)"

fun insert_outputs ::
  "int \<Rightarrow> (cat_file \<times> column list) list \<Rightarrow> catalog \<Rightarrow> cat_error + (nat list \<times> catalog)" where
  "insert_outputs now [] c = Inr ([], c)"
| "insert_outputs now ((f, cols) # outs) c =
     (case insertFileTx now f cols False c of
        Inl e \<Rightarrow> Inl e
      | Inr (i, existed, c') \<Rightarrow>
          (if existed then Inl (Registered (fl_path f))
           else case insert_outputs now outs c' of
             Inl e \<Rightarrow> Inl e
           | Inr (ids, c'') \<Rightarrow> Inr (i # ids, c'')))"

definition replace_files ::
  "bool \<Rightarrow> int \<Rightarrow> (cat_file \<times> column list) list \<Rightarrow> nat list \<Rightarrow> catalog \<Rightarrow> (cat_error + nat list) \<times> catalog"
where
  "replace_files ok now outs inputs c =
     (if \<not> ok then (Inl DbFailed, c)
      else case insert_outputs now outs c of
        Inl e \<Rightarrow> (Inl e, c)
      | Inr (ids, c') \<Rightarrow> (Inr ids, retireTx now inputs c'))"

definition tombstone :: "bool \<Rightarrow> int \<Rightarrow> nat list \<Rightarrow> catalog \<Rightarrow> cat_error option \<times> catalog" where
  "tombstone ok now ids c =
     (if ids = [] then (None, c)
      else if \<not> ok then (Some DbFailed, c)
      else (None, retireTx now ids c))"

definition collectable :: "int \<Rightarrow> catalog \<Rightarrow> cat_file list" where
  "collectable before c =
     sort_key (\<lambda>f. the (fl_tombstoned_at f))
       (filter (\<lambda>f. fl_state f = StateTombstoned \<and>
          (case fl_tombstoned_at f of None \<Rightarrow> False | Some t \<Rightarrow> t \<le> before)) (c_files c))"

text \<open>The columns of the row go with it: \<open>ON DELETE CASCADE\<close>.\<close>

definition forget :: "bool \<Rightarrow> nat \<Rightarrow> catalog \<Rightarrow> cat_error option \<times> catalog" where
  "forget ok i c =
     (if ok
      then (None, c\<lparr>c_files := filter (\<lambda>f. fl_id f \<noteq> i) (c_files c),
                    c_columns := filter (\<lambda>(j, _). j \<noteq> i) (c_columns c)\<rparr>)
      else (Some DbFailed, c))"

section \<open>Declared writes\<close>

definition intend_row :: "int \<Rightarrow> string \<Rightarrow> catalog \<Rightarrow> catalog" where
  "intend_row now path c =
     (if file_at path c \<noteq> None then c
      else c\<lparr>c_pending := AList.update path now (c_pending c)\<rparr>)"

definition intend :: "bool \<Rightarrow> int \<Rightarrow> string list \<Rightarrow> catalog \<Rightarrow> (cat_error + string list) \<times> catalog" where
  "intend ok now paths c =
     (if ok
      then (Inr (filter (\<lambda>p. file_at p c \<noteq> None) paths), fold (intend_row now) paths c)
      else (Inl DbFailed, c))"

definition abandoned :: "int \<Rightarrow> catalog \<Rightarrow> string list" where
  "abandoned before c = map fst (sort_key snd (filter (\<lambda>(_, t). t < before) (c_pending c)))"

text \<open>\<open>removes\<close> is whether \<open>remove\<close> succeeds; the middle component, whether it was called.\<close>

definition discard ::
  "bool \<Rightarrow> bool \<Rightarrow> string \<Rightarrow> int \<Rightarrow> catalog \<Rightarrow> (cat_error + bool) \<times> bool \<times> catalog" where
  "discard ok removes path before c =
     (case map_of (c_pending c) path of
        None \<Rightarrow> (Inr False, False, c)
      | Some created \<Rightarrow>
          (if created \<ge> before then (Inr False, False, c)
           else if file_at path c \<noteq> None
           then (if ok then (Inr False, False, c\<lparr>c_pending := AList.delete path (c_pending c)\<rparr>)
                 else (Inl DbFailed, False, c))
           else if \<not> removes then (Inl RemoveObject, True, c)
           else if ok then (Inr True, True, c\<lparr>c_pending := AList.delete path (c_pending c)\<rparr>)
           else (Inl DbFailed, True, c)))"

section \<open>Reading\<close>

record cat_query =
  q_stream :: string
  q_from :: "int option"
  q_to :: "int option"
  q_require_key :: string
  q_levels :: "int list"
  q_limit :: int

definition prunes :: "catalog \<Rightarrow> cat_query \<Rightarrow> cat_file \<Rightarrow> bool" where
  "prunes c q f \<longleftrightarrow>
     fl_state f = StateLive \<and>
     (q_stream q \<noteq> [] \<longrightarrow> fl_stream f = q_stream q) \<and>
     (case q_from q of None \<Rightarrow> True | Some t \<Rightarrow> fl_max_ts f \<ge> t div 1000) \<and>
     (case q_to q of None \<Rightarrow> True | Some t \<Rightarrow> fl_min_ts f \<le> t div 1000) \<and>
     (q_levels q \<noteq> [] \<longrightarrow> fl_level f \<in> set (q_levels q)) \<and>
     (q_require_key q \<noteq> [] \<longrightarrow>
        (\<exists>(i, col)\<in>set (c_columns c). i = fl_id f \<and> cl_source_key col = q_require_key q))"

definition prune :: "cat_query \<Rightarrow> catalog \<Rightarrow> cat_file list" where
  "prune q c =
     (let found = sort_key fl_min_ts (sort_key fl_min_seq (filter (prunes c q) (c_files c)))
      in if q_limit q > 0 then take (nat (q_limit q)) found else found)"

definition columns_of :: "nat \<Rightarrow> catalog \<Rightarrow> column list" where
  "columns_of i c = map snd (filter (\<lambda>(j, _). j = i) (c_columns c))"

definition max_seq :: "catalog \<Rightarrow> nat" where
  "max_seq c = (case c_max_seq c of None \<Rightarrow> 0 | Some q \<Rightarrow> q)"

definition live :: "catalog \<Rightarrow> cat_file list" where
  "live c = filter (\<lambda>f. fl_state f = StateLive) (c_files c)"

definition recountRollups :: "catalog \<Rightarrow> catalog" where
  "recountRollups c =
     (if c_recounted c then c
      else c\<lparr>c_recounted := True,
             c_streams := map (\<lambda>(s, r). (s, r
               \<lparr>sr_rows := sum_list (map fl_rows (filter (\<lambda>f. fl_stream f = s \<and> fl_state f = StateLive) (c_files c))),
                sr_bytes := sum_list (map fl_bytes (filter (\<lambda>f. fl_stream f = s \<and> fl_state f = StateLive) (c_files c)))\<rparr>))
               (c_streams c)\<rparr>)"

end
