(* ===== verification/CatalogInv.thy ===== *)
theory CatalogInv
  imports Catalog
begin

text \<open>
  What keeps the catalog right: unique paths and ids, no declaration of a registered path,
  a sequence counter no registered file exceeds, and stream rollups that are the sums over the
  stream's live files.  Every transaction preserves it; the properties of \<open>Register\<close>,
  \<open>Replace\<close>, \<open>Discard\<close> and \<open>Prune\<close> follow.
\<close>

section \<open>The invariant\<close>

definition live_of :: "string \<Rightarrow> cat_file list \<Rightarrow> cat_file list" where
  "live_of s fs = filter (\<lambda>f. fl_stream f = s \<and> fl_state f = StateLive) fs"

definition stream_total :: "(cat_file \<Rightarrow> int) \<Rightarrow> string \<Rightarrow> cat_file list \<Rightarrow> int" where
  "stream_total g s fs = sum_list (map g (live_of s fs))"

definition rollup_ok :: "cat_file list \<Rightarrow> string \<Rightarrow> stream_row option \<Rightarrow> bool" where
  "rollup_ok fs s r \<longleftrightarrow>
     (case r of
        None \<Rightarrow> live_of s fs = []
      | Some r \<Rightarrow> sr_rows r = stream_total fl_rows s fs \<and> sr_bytes r = stream_total fl_bytes s fs)"

definition file_ok :: "cat_file \<Rightarrow> bool" where
  "file_ok f \<longleftrightarrow> 0 \<le> fl_rows f \<and> 0 \<le> fl_bytes f \<and>
     (fl_state f = StateLive \<or> fl_state f = StateTombstoned)"

definition cat_inv :: "catalog \<Rightarrow> bool" where
  "cat_inv c \<longleftrightarrow>
     distinct (map fl_id (c_files c)) \<and> distinct (map fl_path (c_files c)) \<and>
     (\<forall>f\<in>set (c_files c). file_ok f \<and> fl_id f < c_next_id c \<and> fl_max_seq f \<le> max_seq c) \<and>
     (\<forall>s. rollup_ok (c_files c) s (map_of (c_streams c) s)) \<and>
     (\<forall>p. map_of (c_pending c) p \<noteq> None \<longrightarrow> file_at p c = None)"

text \<open>What the store and the compactor register: counts are not negative, the state is left to default.\<close>

definition new_file :: "cat_file \<Rightarrow> bool" where
  "new_file f \<longleftrightarrow> 0 \<le> fl_rows f \<and> 0 \<le> fl_bytes f \<and> fl_state f = []"

lemma state_neq [simp]: "StateTombstoned \<noteq> StateLive" "StateLive \<noteq> StateTombstoned"
  by (simp_all add: StateLive_def StateTombstoned_def)

lemma live_of_append [simp]: "live_of s (fs @ gs) = live_of s fs @ live_of s gs"
  by (simp add: live_of_def)

lemma stream_total_Cons:
  "stream_total g s (f # fs) =
   (if fl_stream f = s \<and> fl_state f = StateLive then g f else 0) + stream_total g s fs"
  by (simp add: stream_total_def live_of_def)

lemma stream_total_append [simp]: "stream_total g s (fs @ gs) = stream_total g s fs + stream_total g s gs"
  by (simp add: stream_total_def)

lemma stream_total_single [simp]:
  "stream_total g s [f] = (if fl_stream f = s \<and> fl_state f = StateLive then g f else 0)"
  by (simp add: stream_total_def live_of_def)

lemma find_None_iff_path: "file_at p c = None \<longleftrightarrow> p \<notin> fl_path ` set (c_files c)"
  by (auto simp: file_at_def find_None_iff)

section \<open>Inserting a file\<close>

text \<open>The catalog with the declaration of a path dropped.\<close>

abbreviation undeclared :: "string \<Rightarrow> catalog \<Rightarrow> catalog" where
  "undeclared p c \<equiv> c\<lparr>c_pending := AList.delete p (c_pending c)\<rparr>"

lemma file_at_undeclared [simp]: "file_at p (undeclared q c) = file_at p c"
  by (simp add: file_at_def)

lemma max_seq_undeclared [simp]: "max_seq (undeclared q c) = max_seq c"
  by (simp add: max_seq_def)

lemma insertFileTx_cases:
  assumes "insertFileTx now f0 cols count c0 = r"
  obtains (existed) old where "file_at (fl_path f0) c0 = Some old"
      "r = Inr (fl_id old, True, undeclared (fl_path f0) c0)"
    | (refused) e where "r = Inl e" "file_at (fl_path f0) c0 = None"
    | (inserted) "file_at (fl_path f0) c0 = None" "distinct (map cl_name cols)"
      "r = Inr (c_next_id c0, False,
         insert_rows (file_row now (c_next_id c0) f0) cols count (undeclared (fl_path f0) c0))"
proof (cases "file_at (fl_path f0) c0")
  case (Some old)
  with assms show ?thesis by (intro existed) (auto simp: insertFileTx_def)
next
  case None
  show ?thesis
  proof (cases "distinct (map cl_name cols)")
    case True
    with assms None show ?thesis by (intro inserted) (simp_all add: insertFileTx_def)
  next
    case False
    with None assms show ?thesis by (intro refused) (auto simp: insertFileTx_def)
  qed
qed

lemma set_meta_max_simp: "(case set_meta_max q m of None \<Rightarrow> 0 | Some x \<Rightarrow> x) =
    max q (case m of None \<Rightarrow> 0 | Some x \<Rightarrow> x)"
  by (simp add: set_meta_max_def max_def split: option.splits)

lemma upsert_rollup:
  assumes "\<forall>s. rollup_ok fs s (map_of streams s)" "fl_state f = StateLive"
  shows "rollup_ok (fs @ [f]) s (map_of (upsert_stream f streams) s)"
proof (cases "fl_stream f = s")
  case False
  with assms(1) show ?thesis
    by (cases "map_of streams s") (auto simp: rollup_ok_def upsert_stream_def update_conv' live_of_def stream_total_def dest: spec [of _ s])
next
  case True
  have "rollup_ok fs s (map_of streams s)" using assms(1) by blast
  with True assms(2) show ?thesis
    by (cases "map_of streams s") (auto simp: rollup_ok_def upsert_stream_def update_conv' stream_total_def live_of_def)
qed

lemma file_row_simps [simp]:
  "fl_path (file_row now i f) = fl_path f" "fl_id (file_row now i f) = i"
  "fl_max_seq (file_row now i f) = fl_max_seq f" "fl_stream (file_row now i f) = fl_stream f"
  "fl_rows (file_row now i f) = fl_rows f" "fl_bytes (file_row now i f) = fl_bytes f"
  "fl_level (file_row now i f) = fl_level f"
  "new_file f \<Longrightarrow> fl_state (file_row now i f) = StateLive"
  "new_file f \<Longrightarrow> file_ok (file_row now i f)"
  by (simp_all add: file_row_def new_file_def file_ok_def)

lemma insert_rows_simps [simp]:
  "c_files (insert_rows f cols count c) = c_files c @ [f]"
  "c_pending (insert_rows f cols count c) = c_pending c"
  "c_streams (insert_rows f cols count c) = upsert_stream f (c_streams c)"
  "c_next_id (insert_rows f cols count c) = c_next_id c + 1"
  "max_seq (insert_rows f cols count c) = max (fl_max_seq f) (max_seq c)"
  using set_meta_max_simp by (simp_all add: insert_rows_def max_seq_def)

lemma insert_inv:
  assumes inv: "cat_inv c" and new: "new_file f" and "insertFileTx now f cols count c = Inr (i, existed, c')"
  shows "cat_inv c'"
  using assms(3)
proof (cases rule: insertFileTx_cases)
  case (existed old)
  with inv show ?thesis
    by (auto simp: cat_inv_def delete_conv' split: if_splits)
next
  case inserted
  let ?f = "file_row now (c_next_id c) f"
  from inserted have c': "c' = insert_rows ?f cols count (undeclared (fl_path f) c)" by simp
  have fresh: "fl_path f \<notin> fl_path ` set (c_files c)" using inserted(1) by (simp add: find_None_iff_path)
  have "rollup_ok (c_files c') s (map_of (c_streams c') s)" for s
    using inv new by (auto simp: c' cat_inv_def intro!: upsert_rollup)
  moreover have "distinct (map fl_id (c_files c')) \<and> distinct (map fl_path (c_files c'))"
    using inv fresh by (auto simp: cat_inv_def c')
  moreover have "\<forall>g\<in>set (c_files c'). file_ok g \<and> fl_id g < c_next_id c' \<and> fl_max_seq g \<le> max_seq c'"
    using inv new by (auto simp: cat_inv_def c')
  moreover have "map_of (c_pending c') p \<noteq> None \<longrightarrow> file_at p c' = None" for p
    using inv by (auto simp: cat_inv_def c' find_None_iff_path delete_conv' split: if_splits)
  ultimately show ?thesis unfolding cat_inv_def by blast
qed simp

section \<open>Retiring files\<close>

lemma live_of_tombstone:
  assumes "distinct (map fl_id fs)" "f \<in> set fs" "fl_state f = StateLive"
  shows "stream_total g s (map (tombstone_row now (fl_id f)) fs) =
    stream_total g s fs - (if fl_stream f = s then g f else 0)"
  using assms
proof (induction fs)
  case (Cons h fs)
  show ?case
  proof (cases "h = f")
    case True
    with Cons.prems have "fl_id f \<notin> fl_id ` set fs" by simp
    then have "\<forall>x\<in>set fs. fl_id x \<noteq> fl_id f" by (metis imageI)
    then have "map (tombstone_row now (fl_id f)) fs = fs"
      by (intro map_idI) (simp add: tombstone_row_def)
    moreover have "fl_state (tombstone_row now (fl_id f) f) = StateTombstoned"
      using Cons.prems by (simp add: tombstone_row_def)
    ultimately show ?thesis
      using True Cons.prems(3) by (simp add: stream_total_Cons)
  next
    case False
    with Cons.prems have "f \<in> set fs" "fl_id h \<noteq> fl_id f" by auto
    moreover from this(2) have "tombstone_row now (fl_id f) h = h" by (simp add: tombstone_row_def)
    moreover have "distinct (map fl_id fs)" using Cons.prems(1) by simp
    ultimately show ?thesis
      using Cons.IH Cons.prems(3) by (simp add: stream_total_Cons)
  qed
qed simp

lemma stream_total_nonneg: "\<forall>f\<in>set fs. 0 \<le> g f \<Longrightarrow> 0 \<le> stream_total g s fs"
  by (auto simp: stream_total_def live_of_def intro!: sum_list_nonneg)

lemma tombstone_row_simps [simp]:
  "fl_id (tombstone_row now i f) = fl_id f" "fl_path (tombstone_row now i f) = fl_path f"
  "fl_max_seq (tombstone_row now i f) = fl_max_seq f" "fl_rows (tombstone_row now i f) = fl_rows f"
  "fl_bytes (tombstone_row now i f) = fl_bytes f" "fl_stream (tombstone_row now i f) = fl_stream f"
  by (simp_all add: tombstone_row_def)

lemma find_tombstone:
  "find (\<lambda>f. fl_id f = i) (map (tombstone_row now j) fs) =
   map_option (tombstone_row now j) (find (\<lambda>f. fl_id f = i) fs)"
  by (induction fs) auto

lemma find_distinct_id:
  "distinct (map fl_id fs) \<Longrightarrow> f \<in> set fs \<Longrightarrow> find (\<lambda>g. fl_id g = fl_id f) fs = Some f"
  by (induction fs) force+

lemma find_path_tombstone:
  "find (\<lambda>f. fl_path f = p) (map (tombstone_row now j) fs) =
   map_option (tombstone_row now j) (find (\<lambda>f. fl_path f = p) fs)"
  by (induction fs) auto

lemma retire_one_inv:
  fixes now :: int
  assumes inv: "cat_inv c" and f: "f \<in> set (c_files c)" "fl_state f = StateLive"
  defines "c' \<equiv> adjustRollupTx (fl_id f) (-1) (c\<lparr>c_files := map (tombstone_row now (fl_id f)) (c_files c)\<rparr>)"
  shows "cat_inv c' \<and> c_files c' = map (tombstone_row now (fl_id f)) (c_files c)"
proof -
  let ?fs = "map (tombstone_row now (fl_id f)) (c_files c)"
  from inv have ids: "distinct (map fl_id (c_files c))"
    and roll: "\<And>s. rollup_ok (c_files c) s (map_of (c_streams c) s)"
    and pos: "\<forall>f\<in>set (c_files c). 0 \<le> fl_rows f" "\<forall>f\<in>set (c_files c). 0 \<le> fl_bytes f"
    by (auto simp: cat_inv_def file_ok_def)
  have mem: "f \<in> set (live_of (fl_stream f) (c_files c))" using f by (simp add: live_of_def)
  then obtain r where r: "map_of (c_streams c) (fl_stream f) = Some r"
    "sr_rows r = stream_total fl_rows (fl_stream f) (c_files c)"
    "sr_bytes r = stream_total fl_bytes (fl_stream f) (c_files c)"
    using roll [of "fl_stream f"] by (auto simp: rollup_ok_def split: option.splits)
  note tot = live_of_tombstone [OF ids f]
  have "0 \<le> stream_total fl_rows (fl_stream f) ?fs" "0 \<le> stream_total fl_bytes (fl_stream f) ?fs"
    using pos by (auto intro!: stream_total_nonneg)
  with tot [of fl_rows "fl_stream f" now] tot [of fl_bytes "fl_stream f" now] r(2,3)
  have new: "max 0 (sr_rows r + -1 * fl_rows f) = stream_total fl_rows (fl_stream f) ?fs"
    "max 0 (sr_bytes r + -1 * fl_bytes f) = stream_total fl_bytes (fl_stream f) ?fs" by simp_all
  have "file_by_id (fl_id f) (c\<lparr>c_files := ?fs\<rparr>) = Some (tombstone_row now (fl_id f) f)"
    by (simp add: file_by_id_def find_tombstone find_distinct_id [OF ids f(1)])
  with r(1) new have c': "c' = c\<lparr>c_files := ?fs, c_streams := AList.update (fl_stream f)
      (r\<lparr>sr_rows := stream_total fl_rows (fl_stream f) ?fs, sr_bytes := stream_total fl_bytes (fl_stream f) ?fs\<rparr>) (c_streams c)\<rparr>"
    by (simp add: c'_def adjustRollupTx_def)
  have empty: "live_of s ?fs = []" if "live_of s (c_files c) = []" for s
    using that by (auto simp: live_of_def filter_empty_conv tombstone_row_def)
  have "rollup_ok ?fs s (map_of (c_streams c') s)" for s
  proof (cases "s = fl_stream f")
    case True
    then show ?thesis by (simp add: c' update_conv' rollup_ok_def)
  next
    case False
    with roll [of s] tot [of fl_rows s now] tot [of fl_bytes s now] empty [of s] show ?thesis
      by (cases "map_of (c_streams c) s") (simp_all add: c' update_conv' rollup_ok_def)
  qed
  moreover have "max_seq c' = max_seq c" "c_next_id c' = c_next_id c" "c_pending c' = c_pending c"
    "c_files c' = ?fs" by (simp_all add: c' max_seq_def)
  moreover have "file_at p c' = None" if "file_at p c = None" for p
    using that by (simp add: file_at_def c' find_path_tombstone)
  moreover have "distinct (map fl_id ?fs) \<and> distinct (map fl_path ?fs)"
    using inv by (simp add: cat_inv_def o_def)
  moreover have "\<forall>g\<in>set ?fs. file_ok g \<and> fl_id g < c_next_id c \<and> fl_max_seq g \<le> max_seq c"
    using inv by (auto simp: cat_inv_def file_ok_def tombstone_row_def)
  ultimately show ?thesis using inv by (simp add: cat_inv_def)
qed

text \<open>What retiring leaves: every live file with a listed id is tombstoned, nothing else changes.\<close>

definition retired :: "int \<Rightarrow> nat list \<Rightarrow> cat_file \<Rightarrow> cat_file" where
  "retired now ids f =
     (if fl_id f \<in> set ids \<and> fl_state f = StateLive
      then f\<lparr>fl_state := StateTombstoned, fl_tombstoned_at := Some now\<rparr> else f)"

lemma retired_Cons: "retired now (i # ids) f = retired now ids (tombstone_row now i f)"
  by (auto simp: retired_def tombstone_row_def)

lemma retireTx_inv:
  "cat_inv c \<Longrightarrow> cat_inv (retireTx now ids c) \<and> c_files (retireTx now ids c) = map (retired now ids) (c_files c)"
proof (induction ids arbitrary: c)
  case Nil
  then show ?case by (simp add: retired_def)
next
  case (Cons i ids)
  show ?case
  proof (cases "\<exists>f\<in>set (c_files c). fl_id f = i \<and> fl_state f = StateLive")
    case True
    then obtain f where f: "f \<in> set (c_files c)" "fl_state f = StateLive" "i = fl_id f" by blast
    define c1 where "c1 = adjustRollupTx i (-1) (c\<lparr>c_files := map (tombstone_row now i) (c_files c)\<rparr>)"
    have "cat_inv c1" "c_files c1 = map (tombstone_row now i) (c_files c)"
      using retire_one_inv [OF Cons.prems f(1,2), of now] unfolding c1_def f(3) by auto
    with Cons.IH [of c1] have "cat_inv (retireTx now ids c1) \<and>
        c_files (retireTx now ids c1) = map (retired now (i # ids)) (c_files c)"
      by (simp add: retired_Cons o_def)
    moreover have "retireTx now (i # ids) c = retireTx now ids c1"
      using True by (simp add: c1_def)
    ultimately show ?thesis by simp
  next
    case False
    then have "map (tombstone_row now i) (c_files c) = c_files c"
      by (intro map_idI) (auto simp: tombstone_row_def)
    moreover have "map (retired now (i # ids)) (c_files c) =
        map (retired now ids) (map (tombstone_row now i) (c_files c))"
      by (simp add: retired_Cons)
    ultimately have "map (retired now (i # ids)) (c_files c) = map (retired now ids) (c_files c)"
      by (simp only:)
    moreover have "retireTx now (i # ids) c = retireTx now ids c"
      unfolding retireTx.simps using False by (simp only: if_False)
    ultimately show ?thesis using Cons.IH [OF Cons.prems] by simp
  qed
qed

lemma live_retired:
  "filter (\<lambda>f. fl_state f = StateLive) (map (retired now ids) fs) =
   filter (\<lambda>f. fl_state f = StateLive \<and> fl_id f \<notin> set ids) fs"
  by (induction fs) (auto simp: retired_def)

section \<open>Every transaction\<close>

lemma insert_outputs_inv:
  assumes "cat_inv c" "\<forall>(f, _)\<in>set outs. new_file f" "insert_outputs now outs c = Inr (ids, c')"
  shows "cat_inv c' \<and> c_next_id c \<le> c_next_id c' \<and> length ids = length outs \<and>
    ids = [c_next_id c ..< c_next_id c'] \<and>
    c_files c' = c_files c @ map (\<lambda>(i, f, _). file_row now i f) (zip ids outs) \<and>
    (\<forall>(f, _)\<in>set outs. file_at (fl_path f) c = None)"
  using assms
proof (induction now outs c arbitrary: ids c' rule: insert_outputs.induct)
  case (1 now c)
  then show ?case by simp
next
  case (2 now f cols outs c)
  from "2.prems"(3) obtain i c1 ids' where ins: "insertFileTx now f cols False c = Inr (i, False, c1)"
    and rest: "insert_outputs now outs c1 = Inr (ids', c')" and ids: "ids = i # ids'"
    by (auto split: sum.splits if_splits prod.splits)
  have c1: "cat_inv c1" using insert_inv [OF "2.prems"(1) _ ins] "2.prems"(2) by simp
  from ins have "file_at (fl_path f) c = None" "i = c_next_id c"
    "c_files c1 = c_files c @ [file_row now i f]" "c_next_id c1 = c_next_id c + 1"
    by (cases rule: insertFileTx_cases; simp)+
  with "2.IH" [OF ins refl refl _ c1 _ rest] "2.prems"(2) ids show ?case
    by (auto simp: find_None_iff_path upt_conv_Cons)
qed

lemma intend_row_inv: "cat_inv c \<Longrightarrow> cat_inv (intend_row now p c)"
  by (auto simp: cat_inv_def intend_row_def file_at_def max_seq_def update_conv')

lemma intend_rows_inv: "cat_inv c \<Longrightarrow> cat_inv (fold (intend_row now) ps c)"
  by (induction ps arbitrary: c) (simp_all add: intend_row_inv)

lemma undeclared_inv: "cat_inv c \<Longrightarrow> cat_inv (undeclared p c)"
  by (auto simp: cat_inv_def delete_conv' split: if_splits)

lemma live_of_filter_dead:
  assumes "\<forall>f\<in>set fs. fl_id f = i \<longrightarrow> fl_state f \<noteq> StateLive"
  shows "live_of s (filter (\<lambda>f. fl_id f \<noteq> i) fs) = live_of s fs"
  using assms by (auto simp: live_of_def intro: filter_cong)

lemma forget_inv:
  assumes "cat_inv c" "\<forall>f\<in>set (c_files c). fl_id f = i \<longrightarrow> fl_state f \<noteq> StateLive"
  shows "cat_inv (snd (forget ok i c))"
proof -
  let ?c = "c\<lparr>c_files := filter (\<lambda>f. fl_id f \<noteq> i) (c_files c),
    c_columns := filter (\<lambda>(j, _). j \<noteq> i) (c_columns c)\<rparr>"
  have at: "file_at p ?c = None" if "file_at p c = None" for p
    using that by (auto simp: find_None_iff_path)
  have roll: "rollup_ok (filter (\<lambda>f. fl_id f \<noteq> i) (c_files c)) s r = rollup_ok (c_files c) s r" for s r
    by (cases r) (simp_all add: rollup_ok_def stream_total_def live_of_filter_dead [OF assms(2)])
  have "cat_inv ?c"
    using assms(1) at by (simp add: cat_inv_def roll distinct_map_filter max_seq_def)
  with assms(1) show ?thesis by (simp add: forget_def)
qed

text \<open>
  A transaction of the server against the catalog.  Only garbage collection forgets rows, and
  only of files \<open>Collectable\<close> listed, which are tombstoned.
\<close>

inductive cat_step :: "catalog \<Rightarrow> catalog \<Rightarrow> bool" where
  register: "new_file f \<Longrightarrow> register ok now f cols c = (r, c') \<Longrightarrow> cat_step c c'"
| replaced: "\<forall>(f, _)\<in>set outs. new_file f \<Longrightarrow> replace_files ok now outs ids c = (r, c') \<Longrightarrow> cat_step c c'"
| tombstone: "tombstone ok now ids c = (e, c') \<Longrightarrow> cat_step c c'"
| forget: "f \<in> set (collectable before c) \<Longrightarrow> forget ok (fl_id f) c = (e, c') \<Longrightarrow> cat_step c c'"
| intend: "intend ok now ps c = (r, c') \<Longrightarrow> cat_step c c'"
| discard: "discard ok removes p before c = (r, called, c') \<Longrightarrow> cat_step c c'"

inductive cat_reachable :: "catalog \<Rightarrow> bool" where
  start: "cat_reachable empty_catalog"
| step: "cat_reachable c \<Longrightarrow> cat_step c c' \<Longrightarrow> cat_reachable c'"

inductive_cases cat_stepE: "cat_step c c'"

lemma register_inv:
  "cat_inv c \<Longrightarrow> new_file f \<Longrightarrow> register ok now f cols c = (r, c') \<Longrightarrow> cat_inv c'"
  by (auto simp: register_def insert_inv split: if_splits sum.splits prod.splits)

lemma replace_inv:
  assumes "cat_inv c" "\<forall>(f, _)\<in>set outs. new_file f" "replace_files ok now outs ids c = (r, c')"
  shows "cat_inv c'"
proof -
  consider "c' = c" | ids' c1 now' where "insert_outputs now outs c = Inr (ids', c1)" "c' = retireTx now ids c1"
    using assms(3) by (auto simp: replace_files_def split: if_splits sum.splits)
  then show ?thesis
    using assms(1) insert_outputs_inv [OF assms(1,2)] retireTx_inv by cases blast+
qed

lemma collectable_dead:
  assumes "cat_inv c" "f \<in> set (collectable before c)"
  shows "\<forall>g\<in>set (c_files c). fl_id g = fl_id f \<longrightarrow> fl_state g \<noteq> StateLive"
proof (intro ballI impI)
  fix g assume g: "g \<in> set (c_files c)" "fl_id g = fl_id f"
  from assms(2) have f: "f \<in> set (c_files c)" "fl_state f = StateTombstoned"
    by (auto simp: collectable_def)
  with g assms(1) have "g = f" by (auto simp: cat_inv_def distinct_map inj_on_def)
  with f show "fl_state g \<noteq> StateLive" by simp
qed

lemma cat_step_inv:
  assumes "cat_step c c'" "cat_inv c"
  shows "cat_inv c'"
  using assms(1)
proof cases
  case (register f ok now cols r)
  with assms(2) show ?thesis using register_inv by blast
next
  case (replaced outs ok now ids r)
  with assms(2) show ?thesis using replace_inv by blast
next
  case (tombstone ok now ids e)
  with assms(2) show ?thesis by (auto simp: tombstone_def retireTx_inv split: if_splits)
next
  case (forget f before ok e)
  with forget_inv [OF assms(2) collectable_dead [OF assms(2) forget(1)], of ok] show ?thesis by simp
next
  case (intend ok now ps r)
  with assms(2) show ?thesis by (auto simp: intend_def intend_rows_inv split: if_splits)
next
  case (discard ok removes p before r called)
  with assms(2) show ?thesis
    by (auto simp: discard_def undeclared_inv split: option.splits if_splits)
qed

lemma empty_inv: "cat_inv empty_catalog"
  by (simp add: cat_inv_def empty_catalog_def rollup_ok_def live_of_def)

lemma reachable_inv: "cat_reachable c \<Longrightarrow> cat_inv c"
  by (induction rule: cat_reachable.induct) (auto intro: empty_inv cat_step_inv)

section \<open>What the catalog promises\<close>

text \<open>
  C9: after any sequence of transactions, failed ones included, every stream's row and byte
  counters are exactly the sums over its live files, paths and ids are unique, no live or
  tombstoned file's sequence numbers exceed the recorded maximum, and nothing registered is
  still declared as pending.
\<close>

theorem catalog_counters:
  assumes "cat_reachable c"
  shows "(\<forall>s r. map_of (c_streams c) s = Some r \<longrightarrow>
            sr_rows r = sum_list (map fl_rows (live_of s (c_files c))) \<and>
            sr_bytes r = sum_list (map fl_bytes (live_of s (c_files c)))) \<and>
         (\<forall>f\<in>set (live c). map_of (c_streams c) (fl_stream f) \<noteq> None) \<and>
         distinct (map fl_path (c_files c)) \<and> distinct (map fl_id (c_files c)) \<and>
         (\<forall>f\<in>set (c_files c). fl_max_seq f \<le> max_seq c \<and> map_of (c_pending c) (fl_path f) = None)"
proof -
  from reachable_inv [OF assms] have inv: "cat_inv c" .
  then have roll: "rollup_ok (c_files c) s (map_of (c_streams c) s)" for s by (simp add: cat_inv_def)
  have "sr_rows r = sum_list (map fl_rows (live_of s (c_files c))) \<and>
      sr_bytes r = sum_list (map fl_bytes (live_of s (c_files c)))" if "map_of (c_streams c) s = Some r" for s r
    using roll [of s] that by (simp add: rollup_ok_def stream_total_def)
  moreover have "map_of (c_streams c) (fl_stream f) \<noteq> None" if "f \<in> set (live c)" for f
  proof
    assume "map_of (c_streams c) (fl_stream f) = None"
    with roll [of "fl_stream f"] have "live_of (fl_stream f) (c_files c) = []" by (simp add: rollup_ok_def)
    with that show False by (auto simp: live_of_def live_def filter_empty_conv)
  qed
  moreover have "map_of (c_pending c) (fl_path f) = None" if "f \<in> set (c_files c)" for f
    using inv that unfolding cat_inv_def find_None_iff_path by blast
  ultimately show ?thesis using inv by (simp add: cat_inv_def)
qed

definition demo_file :: "string \<Rightarrow> nat \<Rightarrow> int \<Rightarrow> cat_file" where
  "demo_file path q rows = \<lparr>fl_id = 0, fl_stream = ''web'', fl_path = path, fl_level = 0, fl_min_ts = 10,
     fl_max_ts = 20, fl_min_seq = q, fl_max_seq = q + 4, fl_rows = rows, fl_bytes = 100 * rows,
     fl_has_raw = True, fl_state = [], fl_created = None, fl_level_floor = [], fl_tombstoned_at = None\<rparr>"

definition demo_catalog :: catalog where
  "demo_catalog = snd (register True 5 (demo_file ''b'' 6 7) []
     (snd (register True 4 (demo_file ''a'' 1 5) [] empty_catalog)))"

lemma demo_new: "0 \<le> rows \<Longrightarrow> new_file (demo_file p q rows)"
  by (simp add: new_file_def demo_file_def)

lemma demo_cat_reachable: "cat_reachable demo_catalog"
proof -
  have step: "cat_step c (snd (register True now (demo_file p q rows) [] c))" if "0 \<le> rows" for now p q rows c
    by (rule cat_step.register [OF demo_new [OF that] prod.collapse [symmetric]])
  note one = cat_reachable.step [OF cat_reachable.start step [where rows = 5 and now = 4 and p = "''a''" and q = 1]]
  show ?thesis
    unfolding demo_catalog_def using cat_reachable.step [OF one step [where rows = 7 and now = 5 and p = "''b''" and q = 6]] by simp
qed

theorem catalog_counters_witness:
  "map_option sr_rows (map_of (c_streams demo_catalog) ''web'') = Some 12 \<and> max_seq demo_catalog \<ge> 10"
proof -
  note c = catalog_counters [OF demo_cat_reachable]
  have files: "map fl_rows (live_of ''web'' (c_files demo_catalog)) = [5, 7]"
    "10 \<in> fl_max_seq ` set (c_files demo_catalog)" by code_simp+
  have "map_of (c_streams demo_catalog) ''web'' \<noteq> None" by code_simp
  then obtain r where "map_of (c_streams demo_catalog) ''web'' = Some r" by blast
  moreover from this c have "sr_rows r = sum_list (map fl_rows (live_of ''web'' (c_files demo_catalog)))"
    by blast
  moreover from files(2) obtain f where "f \<in> set (c_files demo_catalog)" "fl_max_seq f = 10" by auto
  with c have "10 \<le> max_seq demo_catalog" by metis
  ultimately show ?thesis using files(1) by simp
qed

lemma replace_files_spec:
  assumes "cat_inv c" "\<forall>(f, _)\<in>set outs. new_file f" "\<forall>i\<in>set inputs. i < c_next_id c"
    "replace_files ok now outs inputs c = (r, c')"
  shows "case r of
      Inl _ \<Rightarrow> c' = c
    | Inr ids \<Rightarrow>
        live c' = filter (\<lambda>f. fl_id f \<notin> set inputs) (live c) @ map (\<lambda>(i, f, _). file_row now i f) (zip ids outs) \<and>
        length ids = length outs \<and> (\<forall>(f, _)\<in>set outs. file_at (fl_path f) c = None) \<and>
        (\<forall>f\<in>set (c_files c). fl_id f \<in> set inputs \<longrightarrow> fl_state f = StateLive \<longrightarrow>
           f\<lparr>fl_state := StateTombstoned, fl_tombstoned_at := Some now\<rparr> \<in> set (c_files c')) \<and>
        cat_inv c'"
proof (cases r)
  case (Inl e)
  with assms(4) show ?thesis by (auto simp: replace_files_def split: if_splits sum.splits)
next
  case (Inr ids)
  with assms(4) obtain c1 where ins: "insert_outputs now outs c = Inr (ids, c1)" "c' = retireTx now inputs c1"
    by (auto simp: replace_files_def split: if_splits sum.splits)
  note c1 = insert_outputs_inv [OF assms(1,2) ins(1)]
  then have c': "cat_inv c'" "c_files c' = map (retired now inputs) (c_files c1)"
    using retireTx_inv [of c1 now inputs] ins(2) by auto
  let ?new = "map (\<lambda>(i, f, _). file_row now i f) (zip ids outs)"
  have new: "fl_id g \<notin> set inputs \<and> fl_state g = StateLive" if "g \<in> set ?new" for g
  proof -
    from that obtain i f cols where g: "(i, f, cols) \<in> set (zip ids outs)" "g = file_row now i f" by auto
    then have "i \<in> set ids" "new_file f" using assms(2) by (auto dest: set_zip_leftD set_zip_rightD)
    with c1 g assms(3) show ?thesis by fastforce
  qed
  then have "filter (\<lambda>f. fl_state f = StateLive \<and> fl_id f \<notin> set inputs) ?new = ?new"
    by (intro filter_True) blast
  then have "live c' = filter (\<lambda>f. fl_id f \<notin> set inputs) (live c) @ ?new"
    using c1 unfolding live_def c'(2) live_retired by (simp add: conj_commute)
  moreover have "f\<lparr>fl_state := StateTombstoned, fl_tombstoned_at := Some now\<rparr> \<in> set (c_files c')"
    if "f \<in> set (c_files c)" "fl_id f \<in> set inputs" "fl_state f = StateLive" for f
    using that c1 unfolding c'(2) by (force simp: retired_def)
  moreover have "length ids = length outs" "\<forall>(f, _)\<in>set outs. file_at (fl_path f) c = None"
    using c1 by blast+
  ultimately show ?thesis
    using c'(1) unfolding Inr sum.case by blast
qed

text \<open>
  C10: \<open>Replace\<close> is all or nothing.  When it returns ids, the live files are the old ones less
  the inputs, followed by the outputs under paths no file had; every input that was live is
  tombstoned now; and the total of a stream's rows moved by exactly the outputs' less the
  retired inputs'.  When it returns an error, the catalog is unchanged.
\<close>

theorem replace_atomic:
  assumes "cat_inv c" "\<forall>(f, _)\<in>set outs. new_file f" "\<forall>i\<in>set inputs. i < c_next_id c"
    "replace_files ok now outs inputs c = (r, c')"
  shows "case r of
      Inl _ \<Rightarrow> c' = c
    | Inr ids \<Rightarrow>
        live c' = filter (\<lambda>f. fl_id f \<notin> set inputs) (live c) @ map (\<lambda>(i, f, _). file_row now i f) (zip ids outs) \<and>
        length ids = length outs \<and> (\<forall>(f, _)\<in>set outs. file_at (fl_path f) c = None) \<and>
        (\<forall>f\<in>set (c_files c). fl_id f \<in> set inputs \<longrightarrow> fl_state f = StateLive \<longrightarrow>
           f\<lparr>fl_state := StateTombstoned, fl_tombstoned_at := Some now\<rparr> \<in> set (c_files c')) \<and>
        cat_inv c'"
  using replace_files_spec [OF assms] .

theorem replace_atomic_witness:
  "map fl_path (live (snd (replace_files True 9 [(demo_file ''c'' 1 12, [])] [1, 2] demo_catalog))) = [''c'']"
proof -
  have next_id: "c_next_id demo_catalog = 3" by code_simp
  have res: "fst (replace_files True 9 [(demo_file ''c'' 1 12, [])] [1, 2] demo_catalog) = Inr [3]"
    by code_simp
  have old: "filter (\<lambda>f. fl_id f \<notin> set [1, 2]) (live demo_catalog) = []" by code_simp
  have "live (snd (replace_files True 9 [(demo_file ''c'' 1 12, [])] [1, 2] demo_catalog)) =
      filter (\<lambda>f. fl_id f \<notin> set [1, 2]) (live demo_catalog) @
      map (\<lambda>(i, f, _). file_row 9 i f) (zip [3] [(demo_file ''c'' 1 12, [] :: column list)])"
    using replace_atomic [OF reachable_inv [OF demo_cat_reachable], of "[(demo_file ''c'' 1 12, [])]" "[1, 2]"
        True 9 "Inr [3]" "snd (replace_files True 9 [(demo_file ''c'' 1 12, [])] [1, 2] demo_catalog)"]
      res by (simp add: next_id demo_new prod_eq_iff)
  then show ?thesis unfolding old by (simp add: demo_file_def)
qed

text \<open>Transactions from a time on: every declaration made in them is dated no earlier.\<close>

inductive cat_since :: "int \<Rightarrow> catalog \<Rightarrow> catalog \<Rightarrow> bool" for t :: int where
  since_refl: "cat_since t c c"
| since_intend: "cat_since t c0 c \<Longrightarrow> t \<le> now \<Longrightarrow> intend ok now ps c = (r, c') \<Longrightarrow> cat_since t c0 c'"
| since_other: "cat_since t c0 c \<Longrightarrow> cat_step c c' \<Longrightarrow> (\<forall>p. map_of (c_pending c') p \<noteq> None \<longrightarrow>
    map_of (c_pending c') p = map_of (c_pending c) p) \<Longrightarrow> cat_since t c0 c'"

lemma intend_rows_pending:
  "map_of (c_pending (fold (intend_row now) ps c)) p =
   (if p \<in> set ps \<and> file_at p c = None then Some now else map_of (c_pending c) p)"
proof (induction ps arbitrary: c)
  case (Cons q ps)
  have "file_at p (intend_row now q c) = file_at p c" by (simp add: intend_row_def file_at_def)
  with Cons show ?case by (auto simp: intend_row_def update_conv')
qed simp

lemma cat_since_young:
  assumes "cat_since t c0 c" "\<forall>x. map_of (c_pending c0) p = Some x \<longrightarrow> t \<le> x"
  shows "\<forall>x. map_of (c_pending c) p = Some x \<longrightarrow> t \<le> x"
  using assms
proof (induction rule: cat_since.induct)
  case (since_intend c0 c now ok ps r c')
  then show ?case by (auto simp: intend_def intend_rows_pending split: if_splits)
next
  case (since_other c0 c c')
  then show ?case by (metis option.distinct(1))
qed simp

text \<open>Every other transaction only drops declarations, so \<open>other\<close> covers them all.\<close>

lemma insert_outputs_pending:
  "insert_outputs now outs c = Inr (ids, c') \<Longrightarrow> map_of (c_pending c') p \<noteq> None \<Longrightarrow>
   map_of (c_pending c') p = map_of (c_pending c) p"
proof (induction now outs c arbitrary: ids c' rule: insert_outputs.induct)
  case (2 now f cols outs c)
  from "2.prems"(1) obtain i c1 ids' where ins: "insertFileTx now f cols False c = Inr (i, False, c1)"
    and rest: "insert_outputs now outs c1 = Inr (ids', c')"
    by (auto split: sum.splits if_splits prod.splits)
  from "2.IH" [OF ins refl refl _ rest "2.prems"(2)] "2.prems"(2)
  have "map_of (c_pending c') p = map_of (c_pending c1) p" "map_of (c_pending c1) p \<noteq> None" by simp_all
  with ins show ?case
    by (cases rule: insertFileTx_cases) (auto simp: delete_conv' split: if_splits)
qed simp

lemma retire_pending: "c_pending (retireTx now ids c) = c_pending c"
proof (induction ids arbitrary: c)
  case (Cons i ids)
  have "c_pending (adjustRollupTx i s d) = c_pending d" for s d
    by (simp add: adjustRollupTx_def split: option.splits)
  with Cons show ?case by simp
qed simp

lemma register_pending:
  assumes "register ok now f cols c = (r, c')" "map_of (c_pending c') p \<noteq> None"
  shows "map_of (c_pending c') p = map_of (c_pending c) p"
proof (cases "insertFileTx now f cols True c")
  case (Inl e)
  with assms show ?thesis by (auto simp: register_def split: if_splits)
next
  case (Inr x)
  show ?thesis
    using Inr
  proof (cases rule: insertFileTx_cases)
    case (existed old)
    with Inr assms show ?thesis by (auto simp: register_def delete_conv' split: if_splits)
  next
    case inserted
    with Inr assms show ?thesis by (auto simp: register_def delete_conv' split: if_splits)
  qed simp
qed

lemma cat_step_since:
  assumes "cat_since t c0 c" "cat_step c c'" "\<And>ok now ps r. intend ok now ps c = (r, c') \<Longrightarrow> t \<le> now"
  shows "cat_since t c0 c'"
  using assms(2)
proof cases
  case (intend ok now ps r)
  with assms show ?thesis by (blast intro: since_intend)
next
  case (register f ok now cols r)
  with register_pending [OF register(2)] show ?thesis by (blast intro: since_other [OF assms(1,2)])
next
  case (replaced outs ok now ids r)
  then have "map_of (c_pending c') p = map_of (c_pending c) p" if "map_of (c_pending c') p \<noteq> None" for p
    using that insert_outputs_pending [of now outs c _ _ p]
    by (auto simp: replace_files_def retire_pending split: if_splits sum.splits)
  then show ?thesis by (blast intro: since_other [OF assms(1,2)])
next
  case (tombstone ok now ids e)
  then have "c_pending c' = c_pending c" by (auto simp: tombstone_def retire_pending split: if_splits)
  then show ?thesis by (intro since_other [OF assms(1,2)]) simp
next
  case (forget f before ok e)
  then have "c_pending c' = c_pending c" by (auto simp: forget_def split: if_splits)
  then show ?thesis by (intro since_other [OF assms(1,2)]) simp
next
  case (discard ok removes q before r called)
  then have "map_of (c_pending c') p = map_of (c_pending c) p" if "map_of (c_pending c') p \<noteq> None" for p
    using that by (auto simp: discard_def delete_conv' split: option.splits if_splits)
  then show ?thesis by (blast intro: since_other [OF assms(1,2)])
qed

text \<open>
  C11: a sweep never deletes an object a write could still register.  Once \<open>Intend\<close> declared
  a path it reported as not registered, then whatever transactions follow (later declarations
  dated no earlier), \<open>Discard\<close> with a cutoff no later than the declaration does not call
  \<open>remove\<close>; and whatever the cutoff, it never calls it for a path that is registered.
\<close>

theorem discard_safe:
  assumes "cat_inv c" "intend True t ps c = (Inr known, c0)" "p \<in> set ps" "p \<notin> set known"
    "cat_since t c0 c1" "discard ok removes p before c1 = (r, called, c2)"
  shows "(before \<le> t \<longrightarrow> \<not> called \<and> c2 = c1) \<and>
         (file_at p c1 \<noteq> None \<longrightarrow> \<not> called \<and> c_files c2 = c_files c1)"
proof -
  from assms(2-4) have "map_of (c_pending c0) p = Some t"
    by (auto simp: intend_def intend_rows_pending)
  with cat_since_young [OF assms(5), of p] have young: "map_of (c_pending c1) p = Some x \<Longrightarrow> t \<le> x" for x
    by auto
  have "\<not> called \<and> c2 = c1" if b: "before \<le> t"
  proof (cases "map_of (c_pending c1) p")
    case None
    with assms(6) show ?thesis by (simp add: discard_def)
  next
    case (Some x)
    with b young [OF Some] assms(6) show ?thesis by (simp add: discard_def)
  qed
  moreover have "file_at p c1 \<noteq> None \<longrightarrow> \<not> called \<and> c_files c2 = c_files c1"
    using assms(6) by (auto simp: discard_def split: option.splits if_splits)
  ultimately show ?thesis by blast
qed

theorem discard_safe_witness:
  "snd (discard True True ''d'' 50 (snd (intend True 50 [''d''] demo_catalog))) =
     (False, snd (intend True 50 [''d''] demo_catalog))"
proof -
  let ?c = "snd (intend True 50 [''d''] demo_catalog)"
  have "fst (intend True 50 [''d''] demo_catalog) = Inr []" by code_simp
  then have i: "intend True 50 [''d''] demo_catalog = (Inr [], ?c)" by (metis prod.collapse)
  obtain r called c2 where d: "discard True True ''d'' 50 ?c = (r, called, c2)" by (metis prod_cases3)
  from discard_safe [OF reachable_inv [OF demo_cat_reachable] i _ _ since_refl d] show ?thesis
    by (simp add: d)
qed



end
