(* ===== verification/Storage.thy ===== *)
theory Storage
  imports GoText "HOL-Library.AList" "HOL-Library.List_Lexorder"
begin

text \<open>
  The object store, \<open>src/internal/storage/storage.go\<close> and \<open>src/internal/storage/local.go\<close>: the
  naming of objects (\<open>SafeSegment\<close>, and \<open>resolve\<close>, which maps a name onto a path under the root)
  and the visibility of objects (\<open>Create\<close>, \<open>Commit\<close>, \<open>Abort\<close>, \<open>Open\<close>, \<open>Remove\<close>, \<open>List\<close>, \<open>Sweep\<close>).
  Paths are those of a Unix filesystem.
\<close>

section \<open>Safe names\<close>

definition maxSegment :: nat where "maxSegment = 128"

definition safe_rune :: "nat \<Rightarrow> bool" where
  "safe_rune r \<longleftrightarrow> (97 \<le> r \<and> r \<le> 122) \<or> (65 \<le> r \<and> r \<le> 90) \<or> (48 \<le> r \<and> r \<le> 57) \<or>
     r = 45 \<or> r = 95 \<or> r = 46"

definition safe_char :: "nat \<Rightarrow> char" where
  "safe_char r = (if safe_rune r then char_of r else CHR ''_'')"

text \<open>\<open>hash/fnv\<close>'s \<open>New32a\<close> over the bytes of the name.\<close>

definition fnv32a :: "string \<Rightarrow> 32 word" where
  "fnv32a s = foldl (\<lambda>h b. (h XOR of_nat b) * 16777619) 2166136261 (bytes_of s)"

definition SafeSegment :: "string \<Rightarrow> string" where
  "SafeSegment name =
     (if name = [] then ''_unnamed''
      else
        let out = map safe_char (runes name)
        in if out = ''.'' \<or> out = ''..'' then CHR ''_'' # out
           else if maxSegment < length out
           then take (maxSegment - 9) out @ ''-'' @ show_hex8 (fnv32a name)
           else out)"

lemma safe_char_ok: "safe_rune (of_char (safe_char r))"
proof (cases "safe_rune r")
  case True
  then have "r < 256" by (auto simp: safe_rune_def)
  with True show ?thesis by (simp add: safe_char_def)
qed (simp add: safe_char_def safe_rune_def)

lemma hex_digit_ok: "d < 16 \<Longrightarrow> safe_rune (of_char (hex_digit d))"
  by (auto simp: hex_digit_def safe_rune_def)

definition safe_text :: "string \<Rightarrow> bool" where
  "safe_text s \<longleftrightarrow> list_all (\<lambda>c. safe_rune (of_char c)) s"

lemma safe_text_simps [simp]:
  "safe_text []" "safe_text (c # s) \<longleftrightarrow> safe_rune (of_char c) \<and> safe_text s"
  "safe_text (s @ t) \<longleftrightarrow> safe_text s \<and> safe_text t"
  by (simp_all add: safe_text_def)

lemma safe_punct [simp]: "safe_rune 45" "safe_rune 95" "safe_rune 46"
  by (simp_all add: safe_rune_def)

lemma safe_text_take: "safe_text s \<Longrightarrow> safe_text (take n s)"
  by (auto simp: safe_text_def list_all_iff dest: in_set_takeD)

lemma show_hex8_ok: "safe_text (show_hex8 w)"
proof -
  have "unat (x AND 0xF) < 16" for x :: "32 word"
    using word_and_le1 [of x "0xF"] by (simp add: word_le_nat_alt)
  then show ?thesis
    by (simp add: show_hex8_def safe_text_def list_all_iff hex_digit_ok)
qed

lemma runes_safe:
  assumes "safe_text s"
  shows "map safe_char (runes s) = s"
proof -
  have "\<forall>b\<in>set (bytes_of s). b < 0x80"
    using assms by (auto simp: bytes_of_def safe_rune_def safe_text_def list_all_iff)
  then have "runes s = bytes_of s" by (simp add: runes_def decode_runes_ascii o_def)
  with assms show ?thesis
    by (auto simp: bytes_of_def safe_char_def safe_text_def list_all_iff intro: map_idI)
qed

lemma runes_Nil_iff: "runes s = [] \<longleftrightarrow> s = []"
  by (cases s) (simp_all add: runes_def bytes_of_def decode_runes_not_Nil)

lemma safe_out: "safe_text (map safe_char rs)"
  by (simp add: safe_text_def list_all_iff safe_char_ok)

lemma SafeSegment_cases:
  obtains (unnamed) "name = []" "SafeSegment name = ''_unnamed''"
    | (dots) out where "out = ''.'' \<or> out = ''..''" "map safe_char (runes name) = out" "name \<noteq> []"
        "SafeSegment name = CHR ''_'' # out"
    | (long) out where "128 < length out" "safe_text out" "map safe_char (runes name) = out" "name \<noteq> []"
        "SafeSegment name = take 119 out @ ''-'' @ show_hex8 (fnv32a name)"
    | (kept) "SafeSegment name = map safe_char (runes name)" "name \<noteq> []"
        "length (SafeSegment name) \<le> 128" "SafeSegment name \<notin> {''.'', ''..''}"
proof (cases "name = []")
  case True
  then show ?thesis by (intro unnamed) (simp_all add: SafeSegment_def)
next
  case False
  define out where "out = map safe_char (runes name)"
  have safe: "safe_text out" by (simp add: out_def safe_out)
  consider "out = ''.'' \<or> out = ''..''" | "\<not> (out = ''.'' \<or> out = ''..'')" "128 < length out"
    | "\<not> (out = ''.'' \<or> out = ''..'')" "\<not> 128 < length out" by blast
  then show ?thesis
  proof cases
    case 1
    with False show ?thesis by (intro dots [of out]) (auto simp: SafeSegment_def Let_def out_def)
  next
    case 2
    with False show ?thesis
      by (intro long [of out]) (simp_all add: SafeSegment_def Let_def maxSegment_def safe flip: out_def)
  next
    case 3
    with False show ?thesis
      by (intro kept) (simp_all add: SafeSegment_def Let_def maxSegment_def flip: out_def)
  qed
qed

text \<open>
  C13: any stream id at all becomes one path segment that every backend accepts: not empty,
  at most 128 bytes, only letters, digits, dot, underscore and dash, and never \<open>.\<close> or \<open>..\<close>;
  and an id is kept as it is exactly when it is such a segment already.
\<close>

theorem SafeSegment_safe:
  "SafeSegment name \<noteq> [] \<and> length (SafeSegment name) \<le> 128 \<and> safe_text (SafeSegment name) \<and>
   SafeSegment name \<notin> {''.'', ''..''} \<and>
   (SafeSegment name = name \<longleftrightarrow> name \<noteq> [] \<and> length name \<le> 128 \<and> name \<notin> {''.'', ''..''} \<and> safe_text name)"
proof -
  have "SafeSegment name \<noteq> [] \<and> length (SafeSegment name) \<le> 128 \<and> safe_text (SafeSegment name) \<and>
      SafeSegment name \<notin> {''.'', ''..''}" (is ?safe)
  proof (cases rule: SafeSegment_cases [of name])
    case unnamed
    then show ?thesis by (simp add: safe_rune_def)
  next
    case (dots out)
    then show ?thesis by (auto simp: safe_rune_def)
  next
    case (long out)
    then have l: "length (SafeSegment name) = 128" by simp
    then have "SafeSegment name \<noteq> ''.''" "SafeSegment name \<noteq> ''..''" "SafeSegment name \<noteq> []" by auto
    moreover have "safe_text (SafeSegment name)"
      unfolding long(5) using long(2) by (simp add: safe_text_take show_hex8_ok)
    ultimately show ?thesis using l by simp
  next
    case kept
    then show ?thesis by (simp add: safe_out runes_Nil_iff)
  qed
  moreover have "SafeSegment name = name"
    if "name \<noteq> []" "length name \<le> 128" "name \<notin> {''.'', ''..''}" "safe_text name"
    using that runes_safe [OF that(4)] by (simp add: SafeSegment_def Let_def maxSegment_def)
  ultimately show ?thesis by metis
qed

section \<open>Paths under the root\<close>

text \<open>\<open>filepath.Clean\<close> of a rooted path, as its components.\<close>

definition clean_step :: "string list \<Rightarrow> string \<Rightarrow> string list" where
  "clean_step path w =
     (if w = [] \<or> w = ''.'' then path
      else if w = ''..'' then butlast path
      else path @ [w])"

definition path_string :: "string list \<Rightarrow> string" where
  "path_string path = (if path = [] then ''/'' else concat (map (\<lambda>w. CHR ''/'' # w) path))"

datatype path_error = InvalidName string | Escapes string

text \<open>\<open>resolve\<close>, the root given by the components of its absolute path.\<close>

definition resolve :: "string list \<Rightarrow> string \<Rightarrow> path_error + string list" where
  "resolve root name =
     (if name = [] \<or> hd name = CHR ''/'' then Inl (InvalidName name)
      else
        let path = foldl clean_step root (split_on (CHR ''/'') name)
        in if path_string path \<noteq> path_string root \<and>
              \<not> prefix (path_string root @ ''/'') (path_string path)
           then Inl (Escapes name)
           else Inr path)"

definition plain_path :: "string list \<Rightarrow> bool" where
  "plain_path path \<longleftrightarrow> list_all (\<lambda>w. w \<noteq> [] \<and> CHR ''/'' \<notin> set w \<and> w \<noteq> ''.'' \<and> w \<noteq> ''..'') path"

lemma plain_clean: "plain_path path \<Longrightarrow> CHR ''/'' \<notin> set w \<Longrightarrow> plain_path (clean_step path w)"
  by (auto simp: plain_path_def clean_step_def list_all_iff dest: in_set_butlastD)

lemma plain_cleans:
  "plain_path path \<Longrightarrow> \<forall>w\<in>set ws. CHR ''/'' \<notin> set w \<Longrightarrow> plain_path (foldl clean_step path ws)"
  by (induction ws arbitrary: path) (simp_all add: plain_clean)

text \<open>The components of a plain path can be read off its string.\<close>

lemma path_split:
  assumes "plain_path xs" "plain_path ys" "prefix (concat (map (\<lambda>w. CHR ''/'' # w) xs) @ ''/'') (concat (map (\<lambda>w. CHR ''/'' # w) ys))"
  shows "prefix xs ys"
  using assms
proof (induction xs arbitrary: ys)
  case (Cons x xs)
  from Cons.prems(3) obtain y ys' where ys: "ys = y # ys'" by (cases ys) auto
  have "x = y \<and> prefix (concat (map (\<lambda>w. CHR ''/'' # w) xs) @ ''/'') (concat (map (\<lambda>w. CHR ''/'' # w) ys'))"
  proof -
    let ?xs = "concat (map (\<lambda>w. CHR ''/'' # w) xs) @ ''/''" and ?ys = "concat (map (\<lambda>w. CHR ''/'' # w) ys')"
    from Cons.prems(3) obtain zs where e: "x @ ?xs @ zs = y @ ?ys" by (auto simp: ys prefix_def)
    have no: "CHR ''/'' \<notin> set x" "CHR ''/'' \<notin> set y" using Cons.prems(1,2) by (simp_all add: plain_path_def ys)
    have h: "?xs @ zs \<noteq> []" "hd (?xs @ zs) = CHR ''/''" by (cases xs; simp)+
    have t1: "takeWhile (\<lambda>c. c \<noteq> CHR ''/'') (x @ ?xs @ zs) = x"
      using no(1) h by (subst takeWhile_append2) (auto simp: takeWhile_eq_Nil_iff)
    have "x = takeWhile (\<lambda>c. c \<noteq> CHR ''/'') (y @ ?ys)" using t1 e by simp
    also have "\<dots> = y"
    proof (cases "?ys")
      case Nil
      then have "y @ ?ys = y" by simp
      moreover have "takeWhile (\<lambda>c. c \<noteq> CHR ''/'') y = y" using no(2) by (simp add: takeWhile_eq_all_conv) (metis)
      ultimately show ?thesis by simp
    next
      case (Cons c cs)
      then have "c = CHR ''/''" by (cases ys') auto
      with Cons no(2) show ?thesis by (subst takeWhile_append2) auto
    qed
    finally have "x = y" .
    with e have "?ys = ?xs @ zs" by simp
    with \<open>x = y\<close> show ?thesis unfolding prefix_def by blast
  qed
  with Cons.IH [of ys'] Cons.prems(1,2) show ?case by (simp add: ys plain_path_def)
qed simp

text \<open>
  C14: a name \<open>resolve\<close> accepts lands at the root or below it: the path has the root's
  components first and no \<open>.\<close>, \<open>..\<close> or empty component after them, whatever the name was made of.
\<close>

theorem resolve_inside:
  assumes "plain_path root" "root \<noteq> []" "resolve root name = Inr path"
  shows "\<exists>below. path = root @ below \<and> plain_path below"
proof -
  have path: "path = foldl clean_step root (split_on (CHR ''/'') name)"
    and pre: "path_string path = path_string root \<or> prefix (path_string root @ ''/'') (path_string path)"
    using assms(3) by (auto simp: resolve_def Let_def split: if_splits)
  have plain: "plain_path path"
    unfolding path by (rule plain_cleans [OF assms(1)]) (use split_on_no_sep in blast)
  from pre have "prefix root path"
  proof
    assume same: "path_string path = path_string root"
    have "path \<noteq> []"
    proof
      assume "path = []"
      with same assms(1,2) show False by (cases root) (auto simp: path_string_def plain_path_def)
    qed
    with same assms(2) have c: "concat (map (\<lambda>w. CHR ''/'' # w) path) = concat (map (\<lambda>w. CHR ''/'' # w) root)"
      by (simp add: path_string_def)
    have "plain_path (path @ [''x''])" using plain by (simp add: plain_path_def)
    from path_split [OF assms(1) this] have "prefix root (path @ [''x''])" by (simp add: c)
    moreover have "root \<noteq> path @ [''x'']" using c by auto
    ultimately show ?thesis by (simp add: prefix_snoc)
  next
    assume p: "prefix (path_string root @ ''/'') (path_string path)"
    then have "path \<noteq> []" using assms(2) by (cases root) (auto simp: path_string_def prefix_def split: if_splits)
    with p path_split [OF assms(1) plain] assms(2) show ?thesis by (simp add: path_string_def)
  qed
  with plain show ?thesis by (auto simp: prefix_def plain_path_def)
qed

theorem resolve_inside_witness:
  "\<exists>below. [''data'', ''streams'', ''a'', ''L0.parquet''] = [''data''] @ below \<and> plain_path below"
  using resolve_inside [of "[''data'']" "''streams/x/../a/./L0.parquet''" "[''data'', ''streams'', ''a'', ''L0.parquet'']"]
  by (simp add: plain_path_def resolve_def clean_step_def path_string_def)

section \<open>Visibility of objects\<close>

text \<open>
  The tree under the root: the visible objects by name, and the temporary files of writes that
  have not been committed, each with the object it is for, its contents and its age.  \<open>'c\<close> is
  the contents of an object.
\<close>

record 'c temp_object =
  t_final :: string
  t_content :: 'c
  t_modified :: int

record 'c local_store =
  o_objects :: "(string \<times> 'c) list"
  o_temps :: "(nat \<times> 'c temp_object) list"
  o_next :: nat

datatype commit_outcome = CommitOk | SyncFails | CloseFails | RenameFails | DirSyncFails

definition create :: "string \<Rightarrow> 'c \<Rightarrow> int \<Rightarrow> 'c local_store \<Rightarrow> nat \<times> 'c local_store" where
  "create name content now s =
     (o_next s, s\<lparr>o_temps := (o_next s, \<lparr>t_final = name, t_content = content, t_modified = now\<rparr>) # o_temps s,
                 o_next := o_next s + 1\<rparr>)"

text \<open>\<open>Commit\<close>: the temporary file goes whatever happens, and the object appears only by the rename.\<close>

definition commit :: "commit_outcome \<Rightarrow> nat \<Rightarrow> 'c local_store \<Rightarrow> bool \<times> 'c local_store" where
  "commit out i s =
     (case map_of (o_temps s) i of
        None \<Rightarrow> (True, s)
      | Some t \<Rightarrow>
          (let gone = s\<lparr>o_temps := AList.delete i (o_temps s)\<rparr>;
               there = gone\<lparr>o_objects := AList.update (t_final t) (t_content t) (o_objects s)\<rparr>
           in case out of
                CommitOk \<Rightarrow> (True, there)
              | DirSyncFails \<Rightarrow> (False, there)
              | _ \<Rightarrow> (False, gone)))"

definition abort :: "nat \<Rightarrow> 'c local_store \<Rightarrow> 'c local_store" where
  "abort i s = s\<lparr>o_temps := AList.delete i (o_temps s)\<rparr>"

definition open_object :: "string \<Rightarrow> 'c local_store \<Rightarrow> 'c option" where
  "open_object name s = map_of (o_objects s) name"

definition remove_object :: "bool \<Rightarrow> string \<Rightarrow> 'c local_store \<Rightarrow> bool \<times> 'c local_store" where
  "remove_object ok name s =
     (if ok then (True, s\<lparr>o_objects := AList.delete name (o_objects s)\<rparr>) else (False, s))"

definition list_objects :: "string \<Rightarrow> 'c local_store \<Rightarrow> string list" where
  "list_objects pre s =
     sort (filter (\<lambda>n. prefix pre n \<and> \<not> prefix ''.'' (last (split_on (CHR ''/'') n)))
       (map fst (o_objects s)))"

definition sweep_temps :: "string \<Rightarrow> int \<Rightarrow> 'c local_store \<Rightarrow> nat \<times> 'c local_store" where
  "sweep_temps pre before s =
     (let old = (\<lambda>(i, t). prefix pre (t_final t) \<and> t_modified t < before)
      in (length (filter old (o_temps s)), s\<lparr>o_temps := filter (\<lambda>p. \<not> old p) (o_temps s)\<rparr>))"

text \<open>\<open>Create\<close>, the writes and \<open>Commit\<close>, and what the writer does when one fails: \<open>Abort\<close>.\<close>

definition put_object ::
  "commit_outcome option \<Rightarrow> string \<Rightarrow> 'c \<Rightarrow> int \<Rightarrow> 'c local_store \<Rightarrow> bool \<times> 'c local_store" where
  "put_object out name content now s =
     (let (i, s') = create name content now s
      in case out of None \<Rightarrow> (False, abort i s') | Some o' \<Rightarrow> commit o' i s')"

text \<open>What the store and the compactor rely on of a backend.\<close>

locale backend =
  fixes put :: "'io \<Rightarrow> string \<Rightarrow> 'c \<Rightarrow> 'st \<Rightarrow> bool \<times> 'st"
    and get :: "string \<Rightarrow> 'st \<Rightarrow> 'c option"
    and del :: "bool \<Rightarrow> string \<Rightarrow> 'st \<Rightarrow> bool \<times> 'st"
  assumes put_ok: "put io n x s = (True, s') \<Longrightarrow> get m s' = (if m = n then Some x else get m s)"
    and put_failed: "put io n x s = (False, s') \<Longrightarrow>
      get m s' = get m s \<or> m = n \<and> get m s' = Some x"
    and del_ok: "del ok n s = (True, s') \<Longrightarrow> get m s' = (if m = n then None else get m s)"
    and del_failed: "del ok n s = (False, s') \<Longrightarrow> get m s' = get m s"
begin

text \<open>An object that is there stays as it is unless it is written or deleted itself.\<close>

lemma get_other:
  "put io n x s = (r, s') \<Longrightarrow> m \<noteq> n \<Longrightarrow> get m s' = get m s"
  using put_ok [of io n x s s' m] put_failed [of io n x s s' m] by (cases r) simp_all

lemma put_same:
  "put io n x s = (r, s') \<Longrightarrow> get n s = Some x \<Longrightarrow> get n s' = Some x"
  using put_ok [of io n x s s' n] put_failed [of io n x s s' n] by (cases r) auto

end

lemma put_object_get:
  assumes "put_object out n x now s = (r, s')"
  shows "open_object m s' = (if (out = Some CommitOk \<or> out = Some DirSyncFails) \<and> m = n then Some x
      else open_object m s) \<and> (r \<longleftrightarrow> out = Some CommitOk)"
  using assms
  by (auto simp: put_object_def create_def commit_def abort_def open_object_def Let_def update_conv'
      split: option.splits commit_outcome.splits)

lemma remove_object_eq:
  "remove_object ok name s =
   (ok, if ok then s\<lparr>o_objects := AList.delete name (o_objects s)\<rparr> else s)"
  by (simp add: remove_object_def)

lemma remove_object_get:
  assumes "remove_object ok n s = (r, s')"
  shows "r = ok \<and> open_object m s' = (if ok \<and> m = n then None else open_object m s)"
proof -
  from assms have "r = ok" and s': "s' = (if ok then s\<lparr>o_objects := AList.delete n (o_objects s)\<rparr> else s)"
    unfolding remove_object_eq by blast+
  then show ?thesis unfolding s' open_object_def by (cases ok) (simp_all add: delete_conv')
qed

interpretation local_disk: backend "\<lambda>(out, now) n x. put_object out n x now" open_object remove_object
proof (unfold_locales, goal_cases)
  case (1 io n x s s' m)
  then show ?case using put_object_get [of "fst io" n x "snd io" s True s' m]
    by (auto split: prod.splits)
next
  case (2 io n x s s' m)
  then show ?case using put_object_get [of "fst io" n x "snd io" s False s' m]
    by (auto split: prod.splits if_splits)
next
  case (3 ok n s s' m)
  from remove_object_get [OF 3, of m] show ?case by simp
next
  case (4 ok n s s' m)
  from remove_object_get [OF 4, of m] show ?case by simp
qed

end
