(* ===== verification/LogSpec.thy ===== *)
theory LogSpec
  imports WalClaims
begin

text \<open>
  What the durable store sees of the write-ahead log: the records of the active segment, and for
  each sealed segment the records a replay of it delivers and whether it then reports damage.
  \<open>log_view\<close> reads that off a log's files, and every step of the log is a step of this
  specification.
\<close>

record 'r alog =
  a_sealed :: "(nat \<times> 'r list \<times> bool) list"
  a_active :: nat
  a_recs :: "'r list"

definition alog_append :: "bool \<Rightarrow> 'r \<Rightarrow> 'r alog \<Rightarrow> bool \<times> 'r alog" where
  "alog_append ok r l = (ok, if ok then l\<lparr>a_recs := a_recs l @ [r]\<rparr> else l)"

definition alog_rotate :: "bool \<Rightarrow> 'r alog \<Rightarrow> nat option \<times> 'r alog" where
  "alog_rotate ok l =
     (if ok
      then (Some (a_active l),
            l\<lparr>a_sealed := AList.update (a_active l) (a_recs l, False) (a_sealed l),
              a_active := a_active l + 1, a_recs := []\<rparr>)
      else (None, l))"

definition alog_replay :: "nat \<Rightarrow> 'r alog \<Rightarrow> ('r list \<times> bool) option" where
  "alog_replay n l = map_of (a_sealed l) n"

definition alog_drop :: "bool \<Rightarrow> nat \<Rightarrow> 'r alog \<Rightarrow> bool \<times> 'r alog" where
  "alog_drop ok n l = (ok, if ok then l\<lparr>a_sealed := AList.delete n (a_sealed l)\<rparr> else l)"

definition alog_orphans :: "'r alog \<Rightarrow> nat list" where
  "alog_orphans l = sort (map fst (a_sealed l))"

inductive alog_step :: "'r alog \<Rightarrow> 'r alog \<Rightarrow> bool" where
  idle: "alog_step l l"
| append: "alog_append ok r l = (b, l') \<Longrightarrow> alog_step l l'"
| rotate: "alog_rotate ok l = (n, l') \<Longrightarrow> alog_step l l'"
| drop: "alog_drop ok n l = (b, l') \<Longrightarrow> alog_step l l'"

section \<open>The view of a log\<close>

definition segment_view :: "(bytes \<Rightarrow> 'r option) \<Rightarrow> bytes \<Rightarrow> 'r list \<times> bool" where
  "segment_view unmarshal bs = (case read_segment unmarshal bs of (e, rs) \<Rightarrow> (rs, e \<noteq> None))"

definition log_view :: "(bytes \<Rightarrow> 'r option) \<Rightarrow> ('r \<Rightarrow> 'r) \<Rightarrow> 'r wal_sys \<Rightarrow> 'r alog" where
  "log_view unmarshal norm s =
     \<lparr>a_sealed = map (\<lambda>(n, bs). (n, segment_view unmarshal bs)) (w_sealed (y_log s)),
      a_active = w_active (y_log s), a_recs = map norm (y_accepted s)\<rparr>"

lemma map_update:
  "map (\<lambda>(k, v). (k, f v)) (AList.update n v xs) = AList.update n (f v) (map (\<lambda>(k, v). (k, f v)) xs)"
  by (induction xs) auto

lemma map_delete:
  "map (\<lambda>(k, v). (k, f v)) (AList.delete n xs) = AList.delete n (map (\<lambda>(k, v). (k, f v)) xs)"
  by (induction xs) (auto simp: AList.delete_eq)

lemma delete_absent: "map_of xs n = None \<Longrightarrow> AList.delete n xs = xs"
  by (induction xs) (auto simp: AList.delete_eq split: if_splits)

lemma view_same:
  "w_sealed l = w_sealed (y_log s) \<Longrightarrow> w_active l = w_active (y_log s) \<Longrightarrow>
   log_view unmarshal norm (s\<lparr>y_log := l\<rparr>) = log_view unmarshal norm s"
  by (simp add: log_view_def)

lemma view_rotate:
  assumes codec: "codec_ok marshal unmarshal norm" and inv: "sys_inv marshal s" and "y_inflight s = None"
    and rot: "rotate io (y_log s) = (Inr n, l)"
  shows "log_view unmarshal norm (s\<lparr>y_log := l, y_accepted := [], y_promised := 0, y_sealed := h\<rparr>) =
    snd (alog_rotate True (log_view unmarshal norm s))"
proof -
  from inv obtain ps k where act: "active_ok marshal s ps k"
    and sea: "sealed_ok marshal (y_log s) (y_sealed s)"
    by (auto simp: sys_inv_def)
  with assms(3) have log: "log_inv (y_log s) ps None k" and enc: "encodes marshal (y_accepted s) ps"
    by (simp_all add: active_ok_def)
  from rot show ?thesis
  proof (cases rule: rotate_cases)
    case (sealed l1)
    note s1 = syncLocked_inv [OF log sealed(1)] syncLocked_rest [OF sealed(1)]
    from log have "list_all payload_ok ps" by (simp add: log_inv_def)
    from read_stream [OF this encodes_decodes [OF codec enc]]
    have "segment_view unmarshal (stream ps) = (map norm (y_accepted s), False)"
      by (simp add: segment_view_def)
    moreover have "AList.delete (w_active (y_log s) + 1) (w_sealed (y_log s)) = w_sealed (y_log s)"
      using sea by (intro delete_absent) (simp add: sealed_ok_def)
    ultimately show ?thesis
      using s1 by (simp add: sealed log_view_def alog_rotate_def map_update)
  qed simp_all
qed

lemma replay_loop_segment: "fst (replay_loop unmarshal fn bs st) \<noteq> Some NoSegment"
proof (induction unmarshal fn bs st rule: replay_loop.induct)
  case (1 unmarshal fn bs st)
  show ?case
    using 1 by (subst replay_loop.simps) (simp add: Let_def split: option.split prod.split)
qed

lemma replay_bytes_segment: "fst (replay_bytes unmarshal fn bs st) \<noteq> Some NoSegment"
  by (simp add: replay_bytes_def replay_loop_segment)

lemma view_replay:
  assumes "n \<noteq> w_active (y_log s)"
  shows "alog_replay n (log_view unmarshal norm s) =
    (case replay unmarshal collect_fn n (y_log s) [] of
       (Some NoSegment, _) \<Rightarrow> None | (e, rs) \<Rightarrow> Some (rs, e \<noteq> None))"
proof (cases "map_of (w_sealed (y_log s)) n")
  case None
  with assms show ?thesis by (simp add: alog_replay_def log_view_def map_of_map replay_def)
next
  case (Some bs)
  obtain e rs where r: "replay_bytes unmarshal collect_fn bs [] = (e, rs)" by fastforce
  then have "e \<noteq> Some NoSegment" using replay_bytes_segment by (metis fst_conv)
  with r Some assms show ?thesis
    by (auto simp: alog_replay_def log_view_def map_of_map replay_def segment_view_def read_segment_def
        split: option.split replay_error.split)
qed

lemma view_drop:
  "log_view unmarshal norm (s\<lparr>y_log := (y_log s)\<lparr>w_sealed := AList.delete n (w_sealed (y_log s))\<rparr>, y_sealed := h\<rparr>) =
   snd (alog_drop True n (log_view unmarshal norm s))"
  "log_view unmarshal norm (s\<lparr>y_log := (y_log s)\<lparr>w_sealed := AList.delete n (w_sealed (y_log s)), w_quarantine := q\<rparr>, y_sealed := h\<rparr>) =
   snd (alog_drop True n (log_view unmarshal norm s))"
  by (simp_all add: log_view_def alog_drop_def map_delete)

lemma alog_step_snd:
  "alog_step l (snd (alog_append ok r l))" "alog_step l (snd (alog_rotate ok l))"
  "alog_step l (snd (alog_drop ok n l))"
  by (metis alog_step.append prod.collapse, metis alog_step.rotate prod.collapse,
      metis alog_step.drop prod.collapse)

lemma view_append:
  assumes "wal_append marshal io r (y_log s) = (e, l)"
  shows "log_view unmarshal norm (s\<lparr>y_log := l, y_accepted := if e = None then y_accepted s @ [r] else y_accepted s\<rparr>) =
    snd (alog_append (e = None) (norm r) (log_view unmarshal norm s))"
  using wal_append_rest [OF assms] by (simp add: log_view_def alog_append_def)

lemma close_rest: "wal_close io l = (err, l') \<Longrightarrow> w_active l' = w_active l \<and> w_sealed l' = w_sealed l"
  using syncLocked_rest by (fastforce simp: wal_close_def split: if_splits prod.splits)

lemma step_view:
  assumes codec: "codec_ok marshal unmarshal norm" and inv: "sys_inv marshal s"
    and step: "wal_step marshal s op s'"
  shows "alog_step (log_view unmarshal norm s) (log_view unmarshal norm s')"
  using step
proof cases
  case (accept io r l)
  with view_append [OF accept(3)] show ?thesis using alog_step_snd(1) by (metis (full_types))
next
  case (refuse io r e l)
  with wal_append_rest [OF refuse(3)] show ?thesis by (simp add: view_same alog_step.idle)
next
  case (sync_idle io l)
  with sync_begin_rest [OF sync_idle(4)] show ?thesis by (simp add: log_view_def alog_step.idle)
next
  case (sync_refused io e l)
  with sync_begin_rest [OF sync_refused(4)] show ?thesis by (simp add: log_view_def alog_step.idle)
next
  case (sync_started io cov l)
  with sync_begin_rest [OF sync_started(4)] show ?thesis by (simp add: log_view_def alog_step.idle)
next
  case (sync_done cov n io l)
  with sync_end_rest [OF sync_done(4)] show ?thesis by (simp add: log_view_def alog_step.idle)
next
  case (sync_failed cov n io e l)
  with sync_end_rest [OF sync_failed(4)] show ?thesis by (simp add: log_view_def alog_step.idle)
next
  case (rotated io n l)
  show ?thesis unfolding rotated(2) view_rotate [OF codec inv rotated(3,4)] by (rule alog_step_snd)
next
  case (not_rotated io e l)
  from not_rotated(4) have "w_active l = w_active (y_log s) \<and> w_sealed l = w_sealed (y_log s)"
    by (cases rule: rotate_cases) (auto dest: syncLocked_rest)
  with not_rotated show ?thesis by (simp add: view_same alog_step.idle)
next
  case (removed ok n l)
  then have "l = (y_log s)\<lparr>w_sealed := AList.delete n (w_sealed (y_log s))\<rparr>"
    by (auto simp: remove_segment_def split: if_splits)
  then show ?thesis unfolding removed(2) by (simp only: view_drop alog_step_snd)
next
  case (not_removed ok n e l)
  then have "l = y_log s" by (auto simp: remove_segment_def split: if_splits)
  then show ?thesis unfolding not_removed(2) by (simp add: view_same alog_step.idle)
next
  case (quarantined rename_ok sync_ok n err l)
  from quarantined(3) show ?thesis
  proof (cases rule: quarantine_cases)
    case kept
    then show ?thesis unfolding quarantined(2) by (simp add: log_view_def alog_step.idle)
  next
    case (moved bs)
    show ?thesis unfolding quarantined(2) moved(3) by (simp only: view_drop alog_step_snd)
  qed
next
  case (closed io err l)
  with close_rest [OF closed(4)] show ?thesis by (simp add: view_same alog_step.idle)
qed

text \<open>
  C15: the byte-level log refines the store's view of it.  Whatever step the log takes from a
  reachable state, its view takes a step of the specification; an accepted record appears at
  the end of the active segment's view and a refused one leaves the view unchanged; and
  \<open>Replay\<close> of any sealed segment, of this process or an earlier one, delivers exactly the
  records of its view and reports corruption exactly when the view says it is damaged.
\<close>

theorem log_refines_view:
  assumes "codec_ok marshal unmarshal norm" "wal_reachable marshal dir s" "wal_step marshal s op s'"
  shows "alog_step (log_view unmarshal norm s) (log_view unmarshal norm s') \<and>
    (\<forall>io r. op = OpAppend io r \<longrightarrow>
       (\<exists>ok. log_view unmarshal norm s' = snd (alog_append ok (norm r) (log_view unmarshal norm s)) \<and>
             (ok \<longleftrightarrow> fst (wal_append marshal io r (y_log s)) = None))) \<and>
    (\<forall>n. n \<noteq> w_active (y_log s) \<longrightarrow>
       alog_replay n (log_view unmarshal norm s) =
         (case replay unmarshal collect_fn n (y_log s) [] of
            (Some NoSegment, _) \<Rightarrow> None
          | (e, rs) \<Rightarrow> Some (rs, e \<noteq> None)))"
proof (intro conjI allI impI)
  show "alog_step (log_view unmarshal norm s) (log_view unmarshal norm s')"
    by (rule step_view [OF assms(1) reachable_ok [OF assms(1,2)] assms(3)])
next
  fix io r
  assume op: "op = OpAppend io r"
  with assms(3) show "\<exists>ok. log_view unmarshal norm s' = snd (alog_append ok (norm r) (log_view unmarshal norm s)) \<and>
      (ok \<longleftrightarrow> fst (wal_append marshal io r (y_log s)) = None)"
  proof cases
    case (accept io' r' l)
    with view_append [OF accept(3), of unmarshal norm] op show ?thesis
      by (intro exI [of _ True]) simp
  next
    case (refuse io' r' e l)
    with view_append [OF refuse(3), of unmarshal norm] op show ?thesis
      by (intro exI [of _ False]) (simp add: log_view_def)
  qed simp_all
next
  fix n
  assume "n \<noteq> w_active (y_log s)"
  then show "alog_replay n (log_view unmarshal norm s) =
      (case replay unmarshal collect_fn n (y_log s) [] of
         (Some NoSegment, _) \<Rightarrow> None | (e, rs) \<Rightarrow> Some (rs, e \<noteq> None))"
    by (rule view_replay)
qed

theorem log_refines_view_witness:
  "alog_step (log_view demo_unmarshal (\<lambda>b. b) demo_state) (log_view demo_unmarshal (\<lambda>b. b) demo_rotated)"
proof -
  have "wal_step demo_marshal demo_state (OpRotate io_ok) demo_rotated"
    using wal_step.rotated [of demo_state io_ok 1 demo_rotated_log demo_marshal] demo_rotate
    by (simp add: demo_state_def demo_rotated_def)
  from log_refines_view [OF demo_codec demo_reachable this] show ?thesis by blast
qed

end
