(* ===== verification/Durable.thy ===== *)
theory Durable
  imports LogStore LogSpec CatalogInv Storage
begin

text \<open>
  The durable store, \<open>src/internal/logstore/durable.go\<close>.

  Its state is the log as \<open>LogSpec\<close> shows it, the catalog, the object store (the contents of an
  object are the records written to it), the rings of recent records, the batch, and the list
  of sealed segments whose batch could not be persisted.  The locks of the source make each
  operation here one step: \<open>ingest\<close> an append, \<open>flushing\<close> a flush.  Records are taken up to what
  the log's encoding keeps of them, so a replay gives back the record that was appended.
\<close>

section \<open>Object names\<close>

text \<open>The civil date of a number of days since the epoch, as \<open>time.Time\<close> computes it in UTC.\<close>

definition civil_from_days :: "int \<Rightarrow> int \<times> int \<times> int" where
  "civil_from_days days =
     (let z = days + 719468; era = z div 146097; doe = z mod 146097;
          yoe = (doe - doe div 1460 + doe div 36524 - doe div 146096) div 365;
          doy = doe - (365 * yoe + yoe div 4 - yoe div 100); mp = (5 * doy + 2) div 153;
          d = doy - (153 * mp + 2) div 5 + 1; m = (if mp < 10 then mp + 3 else mp - 9);
          y = yoe + era * 400
      in (if m \<le> 2 then y + 1 else y, m, d))"

definition pad_int :: "nat \<Rightarrow> int \<Rightarrow> string" where
  "pad_int n i = (if i < 0 then CHR ''-'' # pad_zero (n - 1) (show_nat (nat (- i)))
                  else pad_zero n (show_nat (nat i)))"

definition objectName :: "string \<Rightarrow> rec \<Rightarrow> string" where
  "objectName sn r =
     (let micros = r_ts r div 1000; (y, m, d) = civil_from_days (r_ts r div 86400000000000)
      in ''streams/'' @ SafeSegment sn @ ''/'' @ pad_int 4 y @ ''/'' @ pad_int 2 m @ ''/'' @ pad_int 2 d @
         ''/'' @ (''L0-'' @ pad_zero 20 (show_nat (r_seq r)) @ ''-'' @ show_int micros @ ''.parquet''))"

section \<open>The store\<close>

record durable_opts =
  o_backlog :: int
  o_flush_rows :: int
  o_flush_bytes :: int
  o_flush_interval :: int
  o_keep_raw :: bool
  o_grace :: int
  o_orphan_grace :: int

definition withDefaults :: "durable_opts \<Rightarrow> durable_opts" where
  "withDefaults opts =
     opts\<lparr>o_backlog := (if o_backlog opts < 1 then 100 else o_backlog opts),
       o_flush_rows := (if o_flush_rows opts < 1 then 200000 else o_flush_rows opts),
       o_flush_bytes := (if o_flush_bytes opts < 1 then 67108864 else o_flush_bytes opts),
       o_flush_interval := (if o_flush_interval opts = 0 then 30000000000 else o_flush_interval opts),
       o_grace := (if o_grace opts = 0 then 300000000000 else o_grace opts),
       o_orphan_grace := (if o_orphan_grace opts = 0 then 86400000000000 else o_orphan_grace opts)\<rparr>"

type_synonym batch = "(string \<times> rec list) list"

record durable =
  d_opts :: durable_opts
  d_log :: "rec alog"
  d_cat :: catalog
  d_objects :: "rec list local_store"
  d_fanout :: fanout
  d_seq :: nat
  d_order :: "string list"
  d_streams :: "(string \<times> rec ring) list"
  d_batch :: batch
  d_rows :: nat
  d_bytes :: int
  d_closed :: bool
  d_unflushed :: "nat list"
  d_kicked :: bool
  d_quiet :: int
  d_backoff :: int

text \<open>The outcomes of the system and database calls of one operation, by what they are about.\<close>

record store_io =
  io_append :: bool
  io_rotate :: bool
  io_read_segment :: "nat \<Rightarrow> nat option"   \<comment> \<open>reading fails after this many records\<close>
  io_remove_segment :: "nat \<Rightarrow> bool"
  io_quarantine :: "nat \<Rightarrow> bool"
  io_intend :: bool
  io_put :: "string \<Rightarrow> commit_outcome option"
  io_register :: "string \<Rightarrow> bool"
  io_remove_object :: "string \<Rightarrow> bool"
  io_forget :: "string \<Rightarrow> bool"
  io_discard :: "string \<Rightarrow> bool"
  io_list :: bool
  io_floor :: bool
  io_now :: int

section \<open>Append\<close>

definition batch_add :: "rec \<Rightarrow> batch \<Rightarrow> batch" where
  "batch_add r b =
     AList.update (r_stream r) ((case map_of b (r_stream r) of None \<Rightarrow> [] | Some rs \<Rightarrow> rs) @ [r]) b"

text \<open>Whether the record was accepted, whether a flush was started, and the store.\<close>

definition durable_append :: "store_io \<Rightarrow> rec \<Rightarrow> durable \<Rightarrow> bool \<times> bool \<times> durable" where
  "durable_append io r0 d =
     (let r = r0\<lparr>r_seq := d_seq d + 1\<rparr>; d1 = d\<lparr>d_seq := d_seq d + 1\<rparr>;
          (ok, log) = alog_append (io_append io) r (d_log d)
      in if \<not> ok then (False, False, d1)
         else
           (let known = (map_of (d_streams d) (r_stream r) \<noteq> None);
                order = (if known then d_order d else d_order d @ [r_stream r]);
                rows = d_rows d + 1; bytes = d_bytes d + int (length (r_raw r)) + 128;
                full = int rows \<ge> o_flush_rows (d_opts d) \<or> bytes \<ge> o_flush_bytes (d_opts d);
                kick = full \<and> io_now io \<ge> d_quiet d \<and> \<not> d_kicked d;
                f = (if known then d_fanout d else publish_streams order (d_fanout d))
            in (True, kick, d1
              \<lparr>d_log := log, d_streams := push_stream (nat (o_backlog (d_opts d))) r (d_streams d),
               d_order := order, d_batch := batch_add r (d_batch d), d_rows := rows, d_bytes := bytes,
               d_fanout := publish_line r f, d_kicked := d_kicked d \<or> kick\<rparr>)))"

section \<open>Persisting a batch\<close>

text \<open>
  What \<open>parquetio.Write\<close> reports of the records it wrote; the columns and the size of the object
  are parameters.
\<close>

definition file_of ::
  "(rec list \<Rightarrow> int) \<Rightarrow> bool \<Rightarrow> string \<Rightarrow> string \<Rightarrow> rec list \<Rightarrow> cat_file" where
  "file_of size_of keep_raw sn name rs =
     \<lparr>fl_id = 0, fl_stream = sn, fl_path = name, fl_level = 0,
      fl_min_ts = Min ((\<lambda>r. r_ts r div 1000) ` set rs), fl_max_ts = Max ((\<lambda>r. r_ts r div 1000) ` set rs),
      fl_min_seq = Min (r_seq ` set rs), fl_max_seq = Max (r_seq ` set rs),
      fl_rows = int (length rs), fl_bytes = size_of rs, fl_has_raw = keep_raw, fl_state = [],
      fl_created = None, fl_level_floor = [], fl_tombstoned_at = None\<rparr>"

definition write_stream ::
  "(rec list \<Rightarrow> int) \<Rightarrow> (rec list \<Rightarrow> column list) \<Rightarrow> store_io \<Rightarrow> bool \<Rightarrow> string \<Rightarrow> string \<Rightarrow> rec list
     \<Rightarrow> catalog \<times> rec list local_store \<Rightarrow> bool \<times> catalog \<times> rec list local_store"
where
  "write_stream size_of cols io keep_raw sn name rs cs =
     (case put_object (io_put io name) name rs (io_now io) (snd cs) of
        (False, objs) \<Rightarrow> (False, fst cs, objs)
      | (True, objs) \<Rightarrow>
          (case register (io_register io name) (io_now io div 1000) (file_of size_of keep_raw sn name rs) (cols rs) (fst cs) of
             (Inl _, cat) \<Rightarrow> (False, cat, objs)
           | (Inr _, cat) \<Rightarrow> (True, cat, objs)))"

fun persist_streams ::
  "(rec list \<Rightarrow> int) \<Rightarrow> (rec list \<Rightarrow> column list) \<Rightarrow> store_io \<Rightarrow> bool \<Rightarrow> string list
     \<Rightarrow> (string \<times> string \<times> rec list) list \<Rightarrow> catalog \<times> rec list local_store
     \<Rightarrow> bool \<times> catalog \<times> rec list local_store"
where
  "persist_streams size_of cols io keep_raw registered [] cs = (True, cs)"
| "persist_streams size_of cols io keep_raw registered ((sn, name, rs) # todo) cs =
     (if name \<in> set registered
      then persist_streams size_of cols io keep_raw registered todo cs
      else case write_stream size_of cols io keep_raw sn name rs cs of
        (ok, cs') \<Rightarrow>
          (case persist_streams size_of cols io keep_raw registered todo cs' of
             (ok', cs'') \<Rightarrow> (ok \<and> ok', cs'')))"

definition batch_jobs :: "batch \<Rightarrow> (string \<times> string \<times> rec list) list" where
  "batch_jobs b =
     map (\<lambda>s. (s, objectName s (hd (the (map_of b s))), the (map_of b s)))
       (sort (map fst (filter (\<lambda>(_, rs). rs \<noteq> []) b)))"

definition persist_batch ::
  "(rec list \<Rightarrow> int) \<Rightarrow> (rec list \<Rightarrow> column list) \<Rightarrow> store_io \<Rightarrow> bool \<Rightarrow> batch
     \<Rightarrow> catalog \<times> rec list local_store \<Rightarrow> bool \<times> catalog \<times> rec list local_store"
where
  "persist_batch size_of cols io keep_raw b cs =
     (let jobs = batch_jobs b
      in if jobs = [] then (True, cs)
         else case intend (io_intend io) (io_now io div 1000) (map (\<lambda>(_, name, _). name) jobs) (fst cs) of
           (Inl _, cat) \<Rightarrow> (False, cat, snd cs)
         | (Inr registered, cat) \<Rightarrow>
             persist_streams size_of cols io keep_raw registered jobs (cat, snd cs))"

section \<open>Replaying a segment\<close>

definition group :: "rec list \<Rightarrow> batch" where
  "group rs = foldl (\<lambda>b r. batch_add r b) [] rs"

text \<open>The highest sequence number of a segment counts even when it could not be persisted.\<close>

definition replay_segment ::
  "(rec list \<Rightarrow> int) \<Rightarrow> (rec list \<Rightarrow> column list) \<Rightarrow> store_io \<Rightarrow> nat \<Rightarrow> durable \<Rightarrow> bool \<times> nat \<times> durable"
where
  "replay_segment size_of cols io n d =
     (case alog_replay n (d_log d) of
        None \<Rightarrow> (False, 0, d)
      | Some (rs, damaged) \<Rightarrow>
          (let maxSeq = foldl max 0 (map r_seq rs)
           in case io_read_segment io n of
             Some k \<Rightarrow> (False, foldl max 0 (map r_seq (take k rs)), d)
           | None \<Rightarrow>
             (case (if rs = [] then (True, d_cat d, d_objects d)
                         else persist_batch size_of cols io (o_keep_raw (d_opts d)) (group rs) (d_cat d, d_objects d)) of
                (ok, cat, objs) \<Rightarrow>
                  (let d1 = d\<lparr>d_cat := cat, d_objects := objs\<rparr>
                   in if \<not> ok then (False, maxSeq, d1)
                      else case alog_drop (if damaged then io_quarantine io n else io_remove_segment io n) n (d_log d) of
                        (dropped, log) \<Rightarrow> (dropped, maxSeq, d1\<lparr>d_log := log\<rparr>)))))"

fun retry_segments ::
  "(rec list \<Rightarrow> int) \<Rightarrow> (rec list \<Rightarrow> column list) \<Rightarrow> store_io \<Rightarrow> nat list \<Rightarrow> durable \<Rightarrow> nat list \<times> durable"
where
  "retry_segments size_of cols io [] d = ([], d)"
| "retry_segments size_of cols io (n # ns) d =
     (case replay_segment size_of cols io n d of
        (ok, _, d1) \<Rightarrow>
          (case retry_segments size_of cols io ns d1 of
             (remaining, d2) \<Rightarrow> (if ok then remaining else n # remaining, d2)))"

definition retry :: "(rec list \<Rightarrow> int) \<Rightarrow> (rec list \<Rightarrow> column list) \<Rightarrow> store_io \<Rightarrow> durable \<Rightarrow> bool \<times> durable" where
  "retry size_of cols io d =
     (case retry_segments size_of cols io (d_unflushed d) d of
        (remaining, d1) \<Rightarrow> (remaining = [], d1\<lparr>d_unflushed := remaining\<rparr>))"

section \<open>Flushing\<close>

datatype seal_result = SealEmpty | SealFailed | Sealed nat batch

definition seal :: "store_io \<Rightarrow> durable \<Rightarrow> seal_result \<times> durable" where
  "seal io d =
     (if d_closed d \<or> d_rows d = 0 then (SealEmpty, d)
      else case alog_rotate (io_rotate io) (d_log d) of
        (None, _) \<Rightarrow> (SealFailed, d)
      | (Some n, log) \<Rightarrow>
          (Sealed n (d_batch d), d\<lparr>d_log := log, d_batch := [], d_rows := 0, d_bytes := 0\<rparr>))"

definition backOff :: "int \<Rightarrow> durable \<Rightarrow> durable" where
  "backOff now d =
     (let b = min (max (2 * d_backoff d) 1000000000) (o_flush_interval (d_opts d))
      in d\<lparr>d_backoff := b, d_quiet := now + b\<rparr>)"

definition flush :: "(rec list \<Rightarrow> int) \<Rightarrow> (rec list \<Rightarrow> column list) \<Rightarrow> store_io \<Rightarrow> durable \<Rightarrow> bool \<times> durable" where
  "flush size_of cols io d =
     (if d_closed d then (True, d)
      else case retry size_of cols io d of
        (retried, d1) \<Rightarrow>
          (case seal io d1 of
             (SealFailed, d2) \<Rightarrow> (False, backOff (io_now io) d2)
           | (SealEmpty, d2) \<Rightarrow> (retried, d2)
           | (Sealed n b, d2) \<Rightarrow>
               (let d3 = d2\<lparr>d_backoff := 0, d_quiet := 0\<rparr>
                in case persist_batch size_of cols io (o_keep_raw (d_opts d)) b (d_cat d3, d_objects d3) of
                  (ok, cat, objs) \<Rightarrow>
                    (let d4 = d3\<lparr>d_cat := cat, d_objects := objs\<rparr>
                     in if \<not> ok then (False, d4\<lparr>d_unflushed := d_unflushed d4 @ [n]\<rparr>)
                        else case alog_drop (io_remove_segment io n) n (d_log d4) of
                          (True, log) \<Rightarrow> (retried, d4\<lparr>d_log := log\<rparr>)
                        | (False, _) \<Rightarrow> (retried, d4\<lparr>d_unflushed := d_unflushed d4 @ [n]\<rparr>)))))"

section \<open>Opening and recovery\<close>

fun recover_segments ::
  "(rec list \<Rightarrow> int) \<Rightarrow> (rec list \<Rightarrow> column list) \<Rightarrow> store_io \<Rightarrow> nat list \<Rightarrow> durable \<Rightarrow> durable"
where
  "recover_segments size_of cols io [] d = d"
| "recover_segments size_of cols io (n # ns) d =
     (case replay_segment size_of cols io n d of
        (ok, maxSeq, d1) \<Rightarrow>
          (let d2 = (if maxSeq > d_seq d1 then d1\<lparr>d_seq := maxSeq\<rparr> else d1)
           in recover_segments size_of cols io ns
                (if ok then d2 else d2\<lparr>d_unflushed := d_unflushed d2 @ [n]\<rparr>)))"

definition open_durable ::
  "(rec list \<Rightarrow> int) \<Rightarrow> (rec list \<Rightarrow> column list) \<Rightarrow> store_io \<Rightarrow> durable_opts \<Rightarrow> rec alog \<Rightarrow> catalog
     \<Rightarrow> rec list local_store \<Rightarrow> durable"
where
  "open_durable size_of cols io opts log cat objs =
     recover_segments size_of cols io (alog_orphans log)
       \<lparr>d_opts = withDefaults opts, d_log = log, d_cat = cat, d_objects = objs, d_fanout = empty_fanout,
        d_seq = max_seq cat, d_order = [], d_streams = [], d_batch = [], d_rows = 0, d_bytes = 0,
        d_closed = False, d_unflushed = [], d_kicked = False, d_quiet = 0, d_backoff = 0\<rparr>"

section \<open>Garbage collection\<close>

text \<open>\<open>Floor\<close> of the log: an error when the first record of the oldest segment cannot be read.\<close>

fun floor_from :: "(nat \<Rightarrow> (rec list \<times> bool) option) \<Rightarrow> nat list \<Rightarrow> unit + nat option" where
  "floor_from look [] = Inr None"
| "floor_from look (n # ns) =
     (case look n of
        None \<Rightarrow> floor_from look ns
      | Some (r # _, _) \<Rightarrow> Inr (Some (r_seq r))
      | Some ([], damaged) \<Rightarrow> if damaged then Inl () else floor_from look ns)"

definition alog_floor :: "rec alog \<Rightarrow> unit + nat option" where
  "alog_floor l = floor_from (\<lambda>n. alog_replay n l) (alog_orphans l)"

fun collect_files ::
  "store_io \<Rightarrow> nat option \<Rightarrow> cat_file list \<Rightarrow> catalog \<times> rec list local_store
     \<Rightarrow> bool \<times> catalog \<times> rec list local_store"
where
  "collect_files io floor [] cs = (True, cs)"
| "collect_files io floor (f # fs) (cat, objs) =
     (case remove_object (io_remove_object io (fl_path f)) (fl_path f) objs of
        (False, objs') \<Rightarrow> (case collect_files io floor fs (cat, objs') of (_, cs) \<Rightarrow> (False, cs))
      | (True, objs') \<Rightarrow>
          (if fl_level f = 0 \<and> (case floor of None \<Rightarrow> False | Some q \<Rightarrow> fl_max_seq f \<ge> q)
           then collect_files io floor fs (cat, objs')
           else case forget (io_forget io (fl_path f)) (fl_id f) cat of
             (e, cat') \<Rightarrow>
               (case collect_files io floor fs (cat', objs') of (ok, cs) \<Rightarrow> (ok \<and> e = None, cs))))"

definition collect :: "store_io \<Rightarrow> durable \<Rightarrow> bool \<times> durable" where
  "collect io d =
     (let files = (if io_list io then collectable ((io_now io - o_grace (d_opts d)) div 1000) (d_cat d) else []);
          (floor_ok, floor) = (if io_floor io
             then (case alog_floor (d_log d) of Inr q \<Rightarrow> (True, q) | Inl _ \<Rightarrow> (False, Some 0))
             else (False, Some 0))
      in case collect_files io floor files (d_cat d, d_objects d) of
        (ok, cat, objs) \<Rightarrow> (ok \<and> io_list io \<and> floor_ok, d\<lparr>d_cat := cat, d_objects := objs\<rparr>))"

fun sweep_paths ::
  "store_io \<Rightarrow> int \<Rightarrow> string list \<Rightarrow> catalog \<times> rec list local_store \<Rightarrow> bool \<times> catalog \<times> rec list local_store"
where
  "sweep_paths io before [] cs = (True, cs)"
| "sweep_paths io before (p # ps) (cat, objs) =
     (case discard (io_discard io p) (io_remove_object io p) p before cat of
        (r, called, cat') \<Rightarrow>
          (let objs' = (if called then snd (remove_object (io_remove_object io p) p objs) else objs)
           in case sweep_paths io before ps (cat', objs') of
             (ok, cs) \<Rightarrow> (ok \<and> (case r of Inl _ \<Rightarrow> False | Inr _ \<Rightarrow> True), cs)))"

definition sweep :: "store_io \<Rightarrow> durable \<Rightarrow> bool \<times> durable" where
  "sweep io d =
     (let cutoff = (io_now io - o_orphan_grace (d_opts d)); before = cutoff div 1000;
          paths = (if io_list io then abandoned before (d_cat d) else [])
      in case sweep_paths io before paths (d_cat d, d_objects d) of
        (ok, cat, objs) \<Rightarrow>
          (ok \<and> io_list io, d\<lparr>d_cat := cat, d_objects := snd (sweep_temps ''streams/'' cutoff objs)\<rparr>))"

section \<open>The rest of the interface\<close>

definition durable_backlog :: "string \<Rightarrow> int \<Rightarrow> durable \<Rightarrow> rec list" where
  "durable_backlog s limit d = rings_backlog (nat (o_backlog (d_opts d))) (d_streams d) s limit"

definition durable_streams :: "durable \<Rightarrow> string list" where
  "durable_streams d = d_order d"

definition durable_close :: "(rec list \<Rightarrow> int) \<Rightarrow> (rec list \<Rightarrow> column list) \<Rightarrow> store_io \<Rightarrow> durable \<Rightarrow> bool \<times> durable" where
  "durable_close size_of cols io d =
     (if d_closed d then (True, d)
      else case flush size_of cols io d of
        (ok, d1) \<Rightarrow> (ok, d1\<lparr>d_closed := True, d_fanout := fanout_close (d_fanout d1)\<rparr>))"

text \<open>The flush an append started is over.\<close>

definition unkick :: "durable \<Rightarrow> durable" where
  "unkick d = d\<lparr>d_kicked := False\<rparr>"

text \<open>What the object of a registered file holds.\<close>

definition file_records :: "rec list local_store \<Rightarrow> cat_file \<Rightarrow> rec list" where
  "file_records objs f = (case open_object (fl_path f) objs of None \<Rightarrow> [] | Some rs \<Rightarrow> rs)"

end
