(* ===== verification/DurableInv.thy ===== *)
theory DurableInv
  imports Durable
begin

text \<open>
  The durable store loses nothing and stores nothing twice.  \<open>hist\<close> is every segment sealed
  since the beginning with the records in it; the invariant says where each of them is.
\<close>

section \<open>Object names\<close>

lemma show_nat_no_sep: "\<not> is_digit c \<Longrightarrow> c \<notin> set (show_nat n)"
  using show_nat_digits [of n] by (auto simp: list_all_iff)

lemma sep_not_digit [simp]: "\<not> is_digit (CHR ''/'')" "\<not> is_digit (CHR ''.'')"
  by (simp_all add: is_digit_def)

definition base_name :: "nat \<Rightarrow> int \<Rightarrow> string" where
  "base_name q micros = ''L0-'' @ pad_zero 20 (show_nat q) @ ''-'' @ show_int micros @ ''.parquet''"

lemma base_no_slash: "CHR ''/'' \<notin> set (base_name q m)"
  by (auto simp: base_name_def pad_zero_def show_int_def show_nat_no_sep)

lemma after_last_slash:
  assumes "xs @ CHR ''/'' # b = ys @ CHR ''/'' # b'" "CHR ''/'' \<notin> set b" "CHR ''/'' \<notin> set b'"
  shows "b = b'"
proof -
  have *: "takeWhile (\<lambda>c. c \<noteq> CHR ''/'') (rev (zs @ CHR ''/'' # w)) = rev w" if "CHR ''/'' \<notin> set w" for zs w
    using that by (simp, subst takeWhile_append2) auto
  from * [OF assms(2), of xs] * [OF assms(3), of ys] assms(1) show ?thesis by (metis rev_rev_ident)
qed

lemma base_name_seq:
  assumes "base_name q m = base_name q' m'"
  shows "q = q'"
proof -
  have *: "takeWhile is_digit (pad_zero 20 (show_nat q) @ CHR ''-'' # w) = pad_zero 20 (show_nat q)" for q w
    using pad_zero_digits [OF show_nat_digits] by (subst takeWhile_append2) (auto simp: list_all_iff)
  from assms have "pad_zero 20 (show_nat q) @ CHR ''-'' # show_int m @ ''.parquet'' =
      pad_zero 20 (show_nat q') @ CHR ''-'' # show_int m' @ ''.parquet''"
    by (simp add: base_name_def)
  then have "pad_zero 20 (show_nat q) = pad_zero 20 (show_nat q')" by (metis *)
  then show ?thesis by (metis nat_of_digits_pad nat_of_show_nat)
qed

lemma objectName_seq:
  assumes "objectName s r = objectName s' r'"
  shows "r_seq r = r_seq r'"
proof -
  have "\<exists>xs. objectName s r = xs @ CHR ''/'' # base_name (r_seq r) (r_ts r div 1000)" for s r
    by (auto simp: objectName_def base_name_def Let_def split: prod.splits)
  then show ?thesis using assms after_last_slash base_no_slash base_name_seq by metis
qed

text \<open>A name depends on no more of a record than the log's encoding keeps: its instant in microseconds.\<close>

lemma objectName_micros:
  assumes "r_seq r = r_seq r'" "r_ts r div 1000 = r_ts r' div 1000"
  shows "objectName s r = objectName s r'"
proof -
  have "r_ts x div 86400000000000 = r_ts x div 1000 div 86400000000" for x :: rec
    by (simp add: zdiv_zmult2_eq [symmetric])
  then show ?thesis using assms by (simp add: objectName_def)
qed

section \<open>Batches\<close>

definition group_of :: "string \<Rightarrow> rec list \<Rightarrow> rec list" where
  "group_of s rs = filter (\<lambda>r. r_stream r = s) rs"

definition batch_ok :: "batch \<Rightarrow> rec list \<Rightarrow> bool" where
  "batch_ok b rs \<longleftrightarrow> distinct (map fst b) \<and>
     (\<forall>s. map_of b s = (if group_of s rs = [] then None else Some (group_of s rs)))"

lemma group_of_simps [simp]:
  "group_of s [] = []" "group_of s (xs @ ys) = group_of s xs @ group_of s ys"
  "group_of s [r] = (if r_stream r = s then [r] else [])"
  by (simp_all add: group_of_def)

lemma batch_ok_Nil [simp]: "batch_ok [] []"
  by (simp add: batch_ok_def)

lemma batch_add_ok: "batch_ok b rs \<Longrightarrow> batch_ok (batch_add r b) (rs @ [r])"
  by (auto simp: batch_ok_def batch_add_def update_conv' distinct_update)

lemma group_ok: "batch_ok (group rs) rs"
proof -
  have "batch_ok (foldl (\<lambda>b r. batch_add r b) b rs) (xs @ rs)" if "batch_ok b xs" for b xs
    using that
  proof (induction rs arbitrary: b xs)
    case (Cons r rs)
    from Cons.IH [OF batch_add_ok [OF Cons.prems, of r]] show ?case by simp
  qed simp
  from this [OF batch_ok_Nil] show ?thesis by (simp add: group_def)
qed

definition jobs_of :: "rec list \<Rightarrow> (string \<times> string \<times> rec list) list" where
  "jobs_of rs = map (\<lambda>s. (s, objectName s (hd (group_of s rs)), group_of s rs))
     (sorted_list_of_set (r_stream ` set rs))"

lemma group_of_Nil_iff: "group_of s rs = [] \<longleftrightarrow> s \<notin> r_stream ` set rs"
  by (auto simp: group_of_def filter_empty_conv)

lemma batch_jobs_of:
  assumes "batch_ok b rs"
  shows "batch_jobs b = jobs_of rs"
proof -
  have ne: "v \<noteq> []" if "(s, v) \<in> set b" for s v
  proof -
    from that assms have "map_of b s = Some v" unfolding batch_ok_def by (blast intro: map_of_is_SomeI)
    with assms show ?thesis by (auto simp: batch_ok_def split: if_splits)
  qed
  then have "filter (\<lambda>(_, rs). rs \<noteq> []) b = b" by (auto intro: filter_True)
  moreover have "fst ` set b = r_stream ` set rs"
  proof -
    have "s \<in> fst ` set b \<longleftrightarrow> map_of b s \<noteq> None" for s by (simp add: map_of_eq_None_iff)
    also have "\<dots> s \<longleftrightarrow> s \<in> r_stream ` set rs" for s
      using assms by (simp add: batch_ok_def group_of_Nil_iff)
    finally show ?thesis by blast
  qed
  moreover have "distinct (map fst b)" using assms by (simp add: batch_ok_def)
  ultimately have "sort (map fst (filter (\<lambda>(_, rs). rs \<noteq> []) b)) = sorted_list_of_set (r_stream ` set rs)"
    by (metis distinct_remdups_id set_map sorted_list_of_set_sort_remdups)
  moreover have "the (map_of b s) = group_of s rs" if "s \<in> r_stream ` set rs" for s
    using assms that by (simp add: batch_ok_def group_of_Nil_iff)
  ultimately show ?thesis by (simp add: batch_jobs_def jobs_of_def)
qed

section \<open>What has landed\<close>

definition seg_seqs :: "(nat \<times> rec list) list \<Rightarrow> rec list" where
  "seg_seqs hist = concat (map snd hist)"

definition landed_file :: "(nat \<times> rec list) list \<Rightarrow> rec list local_store \<Rightarrow> cat_file \<Rightarrow> bool" where
  "landed_file hist objs f \<longleftrightarrow>
     fl_state f = StateLive \<and>
     (\<exists>n rs. (n, rs) \<in> set hist \<and> group_of (fl_stream f) rs \<noteq> [] \<and>
        fl_path f = objectName (fl_stream f) (hd (group_of (fl_stream f) rs)) \<and>
        fl_rows f = int (length (group_of (fl_stream f) rs)) \<and>
        fl_max_seq f = Max (r_seq ` set (group_of (fl_stream f) rs)) \<and>
        open_object (fl_path f) objs = Some (group_of (fl_stream f) rs))"

definition landed :: "(nat \<times> rec list) list \<Rightarrow> catalog \<times> rec list local_store \<Rightarrow> bool" where
  "landed hist cs \<longleftrightarrow> cat_inv (fst cs) \<and> (\<forall>f\<in>set (c_files (fst cs)). landed_file hist (snd cs) f)"

definition known_path :: "string \<Rightarrow> catalog \<times> rec list local_store \<Rightarrow> bool" where
  "known_path p cs \<longleftrightarrow> file_at p (fst cs) \<noteq> None"

lemma known_path_iff: "known_path p cs \<longleftrightarrow> p \<in> fl_path ` set (c_files (fst cs))"
  by (simp add: known_path_def find_None_iff_path)

lemma landed_catalog:
  assumes "landed hist (cat, objs)" "cat_inv cat'" "c_files cat' = c_files cat"
  shows "landed hist (cat', objs)"
  using assms by (simp add: landed_def)

lemma intend_files: "c_files (fold (intend_row now) ps c) = c_files c"
proof (induction ps arbitrary: c)
  case (Cons p ps)
  then show ?case by (simp add: intend_row_def)
qed simp

lemma write_stream_landed:
  assumes size: "\<forall>rs. 0 \<le> size_of rs" and land: "landed hist cs"
    and seg: "(n, rs) \<in> set hist" "group_of s rs \<noteq> []"
    and new: "\<not> known_path name cs" "name = objectName s (hd (group_of s rs))"
    and wr: "write_stream size_of cols io keep_raw s name (group_of s rs) cs = (ok, cs')"
  shows "landed hist cs' \<and> (\<forall>p. known_path p cs' \<longleftrightarrow> known_path p cs \<or> ok \<and> p = name)"
proof -
  obtain cat objs where cs: "cs = (cat, objs)" by (cases cs)
  let ?g = "group_of s rs"
  obtain b objs1 where put: "put_object (io_put io name) name ?g (io_now io) objs = (b, objs1)" by fastforce
  have other: "open_object m objs1 = open_object m objs" if "m \<noteq> name" for m
    using put_object_get [OF put, of m] that by simp
  have paths: "fl_path f \<noteq> name" if "f \<in> set (c_files cat)" for f
    using new(1) that by (auto simp: known_path_iff cs)
  have keep: "landed_file hist objs1 f" if "f \<in> set (c_files cat)" for f
    using land that other [OF paths [OF that]] by (simp add: landed_def cs landed_file_def)
  have inv: "cat_inv cat" using land by (simp add: landed_def cs)
  show ?thesis
  proof (cases b)
    case False
    with wr put have "cs' = (cat, objs1)" "\<not> ok" by (auto simp: write_stream_def cs)
    with inv keep show ?thesis by (simp add: landed_def known_path_def cs)
  next
    case True
    let ?f = "file_of size_of keep_raw s name ?g"
    obtain r cat1 where reg: "register (io_register io name) (io_now io div 1000) ?f (cols ?g) cat = (r, cat1)" by fastforce
    have path: "fl_path ?f = name" by (simp add: file_of_def)
    have nf: "new_file ?f" using size by (simp add: new_file_def file_of_def)
    from register_inv [OF inv nf reg] have inv1: "cat_inv cat1" .
    show ?thesis
    proof (cases r)
      case (Inl e)
      with reg have "cat1 = cat" by (auto simp: register_def split: if_splits sum.splits)
      moreover from wr put True reg Inl have "cs' = (cat1, objs1)" "\<not> ok" by (auto simp: write_stream_def cs)
      ultimately show ?thesis using inv keep by (simp add: landed_def known_path_def cs)
    next
      case (Inr x)
      from wr put True reg Inr have c': "cs' = (cat1, objs1)" "ok" by (auto simp: write_stream_def cs)
      from reg Inr obtain i ex where ins: "insertFileTx (io_now io div 1000) ?f (cols ?g) True cat = Inr (i, ex, cat1)"
        by (auto simp: register_def split: if_splits sum.splits)
      from ins have files: "c_files cat1 = c_files cat @ [file_row (io_now io div 1000) (c_next_id cat) ?f]"
        using new(1) by (cases rule: insertFileTx_cases) (auto simp: path known_path_def cs)
      have "open_object name objs1 = Some ?g"
        using put_object_get [OF put, of name] True by auto
      then have "landed_file hist objs1 (file_row (io_now io div 1000) (c_next_id cat) ?f)"
        using nf seg new(2) by (auto simp: landed_file_def file_of_def)
      with keep inv1 files show ?thesis
        by (auto simp: landed_def c' known_path_iff cs path)
    qed
  qed
qed

lemma persist_streams_landed:
  assumes size: "\<forall>rs. 0 \<le> size_of rs" and seg: "(n, rs) \<in> set hist" and land: "landed hist cs"
    and jobs: "\<forall>(s, name, g)\<in>set todo. g = group_of s rs \<and> g \<noteq> [] \<and> name = objectName s (hd g)"
    and dist: "distinct (map (\<lambda>(_, name, _). name) todo)"
    and new: "\<forall>(_, name, _)\<in>set todo. name \<notin> set registered \<longrightarrow> \<not> known_path name cs"
    and run: "persist_streams size_of cols io keep_raw registered todo cs = (ok, cs')"
  shows "landed hist cs' \<and> (\<forall>p. known_path p cs \<longrightarrow> known_path p cs') \<and>
    (ok \<longrightarrow> (\<forall>(_, name, _)\<in>set todo. name \<in> set registered \<or> known_path name cs'))"
  using land jobs dist new run
proof (induction todo arbitrary: cs ok cs')
  case Nil
  then show ?case by simp
next
  case (Cons job todo)
  obtain s name g where job: "job = (s, name, g)" by (cases job)
  show ?case
  proof (cases "name \<in> set registered")
    case True
    with Cons.prems(5) have "persist_streams size_of cols io keep_raw registered todo cs = (ok, cs')"
      by (simp add: job)
    from Cons.IH [OF Cons.prems(1) _ _ _ this] Cons.prems(2-4) True show ?thesis
      by (simp add: job)
  next
    case False
    obtain ok1 cs1 where wr: "write_stream size_of cols io keep_raw s name g cs = (ok1, cs1)"
      by (metis prod.collapse)
    obtain ok2 cs2 where rest: "persist_streams size_of cols io keep_raw registered todo cs1 = (ok2, cs2)"
      by (metis prod.collapse)
    from Cons.prems(5) False wr rest have r: "ok = (ok1 \<and> ok2)" "cs' = cs2" by (auto simp: job)
    from Cons.prems(2) have g: "g = group_of s rs" "group_of s rs \<noteq> []" "name = objectName s (hd (group_of s rs))"
      by (auto simp: job)
    from Cons.prems(4) False have "\<not> known_path name cs" by (simp add: job)
    from write_stream_landed [OF size Cons.prems(1) seg g(2) this g(3) wr [unfolded g(1)]]
    have w: "landed hist cs1" "\<And>p. known_path p cs1 \<longleftrightarrow> known_path p cs \<or> ok1 \<and> p = name" by auto
    have "\<forall>(_, m, _)\<in>set todo. m \<notin> set registered \<longrightarrow> \<not> known_path m cs1"
      using Cons.prems(3,4) by (force simp: job w(2))
    with Cons.IH [OF w(1) _ _ _ rest] Cons.prems(2,3) w(2) r show ?thesis
      by (auto simp: job)
  qed
qed

lemma jobs_of_props:
  assumes "seq_sorted (seg_seqs hist)" "(n, rs) \<in> set hist"
  shows "\<forall>(s, name, g)\<in>set (jobs_of rs). g = group_of s rs \<and> g \<noteq> [] \<and> name = objectName s (hd g)"
    and "distinct (map (\<lambda>(_, name, _). name) (jobs_of rs))"
    and "(s, objectName s (hd (group_of s rs)), group_of s rs) \<in> set (jobs_of rs) \<longleftrightarrow> group_of s rs \<noteq> []"
proof -
  let ?ss = "sorted_list_of_set (r_stream ` set rs)"
  have ss: "set ?ss = r_stream ` set rs" by simp
  show "\<forall>(s, name, g)\<in>set (jobs_of rs). g = group_of s rs \<and> g \<noteq> [] \<and> name = objectName s (hd g)"
    by (auto simp: jobs_of_def group_of_Nil_iff)
  show "(s, objectName s (hd (group_of s rs)), group_of s rs) \<in> set (jobs_of rs) \<longleftrightarrow> group_of s rs \<noteq> []"
    by (auto simp: jobs_of_def group_of_Nil_iff)
  have inj: "inj_on r_seq (set rs)"
    using seq_sorted_inj(1) [OF assms(1)] assms(2) by (force simp: seg_seqs_def intro: inj_on_subset)
  have hd: "hd (group_of s rs) \<in> set rs \<and> r_stream (hd (group_of s rs)) = s" if "s \<in> set ?ss" for s
  proof -
    from that have "group_of s rs \<noteq> []" unfolding ss by (simp add: group_of_Nil_iff)
    then have "hd (group_of s rs) \<in> set (group_of s rs)" by (rule hd_in_set)
    then show ?thesis by (simp add: group_of_def)
  qed
  have "inj_on (\<lambda>s. objectName s (hd (group_of s rs))) (set ?ss)"
  proof (rule inj_onI)
    fix s s' assume s: "s \<in> set ?ss" "s' \<in> set ?ss"
      and "objectName s (hd (group_of s rs)) = objectName s' (hd (group_of s' rs))"
    then have "r_seq (hd (group_of s rs)) = r_seq (hd (group_of s' rs))" by (blast dest: objectName_seq)
    with inj hd [OF s(1)] hd [OF s(2)] show "s = s'" by (metis inj_on_def)
  qed
  then show "distinct (map (\<lambda>(_, name, _). name) (jobs_of rs))"
    by (simp add: jobs_of_def o_def distinct_map split_beta)
qed

definition all_known :: "rec list \<Rightarrow> catalog \<times> rec list local_store \<Rightarrow> bool" where
  "all_known rs cs \<longleftrightarrow>
     (\<forall>s. group_of s rs \<noteq> [] \<longrightarrow> known_path (objectName s (hd (group_of s rs))) cs)"

lemma persist_batch_landed:
  assumes size: "\<forall>rs. 0 \<le> size_of rs" and seg: "(n, rs) \<in> set hist" and land: "landed hist cs"
    and sorted: "seq_sorted (seg_seqs hist)" and b: "batch_ok b rs"
    and run: "persist_batch size_of cols io keep_raw b cs = (ok, cs')"
  shows "landed hist cs' \<and> (\<forall>p. known_path p cs \<longrightarrow> known_path p cs') \<and> (ok \<longrightarrow> all_known rs cs')"
proof -
  obtain cat objs where cs: "cs = (cat, objs)" by (cases cs)
  note jobs = jobs_of_props [OF sorted seg]
  show ?thesis
  proof (cases "jobs_of rs = []")
    case True
    with jobs(3) have "group_of s rs = []" for s by (metis empty_iff empty_set)
    with True run land show ?thesis by (auto simp: persist_batch_def batch_jobs_of [OF b] all_known_def)
  next
    case False
    let ?names = "map (\<lambda>(_, name, _). name) (jobs_of rs)"
    obtain r cat1 where int: "intend (io_intend io) (io_now io div 1000) ?names cat = (r, cat1)" by fastforce
    have inv: "cat_inv cat" using land by (simp add: landed_def cs)
    have cat1: "cat_inv cat1" "c_files cat1 = c_files cat"
      using int inv by (auto simp: intend_def intend_rows_inv intend_files split: if_splits)
    have land1: "landed hist (cat1, objs)" using land cat1 by (auto simp: cs intro: landed_catalog)
    have same: "known_path p (cat1, objs) \<longleftrightarrow> known_path p cs" for p by (simp add: known_path_iff cs cat1)
    show ?thesis
    proof (cases r)
      case (Inl e)
      with False run int have "cs' = (cat1, objs)" "\<not> ok"
        by (auto simp: persist_batch_def batch_jobs_of [OF b] cs)
      with land1 same show ?thesis by simp
    next
      case (Inr registered)
      with False run int have run': "persist_streams size_of cols io keep_raw registered (jobs_of rs) (cat1, objs) = (ok, cs')"
        by (auto simp: persist_batch_def batch_jobs_of [OF b] cs)
      from int Inr have reg: "registered = filter (\<lambda>p. file_at p cat \<noteq> None) ?names"
        by (auto simp: intend_def split: if_splits)
      have "\<forall>(_, name, _)\<in>set (jobs_of rs). name \<notin> set registered \<longrightarrow> \<not> known_path name (cat1, objs)"
      proof clarify
        fix s name g
        assume "(s, name, g) \<in> set (jobs_of rs)" "name \<notin> set registered" "known_path name (cat1, objs)"
        moreover from this(1) have "name \<in> set ?names" by force
        ultimately show False using same [of name] by (auto simp: reg known_path_def cs)
      qed
      from persist_streams_landed [OF size seg land1 jobs(1,2) this run']
      have p: "landed hist cs'" "\<And>p. known_path p cs \<Longrightarrow> known_path p cs'"
        "ok \<Longrightarrow> \<forall>(_, name, _)\<in>set (jobs_of rs). name \<in> set registered \<or> known_path name cs'"
        by (auto simp: same)
      have "known_path q cs" if "q \<in> set registered" for q
        using that by (auto simp: reg known_path_def cs)
      with p have "ok \<Longrightarrow> \<forall>(_, name, _)\<in>set (jobs_of rs). known_path name cs'" by fast
      then have "ok \<longrightarrow> all_known rs cs'" using jobs(3) by (fastforce simp: all_known_def)
      with p show ?thesis by blast
    qed
  qed
qed

section \<open>The invariant of the store\<close>

text \<open>
  \<open>pending\<close> is the segments a recovery or a flush is still about to handle: none of them between
  operations.
\<close>

definition store_inv :: "(nat \<times> rec list) list \<Rightarrow> nat set \<Rightarrow> durable \<Rightarrow> bool" where
  "store_inv hist pending d \<longleftrightarrow>
     seq_sorted (seg_seqs hist @ a_recs (d_log d)) \<and>
     (\<forall>r\<in>set (a_recs (d_log d)). r_seq r \<le> d_seq d) \<and>
     distinct (map fst hist) \<and> sorted (map fst hist) \<and> (\<forall>n\<in>fst ` set hist. n < a_active (d_log d)) \<and>
     (\<forall>n rs dmg. map_of (a_sealed (d_log d)) n = Some (rs, dmg) \<longrightarrow>
        (n, rs) \<in> set hist \<and> (n \<in> set (d_unflushed d) \<or> n \<in> pending)) \<and>
     (\<forall>(n, rs)\<in>set hist. map_of (a_sealed (d_log d)) n \<noteq> None \<or> all_known rs (d_cat d, d_objects d)) \<and>
     landed hist (d_cat d, d_objects d) \<and>
     batch_ok (d_batch d) (a_recs (d_log d)) \<and> d_rows d = length (a_recs (d_log d))"

text \<open>Every sequence number the log still holds is below the counter.\<close>

definition counted :: "(nat \<times> rec list) list \<Rightarrow> nat set \<Rightarrow> durable \<Rightarrow> bool" where
  "counted hist todo d \<longleftrightarrow> (\<forall>(n, rs)\<in>set hist. n \<notin> todo \<longrightarrow> (\<forall>r\<in>set rs. r_seq r \<le> d_seq d))"

lemma all_known_mono:
  "all_known rs cs \<Longrightarrow> (\<And>p. known_path p cs \<Longrightarrow> known_path p cs') \<Longrightarrow> all_known rs cs'"
  by (simp add: all_known_def)

lemma seq_sorted_append: "seq_sorted (xs @ ys) \<Longrightarrow> seq_sorted xs"
  by (simp add: seq_sorted_def sorted_wrt_append)

lemma replay_segment_cases:
  assumes "replay_segment size_of cols io n d = (ok, q, d')"
  obtains (unread) "\<not> ok" "d' = d"
    | (failed) rs dmg cat objs where "alog_replay n (d_log d) = Some (rs, dmg)" "\<not> ok"
        "io_read_segment io n = None" "rs \<noteq> []" "q = foldl max 0 (map r_seq rs)"
        "persist_batch size_of cols io (o_keep_raw (d_opts d)) (group rs) (d_cat d, d_objects d) = (False, cat, objs)"
        "d' = d\<lparr>d_cat := cat, d_objects := objs\<rparr>"
    | (persisted) rs dmg cat objs log where "alog_replay n (d_log d) = Some (rs, dmg)"
        "io_read_segment io n = None" "q = foldl max 0 (map r_seq rs)"
        "(rs = [] \<and> cat = d_cat d \<and> objs = d_objects d) \<or>
          persist_batch size_of cols io (o_keep_raw (d_opts d)) (group rs) (d_cat d, d_objects d) = (True, cat, objs)"
        "alog_drop ok n (d_log d) = (ok, log)" "d' = d\<lparr>d_cat := cat, d_objects := objs, d_log := log\<rparr>"
proof (cases "alog_replay n (d_log d)")
  case None
  with assms unread show ?thesis by (simp add: replay_segment_def)
next
  case (Some v)
  obtain rs dmg where v: "v = (rs, dmg)" by (cases v)
  show ?thesis
  proof (cases "io_read_segment io n")
    case (Some k)
    with \<open>alog_replay n (d_log d) = Some v\<close> assms unread show ?thesis by (simp add: replay_segment_def v)
  next
    case None
    obtain ok1 cat objs where p: "(if rs = [] then (True, d_cat d, d_objects d)
        else persist_batch size_of cols io (o_keep_raw (d_opts d)) (group rs) (d_cat d, d_objects d)) = (ok1, cat, objs)"
      by (metis prod_cases3)
    show ?thesis
    proof (cases ok1)
      case False
      with p have "rs \<noteq> []" by (auto split: if_splits)
      with None Some p False assms show ?thesis
        by (intro failed [of rs dmg cat objs]) (auto simp: replay_segment_def v)
    next
      case True
      obtain ok2 log where dr: "alog_drop (if dmg then io_quarantine io n else io_remove_segment io n) n (d_log d) = (ok2, log)"
        by fastforce
      with None Some p True assms have r: "ok = ok2" "q = foldl max 0 (map r_seq rs)"
        "d' = d\<lparr>d_cat := cat, d_objects := objs, d_log := log\<rparr>"
        by (auto simp: replay_segment_def v)
      from dr have "alog_drop ok n (d_log d) = (ok, log)" by (auto simp: alog_drop_def r)
      with None Some p True r show ?thesis
        by (intro persisted [of rs dmg cat objs log]) (auto simp: v split: if_splits)
    qed
  qed
qed

lemma store_inv_landing:
  assumes inv: "store_inv hist pending d"
    and land: "landed hist (cat, objs)" and mono: "\<And>p. known_path p (d_cat d, d_objects d) \<Longrightarrow> known_path p (cat, objs)"
  shows "store_inv hist pending (d\<lparr>d_cat := cat, d_objects := objs\<rparr>)"
  using inv land all_known_mono [OF _ mono] unfolding store_inv_def by fastforce

lemma store_inv_drop:
  assumes inv: "store_inv hist pending d" and n: "(n, rs) \<in> set hist" "all_known rs (d_cat d, d_objects d)"
    and log: "alog_drop ok n (d_log d) = (ok, log)"
  shows "store_inv hist pending (d\<lparr>d_log := log\<rparr>)"
proof (cases ok)
  case False
  with log have "log = d_log d" by (simp add: alog_drop_def)
  with inv show ?thesis by simp
next
  case True
  with log have l: "a_recs log = a_recs (d_log d)" "a_active log = a_active (d_log d)"
    "map_of (a_sealed log) = (\<lambda>m. if m = n then None else map_of (a_sealed (d_log d)) m)"
    by (auto simp: alog_drop_def delete_conv' fun_eq_iff)
  have "ms = rs" if "(n, ms) \<in> set hist" for ms
    using inv n(1) that unfolding store_inv_def by (blast dest: eq_key_imp_eq_value)
  then have "\<forall>(m, ms)\<in>set hist. map_of (a_sealed log) m \<noteq> None \<or> all_known ms (d_cat d, d_objects d)"
    using inv n(2) unfolding store_inv_def l(3) by fastforce
  moreover have "\<forall>m ms dmg. map_of (a_sealed log) m = Some (ms, dmg) \<longrightarrow>
      (m, ms) \<in> set hist \<and> (m \<in> set (d_unflushed d) \<or> m \<in> pending)"
    using inv unfolding store_inv_def l(3) by (metis option.distinct(1))
  ultimately show ?thesis
    using inv by (simp add: store_inv_def l(1,2))
qed

lemma store_inv_unflushed:
  assumes "store_inv hist pending d"
    "\<And>n. map_of (a_sealed (d_log d)) n \<noteq> None \<Longrightarrow> n \<in> set u \<or> n \<in> pending'"
  shows "store_inv hist pending' (d\<lparr>d_unflushed := u\<rparr>)"
  using assms unfolding store_inv_def by fastforce

lemma foldl_max_ge: "r \<in> set rs \<Longrightarrow> r_seq r \<le> foldl max q (map r_seq rs)"
proof (induction rs arbitrary: q)
  case (Cons x rs)
  have mono: "q' \<le> foldl max q' ns" for q' :: nat and ns
    by (induction ns arbitrary: q') (simp, metis foldl_Cons max.bounded_iff)
  from Cons show ?case using mono [of "max q (r_seq x)" "map r_seq rs"] by auto
qed simp

lemma replay_segment_inv:
  assumes size: "\<forall>rs. 0 \<le> size_of rs" and inv: "store_inv hist pending d"
    and rep: "replay_segment size_of cols io n d = (ok, q, d')"
  shows "store_inv hist pending d' \<and> d_seq d' = d_seq d \<and> d_unflushed d' = d_unflushed d \<and>
    (ok \<longrightarrow> map_of (a_sealed (d_log d')) n = None) \<and>
    (\<forall>m. map_of (a_sealed (d_log d)) m = None \<longrightarrow> map_of (a_sealed (d_log d')) m = None)"
  using rep
proof (cases rule: replay_segment_cases)
  case unread
  with inv show ?thesis by simp
next
  case (failed rs dmg cat objs)
  then have seg: "(n, rs) \<in> set hist" using inv by (auto simp: alog_replay_def store_inv_def)
  have land: "landed hist (d_cat d, d_objects d)" "seq_sorted (seg_seqs hist)"
    using inv seq_sorted_append by (auto simp: store_inv_def)
  from persist_batch_landed [OF size seg land(1,2) group_ok failed(6)]
  have "store_inv hist pending d'" unfolding failed(7) by (intro store_inv_landing [OF inv]) auto
  with failed show ?thesis by simp
next
  case (persisted rs dmg cat objs log)
  then have seg: "(n, rs) \<in> set hist" using inv by (auto simp: alog_replay_def store_inv_def)
  have land: "landed hist (d_cat d, d_objects d)" "seq_sorted (seg_seqs hist)"
    using inv seq_sorted_append by (auto simp: store_inv_def)
  have p: "landed hist (cat, objs) \<and> (\<forall>p. known_path p (d_cat d, d_objects d) \<longrightarrow> known_path p (cat, objs)) \<and>
      all_known rs (cat, objs)"
    using persisted(4)
  proof
    assume "rs = [] \<and> cat = d_cat d \<and> objs = d_objects d"
    with land show ?thesis by (simp add: all_known_def)
  next
    assume "persist_batch size_of cols io (o_keep_raw (d_opts d)) (group rs) (d_cat d, d_objects d) = (True, cat, objs)"
    from persist_batch_landed [OF size seg land(1,2) group_ok this] show ?thesis by blast
  qed
  then have "store_inv hist pending (d\<lparr>d_cat := cat, d_objects := objs\<rparr>)"
    by (intro store_inv_landing [OF inv]) auto
  from store_inv_drop [OF this seg, of ok log] p persisted(5)
  have "store_inv hist pending d'" unfolding persisted(6) by simp
  moreover have "ok \<longrightarrow> map_of (a_sealed log) n = None"
    "\<forall>m. map_of (a_sealed (d_log d)) m = None \<longrightarrow> map_of (a_sealed log) m = None"
    using persisted(5) by (auto simp: alog_drop_def delete_conv' split: if_splits)
  ultimately show ?thesis by (simp add: persisted(6))
qed

lemma retry_segments_inv:
  assumes size: "\<forall>rs. 0 \<le> size_of rs" and inv: "store_inv hist pending d"
    and run: "retry_segments size_of cols io ns d = (remaining, d')"
  shows "store_inv hist pending d' \<and> d_seq d' = d_seq d \<and> d_unflushed d' = d_unflushed d \<and>
    (\<forall>n\<in>set ns. n \<in> set remaining \<or> map_of (a_sealed (d_log d')) n = None) \<and>
    (\<forall>m. map_of (a_sealed (d_log d)) m = None \<longrightarrow> map_of (a_sealed (d_log d')) m = None)"
  using inv run
proof (induction ns arbitrary: d remaining d')
  case (Cons n ns)
  obtain ok q d1 where rep: "replay_segment size_of cols io n d = (ok, q, d1)" by (metis prod_cases3)
  obtain rem d2 where rest: "retry_segments size_of cols io ns d1 = (rem, d2)" by fastforce
  from Cons.prems(2) rep rest have r: "remaining = (if ok then rem else n # rem)" "d' = d2" by auto
  note n = replay_segment_inv [OF size Cons.prems(1) rep]
  then have "store_inv hist pending d1" by blast
  from Cons.IH [OF this rest] n r show ?case by auto
qed simp

lemma retry_inv:
  assumes size: "\<forall>rs. 0 \<le> size_of rs" and inv: "store_inv hist {} d"
    and run: "retry size_of cols io d = (ok, d')"
  shows "store_inv hist {} d' \<and> d_seq d' = d_seq d"
proof -
  obtain rem d1 where seg: "retry_segments size_of cols io (d_unflushed d) d = (rem, d1)" by fastforce
  with run have d': "d' = d1\<lparr>d_unflushed := rem\<rparr>" by (auto simp: retry_def)
  note r = retry_segments_inv [OF size inv seg]
  have "n \<in> set rem" if "map_of (a_sealed (d_log d1)) n \<noteq> None" for n
  proof -
    from that r have "map_of (a_sealed (d_log d)) n \<noteq> None" by metis
    then obtain rs dmg where "map_of (a_sealed (d_log d)) n = Some (rs, dmg)" by auto
    with inv have "n \<in> set (d_unflushed d)" unfolding store_inv_def by blast
    with r that show ?thesis by metis
  qed
  with r have "store_inv hist {} d'" unfolding d' by (intro store_inv_unflushed [of hist "{}"]) auto
  with r show ?thesis by (simp add: d')
qed

section \<open>Append, seal and flush\<close>

lemma replay_segment_recs:
  "replay_segment size_of cols io n d = (ok, q, d') \<Longrightarrow>
   a_recs (d_log d') = a_recs (d_log d) \<and> a_active (d_log d') = a_active (d_log d) \<and> d_opts d' = d_opts d"
  by (erule replay_segment_cases) (auto simp: alog_drop_def split: if_splits)

lemma retry_segments_recs:
  "retry_segments size_of cols io ns d = (remaining, d') \<Longrightarrow> a_recs (d_log d') = a_recs (d_log d)"
proof (induction ns arbitrary: d remaining d')
  case (Cons n ns)
  then show ?case by (fastforce split: prod.splits dest: replay_segment_recs)
qed simp

lemma retry_recs: "retry size_of cols io d = (ok, d') \<Longrightarrow> a_recs (d_log d') = a_recs (d_log d)"
  by (auto simp: retry_def split: prod.splits dest: retry_segments_recs)

lemma append_store_inv:
  assumes inv: "store_inv hist {} d" and app: "durable_append io r0 d = (ok, kick, d')"
    and count: "counted hist {} d"
  shows "store_inv hist {} d' \<and> counted hist {} d' \<and>
    a_recs (d_log d') = a_recs (d_log d) @ (if ok then [r0\<lparr>r_seq := d_seq d + 1\<rparr>] else [])"
proof (cases "io_append io")
  case False
  with app have "d' = d\<lparr>d_seq := d_seq d + 1\<rparr>" "\<not> ok"
    by (auto simp: durable_append_def alog_append_def)
  moreover have "store_inv hist {} (d\<lparr>d_seq := d_seq d + 1\<rparr>)" using inv by (auto simp: store_inv_def)
  moreover have "counted hist {} (d\<lparr>d_seq := d_seq d + 1\<rparr>)" using count by (fastforce simp: counted_def)
  ultimately show ?thesis by simp
next
  case True
  let ?r = "r0\<lparr>r_seq := d_seq d + 1\<rparr>"
  from True app have d': "ok" "d_log d' = d_log d\<lparr>a_recs := a_recs (d_log d) @ [?r]\<rparr>"
    "d_seq d' = d_seq d + 1" "d_batch d' = batch_add ?r (d_batch d)" "d_rows d' = d_rows d + 1"
    "d_unflushed d' = d_unflushed d" "d_cat d' = d_cat d" "d_objects d' = d_objects d"
    by (auto simp: durable_append_def alog_append_def Let_def)
  have "\<forall>r\<in>set (seg_seqs hist @ a_recs (d_log d)). r_seq r \<le> d_seq d"
    using inv count by (fastforce simp: store_inv_def counted_def seg_seqs_def)
  then have "seq_sorted ((seg_seqs hist @ a_recs (d_log d)) @ [?r])"
    using inv by (auto simp: store_inv_def seq_sorted_def sorted_wrt_append less_Suc_eq_le)
  moreover have "batch_ok (batch_add ?r (d_batch d)) (a_recs (d_log d) @ [?r])"
    using inv by (intro batch_add_ok) (simp add: store_inv_def)
  ultimately have "store_inv hist {} d'"
    using inv by (auto simp: store_inv_def d')
  moreover have "counted hist {} d'" using count by (fastforce simp: counted_def d')
  ultimately show ?thesis by (simp add: d')
qed

lemma seg_seqs_snoc [simp]: "seg_seqs (hist @ [(n, rs)]) = seg_seqs hist @ rs"
  by (simp add: seg_seqs_def)

lemma landed_more: "landed hist cs \<Longrightarrow> landed (hist @ [p]) cs"
  unfolding landed_def landed_file_def by fastforce

lemma store_inv_pending:
  "store_inv hist pending d \<Longrightarrow> pending \<subseteq> pending' \<Longrightarrow> store_inv hist pending' d"
  unfolding store_inv_def by fast

lemma seal_store_inv:
  assumes inv: "store_inv hist {} d" and count: "counted hist {} d"
    and sl: "seal io d = (Sealed n b, d')"
  shows "n = a_active (d_log d) \<and> b = d_batch d \<and>
    store_inv (hist @ [(n, a_recs (d_log d))]) {n} d' \<and> counted (hist @ [(n, a_recs (d_log d))]) {} d' \<and>
    a_recs (d_log d') = [] \<and> a_recs (d_log d) \<noteq> [] \<and> d_seq d' = d_seq d \<and>
    map_of (a_sealed (d_log d')) n = Some (a_recs (d_log d), False)"
proof -
  let ?n = "a_active (d_log d)" and ?rs = "a_recs (d_log d)"
  have log: "\<not> d_closed d" "d_rows d \<noteq> 0" "io_rotate io" "n = ?n" "b = d_batch d"
    "d' = d\<lparr>d_log := snd (alog_rotate True (d_log d)), d_batch := [], d_rows := 0, d_bytes := 0\<rparr>"
    using sl by (auto simp: seal_def alog_rotate_def split: if_splits)
  have l: "a_recs (d_log d') = []" "a_active (d_log d') = ?n + 1"
    "map_of (a_sealed (d_log d')) = (map_of (a_sealed (d_log d)))(?n \<mapsto> (?rs, False))"
    by (simp_all add: log(6) alog_rotate_def update_conv')
  have rest: "d_unflushed d' = d_unflushed d" "d_cat d' = d_cat d" "d_objects d' = d_objects d"
    "d_batch d' = []" "d_rows d' = 0" "d_seq d' = d_seq d"
    by (simp_all add: log(6))
  have new: "?n \<notin> fst ` set hist" using inv by (force simp: store_inv_def)
  have "store_inv (hist @ [(?n, ?rs)]) {?n} d'"
    unfolding store_inv_def
  proof (intro conjI)
    show "seq_sorted (seg_seqs (hist @ [(?n, ?rs)]) @ a_recs (d_log d'))"
      using inv by (simp add: store_inv_def l)
    show "distinct (map fst (hist @ [(?n, ?rs)]))" using inv new by (simp add: store_inv_def)
    show "sorted (map fst (hist @ [(?n, ?rs)]))"
      using inv by (fastforce simp: store_inv_def sorted_append)
    show "\<forall>n\<in>fst ` set (hist @ [(?n, ?rs)]). n < a_active (d_log d')"
      using inv by (fastforce simp: store_inv_def l(2))
    show "\<forall>m rs dmg. map_of (a_sealed (d_log d')) m = Some (rs, dmg) \<longrightarrow>
        (m, rs) \<in> set (hist @ [(?n, ?rs)]) \<and> (m \<in> set (d_unflushed d') \<or> m \<in> {?n})"
      using inv unfolding store_inv_def l(3) rest by auto
    show "\<forall>(m, rs)\<in>set (hist @ [(?n, ?rs)]). map_of (a_sealed (d_log d')) m \<noteq> None \<or>
        all_known rs (d_cat d', d_objects d')"
      using inv unfolding store_inv_def l(3) rest by fastforce
    show "landed (hist @ [(?n, ?rs)]) (d_cat d', d_objects d')"
      using inv by (simp add: store_inv_def log(6) landed_more)
  qed (simp_all add: l rest)
  moreover have "counted (hist @ [(?n, ?rs)]) {} d'"
    using inv count by (auto simp: counted_def store_inv_def log(6))
  moreover have "?rs \<noteq> []" using inv log(2) by (auto simp: store_inv_def)
  ultimately show ?thesis using log(4,5) l by (simp add: log(6))
qed

lemma counted_same: "counted hist todo d \<Longrightarrow> d_seq d' = d_seq d \<Longrightarrow> counted hist todo d'"
  by (simp add: counted_def)

lemma backOff_inv: "store_inv hist pending (backOff now d) = store_inv hist pending d"
  by (simp add: store_inv_def backOff_def Let_def)

lemma seal_keeps: "seal io d = (r, d') \<Longrightarrow> r = SealEmpty \<or> r = SealFailed \<Longrightarrow> d' = d"
  by (auto simp: seal_def alog_rotate_def split: if_splits)

lemma sealed_flush_inv:
  assumes size: "\<forall>rs. 0 \<le> size_of rs" and inv: "store_inv hist {n} d" and count: "counted hist {} d"
    and seg: "(n, rs) \<in> set hist" and b: "batch_ok b rs"
    and p: "persist_batch size_of cols io keep_raw b (d_cat d, d_objects d) = (ok, cat, objs)"
  shows "store_inv hist {} (d\<lparr>d_cat := cat, d_objects := objs, d_unflushed := d_unflushed d @ [n]\<rparr>) \<and>
    (ok \<longrightarrow> alog_drop True n (d_log d) = (True, log) \<longrightarrow>
       store_inv hist {} (d\<lparr>d_cat := cat, d_objects := objs, d_log := log\<rparr>))"
proof -
  have land: "landed hist (d_cat d, d_objects d)" "seq_sorted (seg_seqs hist)"
    using inv seq_sorted_append by (auto simp: store_inv_def)
  note l = persist_batch_landed [OF size seg land(1,2) b p]
  then have inv1: "store_inv hist {n} (d\<lparr>d_cat := cat, d_objects := objs\<rparr>)" (is "store_inv _ _ ?d1")
    by (intro store_inv_landing [OF inv]) auto
  have sealed: "m \<in> set (d_unflushed d) \<or> m = n" if "map_of (a_sealed (d_log d)) m \<noteq> None" for m
    using inv that unfolding store_inv_def by fastforce
  then have "store_inv hist {} (?d1\<lparr>d_unflushed := d_unflushed d @ [n]\<rparr>)"
    by (intro store_inv_unflushed [OF inv1]) auto
  moreover have "store_inv hist {} (d\<lparr>d_cat := cat, d_objects := objs, d_log := log\<rparr>)"
    if ok "alog_drop True n (d_log d) = (True, log)"
  proof -
    from l that(1) have "all_known rs (d_cat ?d1, d_objects ?d1)" by simp
    from store_inv_drop [OF inv1 seg this, of True log] that(2)
    have i: "store_inv hist {n} (?d1\<lparr>d_log := log\<rparr>)" by simp
    have "map_of (a_sealed log) m \<noteq> None \<Longrightarrow> m \<noteq> n \<and> map_of (a_sealed (d_log d)) m \<noteq> None" for m
      using that(2) by (auto simp: alog_drop_def delete_conv' split: if_splits)
    with sealed have "m \<in> set (d_unflushed d)" if "map_of (a_sealed log) m \<noteq> None" for m
      using that by metis
    then have "store_inv hist {} ((?d1\<lparr>d_log := log\<rparr>)\<lparr>d_unflushed := d_unflushed d\<rparr>)"
      by (intro store_inv_unflushed [OF i]) simp
    then show ?thesis by simp
  qed
  ultimately show ?thesis by simp
qed

lemma flush_store_inv:
  assumes size: "\<forall>rs. 0 \<le> size_of rs" and inv: "store_inv hist {} d" and count: "counted hist {} d"
    and run: "flush size_of cols io d = (ok, d')"
  shows "\<exists>hist'. store_inv hist' {} d' \<and> counted hist' {} d' \<and>
    seg_seqs hist' @ a_recs (d_log d') = seg_seqs hist @ a_recs (d_log d)"
proof (cases "d_closed d")
  case True
  with run inv count show ?thesis by (auto simp: flush_def)
next
  case False
  obtain retried d1 where re: "retry size_of cols io d = (retried, d1)" by fastforce
  from retry_inv [OF size inv re] have r: "store_inv hist {} d1" "d_seq d1 = d_seq d" by auto
  from count r(2) have c: "counted hist {} d1" by (rule counted_same)
  have recs: "a_recs (d_log d1) = a_recs (d_log d)" by (rule retry_recs [OF re])
  obtain sl d2 where se: "seal io d1 = (sl, d2)" by fastforce
  show ?thesis
  proof (cases sl)
    case SealEmpty
    with run False re se have "d' = d2" by (simp add: flush_def)
    with seal_keeps [OF se] SealEmpty r c recs show ?thesis by auto
  next
    case SealFailed
    with run False re se have "d' = backOff (io_now io) d2" by (simp add: flush_def)
    with seal_keeps [OF se] SealFailed have d': "d' = backOff (io_now io) d1" by simp
    have "store_inv hist {} d'" using r(1) by (simp add: d' backOff_inv)
    moreover have "counted hist {} d'" using c by (simp add: d' counted_def backOff_def Let_def)
    moreover have "a_recs (d_log d') = a_recs (d_log d)" using recs by (simp add: d' backOff_def Let_def)
    ultimately show ?thesis by auto
  next
    case (Sealed n b)
    let ?h = "hist @ [(n, a_recs (d_log d1))]"
    let ?d3 = "d2\<lparr>d_backoff := 0, d_quiet := 0\<rparr>"
    note s = seal_store_inv [OF r(1) c se [unfolded Sealed]]
    from s have i2: "store_inv ?h {n} d2" "counted ?h {} d2" by blast+
    have i3: "store_inv ?h {n} ?d3" using i2(1) unfolding store_inv_def by simp
    have c3: "counted ?h {} ?d3" using i2(2) unfolding counted_def by simp
    have b: "batch_ok b (a_recs (d_log d1))" using s r(1) by (simp add: store_inv_def)
    obtain ok4 cat objs where p: "persist_batch size_of cols io (o_keep_raw (d_opts d)) b (d_cat ?d3, d_objects ?d3) =
        (ok4, cat, objs)" by (metis prod_cases3)
    let ?d4 = "?d3\<lparr>d_cat := cat, d_objects := objs\<rparr>"
    have seg: "(n, a_recs (d_log d1)) \<in> set ?h" by simp
    note f = sealed_flush_inv [OF size i3 c3 seg b p]
    obtain ok5 log where dr: "alog_drop (io_remove_segment io n) n (d_log ?d4) = (ok5, log)" by fastforce
    have log: "a_recs log = a_recs (d_log d2)" using dr by (auto simp: alog_drop_def split: if_splits)
    have d': "d' = ?d4\<lparr>d_unflushed := d_unflushed d2 @ [n]\<rparr> \<or>
        ok4 \<and> ok5 \<and> d' = ?d4\<lparr>d_log := log\<rparr>"
      using run False re se p dr by (auto simp: flush_def Sealed Let_def split: if_splits bool.splits)
    have "seg_seqs ?h @ a_recs (d_log d') = seg_seqs hist @ a_recs (d_log d)"
      using d' s recs log by auto
    moreover have "counted ?h {} d'" using c3 d' by (auto simp: counted_def)
    moreover have "store_inv ?h {} d'"
      using d'
    proof
      assume "d' = ?d4\<lparr>d_unflushed := d_unflushed d2 @ [n]\<rparr>"
      with f show ?thesis by simp
    next
      assume a: "ok4 \<and> ok5 \<and> d' = ?d4\<lparr>d_log := log\<rparr>"
      with dr have "alog_drop True n (d_log ?d3) = (True, log)" by (auto simp: alog_drop_def split: if_splits)
      with f a show ?thesis by simp
    qed
    ultimately show ?thesis by blast
  qed
qed

end
