(* ===== verification/DurableSystem.thy ===== *)
theory DurableSystem
  imports DurableInv
begin

text \<open>
  The durable store as it runs: appends, flushes, sweeps and closes with any outcome of the
  system calls, and crashes, each followed by an open of what was left.  A crash in the middle
  of a flush leaves what a flush leaves whose remaining calls fail.
\<close>

section \<open>Where a landed record is\<close>

lemma hist_unique:
  assumes "seq_sorted (seg_seqs hist)" "(n, rs) \<in> set hist" "(m, rs') \<in> set hist" "r \<in> set rs" "r \<in> set rs'"
  shows "rs = rs'"
  using assms
proof (induction hist)
  case (Cons p hist)
  obtain k xs where p: "p = (k, xs)" by (cases p)
  have "seq_sorted (xs @ seg_seqs hist)" using Cons.prems(1) by (simp add: seg_seqs_def p)
  then have sep: "\<forall>x\<in>set xs. \<forall>y\<in>set (seg_seqs hist). r_seq x < r_seq y" "seq_sorted (seg_seqs hist)"
    by (simp_all add: seq_sorted_def sorted_wrt_append)
  have mem: "y \<in> set (seg_seqs hist)" if "(j, ys) \<in> set hist" "y \<in> set ys" for j y ys
    using that by (force simp: seg_seqs_def)
  from Cons.prems(2,3) consider "rs = xs" "rs' = xs" | "rs = xs" "(m, rs') \<in> set hist"
    | "(n, rs) \<in> set hist" "rs' = xs" | "(n, rs) \<in> set hist" "(m, rs') \<in> set hist"
    by (auto simp: p)
  then show ?case
  proof cases
    case 2
    with mem [of m rs' r] sep(1) Cons.prems(4,5) show ?thesis by blast
  next
    case 3
    with mem [of n rs r] sep(1) Cons.prems(4,5) show ?thesis by blast
  next
    case 4
    with Cons.IH [OF sep(2)] Cons.prems(4,5) show ?thesis by blast
  qed simp
qed simp

definition home :: "rec list local_store \<Rightarrow> rec \<Rightarrow> cat_file \<Rightarrow> bool" where
  "home objs r f \<longleftrightarrow> fl_state f = StateLive \<and> fl_stream f = r_stream r \<and>
     (\<exists>rs. open_object (fl_path f) objs = Some rs \<and> r \<in> set rs)"

lemma hd_group: "group_of s rs \<noteq> [] \<Longrightarrow> hd (group_of s rs) \<in> set rs \<and> r_stream (hd (group_of s rs)) = s"
  using hd_in_set [of "group_of s rs"] by (simp add: group_of_def)

lemma landed_home:
  assumes land: "landed hist (cat, objs)" and sorted: "seq_sorted (seg_seqs hist)"
    and seg: "(n, rs) \<in> set hist" "all_known rs (cat, objs)" and r: "r \<in> set rs"
  shows "\<exists>!f. f \<in> set (c_files cat) \<and> home objs r f"
    and "r_seq r \<le> max_seq cat"
proof -
  let ?s = "r_stream r"
  have inj: "inj_on r_seq (set (seg_seqs hist))" by (rule seq_sorted_inj(1) [OF sorted])
  have mem: "y \<in> set (seg_seqs hist)" if "(j, ys) \<in> set hist" "y \<in> set ys" for j y ys
    using that by (force simp: seg_seqs_def)
  have g: "group_of ?s rs \<noteq> []" using r by (auto simp: group_of_Nil_iff)
  with seg(2) obtain f where f: "f \<in> set (c_files cat)" "fl_path f = objectName ?s (hd (group_of ?s rs))"
    by (auto simp: all_known_def known_path_iff)
  have inv: "cat_inv cat" using land by (simp add: landed_def)
  have at: "group_of (fl_stream h) rs' = group_of (fl_stream h) rs \<and> fl_stream h = ?s"
    if "(m, rs') \<in> set hist" "group_of (fl_stream h) rs' \<noteq> []"
      "objectName (fl_stream h) (hd (group_of (fl_stream h) rs')) = objectName ?s (hd (group_of ?s rs))" for m rs' h
  proof -
    from that(3) have "r_seq (hd (group_of (fl_stream h) rs')) = r_seq (hd (group_of ?s rs))" by (rule objectName_seq)
    with inj mem that(1) seg(1) hd_group [OF that(2)] hd_group [OF g]
    have e: "hd (group_of (fl_stream h) rs') = hd (group_of ?s rs)" by (metis inj_on_def)
    with hist_unique [OF sorted that(1) seg(1)] hd_group [OF that(2)] hd_group [OF g] show ?thesis by metis
  qed
  from land f obtain m rs' where m: "(m, rs') \<in> set hist" "group_of (fl_stream f) rs' \<noteq> []"
    "fl_path f = objectName (fl_stream f) (hd (group_of (fl_stream f) rs'))" "fl_state f = StateLive"
    "fl_max_seq f = Max (r_seq ` set (group_of (fl_stream f) rs'))"
    "open_object (fl_path f) objs = Some (group_of (fl_stream f) rs')"
    by (auto simp: landed_def landed_file_def)
  from at [OF m(1,2)] m(3) f(2) have s: "group_of (fl_stream f) rs' = group_of ?s rs" "fl_stream f = ?s" by auto
  have rg: "r \<in> set (group_of ?s rs)" using r by (simp add: group_of_def)
  then have "home objs r f" using m s by (simp add: home_def)
  moreover have "h = f" if h: "h \<in> set (c_files cat)" "home objs r h" for h
  proof -
    from land h(1) obtain k rs2 where k: "(k, rs2) \<in> set hist" 
      "fl_path h = objectName (fl_stream h) (hd (group_of (fl_stream h) rs2))"
      "open_object (fl_path h) objs = Some (group_of (fl_stream h) rs2)"
      by (auto simp: landed_def landed_file_def)
    with h(2) have "r \<in> set rs2" "fl_stream h = ?s" by (auto simp: home_def group_of_def)
    with hist_unique [OF sorted k(1) seg(1) _ r] k(2) f(2) have "fl_path h = fl_path f" by simp
    with inv h(1) f(1) show "h = f" by (auto simp: cat_inv_def distinct_map inj_on_def)
  qed
  ultimately show "\<exists>!f. f \<in> set (c_files cat) \<and> home objs r f" using f(1) by blast
  have "fl_max_seq f = Max (r_seq ` set (group_of ?s rs))" using m(5) unfolding s(1) .
  with rg have "r_seq r \<le> fl_max_seq f" by simp
  also have "fl_max_seq f \<le> max_seq cat" using inv f(1) by (simp add: cat_inv_def)
  finally show "r_seq r \<le> max_seq cat" .
qed

section \<open>Recovery\<close>

text \<open>Numbered below the counter, unless a replay is still to come.\<close>

definition counted_from :: "(nat \<times> rec list) list \<Rightarrow> nat list \<Rightarrow> durable \<Rightarrow> bool" where
  "counted_from hist ns d \<longleftrightarrow>
     (\<forall>(n, rs)\<in>set hist. n \<notin> set ns \<or> map_of (a_sealed (d_log d)) n = None \<longrightarrow> (\<forall>r\<in>set rs. r_seq r \<le> d_seq d))"

lemma replay_segment_others:
  "replay_segment size_of cols io n d = (ok, q, d') \<Longrightarrow> m \<noteq> n \<Longrightarrow>
   map_of (a_sealed (d_log d')) m = map_of (a_sealed (d_log d)) m"
  by (erule replay_segment_cases) (auto simp: alog_drop_def delete_conv' split: if_splits)

lemma replay_segment_counts:
  assumes rep: "replay_segment size_of cols io n d = (ok, q, d')"
    and seg: "alog_replay n (d_log d) = Some (rs, dmg)" "io_read_segment io n = None" "r \<in> set rs"
  shows "r_seq r \<le> q"
proof -
  from rep seg(1,2) have "q = foldl max 0 (map r_seq rs)"
    by (auto simp: replay_segment_def Let_def split: prod.splits if_splits)
  with seg(3) show ?thesis by (simp add: foldl_max_ge)
qed

lemma store_inv_seq:
  "store_inv hist pending d \<Longrightarrow> a_recs (d_log d) = [] \<Longrightarrow> store_inv hist pending (d\<lparr>d_seq := q\<rparr>)"
  by (simp add: store_inv_def)

lemma recover_segments_inv:
  assumes size: "\<forall>rs. 0 \<le> size_of rs" and read: "\<forall>n. io_read_segment io n = None"
    and "store_inv hist (set ns) d" "counted_from hist ns d" "a_recs (d_log d) = []"
  shows "store_inv hist {} (recover_segments size_of cols io ns d) \<and>
    counted hist {} (recover_segments size_of cols io ns d) \<and>
    a_recs (d_log (recover_segments size_of cols io ns d)) = []"
  using assms(3-)
proof (induction ns arbitrary: d)
  case Nil
  then show ?case by (simp add: counted_from_def counted_def)
next
  case (Cons n ns)
  obtain ok q d1 where rep: "replay_segment size_of cols io n d = (ok, q, d1)" by (metis prod_cases3)
  let ?d2 = "if q > d_seq d1 then d1\<lparr>d_seq := q\<rparr> else d1"
  let ?d3 = "if ok then ?d2 else ?d2\<lparr>d_unflushed := d_unflushed ?d2 @ [n]\<rparr>"
  note i = replay_segment_inv [OF size Cons.prems(1) rep]
  have recs: "a_recs (d_log d1) = []" using replay_segment_recs [OF rep] Cons.prems(3) by simp
  have i2: "store_inv hist (set (n # ns)) ?d2" using i store_inv_seq [OF _ recs] by (metis (full_types))
  have cover: "m \<in> set (d_unflushed ?d3) \<or> m \<in> set ns" if "map_of (a_sealed (d_log d1)) m \<noteq> None" for m
  proof -
    from i that have "m \<in> set (d_unflushed d1) \<or> m = n \<or> m \<in> set ns"
      unfolding store_inv_def by fastforce
    moreover have "m = n \<Longrightarrow> \<not> ok" using i that by auto
    ultimately show ?thesis by auto
  qed
  have "store_inv hist (set ns) (?d2\<lparr>d_unflushed := d_unflushed ?d3\<rparr>)"
  proof (rule store_inv_unflushed [OF i2])
    fix m assume "map_of (a_sealed (d_log ?d2)) m \<noteq> None"
    moreover have "d_log ?d2 = d_log d1" by simp
    ultimately have "map_of (a_sealed (d_log d1)) m \<noteq> None" by metis
    from cover [OF this] show "m \<in> set (d_unflushed ?d3) \<or> m \<in> set ns" .
  qed
  moreover have "?d2\<lparr>d_unflushed := d_unflushed ?d3\<rparr> = ?d3" by simp
  ultimately have inv3: "store_inv hist (set ns) ?d3" by simp
  have seq: "d_seq ?d3 = max (d_seq d) q" using i by auto
  have log3: "d_log ?d3 = d_log d1" by simp
  have "r_seq r \<le> d_seq ?d3" if m: "(m, rs) \<in> set hist" "r \<in> set rs"
    "m \<notin> set ns \<or> map_of (a_sealed (d_log d1)) m = None" for m rs r
  proof (cases "m = n \<and> map_of (a_sealed (d_log d)) n \<noteq> None")
    case True
    then obtain rs' dmg where at: "map_of (a_sealed (d_log d)) n = Some (rs', dmg)" by auto
    with Cons.prems(1) have "(n, rs') \<in> set hist" unfolding store_inv_def by blast
    moreover have "distinct (map fst hist)" using Cons.prems(1) by (simp add: store_inv_def)
    ultimately have "rs' = rs" using m(1) True by (metis eq_key_imp_eq_value)
    with replay_segment_counts [OF rep _ _ m(2)] at read have "r_seq r \<le> q" by (simp add: alog_replay_def)
    then show ?thesis by (simp add: seq)
  next
    case False
    then have "m \<notin> set (n # ns) \<or> map_of (a_sealed (d_log d)) m = None"
      using m(3) replay_segment_others [OF rep, of m] by (cases "m = n") (auto simp del: not_None_eq)
    with Cons.prems(2) m(1,2) have "r_seq r \<le> d_seq d" unfolding counted_from_def by blast
    then show ?thesis by (simp add: seq)
  qed
  then have c3: "counted_from hist ns ?d3" unfolding counted_from_def log3 by blast
  from Cons.IH [OF inv3 c3] recs log3 show ?case by (simp add: rep Let_def)
qed

section \<open>The system\<close>

text \<open>
  \<open>z_accepted\<close> is a ghost: the records acknowledged, less those a crash cut off the active
  segment before they were synced.
\<close>

record store_sys =
  z_store :: durable
  z_accepted :: "rec list"

datatype store_op =
    StoreAppend store_io rec | StoreFlush store_io | StoreSweep store_io | StoreClose store_io
  | StoreKicked | StoreCrash nat store_io durable_opts

text \<open>What an open finds of a log whose process died with \<open>k\<close> records of the active segment on disk.\<close>

definition crash_log :: "nat \<Rightarrow> rec alog \<Rightarrow> rec alog" where
  "crash_log k l =
     l\<lparr>a_sealed := AList.update (a_active l) (take k (a_recs l), False) (a_sealed l),
       a_active := a_active l + 1, a_recs := []\<rparr>"

inductive store_step ::
  "(rec list \<Rightarrow> int) \<Rightarrow> (rec list \<Rightarrow> column list) \<Rightarrow> store_sys \<Rightarrow> store_op \<Rightarrow> store_sys \<Rightarrow> bool"
  for size_of cols
where
  append: "durable_append io r (z_store s) = (ok, kick, d) \<Longrightarrow>
    store_step size_of cols s (StoreAppend io r)
      \<lparr>z_store = d, z_accepted = (if ok then z_accepted s @ [r\<lparr>r_seq := d_seq (z_store s) + 1\<rparr>] else z_accepted s)\<rparr>"
| flush: "flush size_of cols io (z_store s) = (ok, d) \<Longrightarrow>
    store_step size_of cols s (StoreFlush io) (s\<lparr>z_store := d\<rparr>)"
| sweep: "sweep io (z_store s) = (ok, d) \<Longrightarrow>
    store_step size_of cols s (StoreSweep io) (s\<lparr>z_store := d\<rparr>)"
| close: "durable_close size_of cols io (z_store s) = (ok, d) \<Longrightarrow>
    store_step size_of cols s (StoreClose io) (s\<lparr>z_store := d\<rparr>)"
| kicked: "store_step size_of cols s StoreKicked (s\<lparr>z_store := unkick (z_store s)\<rparr>)"
| crash: "k \<le> length (a_recs (d_log (z_store s))) \<Longrightarrow> \<forall>n. io_read_segment io n = None \<Longrightarrow>
    store_step size_of cols s (StoreCrash k io opts)
      \<lparr>z_store = open_durable size_of cols io opts (crash_log k (d_log (z_store s)))
          (d_cat (z_store s)) (d_objects (z_store s)),
       z_accepted = take (length (z_accepted s) - (length (a_recs (d_log (z_store s))) - k)) (z_accepted s)\<rparr>"

definition empty_alog :: "rec alog" where
  "empty_alog = \<lparr>a_sealed = [], a_active = 1, a_recs = []\<rparr>"

definition new_store :: "(rec list \<Rightarrow> int) \<Rightarrow> (rec list \<Rightarrow> column list) \<Rightarrow> store_io \<Rightarrow> durable_opts \<Rightarrow> store_sys" where
  "new_store size_of cols io opts =
     \<lparr>z_store = open_durable size_of cols io opts empty_alog empty_catalog \<lparr>o_objects = [], o_temps = [], o_next = 0\<rparr>,
      z_accepted = []\<rparr>"

inductive store_reachable ::
  "(rec list \<Rightarrow> int) \<Rightarrow> (rec list \<Rightarrow> column list) \<Rightarrow> store_sys \<Rightarrow> bool" for size_of cols
where
  fresh: "store_reachable size_of cols (new_store size_of cols io opts)"
| step: "store_reachable size_of cols s \<Longrightarrow> store_step size_of cols s op s' \<Longrightarrow> store_reachable size_of cols s'"

definition store_ok :: "store_sys \<Rightarrow> bool" where
  "store_ok s \<longleftrightarrow> (\<exists>hist. store_inv hist {} (z_store s) \<and> counted hist {} (z_store s) \<and>
     z_accepted s = seg_seqs hist @ a_recs (d_log (z_store s)))"

lemma crash_recovers:
  assumes size: "\<forall>rs. 0 \<le> size_of rs" and inv: "store_inv hist {} d"
    and k: "k \<le> length (a_recs (d_log d))" and read: "\<forall>n. io_read_segment io n = None"
  shows "\<exists>hist'. store_inv hist' {} (open_durable size_of cols io opts (crash_log k (d_log d)) (d_cat d) (d_objects d)) \<and>
    counted hist' {} (open_durable size_of cols io opts (crash_log k (d_log d)) (d_cat d) (d_objects d)) \<and>
    a_recs (d_log (open_durable size_of cols io opts (crash_log k (d_log d)) (d_cat d) (d_objects d))) = [] \<and>
    seg_seqs hist' = seg_seqs hist @ take k (a_recs (d_log d))"
proof -
  let ?n = "a_active (d_log d)" and ?rs = "take k (a_recs (d_log d))"
  let ?log = "crash_log k (d_log d)" and ?hist = "hist @ [(?n, ?rs)]"
  let ?d0 = "\<lparr>d_opts = withDefaults opts, d_log = ?log, d_cat = d_cat d, d_objects = d_objects d,
        d_fanout = empty_fanout, d_seq = max_seq (d_cat d), d_order = [], d_streams = [], d_batch = [],
        d_rows = 0, d_bytes = 0, d_closed = False, d_unflushed = [], d_kicked = False, d_quiet = 0, d_backoff = 0\<rparr>"
  have sealed: "map_of (a_sealed ?log) = (map_of (a_sealed (d_log d)))(?n \<mapsto> (?rs, False))"
    by (simp add: crash_log_def update_conv')
  have rest: "a_active ?log = ?n + 1" "a_recs ?log = []" by (simp_all add: crash_log_def)
  have orphans: "map_of (a_sealed ?log) m \<noteq> None \<longleftrightarrow> m \<in> set (alog_orphans ?log)" for m
    by (simp add: alog_orphans_def map_of_eq_None_iff)
  have i: "seq_sorted (seg_seqs hist @ a_recs (d_log d))" "distinct (map fst hist)" "sorted (map fst hist)"
    "\<forall>n\<in>fst ` set hist. n < ?n"
    "\<forall>n rs dmg. map_of (a_sealed (d_log d)) n = Some (rs, dmg) \<longrightarrow> (n, rs) \<in> set hist"
    "\<forall>(n, rs)\<in>set hist. map_of (a_sealed (d_log d)) n \<noteq> None \<or> all_known rs (d_cat d, d_objects d)"
    "landed hist (d_cat d, d_objects d)"
    using inv unfolding store_inv_def by blast+
  have sorted: "seq_sorted (seg_seqs hist @ ?rs)"
  proof -
    have "seq_sorted ((seg_seqs hist @ ?rs) @ drop k (a_recs (d_log d)))" using i(1) by simp
    then show ?thesis by (rule seq_sorted_append)
  qed
  have new: "?n \<notin> fst ` set hist" using i(4) by force
  have "store_inv ?hist (set (alog_orphans ?log)) ?d0"
    unfolding store_inv_def
  proof (intro conjI)
    show "\<forall>n rs dmg. map_of (a_sealed (d_log ?d0)) n = Some (rs, dmg) \<longrightarrow>
        (n, rs) \<in> set ?hist \<and> (n \<in> set (d_unflushed ?d0) \<or> n \<in> set (alog_orphans ?log))"
      using i(5) by (auto simp: sealed orphans [symmetric])
    show "\<forall>(n, rs)\<in>set ?hist. map_of (a_sealed (d_log ?d0)) n \<noteq> None \<or> all_known rs (d_cat ?d0, d_objects ?d0)"
      using i(6) by (auto simp: sealed)
    show "sorted (map fst ?hist)" using i(3,4) by (fastforce simp: sorted_append)
    show "\<forall>n\<in>fst ` set ?hist. n < a_active (d_log ?d0)" using i(4) by (auto simp: rest)
    show "landed ?hist (d_cat ?d0, d_objects ?d0)" using i(7) by (simp add: landed_more)
  qed (use sorted i(2) new in \<open>simp_all add: rest\<close>)
  moreover have "counted_from ?hist (alog_orphans ?log) ?d0"
    unfolding counted_from_def
  proof clarify
    fix m rs r
    assume m: "(m, rs) \<in> set ?hist" "m \<notin> set (alog_orphans ?log) \<or> map_of (a_sealed (d_log ?d0)) m = None"
      and r: "r \<in> set rs"
    from m(2) have none: "map_of (a_sealed ?log) m = None" using orphans [of m] by (metis durable.select_convs(2))
    then have "m \<noteq> ?n" "map_of (a_sealed (d_log d)) m = None" by (auto simp: sealed split: if_splits)
    with m(1) i(6) have "(m, rs) \<in> set hist" "all_known rs (d_cat d, d_objects d)" by auto
    from landed_home(2) [OF i(7) seq_sorted_append [OF i(1)] this r] show "r_seq r \<le> d_seq ?d0" by simp
  qed
  ultimately have "store_inv ?hist {} (open_durable size_of cols io opts ?log (d_cat d) (d_objects d)) \<and>
      counted ?hist {} (open_durable size_of cols io opts ?log (d_cat d) (d_objects d)) \<and>
      a_recs (d_log (open_durable size_of cols io opts ?log (d_cat d) (d_objects d))) = []"
    unfolding open_durable_def by (intro recover_segments_inv [OF size read]) (simp_all add: rest)
  then show ?thesis by (intro exI [of _ ?hist]) simp
qed

section \<open>Sweeping\<close>

lemma discard_kept:
  assumes "discard ok removes p before c = (r, called, c')" "cat_inv c"
  shows "cat_inv c' \<and> c_files c' = c_files c \<and> (called \<longrightarrow> file_at p c = None)"
  using assms by (auto simp: discard_def undeclared_inv split: option.splits if_splits)

lemma sweep_paths_landed:
  "landed hist cs \<Longrightarrow> sweep_paths io before ps cs = (ok, cs') \<Longrightarrow>
   landed hist cs' \<and> c_files (fst cs') = c_files (fst cs)"
proof (induction ps arbitrary: cs ok cs')
  case (Cons p ps)
  obtain cat objs where cs: "cs = (cat, objs)" by (cases cs)
  obtain r called cat1 where di: "discard (io_discard io p) (io_remove_object io p) p before cat = (r, called, cat1)"
    by (metis prod_cases3)
  let ?objs = "if called then snd (remove_object (io_remove_object io p) p objs) else objs"
  obtain ok2 cs2 where rest: "sweep_paths io before ps (cat1, ?objs) = (ok2, cs2)" by (metis prod.collapse)
  have inv: "cat_inv cat" using Cons.prems(1) by (simp add: landed_def cs)
  note k = discard_kept [OF di inv]
  have "landed_file hist ?objs f" if f: "f \<in> set (c_files cat)" for f
  proof -
    have l: "landed_file hist objs f" using Cons.prems(1) f by (simp add: landed_def cs)
    show ?thesis
    proof (cases called)
      case True
      with k f have "fl_path f \<noteq> p" by (auto simp: find_None_iff_path)
      then have "open_object (fl_path f) ?objs = open_object (fl_path f) objs"
        using remove_object_get [of "io_remove_object io p" p objs] by (metis prod.collapse)
      with l show ?thesis by (simp add: landed_file_def)
    qed (use l in simp)
  qed
  with k have land: "landed hist (cat1, ?objs)" by (simp add: landed_def)
  from Cons.IH [OF land rest] k Cons.prems(2) di rest show ?case by (auto simp: cs Let_def)
qed simp

lemma sweep_store_inv:
  assumes inv: "store_inv hist {} d" and count: "counted hist {} d" and sw: "sweep io d = (ok, d')"
  shows "store_inv hist {} d' \<and> counted hist {} d' \<and> d_log d' = d_log d"
proof -
  let ?before = "(io_now io - o_orphan_grace (d_opts d)) div 1000"
  let ?ps = "if io_list io then abandoned ?before (d_cat d) else []"
  obtain b cat objs where p: "sweep_paths io ?before ?ps (d_cat d, d_objects d) = (b, cat, objs)"
    by (metis prod_cases3)
  let ?objs = "snd (sweep_temps ''streams/'' (io_now io - o_orphan_grace (d_opts d)) objs)"
  from sw p have d': "d' = d\<lparr>d_cat := cat, d_objects := ?objs\<rparr>"
    by (simp add: sweep_def Let_def)
  have "landed hist (d_cat d, d_objects d)" using inv by (simp add: store_inv_def)
  from sweep_paths_landed [OF this p] have l: "landed hist (cat, objs)" "c_files cat = c_files (d_cat d)" by auto
  have "open_object m ?objs = open_object m objs" for m
    by (simp add: open_object_def sweep_temps_def Let_def)
  with l(1) have "landed hist (cat, ?objs)" by (simp add: landed_def landed_file_def)
  then have "store_inv hist {} d'" unfolding d'
    by (rule store_inv_landing [OF inv]) (simp add: known_path_iff l(2))
  moreover have "counted hist {} d'" using count by (simp add: counted_def d')
  ultimately show ?thesis by (simp add: d')
qed

section \<open>Every reachable state\<close>

lemma store_step_ok:
  assumes size: "\<forall>rs. 0 \<le> size_of rs" and ok: "store_ok s" and step: "store_step size_of cols s op s'"
  shows "store_ok s'"
proof -
  from ok obtain hist where i: "store_inv hist {} (z_store s)" "counted hist {} (z_store s)"
    "z_accepted s = seg_seqs hist @ a_recs (d_log (z_store s))" by (auto simp: store_ok_def)
  from step show ?thesis
  proof cases
    case (append io r ok kick d)
    with append_store_inv [OF i(1) append(3) i(2)] i(3) show ?thesis
      by (auto simp: store_ok_def intro!: exI [of _ hist])
  next
    case (flush io ok d)
    from flush_store_inv [OF size i(1,2) flush(3)] i(3) flush(2) show ?thesis by (auto simp: store_ok_def)
  next
    case (sweep io ok d)
    from sweep_store_inv [OF i(1,2) sweep(3)] i(3) sweep(2) show ?thesis by (auto simp: store_ok_def)
  next
    case (close io ok d)
    obtain ok1 d1 where f: "flush size_of cols io (z_store s) = (ok1, d1)" by fastforce
    have d: "d = z_store s \<or> d = d1\<lparr>d_closed := True, d_fanout := fanout_close (d_fanout d1)\<rparr>"
      using close(3) f by (auto simp: durable_close_def split: if_splits)
    from flush_store_inv [OF size i(1,2) f] obtain hist' where h: "store_inv hist' {} d1" "counted hist' {} d1"
      "seg_seqs hist' @ a_recs (d_log d1) = seg_seqs hist @ a_recs (d_log (z_store s))" by blast
    then have "store_inv hist' {} (d1\<lparr>d_closed := True, d_fanout := fanout_close (d_fanout d1)\<rparr>)"
      "counted hist' {} (d1\<lparr>d_closed := True, d_fanout := fanout_close (d_fanout d1)\<rparr>)"
      by (simp_all add: store_inv_def counted_def)
    with d i h(3) close(2) show ?thesis by (auto simp: store_ok_def)
  next
    case kicked
    with i show ?thesis by (auto simp: store_ok_def unkick_def store_inv_def counted_def intro!: exI [of _ hist])
  next
    case (crash k io opts)
    from crash_recovers [OF size i(1) crash(3,4)] obtain hist' where
      h: "store_inv hist' {} (z_store s')" "counted hist' {} (z_store s')" "a_recs (d_log (z_store s')) = []"
        "seg_seqs hist' = seg_seqs hist @ take k (a_recs (d_log (z_store s)))"
      by (auto simp: crash(2))
    with i(3) crash(3) have "z_accepted s' = seg_seqs hist' @ a_recs (d_log (z_store s'))" by (simp add: crash(2))
    with h show ?thesis by (auto simp: store_ok_def)
  qed
qed

lemma new_store_ok: "store_ok (new_store size_of cols io opts)"
proof -
  have "landed [] (empty_catalog, \<lparr>o_objects = [], o_temps = [], o_next = 0\<rparr>)"
    by (simp add: landed_def empty_inv) (simp add: empty_catalog_def)
  then show ?thesis
    by (simp add: store_ok_def new_store_def open_durable_def alog_orphans_def empty_alog_def store_inv_def
        counted_def seg_seqs_def seq_sorted_def exI [of _ "[]"])
qed

lemma store_reachable_ok:
  "store_reachable size_of cols s \<Longrightarrow> \<forall>rs. 0 \<le> size_of rs \<Longrightarrow> store_ok s"
  by (induction rule: store_reachable.induct) (auto intro: store_step_ok new_store_ok)


section \<open>Examples\<close>

definition demo_store_io :: store_io where
  "demo_store_io = \<lparr>io_append = True, io_rotate = True, io_read_segment = (\<lambda>_. None), io_remove_segment = (\<lambda>_. True),
     io_quarantine = (\<lambda>_. True), io_intend = True, io_put = (\<lambda>_. Some CommitOk), io_register = (\<lambda>_. True),
     io_remove_object = (\<lambda>_. True), io_forget = (\<lambda>_. True), io_discard = (\<lambda>_. True), io_list = True,
     io_floor = True, io_now = 0\<rparr>"

definition demo_opts :: durable_opts where
  "demo_opts = \<lparr>o_backlog = 2, o_flush_rows = 0, o_flush_bytes = 0, o_flush_interval = 0, o_keep_raw = True,
     o_grace = 0, o_orphan_grace = 0\<rparr>"

abbreviation demo_fresh :: store_sys where
  "demo_fresh \<equiv> new_store (\<lambda>_. 0) (\<lambda>_. []) demo_store_io demo_opts"

abbreviation demo_line :: rec where
  "demo_line \<equiv> empty_rec\<lparr>r_stream := ''web'', r_ts := 1700000000000000000\<rparr>"

definition demo_one :: store_sys where
  "demo_one = (case durable_append demo_store_io demo_line (z_store demo_fresh) of
     (ok, _, d) \<Rightarrow> \<lparr>z_store = d, z_accepted = (if ok then [demo_line\<lparr>r_seq := 1\<rparr>] else [])\<rparr>)"

text \<open>A crash, and an open that cannot write the object of the segment it finds.\<close>

definition demo_crashed :: store_sys where
  "demo_crashed =
     \<lparr>z_store = open_durable (\<lambda>_. 0) (\<lambda>_. []) (demo_store_io\<lparr>io_put := (\<lambda>_. None)\<rparr>) demo_opts
        (crash_log 1 (d_log (z_store demo_one))) (d_cat (z_store demo_one)) (d_objects (z_store demo_one)),
      z_accepted = z_accepted demo_one\<rparr>"

lemma demo_fresh_eq:
  "z_store demo_fresh = \<lparr>d_opts = withDefaults demo_opts, d_log = empty_alog, d_cat = empty_catalog,
     d_objects = \<lparr>o_objects = [], o_temps = [], o_next = 0\<rparr>, d_fanout = empty_fanout,
     d_seq = 0, d_order = [], d_streams = [], d_batch = [], d_rows = 0, d_bytes = 0,
     d_closed = False, d_unflushed = [], d_kicked = False, d_quiet = 0, d_backoff = 0\<rparr>"
  "z_accepted demo_fresh = []"
  by (simp_all add: new_store_def open_durable_def alog_orphans_def empty_alog_def max_seq_def empty_catalog_def)

lemma demo_fresh_seq: "d_seq (z_store demo_fresh) = 0"
  by (simp add: demo_fresh_eq(1))

lemma demo_io_append: "io_append demo_store_io"
  by (simp add: demo_store_io_def)

lemma demo_one_eq:
  "a_recs (d_log (z_store demo_one)) = [demo_line\<lparr>r_seq := 1\<rparr>]" "z_accepted demo_one = [demo_line\<lparr>r_seq := 1\<rparr>]"
  "\<not> d_closed (z_store demo_one)"
  using demo_fresh_eq(2)
  by (simp_all add: demo_one_def demo_fresh_eq(1) durable_append_def alog_append_def demo_io_append Let_def
      empty_alog_def)

lemma demo_one_reachable: "store_reachable (\<lambda>_. 0) (\<lambda>_. []) demo_one"
proof -
  obtain ok kick d where a: "durable_append demo_store_io demo_line (z_store demo_fresh) = (ok, kick, d)"
    by (metis prod_cases3)
  from store_step.append [OF a, of "\<lambda>_. 0" "\<lambda>_. []"]
  have "store_step (\<lambda>_. 0) (\<lambda>_. []) demo_fresh (StoreAppend demo_store_io demo_line) demo_one"
    by (cases ok) (simp_all add: demo_one_def a demo_fresh_eq(2) demo_fresh_seq)
  then show ?thesis by (rule store_reachable.step [OF store_reachable.fresh])
qed

lemma demo_crashed_reachable: "store_reachable (\<lambda>_. 0) (\<lambda>_. []) demo_crashed"
proof -
  have "store_step (\<lambda>_. 0) (\<lambda>_. []) demo_one
      (StoreCrash 1 (demo_store_io\<lparr>io_put := (\<lambda>_. None)\<rparr>) demo_opts) demo_crashed"
    using store_step.crash [of 1 demo_one "demo_store_io\<lparr>io_put := (\<lambda>_. None)\<rparr>" "\<lambda>_. 0" "\<lambda>_. []" demo_opts]
    by (simp add: demo_crashed_def demo_one_eq demo_store_io_def)
  then show ?thesis by (rule store_reachable.step [OF demo_one_reachable])
qed


section \<open>A flush that works\<close>

definition calls_ok :: "store_io \<Rightarrow> bool" where
  "calls_ok io \<longleftrightarrow> io_rotate io \<and> io_intend io \<and>
     (\<forall>n. io_read_segment io n = None \<and> io_remove_segment io n \<and> io_quarantine io n) \<and>
     (\<forall>p. io_put io p = Some CommitOk \<and> io_register io p)"

lemma write_stream_ok:
  assumes "calls_ok io" "\<forall>rs. distinct (map cl_name (cols rs))"
  shows "fst (write_stream size_of cols io keep_raw s name rs cs)"
proof -
  obtain b objs where put: "put_object (io_put io name) name rs (io_now io) (snd cs) = (b, objs)" by fastforce
  from put_object_get [OF put] assms(1) have b by (simp add: calls_ok_def)
  have "insertFileTx (io_now io div 1000) (file_of size_of keep_raw s name rs) (cols rs) True (fst cs) \<noteq> Inl e" for e
    using assms(2) by (simp add: insertFileTx_def Let_def split: option.split)
  with put \<open>b\<close> assms(1) show ?thesis
    by (auto simp: write_stream_def register_def calls_ok_def split: prod.splits sum.splits if_splits)
qed

lemma persist_streams_ok:
  assumes "calls_ok io" "\<forall>rs. distinct (map cl_name (cols rs))"
  shows "fst (persist_streams size_of cols io keep_raw registered todo cs)"
proof (induction todo arbitrary: cs)
  case (Cons job todo)
  obtain s name rs where job: "job = (s, name, rs)" by (cases job)
  from Cons write_stream_ok [OF assms, of size_of keep_raw s name rs cs] show ?case
    by (auto simp: job split: prod.split) (metis fst_conv)
qed simp

lemma persist_batch_ok:
  assumes "calls_ok io" "\<forall>rs. distinct (map cl_name (cols rs))"
  shows "fst (persist_batch size_of cols io keep_raw b cs)"
  using persist_streams_ok [OF assms] assms(1)
  by (simp add: persist_batch_def Let_def intend_def calls_ok_def)

lemma replay_segment_empties:
  assumes ok: "calls_ok io" "\<forall>rs. distinct (map cl_name (cols rs))"
    and rep: "replay_segment size_of cols io n d = (r, q, d')"
  shows "map_of (a_sealed (d_log d')) n = None"
proof (cases "alog_replay n (d_log d)")
  case None
  with rep show ?thesis by (auto simp: replay_segment_def alog_replay_def)
next
  case (Some p)
  obtain rs dmg where p: "p = (rs, dmg)" by (cases p)
  obtain cat objs b where b: "persist_batch size_of cols io (o_keep_raw (d_opts d)) (group rs) (d_cat d, d_objects d) = (b, cat, objs)"
    by (metis prod_cases3)
  have b True using persist_batch_ok [OF ok, of size_of "o_keep_raw (d_opts d)" "group rs" "(d_cat d, d_objects d)"]
    by (simp_all add: b)
  with rep b Some ok(1) show ?thesis
    by (auto simp: replay_segment_def p Let_def calls_ok_def alog_drop_def delete_conv' split: if_splits)
qed

lemma retry_segments_empties:
  assumes ok: "calls_ok io" "\<forall>rs. distinct (map cl_name (cols rs))"
  shows "retry_segments size_of cols io ns d = (remaining, d') \<Longrightarrow>
    (\<forall>n\<in>set ns. map_of (a_sealed (d_log d')) n = None) \<and>
    (\<forall>n. map_of (a_sealed (d_log d)) n = None \<longrightarrow> map_of (a_sealed (d_log d')) n = None)"
proof (induction ns arbitrary: d remaining d')
  case (Cons n ns)
  obtain r q d1 where rep: "replay_segment size_of cols io n d = (r, q, d1)" by (metis prod_cases3)
  obtain rem d2 where rest: "retry_segments size_of cols io ns d1 = (rem, d2)" by fastforce
  from Cons.prems rep rest have "d' = d2" by auto
  moreover note Cons.IH [OF rest] replay_segment_empties [OF ok rep]
  moreover have "map_of (a_sealed (d_log d1)) m = None" if "map_of (a_sealed (d_log d)) m = None" for m
    using that replay_segment_others [OF rep, of m] \<open>map_of (a_sealed (d_log d1)) n = None\<close> by (cases "m = n") simp_all
  ultimately show ?case by auto
qed simp

lemma retry_segments_closed:
  "retry_segments size_of cols io ns d = (remaining, d') \<Longrightarrow> d_closed d' = d_closed d"
proof (induction ns arbitrary: d remaining d')
  case (Cons n ns)
  have "d_closed d1 = d_closed d" if "replay_segment size_of cols io n d = (ok, q, d1)" for ok q d1
    using that by (cases rule: replay_segment_cases) simp_all
  with Cons show ?case by (fastforce split: prod.splits)
qed simp

lemma flush_empties:
  assumes ok: "calls_ok io" "\<forall>rs. distinct (map cl_name (cols rs))" and size: "\<forall>rs. 0 \<le> size_of rs"
    and inv: "store_inv hist {} d" and count: "counted hist {} d" and "\<not> d_closed d"
    and run: "flush size_of cols io d = (b, d')"
  shows "a_recs (d_log d') = [] \<and> (\<forall>n. alog_replay n (d_log d') = None)"
proof -
  obtain rem dr where seg: "retry_segments size_of cols io (d_unflushed d) d = (rem, dr)" by fastforce
  let ?d1 = "dr\<lparr>d_unflushed := rem\<rparr>"
  have re: "retry size_of cols io d = (rem = [], ?d1)" by (simp add: retry_def seg)
  from retry_inv [OF size inv re] have r: "store_inv hist {} ?d1" "d_seq ?d1 = d_seq d" by auto
  have empty: "map_of (a_sealed (d_log dr)) n = None" for n
  proof (cases "map_of (a_sealed (d_log d)) n")
    case (Some p)
    with inv have "n \<in> set (d_unflushed d)" unfolding store_inv_def by (metis prod.collapse empty_iff)
    with retry_segments_empties [OF ok seg] show ?thesis by blast
  qed (use retry_segments_empties [OF ok seg] in blast)
  show ?thesis
  proof (cases "d_rows ?d1 = 0")
    case True
    then have "seal io ?d1 = (SealEmpty, ?d1)" by (simp add: seal_def)
    with run re assms(6) have "d' = ?d1" by (simp add: flush_def)
    moreover have "a_recs (d_log ?d1) = []" using True r(1) by (simp add: store_inv_def)
    ultimately show ?thesis using empty by (simp add: alog_replay_def)
  next
    case False
    have closed: "\<not> d_closed ?d1"
      using retry_segments_closed [OF seg] assms(6) by simp
    let ?n = "a_active (d_log ?d1)"
    obtain d2 where se: "seal io ?d1 = (Sealed ?n (d_batch ?d1), d2)"
      using False closed ok(1) by (simp add: seal_def alog_rotate_def calls_ok_def)
    have c: "counted hist {} ?d1" using count r(2) by (rule counted_same)
    note s = seal_store_inv [OF r(1) c se]
    have l2: "map_of (a_sealed (d_log d2)) m = None" if "m \<noteq> ?n" for m
      using that se empty [of m] by (auto simp: seal_def alog_rotate_def update_conv' split: if_splits)
    let ?d3 = "d2\<lparr>d_backoff := 0, d_quiet := 0\<rparr>"
    obtain ok4 cat objs where p: "persist_batch size_of cols io (o_keep_raw (d_opts d)) (d_batch ?d1)
        (d_cat ?d3, d_objects ?d3) = (ok4, cat, objs)" by (metis prod_cases3)
    have ok4 using persist_batch_ok [OF ok, of size_of "o_keep_raw (d_opts d)" "d_batch ?d1" "(d_cat ?d3, d_objects ?d3)"]
      unfolding p by simp
    moreover have "alog_drop (io_remove_segment io ?n) ?n (d_log d2) =
        (True, (d_log d2)\<lparr>a_sealed := AList.delete ?n (a_sealed (d_log d2))\<rparr>)"
      using ok(1) by (simp add: alog_drop_def calls_ok_def)
    ultimately have "d_log d' = (d_log d2)\<lparr>a_sealed := AList.delete ?n (a_sealed (d_log d2))\<rparr>"
      using run re se p assms(6) by (auto simp: flush_def Let_def)
    with s l2 show ?thesis by (auto simp: alog_replay_def delete_conv')
  qed
qed



section \<open>The durable store is a log store\<close>

definition durable_repr :: "durable \<Rightarrow> rec list \<Rightarrow> bool" where
  "durable_repr d h \<longleftrightarrow> rings_hold (nat (o_backlog (d_opts d))) (d_streams d) h \<and> seq_sorted h \<and>
     (\<forall>r\<in>set h. 0 < r_seq r \<and> r_seq r \<le> d_seq d)"

definition append_accepts :: "store_io \<Rightarrow> rec \<Rightarrow> durable \<Rightarrow> bool \<times> durable" where
  "append_accepts io r d = (case durable_append io r d of (ok, _, d') \<Rightarrow> (ok, d'))"

lemma durable_append_cases:
  assumes "durable_append io r d = (ok, kick, d')"
  obtains (refused) "\<not> ok" "d' = d\<lparr>d_seq := d_seq d + 1\<rparr>"
    | (accepted) names where "ok" "d_seq d' = d_seq d + 1" "d_opts d' = d_opts d"
        "d_streams d' = push_stream (nat (o_backlog (d_opts d))) (r\<lparr>r_seq := d_seq d + 1\<rparr>) (d_streams d)"
        "d_fanout d' = published (r\<lparr>r_seq := d_seq d + 1\<rparr>) names (d_fanout d)"
proof (cases "io_append io")
  case False
  with assms show ?thesis by (intro refused) (auto simp: durable_append_def alog_append_def)
next
  case True
  let ?names = "if map_of (d_streams d) (r_stream r) \<noteq> None then None else Some (d_order d @ [r_stream r])"
  from True assms show ?thesis
    by (intro accepted [of ?names]) (auto simp: durable_append_def alog_append_def Let_def published_def)
qed

lemma durable_append_repr:
  assumes "durable_repr d h" "durable_append io r d = (True, kick, d')"
  shows "durable_repr d' (h @ [r\<lparr>r_seq := d_seq d + 1\<rparr>])"
  using assms(2)
proof (cases rule: durable_append_cases)
  case (accepted names)
  have "\<forall>x\<in>set h. r_seq x < d_seq d + 1" using assms(1) by (auto simp: durable_repr_def)
  with assms(1) show ?thesis
    using push_stream_holds [of "nat (o_backlog (d_opts d))" "d_streams d" h "r\<lparr>r_seq := d_seq d + 1\<rparr>"]
    by (auto simp: durable_repr_def accepted seq_sorted_def sorted_wrt_append)
qed simp

lemma durable_repr_backlog:
  "durable_repr d h \<Longrightarrow> limit \<le> int (nat (o_backlog (d_opts d))) \<Longrightarrow>
      durable_backlog s limit d = last_n (if limit \<le> 0 then nat (o_backlog (d_opts d)) else nat limit) (of_stream s h)"
  using rings_backlog_holds [of "nat (o_backlog (d_opts d))" "d_streams d" h limit s]
    rings_backlog_all [of "nat (o_backlog (d_opts d))" "d_streams d" h limit s]
  by (cases "limit \<le> 0") (simp_all add: durable_backlog_def durable_repr_def nat_le_iff)

interpretation durable: log_store durable_repr append_accepts durable_backlog d_fanout
  "\<lambda>d. nat (o_backlog (d_opts d))"
proof
  show "durable_repr d h \<Longrightarrow> seq_sorted h \<and> (\<forall>r\<in>set h. 0 < r_seq r)" for d h
    by (simp add: durable_repr_def)
  show "durable_repr d h \<Longrightarrow> limit \<le> int (nat (o_backlog (d_opts d))) \<Longrightarrow>
      durable_backlog s limit d = last_n (if limit \<le> 0 then nat (o_backlog (d_opts d)) else nat limit) (of_stream s h)"
    for d h limit s
    by (rule durable_repr_backlog)
  show "\<exists>q names. durable_repr d' (h @ [r\<lparr>r_seq := q\<rparr>]) \<and>
        nat (o_backlog (d_opts d')) = nat (o_backlog (d_opts d)) \<and>
        d_fanout d' = published (r\<lparr>r_seq := q\<rparr>) names (d_fanout d)"
    if "durable_repr d h" "append_accepts io r d = (True, d')" for d h io r d'
  proof -
    from that(2) obtain kick where a: "durable_append io r d = (True, kick, d')"
      by (auto simp: append_accepts_def split: prod.splits)
    from a durable_append_repr [OF that(1) a] show ?thesis
      by (cases rule: durable_append_cases) auto
  qed
  show "durable_repr d' h \<and> nat (o_backlog (d_opts d')) = nat (o_backlog (d_opts d)) \<and> d_fanout d' = d_fanout d"
    if "durable_repr d h" "append_accepts io r d = (False, d')" for d h io r d'
  proof -
    from that(2) obtain kick where "durable_append io r d = (False, kick, d')"
      by (auto simp: append_accepts_def split: prod.splits)
    then show ?thesis using that(1) by (cases rule: durable_append_cases) (auto simp: durable_repr_def)
  qed
qed

end
