(* ===== verification/DurableCollect.thy ===== *)
theory DurableCollect
  imports DurableSystem
begin

text \<open>
  Garbage collection: a tombstoned file's object is removed, and its catalog row as well, unless
  a segment of the log could still produce the records the row accounts for.
\<close>

definition log_ordered :: "rec alog \<Rightarrow> bool" where
  "log_ordered l \<longleftrightarrow>
     (\<forall>n rs dmg. map_of (a_sealed l) n = Some (rs, dmg) \<longrightarrow> seq_sorted rs) \<and>
     (\<forall>n m rs ms d1 d2 r q. n < m \<longrightarrow> map_of (a_sealed l) n = Some (rs, d1) \<longrightarrow>
        map_of (a_sealed l) m = Some (ms, d2) \<longrightarrow> r \<in> set rs \<longrightarrow> q \<in> set ms \<longrightarrow> r_seq r < r_seq q)"

lemma hist_ordered:
  assumes "seq_sorted (seg_seqs hist)" "sorted (map fst hist)"
    and "(n, rs) \<in> set hist" "(m, ms) \<in> set hist" "n < m" "r \<in> set rs" "q \<in> set ms"
  shows "r_seq r < r_seq q"
  using assms
proof (induction hist)
  case (Cons p hist)
  obtain k xs where p: "p = (k, xs)" by (cases p)
  have "seq_sorted (xs @ seg_seqs hist)" using Cons.prems(1) by (simp add: seg_seqs_def p)
  then have sep: "\<forall>x\<in>set xs. \<forall>y\<in>set (seg_seqs hist). r_seq x < r_seq y" "seq_sorted (seg_seqs hist)"
    by (simp_all add: seq_sorted_def sorted_wrt_append)
  have mem: "q \<in> set (seg_seqs hist)" if "(m, ms) \<in> set hist"
    using that Cons.prems(7) by (force simp: seg_seqs_def)
  from Cons.prems(3-5) consider "rs = xs" "(m, ms) \<in> set hist" | "(n, rs) \<in> set hist" "m = k"
    | "(n, rs) \<in> set hist" "(m, ms) \<in> set hist"
    by (auto simp: p)
  then show ?case
  proof cases
    case 1
    with sep(1) mem Cons.prems(6) show ?thesis by blast
  next
    case 2
    with Cons.prems(2,5) show ?thesis by (fastforce simp: p)
  next
    case 3
    with Cons.IH sep(2) Cons.prems show ?thesis by (simp add: p)
  qed
qed simp

lemma store_inv_log_ordered:
  assumes "store_inv hist pending d"
  shows "log_ordered (d_log d)"
proof -
  have i: "seq_sorted (seg_seqs hist)" "sorted (map fst hist)"
    "\<And>n rs dmg. map_of (a_sealed (d_log d)) n = Some (rs, dmg) \<Longrightarrow> (n, rs) \<in> set hist"
    using assms seq_sorted_append unfolding store_inv_def by blast+
  have "seq_sorted rs" if seg: "(n, rs) \<in> set hist" for n rs
  proof -
    from seg obtain h1 h2 where "hist = h1 @ (n, rs) # h2" by (meson split_list)
    with i(1) show ?thesis by (simp add: seg_seqs_def seq_sorted_def sorted_wrt_append)
  qed
  with i(3) hist_ordered [OF i(1,2)] show ?thesis unfolding log_ordered_def by blast
qed

lemma floor_from_bound:
  assumes seg: "\<And>n rs dmg. look n = Some (rs, dmg) \<Longrightarrow> seq_sorted rs"
    and ord: "\<And>n m rs ms d1 d2 r q. n < m \<Longrightarrow> look n = Some (rs, d1) \<Longrightarrow> look m = Some (ms, d2) \<Longrightarrow>
      r \<in> set rs \<Longrightarrow> q \<in> set ms \<Longrightarrow> r_seq r < r_seq q"
    and at: "look n = Some (rs, dmg)" "r \<in> set rs"
  shows "sorted ns \<Longrightarrow> floor_from look ns = Inr q \<Longrightarrow> n \<in> set ns \<Longrightarrow> \<exists>k. q = Some k \<and> k \<le> r_seq r"
proof (induction ns)
  case (Cons m ns)
  consider "look m = None" | dm where "look m = Some ([], dm)" | x xs dm where "look m = Some (x # xs, dm)"
    by (metis list.exhaust option.exhaust prod.exhaust)
  then show ?case
  proof cases
    case 1
    with at(1) Cons.prems have "floor_from look ns = Inr q" "n \<in> set ns" by auto
    with Cons show ?thesis by simp
  next
    case (2 dm)
    with at Cons.prems have "floor_from look ns = Inr q" "n \<in> set ns" by (auto split: if_splits)
    with Cons show ?thesis by simp
  next
    case (3 x xs dm)
    with Cons.prems(2) have q: "q = Some (r_seq x)" by simp
    show ?thesis
    proof (cases "n = m")
      case True
      with 3 at have "r \<in> set (x # xs)" by simp
      with seg [OF 3] q show ?thesis by (auto simp: seq_sorted_def)
    next
      case False
      with Cons.prems have "m < n" by auto
      from ord [OF this 3 at(1) _ at(2), of x] q show ?thesis by simp
    qed
  qed
qed simp

lemma alog_floor_bound:
  assumes "log_ordered l" "alog_floor l = Inr q" "alog_replay n l = Some (rs, dmg)" "r \<in> set rs"
  shows "\<exists>k. q = Some k \<and> k \<le> r_seq r"
proof -
  have n: "n \<in> set (alog_orphans l)" using assms(3) by (force simp: alog_replay_def alog_orphans_def dest: map_of_SomeD)
  have s: "sorted (alog_orphans l)" by (simp add: alog_orphans_def)
  show ?thesis
    by (rule floor_from_bound [of "\<lambda>n. alog_replay n l", OF _ _ assms(3,4) s assms(2) [unfolded alog_floor_def] n])
      (use assms(1) in \<open>unfold log_ordered_def alog_replay_def, blast+\<close>)
qed

lemma collect_files_keep:
  assumes "collect_files io floor fs (cat, objs) = (ok, cat', objs')" "f \<in> set (c_files cat)"
    and "\<forall>g\<in>set fs. fl_id g = fl_id f \<longrightarrow> fl_level g = 0 \<and> (\<exists>q. floor = Some q \<and> q \<le> fl_max_seq g)"
  shows "f \<in> set (c_files cat')"
  using assms
proof (induction fs arbitrary: cat objs ok)
  case (Cons g fs)
  obtain b objs1 where rm: "remove_object (io_remove_object io (fl_path g)) (fl_path g) objs = (b, objs1)" by fastforce
  obtain e cat1 where fo: "forget (io_forget io (fl_path g)) (fl_id g) cat = (e, cat1)" by fastforce
  let ?keep = "\<not> b \<or> (fl_level g = 0 \<and> (case floor of None \<Rightarrow> False | Some q \<Rightarrow> fl_max_seq g \<ge> q))"
  let ?cat = "if ?keep then cat else cat1"
  from Cons.prems(1) obtain ok1 where rest: "collect_files io floor fs (?cat, objs1) = (ok1, cat', objs')"
    by (auto simp: rm fo split: bool.splits if_splits prod.splits option.splits)
  have "f \<in> set (c_files ?cat)"
  proof (cases ?keep)
    case False
    with Cons.prems(3) have "fl_id g \<noteq> fl_id f" by auto
    with False fo Cons.prems(2) show ?thesis by (auto simp: forget_def split: if_splits)
  qed (simp add: Cons.prems(2))
  from Cons.IH [OF rest this] Cons.prems(3) show ?case by simp
qed simp

lemma collect_files_objects:
  assumes "collect_files io floor fs (cat, objs) = (ok, cat', objs')" "\<forall>g\<in>set fs. fl_path g \<noteq> p"
  shows "open_object p objs' = open_object p objs"
  using assms
proof (induction fs arbitrary: cat objs ok)
  case (Cons g fs)
  obtain b objs1 where rm: "remove_object (io_remove_object io (fl_path g)) (fl_path g) objs = (b, objs1)" by fastforce
  from Cons.prems(1) obtain ok1 cat1 where rest: "collect_files io floor fs (cat1, objs1) = (ok1, cat', objs')"
    by (auto simp: rm split: bool.splits if_splits prod.splits option.splits)
  have "open_object p objs1 = open_object p objs"
    using remove_object_get [OF rm, of p] Cons.prems(2) by (cases b) auto
  with Cons.IH [OF rest] Cons.prems(2) show ?case by simp
qed simp

text \<open>
  C18: collection is safe.  The row of a level-0 file stays as long as any segment of the log holds a
  record no newer than the file's newest, so a replay of that segment finds its objects
  registered and writes nothing twice; and a live file keeps its row and its object.
\<close>

theorem collect_keeps_replayable:
  assumes "cat_inv (d_cat d)" "log_ordered (d_log d)" "collect io d = (ok, d')" "f \<in> set (c_files (d_cat d))"
  shows "(\<forall>n rs dmg r. alog_replay n (d_log d) = Some (rs, dmg) \<and> r \<in> set rs \<and> fl_level f = 0 \<and>
       r_seq r \<le> fl_max_seq f \<longrightarrow> f \<in> set (c_files (d_cat d'))) \<and>
    (fl_state f = StateLive \<longrightarrow> f \<in> set (c_files (d_cat d')) \<and>
       open_object (fl_path f) (d_objects d') = open_object (fl_path f) (d_objects d))"
proof -
  let ?fs = "if io_list io then collectable ((io_now io - o_grace (d_opts d)) div 1000) (d_cat d) else []"
  let ?floor = "if io_floor io
    then (case alog_floor (d_log d) of Inr q \<Rightarrow> (True, q) | Inl _ \<Rightarrow> (False, Some 0)) else (False, Some 0)"
  obtain b cat objs where run: "collect_files io (snd ?floor) ?fs (d_cat d, d_objects d) = (b, cat, objs)"
    by (metis prod_cases3)
  from assms(3) run have d': "d_cat d' = cat" "d_objects d' = objs"
    by (auto simp: collect_def Let_def split: prod.splits if_splits sum.splits)
  have ids: "distinct (map fl_id (c_files (d_cat d)))" "distinct (map fl_path (c_files (d_cat d)))"
    using assms(1) by (simp_all add: cat_inv_def)
  have fs: "g \<in> set (c_files (d_cat d)) \<and> fl_state g = StateTombstoned" if "g \<in> set ?fs" for g
    using that by (auto simp: collectable_def split: if_splits)
  show ?thesis
  proof (intro conjI allI impI)
    fix n rs dmg r
    assume r: "alog_replay n (d_log d) = Some (rs, dmg) \<and> r \<in> set rs \<and> fl_level f = 0 \<and> r_seq r \<le> fl_max_seq f"
    have "\<exists>q. snd ?floor = Some q \<and> q \<le> r_seq r"
    proof (cases "alog_floor (d_log d)")
      case (Inr q)
      with alog_floor_bound [OF assms(2) Inr] r show ?thesis by fastforce
    qed simp
    then obtain q where q: "snd ?floor = Some q" "q \<le> r_seq r" by blast
    have same: "g = f" if g: "g \<in> set ?fs" "fl_id g = fl_id f" for g
      using ids(1) fs [OF g(1)] g(2) assms(4) by (auto simp: distinct_map inj_on_def)
    have "\<forall>g\<in>set ?fs. fl_id g = fl_id f \<longrightarrow> fl_level g = 0 \<and> (\<exists>q. snd ?floor = Some q \<and> q \<le> fl_max_seq g)"
    proof (intro ballI impI)
      fix g assume "g \<in> set ?fs" "fl_id g = fl_id f"
      from same [OF this] q r show "fl_level g = 0 \<and> (\<exists>q. snd ?floor = Some q \<and> q \<le> fl_max_seq g)"
        by (metis le_trans)
    qed
    from collect_files_keep [OF run assms(4) this] show "f \<in> set (c_files (d_cat d'))" by (simp add: d')
  next
    assume live: "fl_state f = StateLive"
    have other: "fl_id g \<noteq> fl_id f \<and> fl_path g \<noteq> fl_path f" if "g \<in> set ?fs" for g
    proof -
      from fs [OF that] live have "g \<noteq> f" by auto
      with ids fs [OF that] assms(4) show ?thesis by (auto simp: distinct_map inj_on_def)
    qed
    then have "\<forall>g\<in>set ?fs. fl_id g = fl_id f \<longrightarrow> fl_level g = 0 \<and> (\<exists>q. snd ?floor = Some q \<and> q \<le> fl_max_seq g)"
      by blast
    from collect_files_keep [OF run assms(4) this] show "f \<in> set (c_files (d_cat d'))" by (simp add: d')
    have "\<forall>g\<in>set ?fs. fl_path g \<noteq> fl_path f" using other by blast
    from collect_files_objects [OF run this]
    show "open_object (fl_path f) (d_objects d') = open_object (fl_path f) (d_objects d)" by (simp add: d')
  qed
qed

text \<open>A tombstoned file of records 6 to 10 and a segment whose only record is number 8.\<close>

definition demo_collect :: durable where
  "demo_collect = (z_store demo_fresh)
     \<lparr>d_cat := empty_catalog\<lparr>c_files := [(demo_file ''p'' 6 5)\<lparr>fl_id := 1, fl_state := StateTombstoned,
        fl_tombstoned_at := Some (- 1000000000)\<rparr>], c_next_id := 2, c_max_seq := Some 10,
        c_streams := [(''web'', \<lparr>sr_first_seen = 0, sr_last_seen = 0, sr_rows = 0, sr_bytes = 0\<rparr>)]\<rparr>,
      d_log := empty_alog\<lparr>a_sealed := [(1, [demo_line\<lparr>r_seq := 8\<rparr>], False)], a_active := 2\<rparr>\<rparr>"

theorem collect_keeps_replayable_witness:
  "(demo_file ''p'' 6 5)\<lparr>fl_id := 1, fl_state := StateTombstoned, fl_tombstoned_at := Some (- 1000000000)\<rparr> \<in>
     set (c_files (d_cat (snd (collect demo_store_io demo_collect))))"
    (is "?f \<in> _")
proof -
  obtain ok d' where c: "collect demo_store_io demo_collect = (ok, d')" by fastforce
  have cat: "cat_inv (d_cat demo_collect)"
    by (simp add: demo_collect_def cat_inv_def empty_catalog_def rollup_ok_def live_of_def stream_total_def
        file_ok_def demo_file_def max_seq_def file_at_def)
  have log: "log_ordered (d_log demo_collect)"
    by (simp add: demo_collect_def log_ordered_def seq_sorted_def)
  have f: "?f \<in> set (c_files (d_cat demo_collect))" by (simp add: demo_collect_def)
  have "alog_replay 1 (d_log demo_collect) = Some ([demo_line\<lparr>r_seq := 8\<rparr>], False)"
    by (simp add: demo_collect_def alog_replay_def)
  moreover have "fl_level ?f = 0" "r_seq (demo_line\<lparr>r_seq := 8\<rparr>) \<le> fl_max_seq ?f"
    by (simp_all add: demo_file_def)
  ultimately have "?f \<in> set (c_files (d_cat d'))"
    using collect_keeps_replayable [OF cat log c f] by (metis list.set_intros(1))
  then show ?thesis by (simp add: c)
qed

end
