(* ===== verification/GoStrings.thy ===== *)
theory GoStrings
  imports GoText "HOL-Library.List_Lexorder"
begin

text \<open>
  More of Go's \<open>strings\<close> and \<open>bytes\<close>: case mapping of ASCII, white space and \<open>TrimSpace\<close>.
\<close>

definition ascii_lower :: "char \<Rightarrow> char" where
  "ascii_lower c = (if 65 \<le> (of_char c :: nat) \<and> (of_char c :: nat) \<le> 90 then char_of ((of_char c :: nat) + 32) else c)"

definition ascii_upper :: "char \<Rightarrow> char" where
  "ascii_upper c = (if 97 \<le> (of_char c :: nat) \<and> (of_char c :: nat) \<le> 122 then char_of ((of_char c :: nat) - 32) else c)"

definition is_ascii :: "string \<Rightarrow> bool" where
  "is_ascii s \<longleftrightarrow> list_all (\<lambda>c. (of_char c :: nat) < 128) s"

text \<open>\<open>strings.ToLower\<close> and \<open>strings.ToUpper\<close>; beyond ASCII the Unicode tables, a parameter, decide.\<close>

definition to_lower :: "(string \<Rightarrow> string) \<Rightarrow> string \<Rightarrow> string" where
  "to_lower unicode s = (if is_ascii s then map ascii_lower s else unicode s)"

definition to_upper :: "(string \<Rightarrow> string) \<Rightarrow> string \<Rightarrow> string" where
  "to_upper unicode s = (if is_ascii s then map ascii_upper s else unicode s)"

lemma ascii_lower_idem [simp]: "ascii_lower (ascii_lower c) = ascii_lower c"
  by (auto simp: ascii_lower_def)

lemma ascii_upper_idem [simp]: "ascii_upper (ascii_upper c) = ascii_upper c"
  by (auto simp: ascii_upper_def)

lemma ascii_upper_ascii: "(of_char c :: nat) < 128 \<Longrightarrow> (of_char (ascii_upper c) :: nat) < 128"
  by (auto simp: ascii_upper_def)

lemma to_upper_idem: "is_ascii s \<Longrightarrow> to_upper u (to_upper u' s) = to_upper u' s"
  by (auto simp: to_upper_def is_ascii_def list_all_iff ascii_upper_ascii)

section \<open>White space\<close>

text \<open>\<open>unicode.IsSpace\<close>.\<close>

definition is_space :: "nat \<Rightarrow> bool" where
  "is_space r \<longleftrightarrow> (9 \<le> r \<and> r \<le> 13) \<or> r = 32 \<or> r = 0x85 \<or> r = 0xA0 \<or> r = 0x1680 \<or>
     (0x2000 \<le> r \<and> r \<le> 0x200A) \<or> r = 0x2028 \<or> r = 0x2029 \<or> r = 0x202F \<or> r = 0x205F \<or> r = 0x3000"

definition string_of_bytes :: "nat list \<Rightarrow> string" where
  "string_of_bytes bs = map char_of bs"

definition trim_space :: "string \<Rightarrow> string" where
  "trim_space s =
     string_of_bytes (concat (map snd
       (rev (dropWhile (\<lambda>p. is_space (fst p)) (rev
         (dropWhile (\<lambda>p. is_space (fst p)) (decode_runes (bytes_of s))))))))"

lemma dropWhile_hd: "xs = [] \<or> \<not> P (hd xs) \<Longrightarrow> dropWhile P xs = xs"
  by (cases xs) auto

lemma trim_space_ascii:
  assumes "is_ascii s" "s \<noteq> [] \<longrightarrow> \<not> is_space (of_char (hd s)) \<and> \<not> is_space (of_char (last s))"
  shows "trim_space s = s"
proof (cases "s = []")
  case False
  let ?d = "map (\<lambda>b. (b, [b])) (bytes_of s)"
  have d: "decode_runes (bytes_of s) = ?d"
    using assms(1) by (intro decode_runes_ascii) (auto simp: is_ascii_def list_all_iff bytes_of_def)
  have ends: "\<not> is_space (fst (hd ?d))" "\<not> is_space (fst (last ?d))"
    using False assms(2) by (simp_all add: bytes_of_def hd_map last_map)
  have "dropWhile (\<lambda>p. is_space (fst p)) ?d = ?d" using ends(1) by (intro dropWhile_hd) blast
  moreover have "dropWhile (\<lambda>p. is_space (fst p)) (rev ?d) = rev ?d"
    using ends(2) False by (intro dropWhile_hd) (simp add: hd_rev bytes_of_def)
  moreover have "concat (map snd ?d) = bytes_of s" using concat_decode_runes [of "bytes_of s"] unfolding d .
  ultimately have "trim_space s = string_of_bytes (bytes_of s)"
    unfolding trim_space_def d by (simp only: rev_rev_ident)
  then show ?thesis by (simp add: bytes_of_def string_of_bytes_def o_def)
qed (simp add: trim_space_def bytes_of_def string_of_bytes_def)

lemma trim_space_Nil [simp]: "trim_space [] = []"
  by (simp add: trim_space_def bytes_of_def string_of_bytes_def)

end
