(* ===== verification/Severity.thy ===== *)
theory Severity
  imports GoStrings RecordModel
begin

text \<open>
  Severity levels: the names ingest stores (\<open>normalizeLevel\<close> in \<open>src/internal/normalize/normalize.go\<close>)
  and the rank queries and retention order them by (\<open>Rank\<close> in \<open>src/internal/rql/sql.go\<close>).  \<open>up\<close> and
  \<open>lo\<close> are the Unicode case mappings beyond ASCII.
\<close>

definition levelNames :: "(string \<times> string) list" where
  "levelNames = [(''trace'', ''TRACE''), (''verbose'', ''TRACE''), (''debug'', ''DEBUG''), (''dbg'', ''DEBUG''),
     (''info'', ''INFO''), (''information'', ''INFO''), (''informational'', ''INFO''), (''notice'', ''NOTICE''),
     (''warn'', ''WARN''), (''warning'', ''WARN''), (''error'', ''ERROR''), (''err'', ''ERROR''),
     (''crit'', ''CRITICAL''), (''critical'', ''CRITICAL''), (''alert'', ''ALERT''),
     (''emerg'', ''EMERGENCY''), (''emergency'', ''EMERGENCY''), (''fatal'', ''FATAL''), (''panic'', ''FATAL'')]"

definition PinoLevel :: "int \<Rightarrow> string option" where
  "PinoLevel n = map_of [(10, ''TRACE''), (20, ''DEBUG''), (30, ''INFO''), (40, ''WARN''), (50, ''ERROR''), (60, ''FATAL'')] n"

definition normalizeLevel :: "(string \<Rightarrow> string) \<Rightarrow> (string \<Rightarrow> string) \<Rightarrow> fvalue \<Rightarrow> string" where
  "normalizeLevel lo up v =
     (if v_kind v = KindString
      then (let t = trim_space (v_str v)
        in if t = [] then []
           else case map_of levelNames (to_lower lo t) of Some name \<Rightarrow> name | None \<Rightarrow> to_upper up t)
      else if v_kind v = KindInt then (case PinoLevel (v_int v) of Some name \<Rightarrow> name | None \<Rightarrow> [])
      else [])"

definition Level :: "(string \<Rightarrow> string) \<Rightarrow> (string \<Rightarrow> string) \<Rightarrow> string \<Rightarrow> string" where
  "Level lo up name = normalizeLevel lo up (StrV name)"

definition SeverityRank :: "(string \<times> int) list" where
  "SeverityRank = [(''TRACE'', 10), (''DEBUG'', 20), (''INFO'', 30), (''NOTICE'', 35), (''WARN'', 40), (''ERROR'', 50),
     (''CRITICAL'', 55), (''ALERT'', 58), (''EMERGENCY'', 60), (''FATAL'', 60)]"

definition Rank :: "(string \<Rightarrow> string) \<Rightarrow> string \<Rightarrow> int" where
  "Rank up level =
     (case map_of SeverityRank (to_upper up (trim_space level)) of
        Some r \<Rightarrow> r
      | None \<Rightarrow> if level = [] then 0 else 33)"

lemma Rank_nonneg: "0 \<le> Rank up level"
  by (auto simp: Rank_def SeverityRank_def split: option.split if_splits dest!: map_of_SomeD)

text \<open>Every name ingest makes of a known level has a rank of its own: the two tables agree.\<close>

lemma levels_ranked:
  "\<forall>(_, name)\<in>set levelNames. Rank up name = the (map_of SeverityRank name)"
proof -
  have plain: "\<forall>(_, name)\<in>set levelNames. is_ascii name \<and> map ascii_upper name = name \<and> name \<noteq> [] \<and>
      \<not> is_space (of_char (hd name)) \<and> \<not> is_space (of_char (last name))"
    by (simp add: levelNames_def is_ascii_def ascii_upper_def is_space_def)
  have known: "\<forall>(_, name)\<in>set levelNames. map_of SeverityRank name \<noteq> None"
    by (simp add: levelNames_def SeverityRank_def)
  show ?thesis
  proof (intro ballI, clarify)
    fix k name assume m: "(k, name) \<in> set levelNames"
    with plain have "trim_space name = name" "to_upper up name = name"
      by (auto intro!: trim_space_ascii simp: to_upper_def)
    with m known show "Rank up name = the (map_of SeverityRank name)" by (auto simp: Rank_def)
  qed
qed

end
