(* ===== verification/Parquet.thy ===== *)
theory Parquet
  imports RecordModel GoStrings "HOL-Library.AList"
begin

text \<open>
  The Parquet files, \<open>src/internal/parquetio\<close>: the schema derived from a batch (\<open>schema.go\<close>), the
  rows and statistics of a file (\<open>writer.go\<close>) and the records read back (\<open>reader.go\<close>).  A file is
  its leaf columns and its rows, each the list of its named non-null cells; how \<open>parquet-go\<close>
  lays them out in bytes is not modelled.  \<open>go_lib\<close> collects the library functions the code
  calls on floats and JSON text.
\<close>

section \<open>Names and columns\<close>

definition ColTs :: string where "ColTs = ''ts''"
definition ColIngestTs :: string where "ColIngestTs = ''ingest_ts''"
definition ColStream :: string where "ColStream = ''stream''"
definition ColSeq :: string where "ColSeq = ''seq''"
definition ColLevel :: string where "ColLevel = ''level''"
definition ColMsg :: string where "ColMsg = ''msg''"
definition ColHost :: string where "ColHost = ''host''"
definition ColIsJSON :: string where "ColIsJSON = ''is_json''"
definition ColRaw :: string where "ColRaw = ''raw''"
definition FieldPrefix :: string where "FieldPrefix = ''a_''"
definition MaxColumns :: nat where "MaxColumns = 512"

lemmas envelope_names = ColTs_def ColIngestTs_def ColStream_def ColSeq_def ColLevel_def ColMsg_def
  ColHost_def ColIsJSON_def ColRaw_def

definition envelope :: "string list" where
  "envelope = [ColTs, ColIngestTs, ColStream, ColSeq, ColLevel, ColMsg, ColHost, ColIsJSON, ColRaw]"

record pcolumn =
  pc_name :: string
  pc_key :: string
  pc_kind :: kind
  pc_poly :: bool

section \<open>The schema of a batch\<close>

record kind_set =
  ks_seen :: "kind list"
  ks_count :: nat

definition ks_add :: "kind \<Rightarrow> kind_set \<Rightarrow> kind_set" where
  "ks_add k s = s\<lparr>ks_seen := List.insert k (ks_seen s),
     ks_count := (if k \<noteq> KindNull then ks_count s + 1 else ks_count s)\<rparr>"

text \<open>The kind, whether it is polymorphic, and whether the key gets a column at all.\<close>

definition ks_resolve :: "kind_set \<Rightarrow> kind \<times> bool \<times> bool" where
  "ks_resolve s =
     (if ks_count s = 0 then (KindNull, False, False)
      else let kinds = filter (\<lambda>k. k \<noteq> KindNull) (ks_seen s)
        in if length kinds = 1 then (hd kinds, False, True)
           else if list_all (\<lambda>k. k = KindInt \<or> k = KindFloat) kinds then (KindFloat, False, True)
           else (KindString, True, True))"

definition observe :: "rec list \<Rightarrow> (string \<times> kind_set) list" where
  "observe rs =
     fold (\<lambda>(k, v) obs. AList.update k
         (ks_add (v_kind v) (case map_of obs k of None \<Rightarrow> \<lparr>ks_seen = [], ks_count = 0\<rparr> | Some s \<Rightarrow> s)) obs)
       (concat (map r_fields rs)) []"

record candidate =
  cd_key :: string
  cd_kind :: kind
  cd_poly :: bool
  cd_count :: nat

definition candidate_of :: "string \<times> kind_set \<Rightarrow> candidate option" where
  "candidate_of = (\<lambda>(k, s). case ks_resolve s of
     (kd, poly, ok) \<Rightarrow> if ok then Some \<lparr>cd_key = k, cd_kind = kd, cd_poly = poly, cd_count = ks_count s\<rparr>
                       else None)"

definition candidates :: "rec list \<Rightarrow> candidate list" where
  "candidates rs =
     sort_key (\<lambda>c. - int (cd_count c)) (sort_key cd_key (List.map_filter candidate_of (observe rs)))"

definition key_char :: "nat \<Rightarrow> char" where
  "key_char r = (if (97 \<le> r \<and> r \<le> 122) \<or> (65 \<le> r \<and> r \<le> 90) \<or> (48 \<le> r \<and> r \<le> 57) \<or> r = 95
     then char_of r else CHR ''_'')"

definition base_column :: "string \<Rightarrow> string" where
  "base_column key =
     (let b = FieldPrefix @ map key_char (runes key)
      in if b = FieldPrefix then FieldPrefix @ ''field'' else b)"

abbreviation lower_name :: "string \<Rightarrow> string" where
  "lower_name \<equiv> map ascii_lower"

definition suffixed :: "string \<Rightarrow> nat \<Rightarrow> string" where
  "suffixed b i = b @ ''_'' @ show_nat i"

text \<open>The loop over the numeric suffixes: the first name not taken.\<close>

lemma show_nat_inject [simp]: "show_nat m = show_nat n \<longleftrightarrow> m = n"
  using nat_of_show_nat by metis

lemma ascii_lower_digit [simp]: "is_digit c \<Longrightarrow> ascii_lower c = c"
  by (auto simp: is_digit_def ascii_lower_def)

lemma lower_digits: "list_all is_digit s \<Longrightarrow> lower_name s = s"
  by (auto simp: list_all_iff intro: map_idI)

lemma lower_suffixed_inj: "lower_name (suffixed b i) = lower_name (suffixed b j) \<longleftrightarrow> i = j"
  by (simp add: suffixed_def lower_digits [OF show_nat_digits])

function free_name :: "string \<Rightarrow> string list \<Rightarrow> string \<Rightarrow> nat \<Rightarrow> string" where
  "free_name b taken name i =
     (if lower_name name \<in> set taken then free_name b taken (suffixed b i) (i + 1) else name)"
  by auto

definition left_to_try :: "string \<Rightarrow> string list \<Rightarrow> string \<Rightarrow> nat \<Rightarrow> nat" where
  "left_to_try b taken name i =
     2 * card {j. i \<le> j \<and> lower_name (suffixed b j) \<in> set taken} +
     (if lower_name name \<in> set taken then 1 else 0)"

lemma finite_tries: "finite {j. i \<le> j \<and> lower_name (suffixed b j) \<in> set taken}"
proof (rule finite_subset)
  show "finite ((\<lambda>j. lower_name (suffixed b j)) -` set taken)"
    by (rule finite_vimageI) (auto simp: inj_def lower_suffixed_inj)
qed auto

termination free_name
proof (relation "measure (\<lambda>(b, taken, name, i). left_to_try b taken name i)")
  fix b name :: string and taken i
  assume hit: "lower_name name \<in> set taken"
  let ?T = "\<lambda>i. {j. i \<le> j \<and> lower_name (suffixed b j) \<in> set taken}"
  have "left_to_try b taken (suffixed b i) (i + 1) < left_to_try b taken name i"
  proof (cases "lower_name (suffixed b i) \<in> set taken")
    case True
    then have "?T i = insert i (?T (i + 1))" by (auto simp: Suc_le_eq order_le_less)
    then have "card (?T i) = Suc (card (?T (i + 1)))"
      using finite_tries [of "i + 1" b taken] by simp
    with True hit show ?thesis by (simp add: left_to_try_def)
  next
    case False
    then have "?T i = ?T (i + 1)" by (auto simp: Suc_le_eq order_le_less)
    with False hit show ?thesis by (simp add: left_to_try_def)
  qed
  then show "((b, taken, suffixed b i, i + 1), b, taken, name, i) \<in>
      measure (\<lambda>(b, taken, name, i). left_to_try b taken name i)" by simp
qed simp

declare free_name.simps [simp del]

definition columnName :: "string \<Rightarrow> string list \<Rightarrow> string" where
  "columnName key taken = free_name (base_column key) taken (base_column key) 2"

fun name_columns :: "string list \<Rightarrow> candidate list \<Rightarrow> pcolumn list" where
  "name_columns taken [] = []"
| "name_columns taken (c # cs) =
     (let name = columnName (cd_key c) taken
      in \<lparr>pc_name = name, pc_key = cd_key c, pc_kind = cd_kind c, pc_poly = cd_poly c\<rparr>
         # name_columns (lower_name name # taken) cs)"

record pschema =
  sc_columns :: "pcolumn list"
  sc_dropped :: nat

definition BuildSchema :: "rec list \<Rightarrow> pschema" where
  "BuildSchema rs =
     (let cs = candidates rs
      in \<lparr>sc_columns = sort_key pc_name (name_columns (map lower_name envelope) (take MaxColumns cs)),
          sc_dropped = length cs - MaxColumns\<rparr>)"

section \<open>Cells\<close>

datatype ptype = PBoolean | PInt64 | PDouble | PByteArray

fun leafFor :: "kind \<Rightarrow> ptype" where
  "leafFor KindBool = PBoolean"
| "leafFor KindInt = PInt64"
| "leafFor KindFloat = PDouble"
| "leafFor _ = PByteArray"

datatype cell = CellBool bool | CellInt int | CellDouble float64 | CellBytes string

record go_lib =
  g_float_text :: "float64 \<Rightarrow> string"      \<comment> \<open>\<open>strconv.FormatFloat\<close>\<close>
  g_json_float :: "float64 \<Rightarrow> string"
  g_json_string :: "string \<Rightarrow> string"      \<comment> \<open>\<open>json.Marshal\<close>\<close>
  g_json_valid :: "string \<Rightarrow> bool"        \<comment> \<open>\<open>json.Valid\<close>\<close>
  g_of_int :: "int \<Rightarrow> float64"           \<comment> \<open>conversion of an \<open>int64\<close>\<close>
  g_float_less :: "float64 \<Rightarrow> float64 \<Rightarrow> bool"

definition jsonLiteral :: "go_lib \<Rightarrow> fvalue \<Rightarrow> string" where
  "jsonLiteral lib v =
     (case v_kind v of
        KindString \<Rightarrow> value_json (g_json_float lib) (g_json_string lib) v
      | KindNull \<Rightarrow> ''null''
      | _ \<Rightarrow> value_text (g_float_text lib) v)"

definition valueFor :: "go_lib \<Rightarrow> kind \<Rightarrow> fvalue \<Rightarrow> cell option" where
  "valueFor lib k v =
     (case k of
        KindBool \<Rightarrow> if v_kind v \<noteq> KindBool then None else Some (CellBool (v_bool v))
      | KindInt \<Rightarrow> if v_kind v \<noteq> KindInt then None else Some (CellInt (v_int v))
      | KindFloat \<Rightarrow>
          (case v_kind v of
             KindFloat \<Rightarrow> Some (CellDouble (v_float v))
           | KindInt \<Rightarrow> Some (CellDouble (g_of_int lib (v_int v)))
           | _ \<Rightarrow> None)
      | KindJSON \<Rightarrow> Some (CellBytes (if v_kind v \<noteq> KindJSON then jsonLiteral lib v else v_str v))
      | _ \<Rightarrow> Some (CellBytes (value_text (g_float_text lib) v)))"

end
