(* ===== verification/ParquetFile.thy ===== *)
theory ParquetFile
  imports Parquet LogStore Catalog
begin

text \<open>
  Writing records to a file and reading them back: \<open>Write\<close>, \<open>Order\<close> and \<open>ReadWith\<close> of
  \<open>src/internal/parquetio\<close>.
\<close>

section \<open>The order of a file\<close>

record write_opts =
  wo_keep_raw :: bool
  wo_sort_by :: "string list"

definition text_cell :: "string \<Rightarrow> cell option" where
  "text_cell s = (if s = [] then None else Some (CellBytes s))"

definition field_cell :: "go_lib \<Rightarrow> pcolumn \<Rightarrow> rec \<Rightarrow> cell option" where
  "field_cell lib c r =
     (case map_of (r_fields r) (pc_key c) of
        None \<Rightarrow> None
      | Some v \<Rightarrow> if v_kind v = KindNull then None else valueFor lib (pc_kind c) v)"

definition micros :: "int \<Rightarrow> int" where
  "micros t = t div 1000"

definition resolve_key :: "go_lib \<Rightarrow> pschema \<Rightarrow> write_opts \<Rightarrow> string \<Rightarrow> (rec \<Rightarrow> cell option) option" where
  "resolve_key lib schema opts name =
     (if name = ColTs then Some (\<lambda>r. Some (CellInt (micros (r_ts r))))
      else if name = ColIngestTs then Some (\<lambda>r. Some (CellInt (micros (r_ingest_ts r))))
      else if name = ColSeq then Some (\<lambda>r. Some (CellInt (int (r_seq r))))
      else if name = ColIsJSON then Some (\<lambda>r. Some (CellBool (is_object r)))
      else if name = ColStream then Some (\<lambda>r. Some (CellBytes (r_stream r)))
      else if name = ColLevel then Some (\<lambda>r. text_cell (r_level r))
      else if name = ColMsg then Some (\<lambda>r. text_cell (r_msg r))
      else if name = ColHost then Some (\<lambda>r. text_cell (r_host r))
      else if name = ColRaw then (if wo_keep_raw opts then Some (\<lambda>r. text_cell (r_raw r)) else None)
      else if take 2 name = FieldPrefix
      then map_option (field_cell lib) (find (\<lambda>c. pc_key c = drop 2 name) (sc_columns schema))
      else None)"

definition resolveSort :: "go_lib \<Rightarrow> pschema \<Rightarrow> write_opts \<Rightarrow> (rec \<Rightarrow> cell option) list" where
  "resolveSort lib schema opts =
     List.map_filter (resolve_key lib schema opts)
       (if wo_sort_by opts = [] then [ColSeq] else wo_sort_by opts)"

fun cell_less :: "go_lib \<Rightarrow> cell \<Rightarrow> cell \<Rightarrow> bool" where
  "cell_less lib (CellBool a) (CellBool b) \<longleftrightarrow> \<not> a \<and> b"
| "cell_less lib (CellInt a) (CellInt b) \<longleftrightarrow> a < b"
| "cell_less lib (CellDouble a) (CellDouble b) \<longleftrightarrow> g_float_less lib a b"
| "cell_less lib (CellBytes a) (CellBytes b) \<longleftrightarrow> a < b"
| "cell_less lib _ _ \<longleftrightarrow> False"

text \<open>Ascending, nulls last, the first key that differs decides.\<close>

fun row_before :: "go_lib \<Rightarrow> (rec \<Rightarrow> cell option) list \<Rightarrow> rec \<Rightarrow> rec \<Rightarrow> bool" where
  "row_before lib [] a b \<longleftrightarrow> False"
| "row_before lib (k # ks) a b \<longleftrightarrow>
     (case (k a, k b) of
        (None, None) \<Rightarrow> row_before lib ks a b
      | (None, Some _) \<Rightarrow> False
      | (Some _, None) \<Rightarrow> True
      | (Some x, Some y) \<Rightarrow>
          if cell_less lib x y then True else if cell_less lib y x then False else row_before lib ks a b)"

text \<open>\<open>sort.SliceStable\<close>.\<close>

fun insert_stable :: "('a \<Rightarrow> 'a \<Rightarrow> bool) \<Rightarrow> 'a \<Rightarrow> 'a list \<Rightarrow> 'a list" where
  "insert_stable lt x [] = [x]"
| "insert_stable lt x (y # ys) = (if lt y x then y # insert_stable lt x ys else x # y # ys)"

definition sort_stable :: "('a \<Rightarrow> 'a \<Rightarrow> bool) \<Rightarrow> 'a list \<Rightarrow> 'a list" where
  "sort_stable lt xs = foldr (insert_stable lt) xs []"

definition sortRecords :: "go_lib \<Rightarrow> (rec \<Rightarrow> cell option) list \<Rightarrow> rec list \<Rightarrow> rec list" where
  "sortRecords lib keys rs = (if keys = [] then rs else sort_stable (row_before lib keys) rs)"

definition Order :: "go_lib \<Rightarrow> write_opts \<Rightarrow> rec list \<Rightarrow> rec list" where
  "Order lib opts rs =
     (if rs = [] then [] else sortRecords lib (resolveSort lib (BuildSchema rs) opts) rs)"

section \<open>Column statistics\<close>

definition numeric :: "go_lib \<Rightarrow> fvalue \<Rightarrow> float64" where
  "numeric lib v = (if v_kind v = KindInt then g_of_int lib (v_int v) else v_float v)"

definition value_less :: "go_lib \<Rightarrow> fvalue \<Rightarrow> fvalue \<Rightarrow> bool" where
  "value_less lib a b =
     (if v_kind a = KindInt \<and> v_kind b = KindInt then v_int a < v_int b
      else if v_kind a = KindBool \<and> v_kind b = KindBool then \<not> v_bool a \<and> v_bool b
      else if (v_kind a = KindFloat \<or> v_kind a = KindInt) \<and> (v_kind b = KindFloat \<or> v_kind b = KindInt)
      then g_float_less lib (numeric lib a) (numeric lib b)
      else value_text (g_float_text lib) a < value_text (g_float_text lib) b)"

record col_acc =
  ca_nulls :: nat
  ca_range :: "(fvalue \<times> fvalue) option"

definition observe_value :: "go_lib \<Rightarrow> pcolumn \<Rightarrow> fvalue \<Rightarrow> col_acc \<Rightarrow> col_acc" where
  "observe_value lib c v a =
     (if pc_kind c = KindJSON \<or> pc_poly c then a
      else case ca_range a of
        None \<Rightarrow> a\<lparr>ca_range := Some (v, v)\<rparr>
      | Some (lo, hi) \<Rightarrow> a\<lparr>ca_range := Some (if value_less lib v lo then v else lo,
                                         if value_less lib hi v then v else hi)\<rparr>)"

definition acc_row :: "go_lib \<Rightarrow> pcolumn \<Rightarrow> rec \<Rightarrow> col_acc \<Rightarrow> col_acc" where
  "acc_row lib c r a =
     (case map_of (r_fields r) (pc_key c) of
        None \<Rightarrow> a\<lparr>ca_nulls := ca_nulls a + 1\<rparr>
      | Some v \<Rightarrow>
          (if v_kind v = KindNull then a\<lparr>ca_nulls := ca_nulls a + 1\<rparr>
           else case valueFor lib (pc_kind c) v of
             None \<Rightarrow> a\<lparr>ca_nulls := ca_nulls a + 1\<rparr>
           | Some _ \<Rightarrow> observe_value lib c v a))"

definition accumulate :: "go_lib \<Rightarrow> pcolumn \<Rightarrow> rec list \<Rightarrow> col_acc" where
  "accumulate lib c rs = fold (acc_row lib c) rs \<lparr>ca_nulls = 0, ca_range = None\<rparr>"

text \<open>\<open>stats\<close>, as the column the catalog stores: see \<open>write\<close> in \<open>durable.go\<close> and \<open>merge\<close> in \<open>compact.go\<close>.\<close>

definition acc_stats :: "go_lib \<Rightarrow> pcolumn \<Rightarrow> col_acc \<Rightarrow> column" where
  "acc_stats lib c a =
     \<lparr>cl_name = pc_name c, cl_source_key = pc_key c, cl_kind = kind_string (pc_kind c),
      cl_polymorphic = pc_poly c, cl_null_count = int (ca_nulls a),
      cl_min_value = (case ca_range a of None \<Rightarrow> [] | Some (lo, _) \<Rightarrow> value_text (g_float_text lib) lo),
      cl_max_value = (case ca_range a of None \<Rightarrow> [] | Some (_, hi) \<Rightarrow> value_text (g_float_text lib) hi),
      cl_has_range = (ca_range a \<noteq> None)\<rparr>"

section \<open>Rows\<close>

type_synonym row = "(string \<times> cell) list"

record pfile =
  pf_leaves :: "(string \<times> ptype) list"
  pf_rows :: "row list"

definition opt_cell :: "string \<Rightarrow> string \<Rightarrow> row" where
  "opt_cell name s = (if s = [] then [] else [(name, CellBytes s)])"

definition appendEnvelope :: "bool \<Rightarrow> rec \<Rightarrow> row" where
  "appendEnvelope keep_raw r =
     [(ColTs, CellInt (micros (r_ts r))), (ColIngestTs, CellInt (micros (r_ingest_ts r))),
      (ColStream, CellBytes (r_stream r)), (ColSeq, CellInt (int (r_seq r))),
      (ColIsJSON, CellBool (is_object r))] @
     opt_cell ColLevel (r_level r) @ opt_cell ColMsg (r_msg r) @ opt_cell ColHost (r_host r) @
     (if keep_raw then opt_cell ColRaw (r_raw r) else [])"

definition write_row :: "go_lib \<Rightarrow> bool \<Rightarrow> pcolumn list \<Rightarrow> rec \<Rightarrow> row" where
  "write_row lib keep_raw cols r =
     appendEnvelope keep_raw r @
     List.map_filter (\<lambda>c. map_option (Pair (pc_name c)) (field_cell lib c r)) cols"

definition schema_leaves :: "pschema \<Rightarrow> (string \<times> ptype) list" where
  "schema_leaves s =
     [(ColTs, PInt64), (ColIngestTs, PInt64), (ColStream, PByteArray), (ColSeq, PInt64),
      (ColLevel, PByteArray), (ColMsg, PByteArray), (ColHost, PByteArray), (ColIsJSON, PBoolean),
      (ColRaw, PByteArray)] @ map (\<lambda>c. (pc_name c, leafFor (pc_kind c))) (sc_columns s)"

record file_stats =
  st_rows :: nat
  st_min_ts :: int
  st_max_ts :: int
  st_min_seq :: nat
  st_max_seq :: nat
  st_columns :: "column list"
  st_dropped :: nat
  st_has_raw :: bool

definition write_stats :: "go_lib \<Rightarrow> write_opts \<Rightarrow> pschema \<Rightarrow> rec list \<Rightarrow> file_stats" where
  "write_stats lib opts schema rs =
     \<lparr>st_rows = length rs,
      st_min_ts = foldl (\<lambda>m r. if r_ts r < m then r_ts r else m) (r_ts (hd rs)) rs,
      st_max_ts = foldl (\<lambda>m r. if r_ts r > m then r_ts r else m) (r_ts (hd rs)) rs,
      st_min_seq = foldl (\<lambda>m r. if r_seq r < m then r_seq r else m) (r_seq (hd rs)) rs,
      st_max_seq = foldl (\<lambda>m r. if r_seq r > m then r_seq r else m) (r_seq (hd rs)) rs,
      st_columns = map (\<lambda>c. acc_stats lib c (accumulate lib c rs)) (sc_columns schema),
      st_dropped = sc_dropped schema, st_has_raw = wo_keep_raw opts\<rparr>"

text \<open>\<open>Write\<close> up to the object store: \<open>None\<close> is the refusal of an empty file.\<close>

definition parquet_write :: "go_lib \<Rightarrow> write_opts \<Rightarrow> rec list \<Rightarrow> (pfile \<times> file_stats) option" where
  "parquet_write lib opts rs0 =
     (if rs0 = [] then None
      else let schema = BuildSchema rs0; rs = sortRecords lib (resolveSort lib schema opts) rs0
        in Some (\<lparr>pf_leaves = schema_leaves schema,
                  pf_rows = map (write_row lib (wo_keep_raw opts) (sc_columns schema)) rs\<rparr>,
                 write_stats lib opts schema rs))"

section \<open>Reading\<close>

fun ParseKind :: "string \<Rightarrow> kind" where
  "ParseKind name = (if name = ''boolean'' then KindBool else if name = ''int'' then KindInt
     else if name = ''float'' then KindFloat else if name = ''string'' then KindString
     else if name = ''json'' then KindJSON else KindString)"

text \<open>What the catalog's columns say of a leaf: its key and its kind.\<close>

definition sourceColumns :: "column list \<Rightarrow> (string \<times> string \<times> kind) list" where
  "sourceColumns cols = map (\<lambda>c. (cl_name c, cl_source_key c, ParseKind (cl_kind c))) cols"

definition looksLikeJSON :: "go_lib \<Rightarrow> string \<Rightarrow> bool" where
  "looksLikeJSON lib s =
     (let t = trim_space s
      in 2 \<le> length t \<and> (hd t = CHR ''{'' \<or> hd t = CHR ''['') \<and> g_json_valid lib t)"

definition decodeValue :: "go_lib \<Rightarrow> kind option \<Rightarrow> cell \<Rightarrow> fvalue" where
  "decodeValue lib declared x =
     (case x of
        CellBool b \<Rightarrow> BoolV b
      | CellInt i \<Rightarrow> IntV i
      | CellDouble f \<Rightarrow> FloatV f
      | CellBytes s \<Rightarrow>
          (if declared = Some KindString then StrV s
           else if declared = Some KindJSON then JSONV s
           else if looksLikeJSON lib s then JSONV s else StrV s))"

fun cell_int :: "cell \<Rightarrow> int" where "cell_int (CellInt i) = i" | "cell_int _ = 0"
fun cell_bytes :: "cell \<Rightarrow> string" where "cell_bytes (CellBytes s) = s" | "cell_bytes _ = []"
fun cell_bool :: "cell \<Rightarrow> bool" where "cell_bool (CellBool b) = b" | "cell_bool _ = False"

definition decode_cell :: "go_lib \<Rightarrow> (string \<times> string \<times> kind) list \<Rightarrow> rec \<Rightarrow> string \<times> cell \<Rightarrow> rec" where
  "decode_cell lib declared r = (\<lambda>(name, x).
     if name = ColTs then r\<lparr>r_ts := cell_int x * 1000\<rparr>
     else if name = ColIngestTs then r\<lparr>r_ingest_ts := cell_int x * 1000\<rparr>
     else if name = ColStream then r\<lparr>r_stream := cell_bytes x\<rparr>
     else if name = ColSeq then r\<lparr>r_seq := nat (cell_int x)\<rparr>
     else if name = ColLevel then r\<lparr>r_level := cell_bytes x\<rparr>
     else if name = ColMsg then r\<lparr>r_msg := cell_bytes x\<rparr>
     else if name = ColHost then r\<lparr>r_host := cell_bytes x\<rparr>
     else if name = ColRaw then r\<lparr>r_raw := cell_bytes x\<rparr>
     else if name = ColIsJSON then r\<lparr>r_type := (if cell_bool x then ''object'' else ''string'')\<rparr>
     else case map_of declared name of
       Some (key, kd) \<Rightarrow> r\<lparr>r_fields := AList.update key (decodeValue lib (Some kd) x) (r_fields r)\<rparr>
     | None \<Rightarrow>
         (if take 2 name \<noteq> FieldPrefix then r
          else r\<lparr>r_fields := AList.update (drop 2 name) (decodeValue lib None x) (r_fields r)\<rparr>))"

definition settle_type :: "go_lib \<Rightarrow> rec \<Rightarrow> rec" where
  "settle_type lib r =
     (let r1 = (if r_type r = ''object'' \<and> r_raw r \<noteq> [] \<and> g_json_valid lib (r_raw r)
                then r\<lparr>r_json := Some (r_raw r)\<rparr>
                else if r_type r = ''object'' then r\<lparr>r_type := ''string''\<rparr> else r)
      in if r_type r1 = [] then r1\<lparr>r_type := ''string''\<rparr> else r1)"

definition decodeRow :: "go_lib \<Rightarrow> (string \<times> string \<times> kind) list \<Rightarrow> row \<Rightarrow> rec" where
  "decodeRow lib declared cells = settle_type lib (foldl (decode_cell lib declared) empty_rec cells)"

text \<open>\<open>trim\<close>, and the loop over the chunks in which the rows come.\<close>

definition trim_newest :: "nat \<Rightarrow> rec list \<Rightarrow> rec list" where
  "trim_newest limit rs = (let s = sort_key r_seq rs in drop (length s - limit) s)"

fun read_chunks :: "nat \<Rightarrow> rec list list \<Rightarrow> rec list \<Rightarrow> rec list" where
  "read_chunks limit [] rs = (if limit > 0 then trim_newest limit rs else rs)"
| "read_chunks limit (c # cs) rs =
     (let rs' = rs @ c
      in read_chunks limit cs (if limit > 0 \<and> length rs' \<ge> 2 * limit then trim_newest limit rs' else rs'))"

text \<open>
  A row group comes in chunks, each with what \<open>ReadRows\<close> returned beside it.  The loop leaves
  the group at any error, the end of the group or another one.
\<close>

datatype read_end = ReadMore | ReadEOF | ReadFails

fun delivered :: "('r list \<times> read_end) list \<Rightarrow> 'r list list" where
  "delivered [] = []"
| "delivered ((rows, e) # cs) = rows # (if e \<noteq> ReadMore \<or> rows = [] then [] else delivered cs)"

definition ReadWith ::
  "go_lib \<Rightarrow> column list \<Rightarrow> nat \<Rightarrow> (row list \<times> read_end) list list \<Rightarrow> rec list" where
  "ReadWith lib cols limit groups =
     read_chunks limit (map (map (decodeRow lib (sourceColumns cols))) (concat (map delivered groups))) []"

end
