(* ===== verification/ParquetSchema.thy ===== *)
theory ParquetSchema
  imports Parquet "HOL-Library.Multiset"
begin

text \<open>
  The schema of a batch: what a key's column is, that names never collide, that the order of
  the records does not matter.
\<close>

section \<open>What is observed of a key\<close>

definition kinds_of :: "string \<Rightarrow> (string \<times> fvalue) list \<Rightarrow> kind list" where
  "kinds_of k kvs = map (\<lambda>p. v_kind (snd p)) (filter (\<lambda>p. fst p = k) kvs)"

lemma kinds_of_simps [simp]:
  "kinds_of k [] = []" "kinds_of k (xs @ ys) = kinds_of k xs @ kinds_of k ys"
  "kinds_of k [(j, v)] = (if j = k then [v_kind v] else [])"
  by (simp_all add: kinds_of_def)

definition seen_as :: "kind list \<Rightarrow> kind_set \<Rightarrow> bool" where
  "seen_as ks s \<longleftrightarrow> set (ks_seen s) = set ks \<and> distinct (ks_seen s) \<and>
     ks_count s = length (filter (\<lambda>k. k \<noteq> KindNull) ks)"

definition observed_as :: "kind list \<Rightarrow> kind_set option \<Rightarrow> bool" where
  "observed_as ks o' \<longleftrightarrow> (case o' of None \<Rightarrow> ks = [] | Some s \<Rightarrow> ks \<noteq> [] \<and> seen_as ks s)"

definition observed_ok :: "(string \<times> fvalue) list \<Rightarrow> (string \<times> kind_set) list \<Rightarrow> bool" where
  "observed_ok kvs obs \<longleftrightarrow> distinct (map fst obs) \<and>
     (\<forall>k. observed_as (kinds_of k kvs) (map_of obs k))"

definition observe_step :: "string \<times> fvalue \<Rightarrow> (string \<times> kind_set) list \<Rightarrow> (string \<times> kind_set) list" where
  "observe_step = (\<lambda>(k, v) obs. AList.update k
     (ks_add (v_kind v) (case map_of obs k of None \<Rightarrow> \<lparr>ks_seen = [], ks_count = 0\<rparr> | Some s \<Rightarrow> s)) obs)"

lemma observe_step_ok:
  assumes "observed_ok kvs obs"
  shows "observed_ok (kvs @ [p]) (observe_step p obs)"
proof -
  obtain k v where p: "p = (k, v)" by (cases p)
  let ?old = "case map_of obs k of None \<Rightarrow> \<lparr>ks_seen = [], ks_count = 0\<rparr> | Some s \<Rightarrow> s"
  have "observed_as (kinds_of k kvs) (map_of obs k)" using assms by (simp add: observed_ok_def)
  then have "seen_as (kinds_of k kvs) ?old"
    by (cases "map_of obs k") (simp_all add: observed_as_def seen_as_def)
  then have "seen_as (kinds_of k kvs @ [v_kind v]) (ks_add (v_kind v) ?old)"
    by (auto simp: seen_as_def ks_add_def)
  then have "observed_as (kinds_of k kvs @ [v_kind v]) (Some (ks_add (v_kind v) ?old))"
    by (simp add: observed_as_def)
  with assms show ?thesis
    by (simp add: observed_ok_def observe_step_def p update_conv' distinct_update)
qed

lemma observe_ok: "observed_ok (concat (map r_fields rs)) (observe rs)"
proof -
  have "observed_ok (xs @ kvs) (fold observe_step kvs obs)" if "observed_ok xs obs" for xs kvs obs
    using that
  proof (induction kvs arbitrary: xs obs)
    case (Cons p kvs)
    from Cons.IH [OF observe_step_ok [OF Cons.prems, of p]] show ?case by simp
  qed simp
  from this [of "[]" "[]" "concat (map r_fields rs)"] show ?thesis
    by (simp add: observed_ok_def observed_as_def observe_def observe_step_def)
qed

section \<open>The column of a key\<close>

text \<open>What the source documents: one kind keeps it, integers and floats widen to float, the rest to text.\<close>

definition column_kind :: "kind list \<Rightarrow> (kind \<times> bool) option" where
  "column_kind ks =
     (let n = filter (\<lambda>k. k \<noteq> KindNull) ks
      in if n = [] then None
         else if set n = {hd n} then Some (hd n, False)
         else if set n \<subseteq> {KindInt, KindFloat} then Some (KindFloat, False)
         else Some (KindString, True))"

lemma ks_resolve_spec:
  assumes "seen_as ks s"
  shows "ks_resolve s = (case column_kind ks of None \<Rightarrow> (KindNull, False, False) | Some (k, p) \<Rightarrow> (k, p, True))"
proof -
  let ?n = "filter (\<lambda>k. k \<noteq> KindNull) ks" and ?d = "filter (\<lambda>k. k \<noteq> KindNull) (ks_seen s)"
  have d: "set ?d = set ?n" "distinct ?d" and c: "ks_count s = length ?n"
    using assms by (auto simp: seen_as_def)
  show ?thesis
  proof (cases "?n = []")
    case True
    with c show ?thesis by (simp add: ks_resolve_def column_kind_def Let_def)
  next
    case False
    then have hd: "hd ?n \<in> set ?d" using d(1) hd_in_set [OF False] by simp
    have one: "length ?d = 1 \<longleftrightarrow> set ?n = {hd ?n}"
    proof
      assume "length ?d = 1"
      then obtain x where "?d = [x]" by (metis One_nat_def length_0_conv length_Suc_conv)
      then have "set ?d = {x}" by (metis list.set(1,2))
      with d(1) hd show "set ?n = {hd ?n}" by (metis singletonD)
    next
      assume "set ?n = {hd ?n}"
      with d(1) have "card (set ?d) = 1" by (metis card_1_singleton_iff One_nat_def)
      then show "length ?d = 1" by (simp only: distinct_card [OF d(2)])
    qed
    have first: "hd ?d = hd ?n" if "length ?d = 1"
    proof -
      from that obtain x where "?d = [x]" by (metis One_nat_def length_0_conv length_Suc_conv)
      with hd show ?thesis by (metis list.sel(1) list.set(1,2) singletonD)
    qed
    have "list_all (\<lambda>k. k = KindInt \<or> k = KindFloat) ?d \<longleftrightarrow> set ?n \<subseteq> {KindInt, KindFloat}"
      using d(1) by (auto simp: list_all_iff)
    moreover have "ks_count s \<noteq> 0" using c False by simp
    ultimately show ?thesis
      using False one first unfolding ks_resolve_def column_kind_def Let_def
      by (cases "length ?d = 1") simp_all
  qed
qed

lemma column_kind_mset: "mset ks = mset ks' \<Longrightarrow> column_kind ks = column_kind ks'"
proof -
  assume m: "mset ks = mset ks'"
  define n where "n = filter (\<lambda>k. k \<noteq> KindNull) ks"
  define n' where "n' = filter (\<lambda>k. k \<noteq> KindNull) ks'"
  have s: "set n = set n'" using m unfolding n_def n'_def by (metis mset_filter set_mset_mset)
  show ?thesis
  proof (cases "n = []")
    case True
    with s have "n' = []" by simp
    with True show ?thesis by (simp add: column_kind_def Let_def flip: n_def n'_def)
  next
    case False
    with s have ne: "n' \<noteq> []" by auto
    have one: "set n = {hd n} \<longleftrightarrow> set n' = {hd n'}" "set n = {hd n} \<Longrightarrow> hd n = hd n'"
      using s hd_in_set [OF False] hd_in_set [OF ne] by auto
    show ?thesis
      unfolding column_kind_def Let_def n_def [symmetric] n'_def [symmetric] using False ne one s by (cases "set n = {hd n}") simp_all
  qed
qed

section \<open>Candidates\<close>

lemma candidate_of_Some:
  "candidate_of (k, s) = Some c \<longleftrightarrow>
     ks_resolve s = (cd_kind c, cd_poly c, True) \<and> cd_key c = k \<and> cd_count c = ks_count s"
proof -
  obtain kd poly ok where r: "ks_resolve s = (kd, poly, ok)" by (metis prod_cases3)
  show ?thesis by (cases c; cases ok) (auto simp: candidate_of_def r)
qed

lemma set_map_filter: "y \<in> set (List.map_filter f xs) \<longleftrightarrow> (\<exists>x\<in>set xs. f x = Some y)"
  by (induction xs) (auto simp: List.map_filter_simps split: option.splits)

lemma candidates_set:
  "c \<in> set (candidates rs) \<longleftrightarrow>
     column_kind (kinds_of (cd_key c) (concat (map r_fields rs))) = Some (cd_kind c, cd_poly c) \<and>
     cd_count c = length (filter (\<lambda>k. k \<noteq> KindNull) (kinds_of (cd_key c) (concat (map r_fields rs))))"
proof -
  let ?kvs = "concat (map r_fields rs)"
  have ok: "observed_ok ?kvs (observe rs)" by (rule observe_ok)
  then have seen: "observed_as (kinds_of k ?kvs) (map_of (observe rs) k)" for k unfolding observed_ok_def by blast
  have m: "c \<in> set (candidates rs) \<longleftrightarrow> (\<exists>s. map_of (observe rs) (cd_key c) = Some s \<and>
      ks_resolve s = (cd_kind c, cd_poly c, True) \<and> cd_count c = ks_count s)"
  proof -
    have d: "distinct (map fst (observe rs))" using ok by (simp add: observed_ok_def)
    have "c \<in> set (candidates rs) \<longleftrightarrow> (\<exists>p\<in>set (observe rs). candidate_of p = Some c)"
      by (simp add: candidates_def set_map_filter)
    also have "\<dots> \<longleftrightarrow> (\<exists>k s. (k, s) \<in> set (observe rs) \<and> candidate_of (k, s) = Some c)"
      by (metis prod.collapse)
    also have "\<dots> \<longleftrightarrow> (\<exists>s. (cd_key c, s) \<in> set (observe rs) \<and>
        ks_resolve s = (cd_kind c, cd_poly c, True) \<and> cd_count c = ks_count s)"
      unfolding candidate_of_Some by blast
    finally show ?thesis by (simp only: map_of_eq_Some_iff [OF d])
  qed
  show ?thesis
  proof (cases "map_of (observe rs) (cd_key c)")
    case None
    with seen [of "cd_key c"] have "kinds_of (cd_key c) ?kvs = []" by (simp add: observed_as_def)
    with None show ?thesis unfolding m by (simp add: column_kind_def)
  next
    case (Some s)
    with seen [of "cd_key c"] have "seen_as (kinds_of (cd_key c) ?kvs) s" by (simp add: observed_as_def)
    then have "cd_count c = ks_count s \<longleftrightarrow>
        cd_count c = length (filter (\<lambda>k. k \<noteq> KindNull) (kinds_of (cd_key c) ?kvs))"
      "ks_resolve s = (cd_kind c, cd_poly c, True) \<longleftrightarrow>
        column_kind (kinds_of (cd_key c) ?kvs) = Some (cd_kind c, cd_poly c)"
      by (simp_all add: ks_resolve_spec seen_as_def split: option.split prod.split)
    with Some show ?thesis unfolding m by simp
  qed
qed

lemma candidates_keys: "distinct (map cd_key (candidates rs))"
proof -
  have "distinct (map cd_key (List.map_filter candidate_of obs))" if "distinct (map fst obs)" for obs
    using that
  proof (induction obs)
    case (Cons p obs)
    obtain k s where p: "p = (k, s)" by (cases p)
    have "k \<notin> cd_key ` set (List.map_filter candidate_of obs)"
      using Cons.prems by (auto simp: p set_map_filter candidate_of_Some rev_image_eqI)
    with Cons show ?case
      by (auto simp: p List.map_filter_simps candidate_of_Some split: option.splits)
  qed (simp add: List.map_filter_simps)
  then have "distinct (map cd_key (List.map_filter candidate_of (observe rs)))"
    using observe_ok [of rs] by (simp add: observed_ok_def)
  then have "distinct (map cd_key (sort_key g (sort_key cd_key (List.map_filter candidate_of (observe rs)))))"
    for g :: "candidate \<Rightarrow> int"
    by (metis distinct_map distinct_sort set_sort)
  then show ?thesis by (simp add: candidates_def)
qed

text \<open>By descending count, then by key: a strict order, so the list is determined by its elements.\<close>

lemma candidates_order:
  "sorted_wrt (\<lambda>x y. - int (cd_count x) < - int (cd_count y) \<or>
     - int (cd_count x) = - int (cd_count y) \<and> cd_key x \<le> cd_key y) (candidates rs)"
  unfolding candidates_def by (rule sort_key_lex)

lemma sorted_wrt_unique:
  assumes "sorted_wrt R xs" "sorted_wrt R ys" "set xs = set ys" "distinct xs" "distinct ys"
    and "\<And>x y. x \<in> set xs \<Longrightarrow> y \<in> set xs \<Longrightarrow> R x y \<Longrightarrow> R y x \<Longrightarrow> x = y"
  shows "xs = ys"
  using assms
proof (induction xs arbitrary: ys)
  case (Cons x xs)
  obtain y ys' where ys: "ys = y # ys'" using Cons.prems(3) by (cases ys) auto
  have "x = y"
  proof (rule ccontr)
    assume "x \<noteq> y"
    have e: "insert x (set xs) = insert y (set ys')" using Cons.prems(3) unfolding ys list.set .
    have m: "y \<in> set xs" "x \<in> set ys'" using \<open>x \<noteq> y\<close> e by (metis insert_iff)+
    then have "R x y" "R y x" using Cons.prems(1,2) by (simp_all add: ys)
    with Cons.prems(6) [of x y] m(1) have "x = y" by simp
    with \<open>x \<noteq> y\<close> show False ..
  qed
  moreover have "xs = ys'"
  proof (rule Cons.IH)
    have n: "x \<notin> set xs" "x \<notin> set ys'" using Cons.prems(4,5) unfolding ys \<open>x = y\<close> [symmetric] by simp_all
    have "insert x (set xs) = insert x (set ys')"
      using Cons.prems(3) unfolding ys \<open>x = y\<close> [symmetric] list.set .
    then show "set xs = set ys'" by (simp only: insert_ident [OF n])
    show "\<And>a b. a \<in> set xs \<Longrightarrow> b \<in> set xs \<Longrightarrow> R a b \<Longrightarrow> R b a \<Longrightarrow> a = b"
      by (rule Cons.prems(6)) simp_all
  qed (use Cons.prems(1,2,4,5) in \<open>simp_all add: ys\<close>)
  ultimately show ?case using ys by simp
next
  case Nil
  show ?case using Nil.prems(3) by simp
qed

lemma same_kinds:
  assumes "mset kvs = mset kvs'"
  shows "column_kind (kinds_of k kvs) = column_kind (kinds_of k kvs')"
    "length (filter (\<lambda>k. k \<noteq> KindNull) (kinds_of k kvs)) = length (filter (\<lambda>k. k \<noteq> KindNull) (kinds_of k kvs'))"
proof -
  have m: "mset (kinds_of k kvs) = mset (kinds_of k kvs')" unfolding kinds_of_def mset_map mset_filter assms ..
  then show "column_kind (kinds_of k kvs) = column_kind (kinds_of k kvs')" by (rule column_kind_mset)
  have "mset (filter (\<lambda>k. k \<noteq> KindNull) (kinds_of k kvs)) = mset (filter (\<lambda>k. k \<noteq> KindNull) (kinds_of k kvs'))"
    unfolding mset_filter m ..
  then show "length (filter (\<lambda>k. k \<noteq> KindNull) (kinds_of k kvs)) = length (filter (\<lambda>k. k \<noteq> KindNull) (kinds_of k kvs'))"
    by (rule mset_eq_length)
qed

lemma candidates_mset:
  assumes "mset (concat (map r_fields rs)) = mset (concat (map r_fields rs'))"
  shows "candidates rs = candidates rs'"
proof (rule sorted_wrt_unique [OF candidates_order candidates_order])
  note k = same_kinds [OF assms]
  show "set (candidates rs) = set (candidates rs')"
    unfolding set_eq_iff candidates_set k by blast
  show "distinct (candidates rs)" "distinct (candidates rs')"
    using candidates_keys distinct_map by blast+
  show "x = y" if "x \<in> set (candidates rs)" "y \<in> set (candidates rs)"
    "- int (cd_count x) < - int (cd_count y) \<or> - int (cd_count x) = - int (cd_count y) \<and> cd_key x \<le> cd_key y"
    "- int (cd_count y) < - int (cd_count x) \<or> - int (cd_count y) = - int (cd_count x) \<and> cd_key y \<le> cd_key x"
    for x y
  proof -
    from that(3,4) have "cd_key x = cd_key y" by (elim disjE) auto
    moreover have "inj_on cd_key (set (candidates rs))" using candidates_keys [of rs] by (simp add: distinct_map)
    ultimately show ?thesis using that(1,2) by (simp add: inj_on_def)
  qed
qed

section \<open>Names\<close>

lemma free_name_eq:
  "lower_name name \<in> set taken \<Longrightarrow> free_name b taken name i = free_name b taken (suffixed b i) (i + 1)"
  "lower_name name \<notin> set taken \<Longrightarrow> free_name b taken name i = name"
  by (subst free_name.simps, simp)+

lemma free_name_free: "lower_name (free_name b taken name i) \<notin> set taken"
proof (induction b taken name i rule: free_name.induct)
  case (1 b taken name i)
  show ?case
  proof (cases "lower_name name \<in> set taken")
    case True
    from 1 [OF True] show ?thesis unfolding free_name_eq(1) [OF True] .
  next
    case False
    then show ?thesis unfolding free_name_eq(2) [OF False] .
  qed
qed

lemma columnName_free: "lower_name (columnName key taken) \<notin> set taken"
  by (simp add: columnName_def free_name_free)

lemma name_columns_names:
  "distinct (map (\<lambda>c. lower_name (pc_name c)) (name_columns taken cs)) \<and>
   (\<forall>c\<in>set (name_columns taken cs). lower_name (pc_name c) \<notin> set taken)"
proof (induction taken cs rule: name_columns.induct)
  case (2 taken c cs)
  let ?n = "columnName (cd_key c) taken"
  from 2 [of ?n] have ih: "distinct (map (\<lambda>c. lower_name (pc_name c)) (name_columns (lower_name ?n # taken) cs))"
    "\<forall>d\<in>set (name_columns (lower_name ?n # taken) cs). lower_name (pc_name d) \<notin> set (lower_name ?n # taken)"
    by auto
  then have "lower_name ?n \<notin> (\<lambda>c. lower_name (pc_name c)) ` set (name_columns (lower_name ?n # taken) cs)"
    by fastforce
  with ih columnName_free [of "cd_key c" taken] show ?case by (simp add: Let_def)
qed simp

lemma name_columns_what:
  "map pc_key (name_columns taken cs) = map cd_key cs"
  "map (\<lambda>c. (pc_key c, pc_kind c, pc_poly c)) (name_columns taken cs) =
   map (\<lambda>c. (cd_key c, cd_kind c, cd_poly c)) cs"
  by (induction taken cs rule: name_columns.induct) (simp_all add: Let_def)

lemma name_columns_length [simp]: "length (name_columns taken cs) = length cs"
  by (induction taken cs rule: name_columns.induct) (simp_all add: Let_def)

lemma sc_columns_mset:
  "mset (sc_columns (BuildSchema rs)) =
   mset (name_columns (map lower_name envelope) (take MaxColumns (candidates rs)))"
  by (simp add: BuildSchema_def Let_def)

lemma distinct_map_mset: "mset xs = mset ys \<Longrightarrow> distinct (map f xs) = distinct (map f ys)"
  by (metis mset_eq_imp_distinct_iff mset_map)

lemma schema_names:
  "distinct (map (\<lambda>c. lower_name (pc_name c)) (sc_columns (BuildSchema rs)))"
  "c \<in> set (sc_columns (BuildSchema rs)) \<Longrightarrow> lower_name (pc_name c) \<notin> lower_name ` set envelope"
proof -
  note n = name_columns_names [of "map lower_name envelope" "take MaxColumns (candidates rs)"]
  show "distinct (map (\<lambda>c. lower_name (pc_name c)) (sc_columns (BuildSchema rs)))"
    using n distinct_map_mset [OF sc_columns_mset] by blast
  assume "c \<in> set (sc_columns (BuildSchema rs))"
  then have "c \<in> set (name_columns (map lower_name envelope) (take MaxColumns (candidates rs)))"
    using sc_columns_mset [of rs] by (metis set_mset_mset)
  with n show "lower_name (pc_name c) \<notin> lower_name ` set envelope" by (metis list.set_map)
qed

lemma schema_keys:
  "distinct (map pc_key (sc_columns (BuildSchema rs)))"
proof -
  have "distinct (map pc_key (name_columns (map lower_name envelope) (take MaxColumns (candidates rs))))"
    using candidates_keys [of rs] distinct_take [of "map cd_key (candidates rs)" MaxColumns]
    by (simp add: name_columns_what(1) take_map)
  then show ?thesis using distinct_map_mset [OF sc_columns_mset] by blast
qed

lemma schema_column:
  assumes "c \<in> set (sc_columns (BuildSchema rs))"
  shows "\<exists>d\<in>set (candidates rs). (pc_key c, pc_kind c, pc_poly c) = (cd_key d, cd_kind d, cd_poly d)"
proof -
  have "c \<in> set (name_columns (map lower_name envelope) (take MaxColumns (candidates rs)))"
    using assms sc_columns_mset [of rs] by (metis set_mset_mset)
  then have "(pc_key c, pc_kind c, pc_poly c) \<in>
      set (map (\<lambda>c. (pc_key c, pc_kind c, pc_poly c)) (name_columns (map lower_name envelope) (take MaxColumns (candidates rs))))"
    by force
  then show ?thesis unfolding name_columns_what(2) by (auto dest: in_set_takeD)
qed

lemma column_of_kind:
  "c \<in> set (sc_columns (BuildSchema rs)) \<Longrightarrow>
   column_kind (kinds_of (pc_key c) (concat (map r_fields rs))) = Some (pc_kind c, pc_poly c)"
  by (drule schema_column) (auto simp: candidates_set)

text \<open>
  C19: the schema of any batch is sound.  Column names are distinct even to a reader that ignores
  case, and none is an envelope column; every key has one column at most, of the kind its values
  call for: the one they share, float for integers among floats, text otherwise; there are never
  more than \<open>MaxColumns\<close>, and when none is dropped every key with a value has its column.
\<close>

theorem build_schema_sound:
  shows "distinct (map (\<lambda>c. lower_name (pc_name c)) (sc_columns (BuildSchema rs))) \<and>
    (\<forall>c\<in>set (sc_columns (BuildSchema rs)). lower_name (pc_name c) \<notin> lower_name ` set envelope \<and>
       column_kind (kinds_of (pc_key c) (concat (map r_fields rs))) = Some (pc_kind c, pc_poly c)) \<and>
    distinct (map pc_key (sc_columns (BuildSchema rs))) \<and>
    length (sc_columns (BuildSchema rs)) \<le> MaxColumns \<and>
    (sc_dropped (BuildSchema rs) = 0 \<longrightarrow>
       (\<forall>k. column_kind (kinds_of k (concat (map r_fields rs))) \<noteq> None \<longrightarrow>
          k \<in> pc_key ` set (sc_columns (BuildSchema rs))))"
proof (intro conjI ballI allI impI)
  let ?named = "name_columns (map lower_name envelope) (take MaxColumns (candidates rs))"
  show "length (sc_columns (BuildSchema rs)) \<le> MaxColumns"
    using mset_eq_length [OF sc_columns_mset, of rs] by simp
  fix k
  assume d: "sc_dropped (BuildSchema rs) = 0"
    and k: "column_kind (kinds_of k (concat (map r_fields rs))) \<noteq> None"
  then obtain kd poly where "column_kind (kinds_of k (concat (map r_fields rs))) = Some (kd, poly)" by auto
  then have "\<lparr>cd_key = k, cd_kind = kd, cd_poly = poly,
      cd_count = length (filter (\<lambda>k. k \<noteq> KindNull) (kinds_of k (concat (map r_fields rs))))\<rparr> \<in> set (candidates rs)"
    by (simp add: candidates_set)
  then have "k \<in> set (map cd_key (candidates rs))" by force
  moreover have "take MaxColumns (candidates rs) = candidates rs"
    using d by (simp add: BuildSchema_def Let_def)
  ultimately have "k \<in> set (map pc_key ?named)" by (simp add: name_columns_what(1))
  then show "k \<in> pc_key ` set (sc_columns (BuildSchema rs))"
    using sc_columns_mset [of rs] by (metis list.set_map set_mset_mset)
qed (simp_all add: schema_names schema_keys column_of_kind)

definition demo_fields :: rec where
  "demo_fields = empty_rec\<lparr>r_fields := [(''a.b'', IntV 1), (''A-b'', StrV ''x'')]\<rparr>"

theorem build_schema_sound_witness:
  "''a.b'' \<in> pc_key ` set (sc_columns (BuildSchema [demo_fields]))"
proof -
  have "sc_dropped (BuildSchema [demo_fields]) = 0" by code_simp
  moreover have "column_kind (kinds_of ''a.b'' (concat (map r_fields [demo_fields]))) \<noteq> None" by code_simp
  ultimately show ?thesis using build_schema_sound [of "[demo_fields]"] by blast
qed

text \<open>
  C20: identical batches get identical schemas: neither the order of the records nor the order a
  map is walked in has any influence on the columns, their names or what is dropped.
\<close>

theorem schema_deterministic:
  assumes "mset (concat (map r_fields rs)) = mset (concat (map r_fields rs'))"
  shows "BuildSchema rs = BuildSchema rs'"
  unfolding BuildSchema_def candidates_mset [OF assms] ..

theorem schema_deterministic_witness:
  "BuildSchema [empty_rec\<lparr>r_fields := [(''a.b'', IntV 1)]\<rparr>, empty_rec\<lparr>r_fields := [(''a-b'', StrV ''x'')]\<rparr>] =
   BuildSchema [empty_rec\<lparr>r_fields := [(''a-b'', StrV ''x''), (''a.b'', IntV 1)]\<rparr>]"
  by (rule schema_deterministic) (simp add: add_mset_commute)

end
