(* ===== verification/ParquetRead.thy ===== *)
theory ParquetRead
  imports ParquetFile ParquetSchema
begin

text \<open>
  Reading back what was written: every record, every field that got a column, in the order of the
  file; and the newest records of a file, however its rows come.
\<close>

section \<open>Sorting keeps the records\<close>

lemma mset_insert_stable [simp]: "mset (insert_stable lt x ys) = add_mset x (mset ys)"
  by (induction ys) auto

lemma mset_sort_stable [simp]: "mset (sort_stable lt xs) = mset xs"
  by (induction xs) (simp_all add: sort_stable_def)

lemma mset_sortRecords [simp]: "mset (sortRecords lib keys rs) = mset rs"
  by (simp add: sortRecords_def)

lemma mset_Order [simp]: "mset (Order lib opts rs) = mset rs"
  by (simp add: Order_def)

lemma insert_stable_sorted:
  assumes "\<And>x y. lt x y \<Longrightarrow> \<not> lt y x" "\<And>x y z. \<not> lt y x \<Longrightarrow> \<not> lt z y \<Longrightarrow> \<not> lt z x"
    and "sorted_wrt (\<lambda>x y. \<not> lt y x) ys"
  shows "sorted_wrt (\<lambda>x y. \<not> lt y x) (insert_stable lt x ys)"
  using assms(3)
proof (induction ys)
  case (Cons y ys)
  have set: "set (insert_stable lt x zs) = insert x (set zs)" for zs
    by (metis mset_insert_stable set_mset_add_mset_insert set_mset_mset)
  show ?case
  proof (cases "lt y x")
    case True
    with Cons assms(1) show ?thesis by (auto simp: set)
  next
    case False
    then have "\<not> lt z x" if "z \<in> set ys" for z using Cons.prems assms(2) that by auto
    with False Cons.prems show ?thesis by simp
  qed
qed simp

lemma sort_stable_sorted:
  assumes "\<And>x y. lt x y \<Longrightarrow> \<not> lt y x" "\<And>x y z. \<not> lt y x \<Longrightarrow> \<not> lt z y \<Longrightarrow> \<not> lt z x"
  shows "sorted_wrt (\<lambda>x y. \<not> lt y x) (sort_stable lt xs)"
  by (induction xs) (simp_all add: sort_stable_def insert_stable_sorted [of lt, OF assms])

section \<open>One row\<close>

text \<open>What a value of a column is read back as: itself, widened to float, or as text.\<close>

definition stored_value :: "go_lib \<Rightarrow> pcolumn \<Rightarrow> fvalue \<Rightarrow> fvalue" where
  "stored_value lib c v =
     (if v_kind v = pc_kind c then v
      else if pc_kind c = KindFloat then FloatV (g_of_int lib (v_int v))
      else StrV (value_text (g_float_text lib) v))"

text \<open>A value as the constructors of \<open>model\<close> make it: nothing but its own kind's field is set.\<close>

definition value_ok :: "fvalue \<Rightarrow> bool" where
  "value_ok v \<longleftrightarrow> v \<in> {NullV, BoolV (v_bool v), IntV (v_int v), FloatV (v_float v), StrV (v_str v), JSONV (v_str v)}"

text \<open>How the values of a key and its column can differ.\<close>

definition fits :: "pcolumn \<Rightarrow> fvalue \<Rightarrow> bool" where
  "fits c v \<longleftrightarrow> v_kind v \<noteq> KindNull \<and>
     (v_kind v = pc_kind c \<or> pc_kind c = KindFloat \<and> v_kind v = KindInt \<or> pc_kind c = KindString)"

lemma value_kinds [simp]:
  "v_kind NullV = KindNull" "v_kind (BoolV b) = KindBool" "v_kind (IntV i) = KindInt"
  "v_kind (FloatV f) = KindFloat" "v_kind (StrV s) = KindString" "v_kind (JSONV s) = KindJSON"
  by (simp_all add: NullV_def BoolV_def IntV_def FloatV_def StrV_def JSONV_def)

lemma value_fields [simp]:
  "v_bool (BoolV b) = b" "v_int (IntV i) = i" "v_float (FloatV f) = f" "v_str (StrV s) = s" "v_str (JSONV s) = s"
  by (simp_all add: NullV_def BoolV_def IntV_def FloatV_def StrV_def JSONV_def)

lemma value_ok_cases:
  assumes "value_ok v"
  obtains "v = NullV" | b where "v = BoolV b" | i where "v = IntV i" | f where "v = FloatV f"
    | s where "v = StrV s" | s where "v = JSONV s"
  using assms by (auto simp: value_ok_def)

lemma value_read_back:
  assumes "value_ok v" "fits c v"
  shows "\<exists>x. valueFor lib (pc_kind c) v = Some x \<and> decodeValue lib (Some (pc_kind c)) x = stored_value lib c v"
  using assms(1)
proof (cases rule: value_ok_cases)
  case 1
  with assms(2) show ?thesis by (simp add: fits_def)
qed (use assms(2) in \<open>cases "pc_kind c"; auto simp: fits_def valueFor_def decodeValue_def stored_value_def
      value_text_def\<close>)+

definition stored_fields :: "go_lib \<Rightarrow> pcolumn list \<Rightarrow> rec \<Rightarrow> (string \<times> fvalue) list" where
  "stored_fields lib cols r =
     List.map_filter (\<lambda>c. case map_of (r_fields r) (pc_key c) of
         None \<Rightarrow> None
       | Some v \<Rightarrow> if v_kind v = KindNull then None else Some (pc_key c, stored_value lib c v)) cols"

definition stored_rec :: "go_lib \<Rightarrow> bool \<Rightarrow> pcolumn list \<Rightarrow> rec \<Rightarrow> rec" where
  "stored_rec lib keep_raw cols r =
     settle_type lib (empty_rec\<lparr>r_ts := micros (r_ts r) * 1000, r_ingest_ts := micros (r_ingest_ts r) * 1000,
       r_stream := r_stream r, r_seq := r_seq r, r_level := r_level r, r_msg := r_msg r, r_host := r_host r,
       r_raw := (if keep_raw then r_raw r else []), r_type := (if is_object r then ''object'' else ''string''),
       r_fields := stored_fields lib cols r\<rparr>)"

lemma decode_envelope:
  "foldl (decode_cell lib declared) empty_rec (appendEnvelope keep_raw r) =
   empty_rec\<lparr>r_ts := micros (r_ts r) * 1000, r_ingest_ts := micros (r_ingest_ts r) * 1000,
     r_stream := r_stream r, r_seq := r_seq r, r_level := r_level r, r_msg := r_msg r, r_host := r_host r,
     r_raw := (if keep_raw then r_raw r else []), r_type := (if is_object r then ''object'' else ''string'')\<rparr>"
  by (simp add: appendEnvelope_def decode_cell_def opt_cell_def envelope_names empty_rec_def)

lemma decode_cell_field:
  assumes "name \<notin> set envelope" "map_of declared name = Some (key, kd)"
  shows "decode_cell lib declared r (name, x) = r\<lparr>r_fields := AList.update key (decodeValue lib (Some kd) x) (r_fields r)\<rparr>"
  using assms by (simp add: decode_cell_def envelope_def)

lemma update_absent: "k \<notin> fst ` set xs \<Longrightarrow> AList.update k v xs = xs @ [(k, v)]"
  by (induction xs) auto

lemma decode_fields:
  assumes "\<forall>c\<in>set cols. pc_name c \<notin> set envelope \<and> map_of declared (pc_name c) = Some (pc_key c, pc_kind c)"
    and "distinct (map pc_key cols)" "pc_key ` set cols \<inter> fst ` set (r_fields q) = {}"
    and "\<forall>c\<in>set cols. \<forall>v. map_of (r_fields r) (pc_key c) = Some v \<longrightarrow> v_kind v \<noteq> KindNull \<longrightarrow> value_ok v \<and> fits c v"
  shows "foldl (decode_cell lib declared) q (List.map_filter (\<lambda>c. map_option (Pair (pc_name c)) (field_cell lib c r)) cols) =
    q\<lparr>r_fields := r_fields q @ stored_fields lib cols r\<rparr>"
  using assms
proof (induction cols arbitrary: q)
  case Nil
  then show ?case by (simp add: List.map_filter_simps stored_fields_def)
next
  case (Cons c cols)
  have ih: "foldl (decode_cell lib declared) q' (List.map_filter (\<lambda>c. map_option (Pair (pc_name c)) (field_cell lib c r)) cols) =
      q'\<lparr>r_fields := r_fields q' @ stored_fields lib cols r\<rparr>"
    if "pc_key ` set cols \<inter> fst ` set (r_fields q') = {}" for q'
    by (rule Cons.IH) (use Cons.prems that in auto)
  show ?case
  proof (cases "map_of (r_fields r) (pc_key c)")
    case None
    with ih [of q] Cons.prems(3) show ?thesis
      by (auto simp: List.map_filter_simps field_cell_def stored_fields_def)
  next
    case (Some v)
    show ?thesis
    proof (cases "v_kind v = KindNull")
      case True
      with Some ih [of q] Cons.prems(3) show ?thesis
        by (auto simp: List.map_filter_simps field_cell_def stored_fields_def)
    next
      case False
      with Some Cons.prems(4) have "value_ok v" "fits c v" by auto
      from value_read_back [OF this] obtain x where
        x: "valueFor lib (pc_kind c) v = Some x" "decodeValue lib (Some (pc_kind c)) x = stored_value lib c v" by blast
      have new: "pc_key c \<notin> fst ` set (r_fields q)" using Cons.prems(3) by auto
      let ?q = "q\<lparr>r_fields := r_fields q @ [(pc_key c, stored_value lib c v)]\<rparr>"
      have "decode_cell lib declared q (pc_name c, x) = ?q"
        using Cons.prems(1) decode_cell_field [of "pc_name c" declared "pc_key c" "pc_kind c"]
        by (simp add: x(2) update_absent [OF new])
      moreover have "pc_key ` set cols \<inter> fst ` set (r_fields ?q) = {}"
        using Cons.prems(2,3) by auto
      ultimately show ?thesis
        using ih [of ?q] Some False x(1)
        by (simp add: List.map_filter_simps field_cell_def stored_fields_def)
    qed
  qed
qed

lemma decode_write_row:
  assumes "\<forall>c\<in>set cols. pc_name c \<notin> set envelope \<and> map_of declared (pc_name c) = Some (pc_key c, pc_kind c)"
    and "distinct (map pc_key cols)"
    and "\<forall>c\<in>set cols. \<forall>v. map_of (r_fields r) (pc_key c) = Some v \<longrightarrow> v_kind v \<noteq> KindNull \<longrightarrow> value_ok v \<and> fits c v"
  shows "decodeRow lib declared (write_row lib keep_raw cols r) = stored_rec lib keep_raw cols r"
proof -
  have e: "r_fields empty_rec = []" by (simp add: empty_rec_def)
  show ?thesis
    unfolding decodeRow_def write_row_def foldl_append decode_envelope
    by (subst decode_fields [OF assms(1,2) _ assms(3)]) (simp_all add: stored_rec_def e)
qed

section \<open>A file\<close>

lemma column_kind_fits:
  assumes "column_kind ks = Some (k, p)"
  shows "k \<noteq> KindNull"
    and "x \<in> set ks \<Longrightarrow> x \<noteq> KindNull \<Longrightarrow> x = k \<or> k = KindFloat \<and> x = KindInt \<or> k = KindString"
proof -
  define n where "n = filter (\<lambda>k. k \<noteq> KindNull) ks"
  have ne: "n \<noteq> []" and c: "(set n = {hd n} \<and> k = hd n) \<or> (set n \<subseteq> {KindInt, KindFloat} \<and> k = KindFloat) \<or> k = KindString"
    using assms by (auto simp: column_kind_def Let_def split: if_splits simp flip: n_def)
  have mem: "y \<in> set n \<longleftrightarrow> y \<in> set ks \<and> y \<noteq> KindNull" for y by (auto simp: n_def)
  show "k \<noteq> KindNull" using c hd_in_set [OF ne] mem [of "hd n"] by auto
  show "x = k \<or> k = KindFloat \<and> x = KindInt \<or> k = KindString" if "x \<in> set ks" "x \<noteq> KindNull"
    using c mem [of x] that by auto
qed

lemma ParseKind_string: "k \<noteq> KindNull \<Longrightarrow> ParseKind (kind_string k) = k"
  by (cases k) simp_all

lemma declared_columns:
  assumes "distinct (map pc_name cols)" "c \<in> set cols" "pc_kind c \<noteq> KindNull"
  shows "map_of (sourceColumns (map (\<lambda>c. acc_stats lib c (a c)) cols)) (pc_name c) = Some (pc_key c, pc_kind c)"
proof -
  let ?f = "\<lambda>c. (pc_name c, pc_key c, ParseKind (kind_string (pc_kind c)))"
  have "sourceColumns (map (\<lambda>c. acc_stats lib c (a c)) cols) = map ?f cols"
    by (simp add: sourceColumns_def acc_stats_def del: ParseKind.simps)
  moreover have "distinct (map fst (map ?f cols))" using assms(1) by (simp add: o_def)
  moreover have "(pc_name c, pc_key c, pc_kind c) \<in> set (map ?f cols)"
    using assms(2) ParseKind_string [OF assms(3)] by (force simp del: ParseKind.simps)
  ultimately show ?thesis by (metis map_of_is_SomeI)
qed

lemma schema_fits:
  assumes c: "c \<in> set (sc_columns (BuildSchema rs))" and r: "r \<in> set rs"
    and v: "map_of (r_fields r) (pc_key c) = Some v" "v_kind v \<noteq> KindNull"
  shows "fits c v"
proof -
  have "(pc_key c, v) \<in> set (concat (map r_fields rs))" using r map_of_SomeD [OF v(1)] by auto
  then have "v_kind v \<in> set (kinds_of (pc_key c) (concat (map r_fields rs)))"
    by (force simp: kinds_of_def)
  with column_kind_fits(2) [OF column_of_kind [OF c]] v(2) show ?thesis by (auto simp: fits_def)
qed

lemma schema_plain_names:
  "distinct (map pc_name (sc_columns (BuildSchema rs)))"
  "c \<in> set (sc_columns (BuildSchema rs)) \<Longrightarrow> pc_name c \<notin> set envelope"
proof -
  have "distinct (map lower_name (map pc_name (sc_columns (BuildSchema rs))))"
    using schema_names(1) [of rs] by (simp add: o_def)
  then show "distinct (map pc_name (sc_columns (BuildSchema rs)))" by (simp only: distinct_map)
  show "pc_name c \<notin> set envelope" if "c \<in> set (sc_columns (BuildSchema rs))"
    using schema_names(2) [OF that] by blast
qed

definition field_values_ok :: "rec \<Rightarrow> bool" where
  "field_values_ok r \<longleftrightarrow> list_all (\<lambda>(_, v). value_ok v) (r_fields r)"

lemma decode_written:
  assumes "\<forall>r\<in>set rs. field_values_ok r" "r \<in> set rs"
  shows "decodeRow lib (sourceColumns (map (\<lambda>c. acc_stats lib c (a c)) (sc_columns (BuildSchema rs))))
      (write_row lib keep_raw (sc_columns (BuildSchema rs)) r) =
    stored_rec lib keep_raw (sc_columns (BuildSchema rs)) r"
proof (rule decode_write_row)
  show "\<forall>c\<in>set (sc_columns (BuildSchema rs)). pc_name c \<notin> set envelope \<and>
      map_of (sourceColumns (map (\<lambda>c. acc_stats lib c (a c)) (sc_columns (BuildSchema rs)))) (pc_name c) =
        Some (pc_key c, pc_kind c)"
    using schema_plain_names declared_columns [OF schema_plain_names(1)] column_kind_fits(1) [OF column_of_kind] by blast
  show "distinct (map pc_key (sc_columns (BuildSchema rs)))" by (rule schema_keys)
  have "value_ok v" if "map_of (r_fields r) k = Some v" for k v
    using assms map_of_SomeD [OF that] by (fastforce simp: field_values_ok_def list_all_iff)
  then show "\<forall>c\<in>set (sc_columns (BuildSchema rs)). \<forall>v. map_of (r_fields r) (pc_key c) = Some v \<longrightarrow>
      v_kind v \<noteq> KindNull \<longrightarrow> value_ok v \<and> fits c v"
    using schema_fits [OF _ assms(2)] by blast
qed

lemma stored_fields_map_of:
  assumes "distinct (map pc_key cols)"
  shows "map_of (stored_fields lib cols r) k =
    (case find (\<lambda>c. pc_key c = k) cols of
       None \<Rightarrow> None
     | Some c \<Rightarrow> (case map_of (r_fields r) k of
         None \<Rightarrow> None
       | Some v \<Rightarrow> if v_kind v = KindNull then None else Some (stored_value lib c v)))"
  using assms
proof (induction cols)
  case Nil
  then show ?case by (simp add: stored_fields_def List.map_filter_simps)
next
  case (Cons c cols)
  have "find (\<lambda>d. pc_key d = pc_key c) cols = None" using Cons.prems by (auto simp: find_None_iff image_iff)
  with Cons show ?case
    by (cases "map_of (r_fields r) (pc_key c)")
      (auto simp: stored_fields_def List.map_filter_simps split: option.splits)
qed

lemma settle_type_same [simp]:
  "r_ts (settle_type lib r) = r_ts r" "r_ingest_ts (settle_type lib r) = r_ingest_ts r"
  "r_stream (settle_type lib r) = r_stream r" "r_seq (settle_type lib r) = r_seq r"
  "r_level (settle_type lib r) = r_level r" "r_msg (settle_type lib r) = r_msg r"
  "r_host (settle_type lib r) = r_host r" "r_raw (settle_type lib r) = r_raw r"
  "r_fields (settle_type lib r) = r_fields r"
  by (simp_all add: settle_type_def Let_def)

lemma stored_rec_same [simp]:
  "r_ts (stored_rec lib keep_raw cols r) = micros (r_ts r) * 1000"
  "r_stream (stored_rec lib keep_raw cols r) = r_stream r" "r_seq (stored_rec lib keep_raw cols r) = r_seq r"
  "r_level (stored_rec lib keep_raw cols r) = r_level r" "r_msg (stored_rec lib keep_raw cols r) = r_msg r"
  "r_host (stored_rec lib keep_raw cols r) = r_host r"
  "r_raw (stored_rec lib keep_raw cols r) = (if keep_raw then r_raw r else [])"
  "r_fields (stored_rec lib keep_raw cols r) = stored_fields lib cols r"
  by (simp_all add: stored_rec_def)


definition demo_lib :: go_lib where
  "demo_lib = \<lparr>g_float_text = (\<lambda>_. ''0''), g_json_float = (\<lambda>_. ''0''), g_json_string = (\<lambda>s. s),
     g_json_valid = (\<lambda>_. True), g_of_int = of_int, g_float_less = (<)\<rparr>"


section \<open>The newest records\<close>

lemma sort_key_insort: "sort_key f (x # xs) = insort_key f x (sort_key f xs)"
  by simp

lemma insort_key_late:
  assumes "n \<le> length (filter (\<lambda>y. f x \<le> f y) ys)" "sorted (map f ys)"
  shows "last_n n (insort_key f x ys) = last_n n ys"
  using assms
proof (induction ys)
  case Nil
  then show ?case by (simp add: last_n_def)
next
  case (Cons y ys)
  show ?case
  proof (cases "f x \<le> f y")
    case True
    with Cons.prems(2) have "filter (\<lambda>y. f x \<le> f y) (y # ys) = y # ys" by (auto intro!: filter_True)
    with Cons.prems(1) have "n \<le> length (y # ys)" by simp
    with True show ?thesis by (simp add: last_n_def Suc_diff_le)
  next
    case False
    then have n: "n \<le> length (filter (\<lambda>y. f x \<le> f y) ys)" using Cons.prems(1) by simp
    then have "n \<le> length ys" using length_filter_le le_trans by blast
    moreover have "last_n n (insort_key f x ys) = last_n n ys" using Cons n by simp
    ultimately show ?thesis using False by (simp add: last_n_def Suc_diff_le)
  qed
qed

lemma last_n_sort_drop:
  assumes "n \<le> length (filter (\<lambda>y. f d \<le> f y) zs)"
  shows "last_n n (sort_key f (d # zs)) = last_n n (sort_key f zs)"
proof -
  have "length (filter (\<lambda>y. f d \<le> f y) (sort_key f zs)) = length (filter (\<lambda>y. f d \<le> f y) zs)"
    by (simp add: filter_sort)
  with assms show ?thesis unfolding sort_key_insort by (intro insort_key_late) simp_all
qed

lemma last_n_sort_drops:
  assumes "\<forall>d\<in>set ds. n \<le> length (filter (\<lambda>y. f d \<le> f y) zs)"
  shows "last_n n (sort_key f (ds @ zs)) = last_n n (sort_key f zs)"
  using assms
proof (induction ds)
  case (Cons d ds)
  then have "n \<le> length (filter (\<lambda>y. f d \<le> f y) (ds @ zs))" by simp
  from last_n_sort_drop [OF this] Cons show ?case by simp
qed simp

lemma sort_key_sort_append: "sort_key f (sort_key f xs @ ys) = sort_key f (xs @ ys)"
proof (rule properties_for_sort_key)
  show "mset (sort_key f (xs @ ys)) = mset (sort_key f xs @ ys)" by simp
  show "filter (\<lambda>x. f k = f x) (sort_key f (xs @ ys)) = filter (\<lambda>x. f k = f x) (sort_key f xs @ ys)" for k
    by (simp only: eq_commute [of "f k"] sort_key_stable filter_append)
qed simp

lemma trim_keeps_newest:
  "last_n n (sort_key f (last_n n (sort_key f xs) @ ys)) = last_n n (sort_key f (xs @ ys))"
proof (cases "length xs \<le> n")
  case True
  then show ?thesis by (simp add: last_n_def sort_key_sort_append)
next
  case False
  let ?s = "sort_key f xs"
  define ds where "ds = take (length ?s - n) ?s"
  have s: "?s = ds @ last_n n ?s" by (simp add: ds_def last_n_def)
  have sorted: "sorted (map f (ds @ last_n n ?s))" unfolding s [symmetric] by simp
  have "n \<le> length (filter (\<lambda>y. f d \<le> f y) (last_n n ?s @ ys))" if "d \<in> set ds" for d
  proof -
    have "\<forall>y\<in>set (last_n n ?s). f d \<le> f y" using sorted that by (auto simp: sorted_append)
    then have "filter (\<lambda>y. f d \<le> f y) (last_n n ?s) = last_n n ?s" by (simp add: filter_True)
    moreover have "length (last_n n ?s) = n" using False by (simp add: last_n_def)
    ultimately show ?thesis by simp
  qed
  then have "last_n n (sort_key f (ds @ (last_n n ?s @ ys))) = last_n n (sort_key f (last_n n ?s @ ys))"
    by (intro last_n_sort_drops) blast
  moreover have "ds @ (last_n n ?s @ ys) = ?s @ ys" using s by (metis append.assoc)
  ultimately show ?thesis by (simp only: sort_key_sort_append)
qed

lemma trim_newest_eq: "trim_newest n rs = last_n n (sort_key r_seq rs)"
  by (simp add: trim_newest_def last_n_def Let_def)

lemma read_chunks_newest:
  assumes "0 < limit"
  shows "read_chunks limit cs rs = last_n limit (sort_key r_seq (rs @ concat cs))"
proof (induction cs arbitrary: rs)
  case Nil
  with assms show ?case by (simp add: trim_newest_eq)
next
  case (Cons c cs)
  then show ?case by (simp add: Let_def trim_newest_eq trim_keeps_newest)
qed

lemma read_chunks_all: "read_chunks 0 cs rs = rs @ concat cs"
  by (induction cs arbitrary: rs) (simp_all add: Let_def)

text \<open>
  C22: reading with a limit gives exactly the newest records of the file by sequence number, that
  many, however the rows are split into chunks and wherever they are in the file; a limit of
  zero gives all of them in file order.
\<close>

theorem read_newest:
  shows "ReadWith lib cols limit groups =
    (let all = map (decodeRow lib (sourceColumns cols)) (concat (concat (map delivered groups)))
     in if limit = 0 then all else last_n limit (sort_key r_seq all))"
  by (simp add: ReadWith_def read_chunks_all read_chunks_newest map_concat Let_def)

text \<open>
  A chunk that fails ends its row group like the end of the group does: the caller gets the
  records before it and no error.
\<close>

theorem read_error_unreported:
  "ReadWith lib cols limit (before @ (cs @ [(rows, ReadFails)]) # after) =
   ReadWith lib cols limit (before @ (cs @ [(rows, ReadEOF)]) # after)"
proof -
  have "delivered (cs @ [(rows, ReadFails)]) = delivered (cs @ [(rows, ReadEOF)])"
    by (induction cs rule: delivered.induct) simp_all
  then show ?thesis by (simp add: ReadWith_def)
qed

section \<open>Column statistics\<close>

lemma acc_nulls: "ca_nulls (fold (acc_row lib c) rs a) =
    ca_nulls a + length (filter (\<lambda>r. field_cell lib c r = None) rs)"
proof (induction rs arbitrary: a)
  case (Cons r rs)
  have "ca_nulls (acc_row lib c r a) = ca_nulls a + (if field_cell lib c r = None then 1 else 0)"
    by (auto simp: acc_row_def field_cell_def observe_value_def split: option.split prod.split)
  with Cons show ?case by simp
qed simp

definition int_column :: "pcolumn \<Rightarrow> bool" where
  "int_column c \<longleftrightarrow> pc_kind c = KindInt \<and> \<not> pc_poly c"

lemma acc_row_int:
  assumes "int_column c"
  shows "acc_row lib c r a = (case field_cell lib c r of
      Some (CellInt i) \<Rightarrow> (case map_of (r_fields r) (pc_key c) of Some v \<Rightarrow> observe_value lib c v a | None \<Rightarrow> a)
    | _ \<Rightarrow> a\<lparr>ca_nulls := ca_nulls a + 1\<rparr>)"
  using assms
  by (auto simp: acc_row_def field_cell_def valueFor_def int_column_def split: option.split)

definition int_range :: "int list \<Rightarrow> col_acc \<Rightarrow> bool" where
  "int_range is a \<longleftrightarrow>
     (case ca_range a of
        None \<Rightarrow> is = []
      | Some (lo, hi) \<Rightarrow> is \<noteq> [] \<and> v_kind lo = KindInt \<and> v_kind hi = KindInt \<and>
          v_int lo = Min (set is) \<and> v_int hi = Max (set is))"

definition ints_of :: "go_lib \<Rightarrow> pcolumn \<Rightarrow> rec list \<Rightarrow> int list" where
  "ints_of lib c rs = List.map_filter (\<lambda>r. map_option cell_int (field_cell lib c r)) rs"

lemma observe_int:
  assumes "int_column c" "int_range is a" "v_kind v = KindInt"
  shows "int_range (is @ [v_int v]) (observe_value lib c v a)"
proof (cases "ca_range a")
  case None
  with assms show ?thesis by (simp add: int_range_def observe_value_def int_column_def)
next
  case (Some p)
  obtain lo hi where p: "p = (lo, hi)" by (cases p)
  from Some assms(2) have a: "is \<noteq> []" "v_kind lo = KindInt" "v_kind hi = KindInt"
    "v_int lo = Min (set is)" "v_int hi = Max (set is)" by (auto simp: int_range_def p)
  have "Min (set (is @ [v_int v])) = min (v_int v) (v_int lo)"
    "Max (set (is @ [v_int v])) = max (v_int v) (v_int hi)"
    using a(1) by (simp_all only: a(4,5) set_append list.set Un_insert_right Un_empty_right
        Min_insert Max_insert finite_set set_empty not_False_eq_True)
  moreover have "ca_range (observe_value lib c v a) =
      Some (if v_int v < v_int lo then v else lo, if v_int hi < v_int v then v else hi)"
    using Some assms(1,3) a by (simp add: observe_value_def int_column_def p value_less_def)
  ultimately show ?thesis using a(2,3) assms(3) by (simp add: int_range_def)
qed

lemma acc_ints:
  assumes "int_column c" "int_range is a"
  shows "int_range (is @ ints_of lib c rs) (fold (acc_row lib c) rs a)"
  using assms(2)
proof (induction rs arbitrary: "is" a)
  case Nil
  then show ?case by (simp add: ints_of_def List.map_filter_simps)
next
  case (Cons r rs)
  show ?case
  proof (cases "field_cell lib c r")
    case None
    with Cons show ?thesis
      by (simp add: acc_row_int [OF assms(1)] ints_of_def List.map_filter_simps int_range_def)
  next
    case (Some x)
    then obtain v where v: "map_of (r_fields r) (pc_key c) = Some v" "v_kind v = KindInt" "x = CellInt (v_int v)"
      using assms(1) by (auto simp: field_cell_def valueFor_def int_column_def split: option.splits if_splits)
    from Cons.IH [OF observe_int [OF assms(1) Cons.prems v(2)]] Some v show ?thesis
      by (simp add: acc_row_int [OF assms(1)] ints_of_def List.map_filter_simps)
  qed
qed

text \<open>
  The statistics the planner prunes by are exact.  A column's null count is the number of
  records it has no cell for, and the range of an integer column is the least and the greatest
  integer stored in it, with no range only when every cell is null.
\<close>

theorem column_stats_exact:
  shows "cl_null_count (acc_stats lib c (accumulate lib c rs)) =
      int (length (filter (\<lambda>r. field_cell lib c r = None) rs)) \<and>
    (int_column c \<longrightarrow>
       (if ints_of lib c rs = [] then \<not> cl_has_range (acc_stats lib c (accumulate lib c rs))
        else cl_min_value (acc_stats lib c (accumulate lib c rs)) = show_int (Min (set (ints_of lib c rs))) \<and>
             cl_max_value (acc_stats lib c (accumulate lib c rs)) = show_int (Max (set (ints_of lib c rs)))))"
proof (intro conjI impI)
  show "cl_null_count (acc_stats lib c (accumulate lib c rs)) =
      int (length (filter (\<lambda>r. field_cell lib c r = None) rs))"
    by (simp add: acc_stats_def accumulate_def acc_nulls)
  assume c: "int_column c"
  have "int_range [] \<lparr>ca_nulls = 0, ca_range = None\<rparr>" by (simp add: int_range_def)
  from acc_ints [OF c this, of lib rs] have r: "int_range (ints_of lib c rs) (accumulate lib c rs)"
    by (simp add: accumulate_def)
  show "if ints_of lib c rs = [] then \<not> cl_has_range (acc_stats lib c (accumulate lib c rs))
      else cl_min_value (acc_stats lib c (accumulate lib c rs)) = show_int (Min (set (ints_of lib c rs))) \<and>
           cl_max_value (acc_stats lib c (accumulate lib c rs)) = show_int (Max (set (ints_of lib c rs)))"
    using r by (auto simp: int_range_def acc_stats_def value_text_def split: option.splits)
qed

theorem column_stats_exact_witness:
  "let c = \<lparr>pc_name = ''a_n'', pc_key = ''n'', pc_kind = KindInt, pc_poly = False\<rparr>;
       rs = map (\<lambda>i. empty_rec\<lparr>r_fields := [(''n'', IntV i)]\<rparr>) [3, - 4] @ [empty_rec]
   in cl_min_value (acc_stats demo_lib c (accumulate demo_lib c rs)) = ''-4'' \<and>
      cl_null_count (acc_stats demo_lib c (accumulate demo_lib c rs)) = 1"
proof -
  let ?c = "\<lparr>pc_name = ''a_n'', pc_key = ''n'', pc_kind = KindInt, pc_poly = False\<rparr>"
  let ?rs = "map (\<lambda>i. empty_rec\<lparr>r_fields := [(''n'', IntV i)]\<rparr>) [3, - 4] @ [empty_rec]"
  have "ints_of demo_lib ?c ?rs = [3, - 4]" "show_int (Min (set [3, - 4 :: int])) = ''-4''"
    "length (filter (\<lambda>r. field_cell demo_lib ?c r = None) ?rs) = 1"
    "int_column ?c" by code_simp+
  with column_stats_exact [of demo_lib ?c ?rs] show ?thesis by (simp add: Let_def)
qed

end
