(* ===== verification/Compact.thy ===== *)
theory Compact
  imports Durable ParquetFile Severity
begin

text \<open>
  The compactor, \<open>src/internal/compact/compact.go\<close>: grouping, merging, retention and expiry over
  the catalog and the object store.  What it calls of \<open>parquetio\<close> is collected in \<open>parquet_ops\<close>:
  the order \<open>Write\<close> stores records in, the records a reader of the object gets, the statistics.
  The clock is read once per pass.
\<close>

section \<open>Options\<close>

record retention =
  rt_delete_after :: int
  rt_drop_raw_after :: int
  rt_min_level_after :: string
  rt_downsample_after :: int

record comp_opts =
  co_l1_min_files :: int
  co_l1_after :: int
  co_l2_after :: int
  co_max_input_files :: int
  co_max_input_rows :: int
  co_cluster_by :: string
  co_retention :: retention
  co_keep_raw :: bool

definition comp_defaults :: "comp_opts \<Rightarrow> comp_opts" where
  "comp_defaults opts =
     opts\<lparr>co_l1_min_files := (if co_l1_min_files opts = 0 then 6 else co_l1_min_files opts),
       co_l1_after := (if co_l1_after opts = 0 then 5400000000000 else co_l1_after opts),
       co_l2_after := (if co_l2_after opts = 0 then 129600000000000 else co_l2_after opts),
       co_max_input_files := (if co_max_input_files opts = 0 then 64 else co_max_input_files opts),
       co_max_input_rows := (if co_max_input_rows opts = 0 then 2000000 else co_max_input_rows opts)\<rparr>"

record comp_result =
  cr_merged :: nat
  cr_inputs :: nat
  cr_outputs :: nat
  cr_before :: int
  cr_after :: int
  cr_dropped :: int
  cr_expired :: nat

definition no_result :: comp_result where
  "no_result = \<lparr>cr_merged = 0, cr_inputs = 0, cr_outputs = 0, cr_before = 0, cr_after = 0, cr_dropped = 0, cr_expired = 0\<rparr>"

text \<open>
  The outcomes of the calls of a pass.  A read that fails part way is not an error to \<open>ReadWith\<close>:
  it gives the records up to there.
\<close>

datatype read_outcome = ReadRefused | ReadStops nat | ReadWhole

record comp_io =
  ci_now :: int
  ci_prune :: "int option \<Rightarrow> bool"        \<comment> \<open>listing a level, or what expiry looks at\<close>
  ci_tombstone :: bool
  ci_read :: "nat \<Rightarrow> read_outcome"
  ci_intend :: "string \<Rightarrow> bool"
  ci_put :: "string \<Rightarrow> commit_outcome option"
  ci_replace :: "nat list \<Rightarrow> bool"

record parquet_ops =
  po_order :: "write_opts \<Rightarrow> rec list \<Rightarrow> rec list"
  po_contents :: "write_opts \<Rightarrow> rec list \<Rightarrow> rec list"
  po_stats :: "write_opts \<Rightarrow> rec list \<Rightarrow> file_stats"
  po_size :: "write_opts \<Rightarrow> rec list \<Rightarrow> int"

datatype comp_error =
    ListFailed | ReadFailed | DeclareFailed | NameTaken string | WriteFailed | PublishFailed cat_error

section \<open>Choosing what to merge\<close>

record bucket =
  b_stream :: string
  b_key :: int
  b_files :: "cat_file list"

text \<open>Microseconds; a stream and the text of an hour or a day identify a bucket as they do themselves.\<close>

definition period_of :: "int \<Rightarrow> int" where
  "period_of level = (if level = 1 then 86400000000 else 3600000000)"

definition bucket_key :: "int \<Rightarrow> cat_file \<Rightarrow> int" where
  "bucket_key level f = fl_min_ts f - fl_min_ts f mod period_of level"

definition bucket_add :: "int \<Rightarrow> cat_file \<Rightarrow> ((string \<times> int) \<times> bucket) list \<Rightarrow> ((string \<times> int) \<times> bucket) list" where
  "bucket_add level f index =
     (let i = (fl_stream f, bucket_key level f);
          g = (case map_of index i of None \<Rightarrow> \<lparr>b_stream = fl_stream f, b_key = bucket_key level f, b_files = []\<rparr>
               | Some g \<Rightarrow> g)
      in AList.update i (g\<lparr>b_files := b_files g @ [f]\<rparr>) index)"

definition bucketize :: "cat_file list \<Rightarrow> int \<Rightarrow> bucket list" where
  "bucketize fs level = map snd (fold (bucket_add level) fs [])"

definition eligible :: "comp_opts \<Rightarrow> int \<Rightarrow> bucket \<Rightarrow> int \<Rightarrow> bool" where
  "eligible opts now g level =
     (case b_files g of
        [] \<Rightarrow> False
      | f # fs \<Rightarrow>
          (let after = (if level = 1 then co_l2_after opts else co_l1_after opts);
               newest = foldl (\<lambda>m f. if fl_max_ts f > m then fl_max_ts f else m) (fl_max_ts f) (f # fs);
               aged = now - newest * 1000 > after
           in if level = 0 then int (length (b_files g)) \<ge> co_l1_min_files opts \<or> aged else aged))"

section \<open>Retention\<close>

definition due :: "(string \<Rightarrow> string) \<Rightarrow> comp_opts \<Rightarrow> int \<Rightarrow> cat_file \<Rightarrow> bool" where
  "due up opts now f =
     (let p = co_retention opts
      in if fl_has_raw f \<and> rt_drop_raw_after p \<noteq> 0 \<and> fl_max_ts f * 1000 < now - rt_drop_raw_after p then True
         else if rt_downsample_after p = 0 \<or> rt_min_level_after p = [] then False
         else if \<not> fl_max_ts f * 1000 < now - rt_downsample_after p then False
         else fl_level_floor f = [] \<or> Rank up (fl_level_floor f) < Rank up (rt_min_level_after p))"

definition applyRetention :: "(string \<Rightarrow> string) \<Rightarrow> retention \<Rightarrow> int \<Rightarrow> rec list \<Rightarrow> rec list \<times> string" where
  "applyRetention up p now rs =
     (if rt_downsample_after p = 0 \<or> rt_min_level_after p = [] then (rs, [])
      else let cutoff = now - rt_downsample_after p; floor = Rank up (rt_min_level_after p)
        in (filter (\<lambda>r. r_ts r > cutoff \<or> Rank up (r_level r) \<ge> floor) rs,
            if list_ex (\<lambda>r. r_ts r > cutoff) rs then [] else rt_min_level_after p))"

definition keepRaw :: "comp_opts \<Rightarrow> int \<Rightarrow> rec list \<Rightarrow> bool" where
  "keepRaw opts now rs =
     (if \<not> co_keep_raw opts then False
      else if rt_drop_raw_after (co_retention opts) = 0 then True
      else list_ex (\<lambda>r. r_ts r > now - rt_drop_raw_after (co_retention opts)) rs)"

definition columnFor :: "string \<Rightarrow> string" where
  "columnFor key =
     (if key = ''level'' \<or> key = ''severity'' then ColLevel else if key = ''stream'' then ColStream
      else if key = ''host'' then ColHost else FieldPrefix @ key)"

definition sortColumns :: "int \<Rightarrow> string \<Rightarrow> string list" where
  "sortColumns level cluster =
     (if level = 2 \<and> cluster \<noteq> [] then [columnFor cluster, ColTs, ColSeq] else [ColTs, ColSeq])"

definition outputName :: "string \<Rightarrow> int \<Rightarrow> rec \<Rightarrow> string" where
  "outputName sn level r =
     (let (y, m, d) = civil_from_days (r_ts r div 86400000000000)
      in ''streams/'' @ SafeSegment sn @ ''/'' @ pad_int 4 y @ ''/'' @ pad_int 2 m @ ''/'' @ pad_int 2 d @
         ''/'' @ (''L'' @ show_int level @ ''-'' @ pad_zero 20 (show_nat (r_seq r)) @ ''-'' @
                  show_int (r_ts r div 1000) @ ''.parquet''))"

section \<open>Merging\<close>

fun read_inputs ::
  "comp_opts \<Rightarrow> comp_io \<Rightarrow> rec list local_store \<Rightarrow> cat_file list \<Rightarrow> int \<Rightarrow> (rec list \<times> nat list \<times> int) option"
where
  "read_inputs opts io objs [] rows = Some ([], [], 0)"
| "read_inputs opts io objs (f # fs) rows =
     (if rows > co_max_input_rows opts then Some ([], [], 0)
      else if ci_read io (fl_id f) = ReadRefused then None
      else case open_object (fl_path f) objs of
        None \<Rightarrow> None
      | Some all \<Rightarrow>
          (let batch = (case ci_read io (fl_id f) of ReadStops n \<Rightarrow> take n all | _ \<Rightarrow> all)
           in case read_inputs opts io objs fs (rows + fl_rows f) of
             None \<Rightarrow> None
           | Some (rs, ids, b) \<Rightarrow> Some (batch @ rs, fl_id f # ids, fl_bytes f + b)))"

text \<open>The name of the output: that of its first record, kept apart from a lone input's.\<close>

definition merge_name :: "string \<Rightarrow> int \<Rightarrow> cat_file list \<Rightarrow> nat list \<Rightarrow> rec \<Rightarrow> string" where
  "merge_name sn level inputs ids r =
     (let name = outputName sn level r
      in if length ids = 1 \<and> level = fl_level (hd inputs)
         then take (length name - 8) name @ ''-r'' @ show_nat (hd ids) @ ''.parquet'' else name)"

definition output_file :: "parquet_ops \<Rightarrow> write_opts \<Rightarrow> string \<Rightarrow> string \<Rightarrow> int \<Rightarrow> string \<Rightarrow> rec list \<Rightarrow> cat_file" where
  "output_file pq wo sn name level floor rs =
     (let st = po_stats pq wo rs
      in \<lparr>fl_id = 0, fl_stream = sn, fl_path = name, fl_level = level, fl_min_ts = st_min_ts st div 1000,
          fl_max_ts = st_max_ts st div 1000, fl_min_seq = st_min_seq st, fl_max_seq = st_max_seq st,
          fl_rows = int (st_rows st), fl_bytes = po_size pq wo rs, fl_has_raw = st_has_raw st, fl_state = [],
          fl_created = None, fl_level_floor = floor, fl_tombstoned_at = None\<rparr>)"

definition merged_result :: "nat list \<Rightarrow> int \<Rightarrow> nat \<Rightarrow> int \<Rightarrow> int \<Rightarrow> comp_result \<Rightarrow> comp_result" where
  "merged_result ids before outputs after dropped res =
     res\<lparr>cr_merged := cr_merged res + 1, cr_inputs := cr_inputs res + length ids,
       cr_outputs := cr_outputs res + outputs, cr_before := cr_before res + before,
       cr_after := cr_after res + after, cr_dropped := cr_dropped res + dropped\<rparr>"

type_synonym comp_state = "catalog \<times> rec list local_store"

text \<open>Writing and publishing the records that are kept.\<close>

definition publish_merge ::
  "parquet_ops \<Rightarrow> comp_io \<Rightarrow> write_opts \<Rightarrow> string \<Rightarrow> string \<Rightarrow> int \<Rightarrow> string \<Rightarrow> rec list \<Rightarrow> nat list
     \<Rightarrow> comp_state \<Rightarrow> comp_error option \<times> comp_state"
where
  "publish_merge pq io wo sn name level floor rs ids cs =
     (case intend (ci_intend io name) (ci_now io div 1000) [name] (fst cs) of
        (Inl _, cat) \<Rightarrow> (Some DeclareFailed, cat, snd cs)
      | (Inr registered, cat) \<Rightarrow>
          (if name \<in> set registered then (Some (NameTaken name), cat, snd cs)
           else case put_object (ci_put io name) name (po_contents pq wo rs) (ci_now io) (snd cs) of
             (False, objs) \<Rightarrow> (Some WriteFailed, cat, objs)
           | (True, objs) \<Rightarrow>
               (case replace_files (ci_replace io ids) (ci_now io div 1000)
                       [(output_file pq wo sn name level floor rs, st_columns (po_stats pq wo rs))] ids cat of
                  (Inl e, cat') \<Rightarrow> (Some (PublishFailed e), cat', objs)
                | (Inr _, cat') \<Rightarrow> (None, cat', objs))))"

definition merge ::
  "parquet_ops \<Rightarrow> (string \<Rightarrow> string) \<Rightarrow> comp_opts \<Rightarrow> comp_io \<Rightarrow> string \<Rightarrow> cat_file list \<Rightarrow> int
     \<Rightarrow> comp_state \<Rightarrow> comp_result \<Rightarrow> comp_error option \<times> comp_state \<times> comp_result"
where
  "merge pq up opts io sn files level cs res =
     (let inputs = (if int (length files) > co_max_input_files opts
                    then take (nat (co_max_input_files opts)) files else files)
      in case read_inputs opts io (snd cs) inputs 0 of
           None \<Rightarrow> (Some ReadFailed, cs, res)
         | Some (records, ids, volume) \<Rightarrow>
             (if ids = [] then (None, cs, res)
              else
                (let (kept, floor) = applyRetention up (co_retention opts) (ci_now io) records;
                     dropped = int (length records) - int (length kept)
                 in if kept = []
                    then (case replace_files (ci_replace io ids) (ci_now io div 1000) [] ids (fst cs) of
                            (Inl e, cat) \<Rightarrow> (Some (PublishFailed e), (cat, snd cs), res)
                          | (Inr _, cat) \<Rightarrow> (None, (cat, snd cs), merged_result ids volume 0 0 dropped res))
                    else
                      (let wo = \<lparr>wo_keep_raw = keepRaw opts (ci_now io) kept,
                                 wo_sort_by = sortColumns level (co_cluster_by opts)\<rparr>;
                           rs = po_order pq wo kept;
                           name = merge_name sn level inputs ids (hd rs)
                       in case publish_merge pq io wo sn name level floor rs ids cs of
                            (Some e, cs') \<Rightarrow> (Some e, cs', res)
                          | (None, cs') \<Rightarrow> (None, cs', merged_result ids volume 1 (po_size pq wo rs) dropped res)))))"

section \<open>A pass\<close>

definition level_query :: "int list \<Rightarrow> int option \<Rightarrow> cat_query" where
  "level_query levels to = \<lparr>q_stream = [], q_from = None, q_to = to, q_require_key = [], q_levels = levels, q_limit = 0\<rparr>"

definition expire :: "comp_opts \<Rightarrow> comp_io \<Rightarrow> catalog \<Rightarrow> comp_error option \<times> nat \<times> catalog" where
  "expire opts io cat =
     (let after = rt_delete_after (co_retention opts); cutoff = ci_now io - after
      in if after = 0 then (None, 0, cat)
         else if \<not> ci_prune io None then (Some ListFailed, 0, cat)
         else
           (let doomed = map fl_id (filter (\<lambda>f. fl_max_ts f * 1000 < cutoff) (prune (level_query [] (Some cutoff)) cat))
            in if doomed = [] then (None, 0, cat)
               else case tombstone (ci_tombstone io) (ci_now io div 1000) doomed cat of
                 (Some e, cat') \<Rightarrow> (Some (PublishFailed e), 0, cat')
               | (None, cat') \<Rightarrow> (None, length doomed, cat')))"

fun merge_groups ::
  "parquet_ops \<Rightarrow> (string \<Rightarrow> string) \<Rightarrow> comp_opts \<Rightarrow> comp_io \<Rightarrow> int \<Rightarrow> (string \<times> cat_file list) list
     \<Rightarrow> comp_state \<Rightarrow> comp_result \<Rightarrow> comp_error list \<times> comp_state \<times> comp_result"
where
  "merge_groups pq up opts io level [] cs res = ([], cs, res)"
| "merge_groups pq up opts io level ((sn, files) # groups) cs res =
     (case merge pq up opts io sn files level cs res of
        (e, cs1, res1) \<Rightarrow>
          (case merge_groups pq up opts io level groups cs1 res1 of
             (es, cs2, res2) \<Rightarrow> ((case e of None \<Rightarrow> es | Some e \<Rightarrow> e # es), cs2, res2)))"

definition mergeLevel ::
  "parquet_ops \<Rightarrow> (string \<Rightarrow> string) \<Rightarrow> comp_opts \<Rightarrow> comp_io \<Rightarrow> int \<Rightarrow> comp_state \<Rightarrow> comp_result
     \<Rightarrow> comp_error list \<times> comp_state \<times> comp_result"
where
  "mergeLevel pq up opts io level cs res =
     (if \<not> ci_prune io (Some level) then ([ListFailed], cs, res)
      else merge_groups pq up opts io (level + 1)
        (map (\<lambda>g. (b_stream g, b_files g))
          (filter (\<lambda>g. eligible opts (ci_now io) g level)
            (bucketize (prune (level_query [level] None) (fst cs)) level))) cs res)"

definition rewriteLevel ::
  "parquet_ops \<Rightarrow> (string \<Rightarrow> string) \<Rightarrow> comp_opts \<Rightarrow> comp_io \<Rightarrow> int \<Rightarrow> comp_state \<Rightarrow> comp_result
     \<Rightarrow> comp_error list \<times> comp_state \<times> comp_result"
where
  "rewriteLevel pq up opts io level cs res =
     (if \<not> ci_prune io (Some level) then ([ListFailed], cs, res)
      else merge_groups pq up opts io level
        (map (\<lambda>f. (fl_stream f, [f]))
          (filter (due up opts (ci_now io)) (prune (level_query [level] None) (fst cs)))) cs res)"

definition RunOnce ::
  "parquet_ops \<Rightarrow> (string \<Rightarrow> string) \<Rightarrow> comp_opts \<Rightarrow> comp_io \<Rightarrow> comp_state
     \<Rightarrow> comp_error list \<times> comp_state \<times> comp_result"
where
  "RunOnce pq up opts io cs =
     (case expire opts io (fst cs) of
        (e0, n, cat) \<Rightarrow>
          (case mergeLevel pq up opts io 0 (cat, snd cs) (no_result\<lparr>cr_expired := n\<rparr>) of
             (e1, cs1, res1) \<Rightarrow>
               (case mergeLevel pq up opts io 1 cs1 res1 of
                  (e2, cs2, res2) \<Rightarrow>
                    (case rewriteLevel pq up opts io 2 cs2 res2 of
                       (e3, cs3, res3) \<Rightarrow> ((case e0 of None \<Rightarrow> [] | Some e \<Rightarrow> [e]) @ e1 @ e2 @ e3, cs3, res3)))))"

end
