(* ===== verification/CompactInv.thy ===== *)
theory CompactInv
  imports Compact CatalogInv ParquetRead
begin

text \<open>
  What compaction keeps: every live file has its object, with as many records as it is
  registered with, all of its stream; a merge moves records from its inputs to its output and
  loses only those the retention policy discards; a pass loses only those and the expired ones.
  The Parquet library enters through the locale \<open>parquet_file\<close>, which \<open>go_parquet\<close>, built on
  the writer and the reader of \<open>parquetio\<close>, satisfies.
\<close>

section \<open>What compaction relies on of a file\<close>

text \<open>A record as a merge moves it: its stream, its number, its time in microseconds, its level.\<close>

definition rkey :: "rec \<Rightarrow> string \<times> nat \<times> int \<times> string" where
  "rkey r = (r_stream r, r_seq r, r_ts r div 1000, r_level r)"

abbreviation rkeys :: "rec list \<Rightarrow> (string \<times> nat \<times> int \<times> string) multiset" where
  "rkeys rs \<equiv> mset (map rkey rs)"

lemma micro_le:
  assumes "(x::int) \<le> y" "x mod 1000 = 0"
  shows "x \<le> y div 1000 * 1000"
  using zdiv_mono1 [OF assms(1), of 1000] div_mult_mod_eq [of x 1000] assms(2) by linarith

locale parquet_file =
  fixes pq :: parquet_ops
  assumes order_mset: "mset (po_order pq wo rs) = mset rs"
    and contents_keys: "rs \<noteq> [] \<Longrightarrow> rkeys (po_contents pq wo rs) = rkeys rs"
    and contents_micros: "r \<in> set (po_contents pq wo rs) \<Longrightarrow> r_ts r mod 1000 = 0"
    and stats_rows: "rs \<noteq> [] \<Longrightarrow> st_rows (po_stats pq wo rs) = length rs"
    and stats_max_ts: "r \<in> set rs \<Longrightarrow> r_ts r \<le> st_max_ts (po_stats pq wo rs)"
    and stats_raw: "rs \<noteq> [] \<Longrightarrow> st_has_raw (po_stats pq wo rs) = wo_keep_raw wo"
    and stats_columns: "rs \<noteq> [] \<Longrightarrow> distinct (map cl_name (st_columns (po_stats pq wo rs)))"
    and size_nonneg: "0 \<le> po_size pq wo rs"
begin

lemma order_ne: "po_order pq wo rs = [] \<longleftrightarrow> rs = []"
  by (metis mset.simps(1) mset_zero_iff order_mset)

lemma order_set [simp]: "set (po_order pq wo rs) = set rs"
  by (metis order_mset set_mset_mset)

lemma order_length [simp]: "length (po_order pq wo rs) = length rs"
  by (metis order_mset size_mset)

lemma order_keys: "rkeys (po_order pq wo rs) = rkeys rs"
  by (metis mset_map order_mset)

text \<open>What a reader of the object gets, against the file's statistics.\<close>

lemma written_file:
  assumes "rs \<noteq> []" "\<forall>r\<in>set rs. r_stream r = s"
  shows "length (po_contents pq wo rs) = length rs" "po_contents pq wo rs \<noteq> []"
    "r \<in> set (po_contents pq wo rs) \<Longrightarrow> r_stream r = s \<and> r_ts r mod 1000 = 0 \<and>
       r_ts r \<le> st_max_ts (po_stats pq wo rs) div 1000 * 1000"
proof -
  note k = contents_keys [OF assms(1), of wo]
  show len: "length (po_contents pq wo rs) = length rs" using arg_cong [OF k, of size] by simp
  with assms(1) show "po_contents pq wo rs \<noteq> []" by (metis length_0_conv)
  assume r: "r \<in> set (po_contents pq wo rs)"
  have "rkey r \<in># rkeys (po_contents pq wo rs)" unfolding set_mset_mset set_map by (rule imageI [OF r])
  then have "rkey r \<in> rkey ` set rs" unfolding k set_mset_mset set_map .
  then obtain q where q: "q \<in> set rs" "rkey r = rkey q" by blast
  have le: "r_ts q div 1000 \<le> st_max_ts (po_stats pq wo rs) div 1000"
    by (rule zdiv_mono1 [OF stats_max_ts [OF q(1)]]) simp
  from q(2) have same: "r_ts r div 1000 = r_ts q div 1000" "r_stream r = r_stream q"
    unfolding rkey_def by blast+
  have micro: "r_ts r mod 1000 = 0" by (rule contents_micros [OF r])
  with div_mult_mod_eq [of "r_ts r" 1000] have "r_ts q div 1000 * 1000 = r_ts r" unfolding same(1) by linarith
  with le have "r_ts r \<le> st_max_ts (po_stats pq wo rs) div 1000 * 1000" by linarith
  moreover have "r_stream r = s" unfolding same(2) using assms(2) q(1) by (rule bspec)
  ultimately show "r_stream r = s \<and> r_ts r mod 1000 = 0 \<and>
       r_ts r \<le> st_max_ts (po_stats pq wo rs) div 1000 * 1000"
    using micro by blast
qed

end

section \<open>The files of \<open>parquetio\<close>\<close>

definition go_contents :: "go_lib \<Rightarrow> write_opts \<Rightarrow> rec list \<Rightarrow> rec list" where
  "go_contents lib wo rs =
     (case parquet_write lib wo rs of
        None \<Rightarrow> []
      | Some (f, st) \<Rightarrow> ReadWith lib (st_columns st) 0 [[(pf_rows f, ReadEOF)]])"

definition go_stats :: "go_lib \<Rightarrow> write_opts \<Rightarrow> rec list \<Rightarrow> file_stats" where
  "go_stats lib wo rs =
     (case parquet_write lib wo rs of None \<Rightarrow> write_stats lib wo (BuildSchema []) [] | Some (_, st) \<Rightarrow> st)"

text \<open>The size of the object is \<open>parquet-go\<close>'s.\<close>

definition go_parquet :: "go_lib \<Rightarrow> (rec list \<Rightarrow> nat) \<Rightarrow> parquet_ops" where
  "go_parquet lib volume =
     \<lparr>po_order = Order lib, po_contents = go_contents lib, po_stats = go_stats lib,
      po_size = (\<lambda>_ rs. int (volume rs))\<rparr>"

lemma decode_cell_key:
  "name \<notin> set envelope \<Longrightarrow> rkey (decode_cell lib declared r (name, x)) = rkey r \<and>
     r_ts (decode_cell lib declared r (name, x)) = r_ts r"
  by (simp add: decode_cell_def envelope_def rkey_def split: option.split prod.split)

lemma decode_cells_key:
  "\<forall>(name, _)\<in>set cells. name \<notin> set envelope \<Longrightarrow>
   rkey (foldl (decode_cell lib declared) r cells) = rkey r \<and> r_ts (foldl (decode_cell lib declared) r cells) = r_ts r"
proof (induction cells arbitrary: r)
  case (Cons c cells)
  obtain name x where c: "c = (name, x)" by fastforce
  from Cons.prems have "name \<notin> set envelope" by (simp add: c)
  with Cons.IH [of "decode_cell lib declared r c"] Cons.prems show ?case
    by (simp add: c decode_cell_key)
qed simp

lemma settle_type_key: "rkey (settle_type lib r) = rkey r" "r_ts (settle_type lib r) = r_ts r"
  by (simp_all add: settle_type_def Let_def rkey_def)

lemma decode_written_key:
  assumes "\<forall>c\<in>set cols. pc_name c \<notin> set envelope"
  shows "rkey (decodeRow lib declared (write_row lib keep_raw cols r)) = rkey r \<and>
    r_ts (decodeRow lib declared (write_row lib keep_raw cols r)) = micros (r_ts r) * 1000"
proof -
  let ?cells = "List.map_filter (\<lambda>c. map_option (Pair (pc_name c)) (field_cell lib c r)) cols"
  have "\<forall>(name, _)\<in>set ?cells. name \<notin> set envelope"
    using assms by (fastforce simp: set_map_filter)
  from decode_cells_key [OF this] show ?thesis
    by (simp add: decodeRow_def write_row_def decode_envelope settle_type_key)
      (simp add: rkey_def micros_def)
qed

lemma go_contents_eq:
  assumes "rs \<noteq> []"
  shows "go_contents lib wo rs =
    map (decodeRow lib (sourceColumns (st_columns (go_stats lib wo rs))) \<circ>
         write_row lib (wo_keep_raw wo) (sc_columns (BuildSchema rs)))
      (sortRecords lib (resolveSort lib (BuildSchema rs) wo) rs)"
  using assms
  by (simp add: go_contents_def go_stats_def parquet_write_def Let_def ReadWith_def read_chunks_all)

lemma foldl_max_key:
  fixes g :: "'a \<Rightarrow> 'b::linorder"
  shows "m \<le> foldl (\<lambda>m x. if g x > m then g x else m) m xs \<and>
    (x \<in> set xs \<longrightarrow> g x \<le> foldl (\<lambda>m x. if g x > m then g x else m) m xs)"
proof (induction xs arbitrary: m)
  case (Cons y ys)
  from Cons.IH [of "if g y > m then g y else m"] show ?case
    by (auto split: if_splits)
qed simp

interpretation go_file: parquet_file "go_parquet lib volume" for lib volume
proof (unfold_locales, goal_cases)
  case (1 wo rs)
  show ?case by (simp add: go_parquet_def)
next
  case (2 rs wo)
  have k: "rkey \<circ> (decodeRow lib declared \<circ> write_row lib (wo_keep_raw wo) (sc_columns (BuildSchema rs))) = rkey"
    for declared
    using decode_written_key schema_plain_names(2) by (fastforce simp: fun_eq_iff)
  show ?case
    by (simp add: go_parquet_def go_contents_eq [OF 2] k)
next
  case (3 r wo rs)
  then have ne: "rs \<noteq> []" by (auto simp: go_parquet_def go_contents_def parquet_write_def)
  from 3 obtain q declared where
    "r = decodeRow lib declared (write_row lib (wo_keep_raw wo) (sc_columns (BuildSchema rs)) q)"
    by (auto simp: go_parquet_def go_contents_eq [OF ne])
  then have "r_ts r = micros (r_ts q) * 1000" using decode_written_key schema_plain_names(2) by blast
  then show ?case by simp
next
  case (4 rs wo)
  then show ?case
    by (simp add: go_parquet_def go_stats_def parquet_write_def Let_def write_stats_def)
      (metis mset_sortRecords size_mset)
next
  case (5 r rs wo)
  then have ne: "rs \<noteq> []" by auto
  have "r \<in> set (sortRecords lib (resolveSort lib (BuildSchema rs) wo) rs)"
    using 5 by (metis mset_sortRecords set_mset_mset)
  with ne show ?case
    by (simp add: go_parquet_def go_stats_def parquet_write_def Let_def write_stats_def foldl_max_key)
next
  case (6 rs wo)
  then show ?case by (simp add: go_parquet_def go_stats_def parquet_write_def Let_def write_stats_def)
next
  case (7 rs wo)
  then show ?case using schema_plain_names(1) [of rs]
    by (simp add: go_parquet_def go_stats_def parquet_write_def Let_def write_stats_def acc_stats_def o_def)
next
  case (8 wo rs)
  show ?case by (simp add: go_parquet_def)
qed

end
