(* ===== verification/CompactSafety.thy ===== *)
theory CompactSafety
  imports CompactInv
begin

text \<open>
  The invariant of compaction, what one merge and one pass do to the records of the live files,
  and the properties of compaction.
\<close>

section \<open>The invariant\<close>

definition holds :: "rec list local_store \<Rightarrow> cat_file \<Rightarrow> bool" where
  "holds objs f \<longleftrightarrow> (\<exists>rs. open_object (fl_path f) objs = Some rs \<and> rs \<noteq> [] \<and> fl_rows f = int (length rs) \<and>
     (\<forall>r\<in>set rs. r_stream r = fl_stream f \<and> r_ts r mod 1000 = 0 \<and> r_ts r \<le> fl_max_ts f * 1000))"

definition comp_inv :: "comp_state \<Rightarrow> bool" where
  "comp_inv cs \<longleftrightarrow> cat_inv (fst cs) \<and> (\<forall>f\<in>set (live (fst cs)). holds (snd cs) f)"

definition live_keys :: "comp_state \<Rightarrow> (string \<times> nat \<times> int \<times> string) multiset" where
  "live_keys cs = (\<Sum>f\<in>#mset (live (fst cs)). rkeys (file_records (snd cs) f))"

text \<open>Two states with the same live files and records.\<close>

definition same_live :: "comp_state \<Rightarrow> comp_state \<Rightarrow> bool" where
  "same_live cs cs' \<longleftrightarrow> live (fst cs') = live (fst cs) \<and>
     (\<forall>f\<in>set (live (fst cs)). open_object (fl_path f) (snd cs') = open_object (fl_path f) (snd cs))"

lemma holds_cong: "open_object (fl_path f) objs' = open_object (fl_path f) objs \<Longrightarrow> holds objs' f = holds objs f"
  by (simp add: holds_def)

lemma same_live_inv: "comp_inv cs \<Longrightarrow> same_live cs cs' \<Longrightarrow> cat_inv (fst cs') \<Longrightarrow> comp_inv cs'"
  by (simp add: comp_inv_def same_live_def holds_def)

lemma same_live_keys: "same_live cs cs' \<Longrightarrow> live_keys cs' = live_keys cs"
  by (auto simp: same_live_def live_keys_def file_records_def intro!: arg_cong [of _ _ sum_mset] image_mset_cong)

lemma rkeys_concat: "rkeys (concat (map g xs)) = (\<Sum>x\<in>#mset xs. rkeys (g x))"
  by (induction xs) simp_all

lemma live_distinct: "cat_inv c \<Longrightarrow> distinct (live c)" "cat_inv c \<Longrightarrow> inj_on fl_id (set (live c))"
  by (auto simp: cat_inv_def live_def distinct_map inj_on_def)

lemma live_split:
  assumes inv: "cat_inv c" and ins: "set inputs \<subseteq> set (live c)" "distinct inputs"
  shows "mset (live c) = mset (filter (\<lambda>f. fl_id f \<notin> fl_id ` set inputs) (live c)) + mset inputs"
proof -
  have id: "fl_id f \<in> fl_id ` set inputs \<longleftrightarrow> f \<in> set inputs" if "f \<in> set (live c)" for f
    using live_distinct(2) [OF inv] ins(1) that by (auto simp: inj_on_def)
  have "mset (filter (\<lambda>f. fl_id f \<in> fl_id ` set inputs) (live c)) = mset inputs"
    using live_distinct(1) [OF inv] ins id by (subst set_eq_iff_mset_eq_distinct [symmetric]) auto
  then show ?thesis by (metis (no_types) add.commute mset_filter multiset_partition)
qed

lemma prune_live: "set (prune q c) \<subseteq> set (live c)"
  using set_take_subset by (fastforce simp: prune_def prunes_def live_def Let_def split: if_splits)

lemma prune_distinct: "cat_inv c \<Longrightarrow> distinct (prune q c)"
  by (auto simp: prune_def Let_def cat_inv_def distinct_map intro!: distinct_take)

section \<open>Reading the inputs\<close>

definition whole_reads :: "comp_io \<Rightarrow> bool" where
  "whole_reads io \<longleftrightarrow> (\<forall>i. ci_read io i = ReadRefused \<or> ci_read io i = ReadWhole)"

lemma read_inputs_spec:
  assumes "whole_reads io" "read_inputs opts io objs fs rows = Some (rs, ids, b)"
  shows "\<exists>k. ids = map fl_id (take k fs) \<and> rs = concat (map (file_records objs) (take k fs))"
  using assms(2)
proof (induction fs arbitrary: rows rs ids b)
  case (Cons f fs)
  show ?case
  proof (cases "rows > co_max_input_rows opts")
    case True
    with Cons.prems show ?thesis by (intro exI [of _ 0]) simp
  next
    case False
    with Cons.prems obtain all rs' ids' b' where
      "ci_read io (fl_id f) \<noteq> ReadRefused" and o: "open_object (fl_path f) objs = Some all"
      and r: "read_inputs opts io objs fs (rows + fl_rows f) = Some (rs', ids', b')"
      and eq: "ids = fl_id f # ids'" "rs = (case ci_read io (fl_id f) of ReadStops n \<Rightarrow> take n all | _ \<Rightarrow> all) @ rs'"
      by (auto simp: Let_def split: if_splits option.splits)
    then have "rs = all @ rs'" using assms(1) by (metis read_outcome.simps(10) whole_reads_def)
    moreover from Cons.IH [OF r] obtain k where
      "ids' = map fl_id (take k fs)" "rs' = concat (map (file_records objs) (take k fs))" by blast
    moreover have "file_records objs f = all" using o by (simp add: file_records_def)
    ultimately show ?thesis using eq(1) by (intro exI [of _ "Suc k"]) simp
  qed
qed simp

section \<open>Retention\<close>

text \<open>What a policy discards: below its level, and past its horizon.\<close>

definition discarded_key :: "(string \<Rightarrow> string) \<Rightarrow> retention \<Rightarrow> int \<Rightarrow> string \<times> nat \<times> int \<times> string \<Rightarrow> bool" where
  "discarded_key up p now = (\<lambda>(_, _, t, level). rt_downsample_after p \<noteq> 0 \<and> rt_min_level_after p \<noteq> [] \<and>
     t * 1000 \<le> now - rt_downsample_after p \<and> Rank up level < Rank up (rt_min_level_after p))"

lemma applyRetention_spec:
  assumes "applyRetention up p now rs = (kept, floor)"
  shows "set kept \<subseteq> set rs" "\<exists>D. rkeys rs = rkeys kept + D \<and> (\<forall>k\<in>#D. discarded_key up p now k) \<and>
    int (length rs) - int (length kept) = int (size D)"
    "r \<in> set rs \<Longrightarrow> r_ts r > now - rt_downsample_after p \<Longrightarrow> r \<in> set kept"
    "floor = [] \<or> floor = rt_min_level_after p"
    "floor = [] \<Longrightarrow> rt_downsample_after p \<noteq> 0 \<Longrightarrow> rt_min_level_after p \<noteq> [] \<Longrightarrow>
       \<exists>r\<in>set kept. r_ts r > now - rt_downsample_after p"
proof -
  let ?keep = "\<lambda>r. r_ts r > now - rt_downsample_after p \<or> Rank up (r_level r) \<ge> Rank up (rt_min_level_after p)"
  show "set kept \<subseteq> set rs" "floor = [] \<or> floor = rt_min_level_after p"
    "r \<in> set rs \<Longrightarrow> r_ts r > now - rt_downsample_after p \<Longrightarrow> r \<in> set kept"
    "floor = [] \<Longrightarrow> rt_downsample_after p \<noteq> 0 \<Longrightarrow> rt_min_level_after p \<noteq> [] \<Longrightarrow>
       \<exists>r\<in>set kept. r_ts r > now - rt_downsample_after p"
    using assms by (auto simp: applyRetention_def Let_def list_ex_iff split: if_splits)
  show "\<exists>D. rkeys rs = rkeys kept + D \<and> (\<forall>k\<in>#D. discarded_key up p now k) \<and>
      int (length rs) - int (length kept) = int (size D)"
  proof (cases "rt_downsample_after p = 0 \<or> rt_min_level_after p = []")
    case True
    with assms show ?thesis by (intro exI [of _ "{#}"]) (auto simp: applyRetention_def)
  next
    case False
    with assms have kept: "kept = filter ?keep rs" by (simp add: applyRetention_def Let_def)
    let ?D = "rkeys (filter (\<lambda>r. \<not> ?keep r) rs)"
    have "rkeys rs = rkeys kept + ?D" unfolding kept by (induction rs) auto
    moreover have "discarded_key up p now k" if "k \<in># ?D" for k
    proof -
      from that obtain r where r: "k = rkey r" "\<not> ?keep r" by auto
      moreover have "r_ts r div 1000 * 1000 \<le> r_ts r" by presburger
      ultimately show ?thesis using False by (auto simp: discarded_key_def rkey_def)
    qed
    moreover have "int (length rs) - int (length kept) = int (size ?D)"
      unfolding kept size_mset length_map sum_length_filter_compl [of ?keep rs, symmetric] by linarith
    ultimately show ?thesis by blast
  qed
qed

section \<open>One merge\<close>

lemma intend_one:
  assumes "intend ok now [name] c = (r, c')" "cat_inv c"
  shows "cat_inv c' \<and> c_files c' = c_files c \<and> c_next_id c' = c_next_id c \<and>
    (case r of Inl _ \<Rightarrow> True | Inr known \<Rightarrow> name \<in> set known \<longleftrightarrow> file_at name c \<noteq> None)"
  using assms intend_row_inv [OF assms(2), of now name]
  by (auto simp: intend_def intend_row_def split: if_splits)

lemma live_path: "f \<in> set (live c) \<Longrightarrow> file_at (fl_path f) c \<noteq> None"
  by (auto simp: find_None_iff_path live_def)

context parquet_file
begin

lemma output_new: "rs \<noteq> [] \<Longrightarrow> new_file (output_file pq wo sn name level floor rs)"
  by (simp add: new_file_def output_file_def Let_def size_nonneg)

lemma publish_merge_spec:
  assumes inv: "comp_inv cs" and rs: "rs \<noteq> []" "\<forall>r\<in>set rs. r_stream r = sn"
    and ins: "set inputs \<subseteq> set (live (fst cs))"
    and pub: "publish_merge pq io wo sn name level floor rs (map fl_id inputs) cs = (e, cs')"
  shows "comp_inv cs' \<and> (case e of
      Some _ \<Rightarrow> same_live cs cs'
    | None \<Rightarrow> (\<exists>i g. g = file_row (ci_now io div 1000) i (output_file pq wo sn name level floor rs) \<and>
        live (fst cs') = filter (\<lambda>f. fl_id f \<notin> fl_id ` set inputs) (live (fst cs)) @ [g] \<and>
        file_records (snd cs') g = po_contents pq wo rs \<and> g \<notin> set (live (fst cs)) \<and>
        (\<forall>f\<in>set (live (fst cs)). open_object (fl_path f) (snd cs') = open_object (fl_path f) (snd cs))))"
proof -
  obtain cat objs where cs: "cs = (cat, objs)" by fastforce
  obtain r cat1 where intend: "intend (ci_intend io name) (ci_now io div 1000) [name] cat = (r, cat1)" by fastforce
  from inv have cinv: "cat_inv cat" by (simp add: cs comp_inv_def)
  note i1 = intend_one [OF intend cinv]
  have live1: "live cat1 = live cat" using i1 by (simp add: live_def)
  have quiet: "comp_inv (cat2, objs2) \<and> same_live cs (cat2, objs2)"
    if "cat_inv cat2" "live cat2 = live cat" "\<forall>f\<in>set (live cat). open_object (fl_path f) objs2 = open_object (fl_path f) objs"
    for cat2 objs2
    using that inv same_live_inv [OF inv, of "(cat2, objs2)"] by (simp add: same_live_def cs)
  consider (failed) x where "r = Inl x" | (taken) known where "r = Inr known" "name \<in> set known"
    | (free) known where "r = Inr known" "name \<notin> set known" by (cases r) auto
  then show ?thesis
  proof cases
    case failed
    with pub intend have "cs' = (cat1, objs)" "e = Some DeclareFailed" by (auto simp: publish_merge_def cs)
    with quiet [of cat1 objs] i1 live1 show ?thesis by simp
  next
    case taken
    with pub intend have "cs' = (cat1, objs)" "e = Some (NameTaken name)" by (auto simp: publish_merge_def cs)
    with quiet [of cat1 objs] i1 live1 show ?thesis by simp
  next
    case free
    obtain b objs1 where put: "put_object (ci_put io name) name (po_contents pq wo rs) (ci_now io) objs = (b, objs1)"
      by fastforce
    have "fl_path f \<noteq> name" if "f \<in> set (live cat)" for f using live_path [OF that] free i1 by auto
    then have other: "\<forall>f\<in>set (live cat). open_object (fl_path f) objs1 = open_object (fl_path f) objs"
      using put_object_get [OF put] by simp
    let ?out = "output_file pq wo sn name level floor rs"
    obtain r2 cat2 where rep: "replace_files (ci_replace io (map fl_id inputs)) (ci_now io div 1000)
        [(?out, st_columns (po_stats pq wo rs))] (map fl_id inputs) cat1 = (r2, cat2)" by fastforce
    have ids: "\<forall>i\<in>set (map fl_id inputs). i < c_next_id cat1"
      using ins cinv i1 by (auto simp: cs cat_inv_def live_def)
    from i1 have "cat_inv cat1" by blast
    note spec = replace_files_spec [OF this _ ids rep, simplified output_new [OF rs(1)]]
    show ?thesis
    proof (cases b)
      case False
      with pub intend free put have "cs' = (cat1, objs1)" "e = Some WriteFailed" by (auto simp: publish_merge_def cs)
      with quiet [of cat1 objs1] i1 live1 other show ?thesis by simp
    next
      case True
      show ?thesis
      proof (cases r2)
        case (Inl x)
        with spec output_new [OF rs(1)] have "cat2 = cat1" by simp
        moreover from Inl pub intend free put True rep have "cs' = (cat2, objs1)" "e = Some (PublishFailed x)"
          by (auto simp: publish_merge_def cs)
        ultimately show ?thesis using quiet [of cat1 objs1] i1 live1 other by simp
      next
        case (Inr new)
        with spec output_new [OF rs(1)] obtain i where
          new: "live cat2 = filter (\<lambda>f. fl_id f \<notin> fl_id ` set inputs) (live cat) @ [file_row (ci_now io div 1000) i ?out]"
          and inv2: "cat_inv cat2"
          by (auto simp: live1 length_Suc_conv)
        let ?g = "file_row (ci_now io div 1000) i ?out"
        from Inr pub intend free put True rep have c': "cs' = (cat2, objs1)" "e = None"
          by (auto simp: publish_merge_def cs)
        have g: "open_object (fl_path ?g) objs1 = Some (po_contents pq wo rs)"
          using put_object_get [OF put, of name] True by (simp add: file_row_def output_file_def Let_def)
        have "fl_path ?g = name" by (simp add: file_row_def output_file_def Let_def)
        then have fresh: "?g \<notin> set (live cat)" using live_path [of ?g cat] free i1 by auto
        have "holds objs1 ?g"
          unfolding holds_def g
          using written_file [OF rs(1,2)] stats_rows [OF rs(1)]
          by (simp add: file_row_def output_file_def Let_def)
        moreover have "holds objs1 f" if "f \<in> set (live cat)" for f
          using inv other that holds_cong [of f objs1 objs] by (auto simp: comp_inv_def cs)
        ultimately have "comp_inv cs'" using new inv2 by (auto simp: comp_inv_def c')
        then show ?thesis using new g other fresh by (auto simp: c' cs file_records_def)
      qed
    qed
  qed
qed

end

text \<open>What a step over some of the live files may do to the records.\<close>

definition step_ok ::
  "(string \<times> nat \<times> int \<times> string \<Rightarrow> bool) \<Rightarrow> cat_file set \<Rightarrow> comp_state \<Rightarrow> comp_state \<Rightarrow> int \<Rightarrow> bool" where
  "step_ok lost touched cs cs' n \<longleftrightarrow> comp_inv cs' \<and> set (live (fst cs)) - touched \<subseteq> set (live (fst cs')) \<and>
     (\<exists>D. live_keys cs = live_keys cs' + D \<and> (\<forall>k\<in>#D. lost k) \<and> n = int (size D))"

lemma step_ok_refl: "comp_inv cs \<Longrightarrow> step_ok lost A cs cs 0"
  by (auto simp: step_ok_def intro!: exI [of _ "{#}"])

lemma step_ok_same: "comp_inv cs' \<Longrightarrow> same_live cs cs' \<Longrightarrow> step_ok lost A cs cs' 0"
  using same_live_keys by (fastforce simp: step_ok_def same_live_def intro!: exI [of _ "{#}"])

lemma step_ok_trans:
  assumes "step_ok lost A cs cs1 n" "step_ok lost B cs1 cs2 m"
  shows "step_ok lost (A \<union> B) cs cs2 (n + m)"
proof -
  from assms obtain D E where d: "live_keys cs = live_keys cs1 + D" "\<forall>k\<in>#D. lost k" "n = int (size D)"
    and e: "live_keys cs1 = live_keys cs2 + E" "\<forall>k\<in>#E. lost k" "m = int (size E)"
    by (auto simp: step_ok_def)
  have "live_keys cs = live_keys cs2 + (D + E)" "\<forall>k\<in>#D + E. lost k" "n + m = int (size (D + E))"
    using d e by (auto simp: ac_simps)
  with assms show ?thesis unfolding step_ok_def by blast
qed

lemma step_ok_mono: "step_ok lost A cs cs' n \<Longrightarrow> A \<subseteq> B \<Longrightarrow> (\<And>k. lost k \<Longrightarrow> lost' k) \<Longrightarrow> step_ok lost' B cs cs' n"
  unfolding step_ok_def by blast

text \<open>Retiring live files whose records are all lost.\<close>

lemma retire_step:
  assumes inv: "comp_inv cs" and ins: "set inputs \<subseteq> set (live (fst cs))" "distinct inputs"
    and post: "comp_inv cs'" "live (fst cs') = filter (\<lambda>f. fl_id f \<notin> fl_id ` set inputs) (live (fst cs)) @ new"
    and objs: "\<forall>f\<in>set (live (fst cs)). open_object (fl_path f) (snd cs') = open_object (fl_path f) (snd cs)"
    and recs: "rkeys (concat (map (file_records (snd cs)) inputs)) = rkeys (concat (map (file_records (snd cs')) new)) + D"
    and lost: "\<forall>k\<in>#D. lost k"
  shows "step_ok lost (set inputs) cs cs' (int (size D))"
proof -
  from inv have cinv: "cat_inv (fst cs)" by (simp add: comp_inv_def)
  let ?rest = "filter (\<lambda>f. fl_id f \<notin> fl_id ` set inputs) (live (fst cs))"
  have "live_keys cs = (\<Sum>f\<in>#mset ?rest. rkeys (file_records (snd cs) f)) + rkeys (concat (map (file_records (snd cs)) inputs))"
    unfolding live_keys_def live_split [OF cinv ins] rkeys_concat by simp
  also have "(\<Sum>f\<in>#mset ?rest. rkeys (file_records (snd cs) f)) = (\<Sum>f\<in>#mset ?rest. rkeys (file_records (snd cs') f))"
    by (rule arg_cong [of _ _ sum_mset], rule image_mset_cong) (use objs in \<open>auto simp: file_records_def\<close>)
  also have "\<dots> + rkeys (concat (map (file_records (snd cs)) inputs)) = live_keys cs' + D"
    using recs unfolding live_keys_def post(2) rkeys_concat by simp
  finally have keys: "live_keys cs = live_keys cs' + D" .
  have "set (live (fst cs)) - set inputs \<subseteq> set ?rest"
    using live_distinct(2) [OF cinv] ins(1) by (auto simp: inj_on_def)
  then have "set (live (fst cs)) - set inputs \<subseteq> set (live (fst cs'))" unfolding post(2) by auto
  with keys post(1) lost show ?thesis unfolding step_ok_def by blast
qed

lemma replace_nothing:
  assumes inv: "cat_inv c" and ins: "set inputs \<subseteq> set (live c)"
    and rep: "replace_files ok now [] (map fl_id inputs) c = (r, c')"
  shows "case r of Inl _ \<Rightarrow> c' = c
    | Inr _ \<Rightarrow> cat_inv c' \<and> live c' = filter (\<lambda>f. fl_id f \<notin> fl_id ` set inputs) (live c)"
proof -
  have "\<forall>i\<in>set (map fl_id inputs). i < c_next_id c" using ins inv by (auto simp: cat_inv_def live_def)
  from replace_files_spec [OF inv _ this rep] show ?thesis by (simp split: sum.splits)
qed

context parquet_file
begin

lemma merge_spec:
  assumes inv: "comp_inv cs" and reads: "whole_reads io"
    and files: "set files \<subseteq> set (live (fst cs))" "distinct files" "\<forall>f\<in>set files. fl_stream f = sn"
    and run: "merge pq up opts io sn files level cs res = (e, cs', res')"
  shows "step_ok (discarded_key up (co_retention opts) (ci_now io)) (set files) cs cs' (cr_dropped res' - cr_dropped res)"
    and "e \<noteq> None \<Longrightarrow> same_live cs cs' \<and> res' = res" and "cr_expired res' = cr_expired res"
proof -
  let ?lost = "discarded_key up (co_retention opts) (ci_now io)" and ?now = "ci_now io div 1000"
  define inputs where "inputs = (if int (length files) > co_max_input_files opts
    then take (nat (co_max_input_files opts)) files else files)"
  have same: "same_live cs cs" by (simp add: same_live_def)
  show "cr_expired res' = cr_expired res"
    using run by (auto simp: merge_def merged_result_def Let_def split: option.splits prod.splits if_splits sum.splits)
  have "step_ok ?lost (set files) cs cs' (cr_dropped res' - cr_dropped res) \<and> (e \<noteq> None \<longrightarrow> same_live cs cs' \<and> res' = res)"
  proof (cases "read_inputs opts io (snd cs) inputs 0")
    case None
    with run have "cs' = cs" "res' = res" by (auto simp: merge_def simp flip: inputs_def)
    with step_ok_refl [OF inv] same show ?thesis by simp
  next
    case (Some x)
    obtain records ids volume where x: "x = (records, ids, volume)" by (metis prod_cases3)
    from read_inputs_spec [OF reads Some [unfolded x]] obtain k where
      ids: "ids = map fl_id (take k inputs)"
      and records: "records = concat (map (file_records (snd cs)) (take k inputs))" by blast
    define used where "used = take k inputs"
    have sub: "set used \<subseteq> set files" unfolding used_def inputs_def
      by (auto dest: in_set_takeD)
    with files have used: "set used \<subseteq> set (live (fst cs))" "distinct used" "\<forall>f\<in>set used. fl_stream f = sn"
      by (auto simp: used_def inputs_def intro!: distinct_take)
    from inv have cinv: "cat_inv (fst cs)" by (simp add: comp_inv_def)
    have stream: "\<forall>r\<in>set records. r_stream r = sn"
      using inv used by (fastforce simp: records comp_inv_def holds_def file_records_def simp flip: used_def)
    obtain kept floor where ret: "applyRetention up (co_retention opts) (ci_now io) records = (kept, floor)" by fastforce
    from applyRetention_spec(2) [OF ret] obtain D where
      D: "rkeys records = rkeys kept + D" "\<forall>k\<in>#D. ?lost k" "int (length records) - int (length kept) = int (size D)"
      by blast
    note run = run [unfolded merge_def, folded inputs_def, unfolded Let_def Some x option.case prod.case ret]
    show ?thesis
    proof (cases "ids = []")
      case True
      with run have "cs' = cs" "res' = res" "e = None" by auto
      with step_ok_refl [OF inv] show ?thesis by simp
    next
      case ids_ne: False
      show ?thesis
      proof (cases "kept = []")
        case True
        obtain r cat1 where rep: "replace_files (ci_replace io ids) ?now [] (map fl_id used) (fst cs) = (r, cat1)" by fastforce
        note spec = replace_nothing [OF cinv used(1) this]
        have ids': "ids = map fl_id used" by (simp add: ids used_def)
        show ?thesis
        proof (cases r)
          case (Inl err)
          with spec run ids_ne True rep have "cs' = cs" "res' = res" by (auto simp: ids')
          with step_ok_refl [OF inv] same show ?thesis by simp
        next
          case (Inr v)
          with run ids_ne True rep have c': "cs' = (cat1, snd cs)" "e = None" "res' = merged_result ids volume 0 0 (int (length records) - int (length kept)) res"
            by (auto simp: ids')
          from Inr spec have post: "cat_inv cat1" "live cat1 = filter (\<lambda>f. fl_id f \<notin> fl_id ` set used) (live (fst cs))"
            by auto
          have "step_ok ?lost (set used) cs cs' (int (size D))"
          proof (rule retire_step [OF inv used(1,2), where new = "[]"])
            show "comp_inv cs'" using post inv by (auto simp: comp_inv_def c')
            show "rkeys (concat (map (file_records (snd cs)) used)) = rkeys (concat (map (file_records (snd cs')) [])) + D"
              using D(1) True by (simp add: records used_def)
          qed (use post D in \<open>auto simp: c'\<close>)
          then have "step_ok ?lost (set files) cs cs' (int (size D))" by (rule step_ok_mono [OF _ sub])
          then show ?thesis by (simp add: c'(2,3) merged_result_def D(3))
        qed
      next
        case ne: False
        let ?wo = "\<lparr>wo_keep_raw = keepRaw opts (ci_now io) kept, wo_sort_by = sortColumns level (co_cluster_by opts)\<rparr>"
        let ?rs = "po_order pq ?wo kept"
        have rs: "?rs \<noteq> []" "\<forall>r\<in>set ?rs. r_stream r = sn"
          using ne order_ne stream applyRetention_spec(1) [OF ret] by auto
        let ?name = "merge_name sn level inputs ids (hd ?rs)"
        obtain e1 cs1 where pub: "publish_merge pq io ?wo sn ?name level floor ?rs (map fl_id used) cs = (e1, cs1)"
          by (rule prod.exhaust)
        note spec = publish_merge_spec [OF inv rs used(1) this]
        have ids': "ids = map fl_id used" by (simp add: ids used_def)
        show ?thesis
        proof (cases e1)
          case (Some err)
          with run ids_ne ne pub have "cs' = cs1" "res' = res" by (auto simp: ids')
          with Some spec step_ok_same show ?thesis by simp
        next
          case None
          with run ids_ne ne pub have c': "cs' = cs1" "e = None"
            "cr_dropped res' = cr_dropped res + (int (length records) - int (length kept))"
            by (auto simp: ids' merged_result_def)
          from None spec obtain i g where
            g: "live (fst cs1) = filter (\<lambda>f. fl_id f \<notin> fl_id ` set used) (live (fst cs)) @ [g]"
              "file_records (snd cs1) g = po_contents pq ?wo ?rs"
              "\<forall>f\<in>set (live (fst cs)). open_object (fl_path f) (snd cs1) = open_object (fl_path f) (snd cs)"
            and inv1: "comp_inv cs1" by auto
          have "rkeys (concat (map (file_records (snd cs)) used)) = rkeys (concat (map (file_records (snd cs1)) [g])) + D"
            using D(1) contents_keys [OF rs(1)] order_keys by (simp add: records g(2) flip: used_def)
          from retire_step [OF inv used(1,2) inv1 g(1,3) this D(2)]
          have "step_ok ?lost (set files) cs cs1 (int (size D))" by (rule step_ok_mono [OF _ sub])
          then show ?thesis by (simp add: c' D(3))
        qed
      qed
    qed
  qed
  then show "step_ok ?lost (set files) cs cs' (cr_dropped res' - cr_dropped res)"
    "e \<noteq> None \<Longrightarrow> same_live cs cs' \<and> res' = res" by blast+
qed

end

section \<open>The groups of a level\<close>

lemma update_present:
  assumes "map_of xs k = Some v"
  shows "\<exists>as bs. xs = as @ (k, v) # bs \<and> AList.update k w xs = as @ (k, w) # bs"
  using assms
proof (induction xs)
  case (Cons p xs)
  obtain j u where p: "p = (j, u)" by fastforce
  show ?case
  proof (cases "j = k")
    case True
    with Cons.prems show ?thesis by (intro exI [of _ "[]"] exI [of _ xs]) (simp add: p)
  next
    case False
    with Cons obtain as bs where "xs = as @ (k, v) # bs" "AList.update k w xs = as @ (k, w) # bs" by (auto simp: p)
    then show ?thesis using False by (intro exI [of _ "p # as"] exI [of _ bs]) (simp add: p)
  qed
qed simp

definition bucketed :: "int \<Rightarrow> cat_file list \<Rightarrow> ((string \<times> int) \<times> bucket) list \<Rightarrow> bool" where
  "bucketed level fs index \<longleftrightarrow> mset (concat (map (b_files \<circ> snd) index)) = mset fs \<and>
     (\<forall>(i, g)\<in>set index. b_stream g = fst i \<and> b_key g = snd i \<and>
        (\<forall>f\<in>set (b_files g). fl_stream f = fst i \<and> bucket_key level f = snd i))"

lemma bucket_add_ok:
  assumes "bucketed level fs index"
  shows "bucketed level (fs @ [f]) (bucket_add level f index)"
proof (cases "map_of index (fl_stream f, bucket_key level f)")
  case None
  then have "(fl_stream f, bucket_key level f) \<notin> fst ` set index" by (simp add: map_of_eq_None_iff)
  with None have "bucket_add level f index = index @ [((fl_stream f, bucket_key level f),
      \<lparr>b_stream = fl_stream f, b_key = bucket_key level f, b_files = [f]\<rparr>)]"
    unfolding bucket_add_def Let_def None option.case by (simp add: update_absent)
  with assms show ?thesis by (auto simp: bucketed_def)
next
  case (Some g)
  let ?g = "g\<lparr>b_files := b_files g @ [f]\<rparr>"
  from update_present [OF Some, of ?g] obtain as bs where
    i: "index = as @ ((fl_stream f, bucket_key level f), g) # bs"
       "AList.update (fl_stream f, bucket_key level f) ?g index = as @ ((fl_stream f, bucket_key level f), ?g) # bs"
    by blast
  then have "bucket_add level f index = as @ ((fl_stream f, bucket_key level f), ?g) # bs"
    using Some by (simp add: bucket_add_def Let_def)
  with assms show ?thesis by (auto simp: bucketed_def i(1))
qed

lemma bucketize_spec:
  "mset (concat (map b_files (bucketize fs level))) = mset fs"
  "g \<in> set (bucketize fs level) \<Longrightarrow> f \<in> set (b_files g) \<Longrightarrow> fl_stream f = b_stream g \<and> bucket_key level f = b_key g"
proof -
  have "bucketed level (xs @ fs) (fold (bucket_add level) fs index)" if "bucketed level xs index" for xs index
    using that
  proof (induction fs arbitrary: xs index)
    case (Cons f fs)
    show ?case using Cons.IH [OF bucket_add_ok [OF Cons.prems]] by simp
  qed simp
  from this [of "[]" "[]"] have b: "bucketed level fs (fold (bucket_add level) fs [])" by (simp add: bucketed_def)
  then show "mset (concat (map b_files (bucketize fs level))) = mset fs" by (simp add: bucketed_def bucketize_def)
  show "fl_stream f = b_stream g \<and> bucket_key level f = b_key g"
    if "g \<in> set (bucketize fs level)" "f \<in> set (b_files g)"
    using b that by (fastforce simp: bucketed_def bucketize_def)
qed

lemma bucketize_groups:
  assumes "distinct fs"
  shows "distinct (concat (map b_files (filter P (bucketize fs level))))"
    "set (concat (map b_files (filter P (bucketize fs level)))) \<subseteq> set fs"
proof -
  have "distinct (concat (map b_files gs)) \<Longrightarrow> distinct (concat (map b_files (filter P gs)))" for gs
    by (induction gs) auto
  with assms show "distinct (concat (map b_files (filter P (bucketize fs level))))"
    using mset_eq_imp_distinct_iff [OF bucketize_spec(1)] by blast
  have "set (concat (map b_files (filter P gs))) \<subseteq> set (concat (map b_files gs))" for gs by auto
  then show "set (concat (map b_files (filter P (bucketize fs level)))) \<subseteq> set fs"
    using mset_eq_setD [OF bucketize_spec(1)] by blast
qed

context parquet_file
begin

lemma merge_groups_spec:
  assumes "comp_inv cs" "whole_reads io" "distinct (concat (map snd groups))"
    "set (concat (map snd groups)) \<subseteq> set (live (fst cs))" "\<forall>(sn, fs)\<in>set groups. \<forall>f\<in>set fs. fl_stream f = sn"
    "merge_groups pq up opts io level groups cs res = (es, cs', res')"
  shows "step_ok (discarded_key up (co_retention opts) (ci_now io)) (set (concat (map snd groups))) cs cs'
      (cr_dropped res' - cr_dropped res) \<and> cr_expired res' = cr_expired res"
  using assms
proof (induction groups arbitrary: cs res es cs' res')
  case Nil
  then show ?case by (simp add: step_ok_refl)
next
  case (Cons p groups)
  obtain sn files where p: "p = (sn, files)" by fastforce
  obtain e cs1 res1 where m: "merge pq up opts io sn files level cs res = (e, cs1, res1)" by (rule prod_cases3)
  obtain es2 cs2 res2 where g: "merge_groups pq up opts io level groups cs1 res1 = (es2, cs2, res2)" by (rule prod_cases3)
  from Cons.prems(6) m g have r: "cs' = cs2" "res' = res2" by (auto simp: p)
  have files: "set files \<subseteq> set (live (fst cs))" "distinct files" "\<forall>f\<in>set files. fl_stream f = sn"
    using Cons.prems(3-5) by (auto simp: p)
  note one = merge_spec [OF Cons.prems(1,2) files m]
  from one(1) have inv1: "comp_inv cs1" and left: "set (live (fst cs)) - set files \<subseteq> set (live (fst cs1))"
    by (auto simp: step_ok_def)
  have "set (concat (map snd groups)) \<inter> set files = {}" "set (concat (map snd groups)) \<subseteq> set (live (fst cs))"
    "distinct (concat (map snd groups))"
    using Cons.prems(3,4) by (auto simp: p)
  then have rest: "distinct (concat (map snd groups))" "set (concat (map snd groups)) \<subseteq> set (live (fst cs1))"
    using left by blast+
  have "\<forall>(sn, fs)\<in>set groups. \<forall>f\<in>set fs. fl_stream f = sn" using Cons.prems(5) by auto
  from Cons.IH [OF inv1 Cons.prems(2) rest this g] have two:
    "step_ok (discarded_key up (co_retention opts) (ci_now io)) (set (concat (map snd groups))) cs1 cs2
      (cr_dropped res2 - cr_dropped res1)" "cr_expired res2 = cr_expired res1" by auto
  from step_ok_trans [OF one(1) two(1)] one(3) two(2) show ?case by (simp add: p r)
qed

lemma mergeLevel_spec:
  assumes inv: "comp_inv cs" and reads: "whole_reads io" and run: "mergeLevel pq up opts io level cs res = (es, cs', res')"
  shows "step_ok (discarded_key up (co_retention opts) (ci_now io)) UNIV cs cs' (cr_dropped res' - cr_dropped res) \<and>
    cr_expired res' = cr_expired res"
proof (cases "ci_prune io (Some level)")
  case False
  with run step_ok_refl [OF inv] show ?thesis by (simp add: mergeLevel_def)
next
  case True
  let ?fs = "prune (level_query [level] None) (fst cs)"
  let ?gs = "filter (\<lambda>g. eligible opts (ci_now io) g level) (bucketize ?fs level)"
  let ?groups = "map (\<lambda>g. (b_stream g, b_files g)) ?gs"
  have "cat_inv (fst cs)" using inv by (simp add: comp_inv_def)
  note d = prune_distinct [OF this, of "level_query [level] None"]
  have snd: "map snd ?groups = map b_files ?gs" by simp
  have "distinct (concat (map snd ?groups))" "set (concat (map snd ?groups)) \<subseteq> set (live (fst cs))"
    unfolding snd using bucketize_groups [OF d] prune_live by blast+
  moreover have "\<forall>(sn, fs)\<in>set ?groups. \<forall>f\<in>set fs. fl_stream f = sn" using bucketize_spec(2) by fastforce
  ultimately have "step_ok (discarded_key up (co_retention opts) (ci_now io)) (set (concat (map snd ?groups))) cs cs'
      (cr_dropped res' - cr_dropped res) \<and> cr_expired res' = cr_expired res"
    using merge_groups_spec [OF inv reads, of ?groups] run True by (simp add: mergeLevel_def)
  then show ?thesis by (blast intro: step_ok_mono)
qed

lemma rewriteLevel_spec:
  assumes inv: "comp_inv cs" and reads: "whole_reads io" and run: "rewriteLevel pq up opts io level cs res = (es, cs', res')"
  shows "step_ok (discarded_key up (co_retention opts) (ci_now io)) UNIV cs cs' (cr_dropped res' - cr_dropped res) \<and>
    cr_expired res' = cr_expired res"
proof (cases "ci_prune io (Some level)")
  case False
  with run step_ok_refl [OF inv] show ?thesis by (simp add: rewriteLevel_def)
next
  case True
  let ?fs = "filter (due up opts (ci_now io)) (prune (level_query [level] None) (fst cs))"
  let ?groups = "map (\<lambda>f. (fl_stream f, [f])) ?fs"
  have "cat_inv (fst cs)" using inv by (simp add: comp_inv_def)
  note d = prune_distinct [OF this, of "level_query [level] None"]
  have snd: "concat (map snd ?groups) = ?fs" by (simp add: o_def)
  have "distinct (concat (map snd ?groups))" "set (concat (map snd ?groups)) \<subseteq> set (live (fst cs))"
    unfolding snd using d prune_live by auto
  moreover have "\<forall>(sn, fs)\<in>set ?groups. \<forall>f\<in>set fs. fl_stream f = sn" by auto
  ultimately have "step_ok (discarded_key up (co_retention opts) (ci_now io)) (set (concat (map snd ?groups))) cs cs'
      (cr_dropped res' - cr_dropped res) \<and> cr_expired res' = cr_expired res"
    using merge_groups_spec [OF inv reads, of ?groups] run True by (simp add: rewriteLevel_def)
  then show ?thesis by (blast intro: step_ok_mono)
qed

end

section \<open>Expiry\<close>

definition expired_key :: "retention \<Rightarrow> int \<Rightarrow> string \<times> nat \<times> int \<times> string \<Rightarrow> bool" where
  "expired_key p now = (\<lambda>(_, _, t, _). rt_delete_after p \<noteq> 0 \<and> t * 1000 < now - rt_delete_after p)"

definition doomed_files :: "comp_opts \<Rightarrow> int \<Rightarrow> catalog \<Rightarrow> cat_file list" where
  "doomed_files opts now c =
     (let cutoff = now - rt_delete_after (co_retention opts)
      in filter (\<lambda>f. fl_max_ts f * 1000 < cutoff) (prune (level_query [] (Some cutoff)) c))"

lemma expire_cases:
  assumes "expire opts io c = (e, n, c')"
  shows "c' = c \<or> rt_delete_after (co_retention opts) \<noteq> 0 \<and>
    c' = retireTx (ci_now io div 1000) (map fl_id (doomed_files opts (ci_now io) c)) c"
  using assms unfolding expire_def Let_def doomed_files_def tombstone_def
  by (simp split: if_splits)

lemma expire_spec:
  assumes inv: "comp_inv cs" and run: "expire opts io (fst cs) = (e, n, cat)"
  shows "\<exists>m. step_ok (expired_key (co_retention opts) (ci_now io)) UNIV cs (cat, snd cs) m"
proof (cases "cat = fst cs")
  case True
  with step_ok_refl [OF inv] show ?thesis by auto
next
  case False
  let ?after = "rt_delete_after (co_retention opts)"
  let ?cutoff = "ci_now io - ?after"
  let ?inputs = "doomed_files opts (ci_now io) (fst cs)"
  from inv have cinv: "cat_inv (fst cs)" by (simp add: comp_inv_def)
  have ins: "set ?inputs \<subseteq> set (live (fst cs))" "distinct ?inputs"
    using prune_live prune_distinct [OF cinv] by (auto simp: doomed_files_def Let_def)
  from expire_cases [OF run] False have retire: "cat = retireTx (ci_now io div 1000) (map fl_id ?inputs) (fst cs)"
    and on: "?after \<noteq> 0" by blast+
  note r = retireTx_inv [OF cinv, of "ci_now io div 1000" "map fl_id ?inputs"]
  have l: "live cat = filter (\<lambda>f. fl_id f \<notin> fl_id ` set ?inputs) (live (fst cs)) @ []"
    unfolding live_def retire conjunct2 [OF r] live_retired filter_filter set_map append_Nil2
    by (rule filter_cong) (rule refl, blast)
  let ?D = "rkeys (concat (map (file_records (snd cs)) ?inputs))"
  have "expired_key (co_retention opts) (ci_now io) k" if k: "k \<in># ?D" for k
  proof -
    from k have "k \<in> rkey ` set (concat (map (file_records (snd cs)) ?inputs))" by (simp only: set_mset_mset set_map)
    then obtain f q where f: "f \<in> set ?inputs" "q \<in> set (file_records (snd cs) f)" "k = rkey q"
      unfolding set_concat set_map by blast
    with ins inv have "holds (snd cs) f" unfolding comp_inv_def by blast
    then have "r_ts q \<le> fl_max_ts f * 1000" "r_ts q mod 1000 = 0"
      using f(2) by (auto simp: holds_def file_records_def)
    moreover have "r_ts q div 1000 * 1000 \<le> r_ts q" by presburger
    moreover have "fl_max_ts f * 1000 < ?cutoff" using f(1) by (simp add: doomed_files_def Let_def)
    ultimately have "r_ts q div 1000 * 1000 < ?cutoff" by linarith
    then show ?thesis using on unfolding f(3) expired_key_def rkey_def by simp
  qed
  then have lost: "\<forall>k\<in>#?D. expired_key (co_retention opts) (ci_now io) k" by blast
  have "set (live cat) \<subseteq> set (live (fst cs))" unfolding l by auto
  moreover have "cat_inv cat" unfolding retire using r by blast
  ultimately have post: "comp_inv (cat, snd cs)" using inv unfolding comp_inv_def fst_conv snd_conv by blast
  have recs: "?D = rkeys (concat (map (file_records (snd (cat, snd cs))) [])) + ?D" by simp
  have objs: "\<forall>f\<in>set (live (fst cs)). open_object (fl_path f) (snd (cat, snd cs)) = open_object (fl_path f) (snd cs)"
    by simp
  have "live (fst (cat, snd cs)) = filter (\<lambda>f. fl_id f \<notin> fl_id ` set ?inputs) (live (fst cs)) @ []"
    unfolding fst_conv by (rule l)
  from retire_step [OF inv ins post this objs recs lost] show ?thesis
    by (intro exI) (rule step_ok_mono [OF _ subset_UNIV])
qed

section \<open>What a merge writes is settled\<close>

context parquet_file
begin

lemma output_settled:
  assumes ret: "applyRetention up (co_retention opts) now records = (kept, floor)" and ne: "kept \<noteq> []"
    and micro: "\<forall>r\<in>set records. r_ts r mod 1000 = 0"
    and wo: "wo_keep_raw wo = keepRaw opts now kept"
  shows "\<not> due up opts now (file_row t i (output_file pq wo sn name level floor (po_order pq wo kept)))"
proof
  let ?g = "file_row t i (output_file pq wo sn name level floor (po_order pq wo kept))"
  let ?p = "co_retention opts"
  have max: "r_ts r \<le> fl_max_ts ?g * 1000" if "r \<in> set kept" for r
  proof -
    have "r_ts r \<le> st_max_ts (po_stats pq wo (po_order pq wo kept))" by (rule stats_max_ts) (simp add: that)
    moreover have "r_ts r mod 1000 = 0" using micro that applyRetention_spec(1) [OF ret] by blast
    ultimately have "r_ts r \<le> st_max_ts (po_stats pq wo (po_order pq wo kept)) div 1000 * 1000" by (rule micro_le)
    then show ?thesis by (simp add: file_row_def output_file_def Let_def)
  qed
  have has_raw: "fl_has_raw ?g = keepRaw opts now kept"
    using stats_raw [of "po_order pq wo kept" wo] ne order_ne by (simp add: file_row_def output_file_def Let_def wo)
  have promise: "fl_level_floor ?g = floor" by (simp add: file_row_def output_file_def Let_def)
  assume "due up opts now ?g"
  then consider (raw) "keepRaw opts now kept" "rt_drop_raw_after ?p \<noteq> 0" "fl_max_ts ?g * 1000 < now - rt_drop_raw_after ?p"
    | (level) "rt_downsample_after ?p \<noteq> 0" "rt_min_level_after ?p \<noteq> []" "fl_max_ts ?g * 1000 < now - rt_downsample_after ?p"
        "floor = [] \<or> Rank up floor < Rank up (rt_min_level_after ?p)"
    by (auto simp: due_def Let_def has_raw promise split: if_splits)
  then show False
  proof cases
    case raw
    then obtain r where "r \<in> set kept" "r_ts r > now - rt_drop_raw_after ?p"
      by (auto simp: keepRaw_def list_ex_iff split: if_splits)
    with max raw(3) show False by fastforce
  next
    case level
    with applyRetention_spec(4) [OF ret] have "floor = []" by auto
    with applyRetention_spec(5) [OF ret] level(1,2) obtain r where "r \<in> set kept" "r_ts r > now - rt_downsample_after ?p"
      by blast
    with max level(3) show False by fastforce
  qed
qed

lemma merge_new_file:
  assumes inv: "comp_inv cs" and reads: "whole_reads io"
    and files: "set files \<subseteq> set (live (fst cs))" "\<forall>f\<in>set files. fl_stream f = sn"
    and run: "merge pq up opts io sn files level cs res = (e, cs', res')"
    and g: "g \<in> set (live (fst cs'))" "g \<notin> set (live (fst cs))"
  shows "\<not> due up opts (ci_now io) g"
proof -
  define inputs where "inputs = (if int (length files) > co_max_input_files opts
    then take (nat (co_max_input_files opts)) files else files)"
  from inv have cinv: "cat_inv (fst cs)" by (simp add: comp_inv_def)
  from run g obtain records ids volume where inp: "read_inputs opts io (snd cs) inputs 0 = Some (records, ids, volume)"
    by (cases "read_inputs opts io (snd cs) inputs 0") (auto simp: merge_def simp flip: inputs_def)
  from read_inputs_spec [OF reads inp] obtain k where
    ids: "ids = map fl_id (take k inputs)"
    and records: "records = concat (map (file_records (snd cs)) (take k inputs))" by blast
  define used where "used = take k inputs"
  have "set used \<subseteq> set files" unfolding used_def inputs_def by (auto dest: in_set_takeD)
  with files have used: "set used \<subseteq> set (live (fst cs))" "\<forall>f\<in>set used. fl_stream f = sn" by auto
  have held: "r_stream r = sn \<and> r_ts r mod 1000 = 0" if "r \<in> set records" for r
    using inv used that by (fastforce simp: records comp_inv_def holds_def file_records_def simp flip: used_def)
  obtain kept floor where ret: "applyRetention up (co_retention opts) (ci_now io) records = (kept, floor)" by fastforce
  note run = run [unfolded merge_def, folded inputs_def, unfolded Let_def inp option.case prod.case ret]
  have ids': "ids = map fl_id used" by (simp add: ids used_def)
  have ids_ne: "ids \<noteq> []" using run g by (auto split: if_splits)
  have ne: "kept \<noteq> []"
  proof
    assume k: "kept = []"
    obtain r cat1 where rep: "replace_files (ci_replace io ids) (ci_now io div 1000) [] (map fl_id used) (fst cs) = (r, cat1)"
      by fastforce
    from replace_nothing [OF cinv used(1) this] run ids_ne k rep g show False
      by (cases r) (auto simp: ids')
  qed
  let ?wo = "\<lparr>wo_keep_raw = keepRaw opts (ci_now io) kept, wo_sort_by = sortColumns level (co_cluster_by opts)\<rparr>"
  let ?rs = "po_order pq ?wo kept"
  have rs: "?rs \<noteq> []" "\<forall>r\<in>set ?rs. r_stream r = sn"
    using ne order_ne held applyRetention_spec(1) [OF ret] by auto
  let ?name = "merge_name sn level inputs ids (hd ?rs)"
  obtain e1 cs1 where pub: "publish_merge pq io ?wo sn ?name level floor ?rs (map fl_id used) cs = (e1, cs1)"
    by (rule prod.exhaust)
  note spec = publish_merge_spec [OF inv rs used(1) this]
  have c': "cs' = cs1" using run ids_ne ne pub by (cases e1) (auto simp: ids')
  have "\<exists>i. g = file_row (ci_now io div 1000) i (output_file pq ?wo sn ?name level floor ?rs)"
  proof (cases e1)
    case (Some err)
    with spec g show ?thesis by (simp add: c' same_live_def)
  next
    case None
    with spec g show ?thesis by (auto simp: c')
  qed
  moreover have "\<forall>r\<in>set records. r_ts r mod 1000 = 0" using held by blast
  ultimately show ?thesis using output_settled [OF ret ne, of ?wo] by auto
qed

end

section \<open>A pass\<close>

context parquet_file
begin

lemma RunOnce_spec:
  assumes inv: "comp_inv cs" and reads: "whole_reads io" and run: "RunOnce pq up opts io cs = (es, cs', res)"
  shows "comp_inv cs' \<and> (\<exists>D E. live_keys cs = live_keys cs' + D + E \<and>
    (\<forall>k\<in>#D. discarded_key up (co_retention opts) (ci_now io) k) \<and>
    (\<forall>k\<in>#E. expired_key (co_retention opts) (ci_now io) k) \<and> cr_dropped res = int (size D))"
proof -
  let ?lost = "discarded_key up (co_retention opts) (ci_now io)"
  obtain e0 n cat where x: "expire opts io (fst cs) = (e0, n, cat)" by (rule prod_cases3)
  obtain e1 cs1 r1 where a: "mergeLevel pq up opts io 0 (cat, snd cs) (no_result\<lparr>cr_expired := n\<rparr>) = (e1, cs1, r1)"
    by (rule prod_cases3)
  obtain e2 cs2 r2 where b: "mergeLevel pq up opts io 1 cs1 r1 = (e2, cs2, r2)" by (rule prod_cases3)
  obtain e3 cs3 r3 where c: "rewriteLevel pq up opts io 2 cs2 r2 = (e3, cs3, r3)" by (rule prod_cases3)
  from run have r: "cs' = cs3" "res = r3" unfolding RunOnce_def x a b c prod.case by simp_all
  from expire_spec [OF inv x] obtain E where
    E: "comp_inv (cat, snd cs)" "live_keys cs = live_keys (cat, snd cs) + E"
      "\<forall>k\<in>#E. expired_key (co_retention opts) (ci_now io) k"
    unfolding step_ok_def by blast
  from mergeLevel_spec [OF E(1) reads a] have s1: "step_ok ?lost UNIV (cat, snd cs) cs1 (cr_dropped r1)"
    by (simp add: no_result_def)
  then have "comp_inv cs1" by (simp add: step_ok_def)
  note s2 = conjunct1 [OF mergeLevel_spec [OF this reads b]]
  then have "comp_inv cs2" by (simp add: step_ok_def)
  note s3 = conjunct1 [OF rewriteLevel_spec [OF this reads c]]
  have "step_ok ?lost UNIV (cat, snd cs) cs3 (cr_dropped r3)"
    using step_ok_trans [OF step_ok_trans [OF s1 s2] s3] by simp
  then obtain D where D: "comp_inv cs3" "live_keys (cat, snd cs) = live_keys cs3 + D" "\<forall>k\<in>#D. ?lost k"
    "cr_dropped r3 = int (size D)"
    unfolding step_ok_def by blast
  have "live_keys cs = live_keys cs3 + D + E" using E(2) D(2) by simp
  with E(3) D r show ?thesis by blast
qed

text \<open>A merge whose calls succeed.\<close>

lemma read_inputs_total:
  assumes "\<forall>i. ci_read io i = ReadWhole" "\<forall>f\<in>set fs. holds objs f"
  shows "\<exists>rs ids b. read_inputs opts io objs fs rows = Some (rs, ids, b)"
  using assms(2)
proof (induction fs arbitrary: rows)
  case (Cons f fs)
  from Cons.prems obtain all where o: "open_object (fl_path f) objs = Some all" by (auto simp: holds_def)
  from Cons obtain rs ids b where "read_inputs opts io objs fs (rows + fl_rows f) = Some (rs, ids, b)" by fastforce
  with o assms(1) show ?case by simp
qed simp

lemma read_inputs_first:
  assumes "read_inputs opts io objs (f # fs) 0 = Some (rs, ids, b)" "co_max_input_rows opts \<ge> 0"
  shows "\<exists>ids'. ids = fl_id f # ids'"
  using assms by (auto simp: Let_def split: if_splits option.splits)

lemma publish_merge_succeeds:
  assumes rs: "rs \<noteq> []" and io: "ci_intend io name" "ci_put io name = Some CommitOk" "ci_replace io ids"
    and pub: "publish_merge pq io wo sn name level floor rs ids cs = (e, cs')"
  shows "e = None \<or> e = Some (NameTaken name)"
proof -
  obtain cat objs where cs: "cs = (cat, objs)" by fastforce
  let ?t = "ci_now io div 1000" and ?cat = "fold (intend_row (ci_now io div 1000)) [name] (fst cs)"
  have at: "file_at p ?cat = file_at p cat" for p by (simp add: file_at_def intend_row_def cs)
  show ?thesis
  proof (cases "file_at name cat = None")
    case False
    with pub io show ?thesis by (auto simp: publish_merge_def intend_def cs)
  next
    case True
    obtain b objs1 where put: "put_object (ci_put io name) name (po_contents pq wo rs) (ci_now io) objs = (b, objs1)"
      by fastforce
    from put_object_get [OF put] io have b by simp
    let ?f = "output_file pq wo sn name level floor rs" and ?cols = "st_columns (po_stats pq wo rs)"
    have f: "fl_path ?f = name" by (simp add: output_file_def Let_def)
    have "\<exists>i c'. insertFileTx ?t ?f ?cols False ?cat = Inr (i, False, c')"
      using True at [of name] stats_columns [OF rs] by (simp add: insertFileTx_def f file_at_def)
    then obtain i c' where "insertFileTx ?t ?f ?cols False ?cat = Inr (i, False, c')" by blast
    then have "replace_files True ?t [(?f, ?cols)] ids ?cat = (Inr [i], retireTx ?t ids c')"
      by (simp add: replace_files_def)
    with pub io put \<open>b\<close> True show ?thesis by (simp add: publish_merge_def intend_def cs)
  qed
qed

lemma merge_progress:
  assumes inv: "comp_inv cs" and io: "\<forall>i. ci_read io i = ReadWhole" "\<forall>n. ci_intend io n"
      "\<forall>n. ci_put io n = Some CommitOk" "\<forall>ids. ci_replace io ids"
    and opts: "co_max_input_files opts > 0" "co_max_input_rows opts \<ge> 0"
    and files: "f \<in> set (live (fst cs))" "set fs \<subseteq> set (live (fst cs))" "\<forall>h\<in>set (f # fs). fl_stream h = sn"
    and run: "merge pq up opts io sn (f # fs) level cs res = (e, cs', res')"
  shows "(\<exists>n. e = Some (NameTaken n)) \<or> e = None \<and> f \<notin> set (live (fst cs'))"
proof -
  define inputs where "inputs = (if int (length (f # fs)) > co_max_input_files opts
    then take (nat (co_max_input_files opts)) (f # fs) else f # fs)"
  have hd: "\<exists>hs. inputs = f # hs" using opts(1)
    by (cases "nat (co_max_input_files opts)") (simp_all add: inputs_def)
  have sub: "set inputs \<subseteq> set (f # fs)" unfolding inputs_def by (auto dest: in_set_takeD)
  from inv have cinv: "cat_inv (fst cs)" by (simp add: comp_inv_def)
  have reads: "whole_reads io" using io(1) by (simp add: whole_reads_def)
  have "\<forall>h\<in>set inputs. holds (snd cs) h" using sub files inv by (auto simp: comp_inv_def)
  from read_inputs_total [OF io(1) this] obtain records ids volume where
    inp: "read_inputs opts io (snd cs) inputs 0 = Some (records, ids, volume)" by blast
  from read_inputs_spec [OF reads inp] obtain k where
    ids: "ids = map fl_id (take k inputs)"
    and records: "records = concat (map (file_records (snd cs)) (take k inputs))" by blast
  define used where "used = take k inputs"
  have "ids \<noteq> []" and used_f: "f \<in> set used"
    using hd inp read_inputs_first opts(2) ids by (fastforce simp: used_def take_Cons' split: if_splits)+
  have "set used \<subseteq> set (f # fs)" using sub unfolding used_def by (auto dest: in_set_takeD)
  with files have used: "set used \<subseteq> set (live (fst cs))" "\<forall>f\<in>set used. fl_stream f = sn" by auto
  have stream: "\<forall>r\<in>set records. r_stream r = sn"
    using inv used by (fastforce simp: records comp_inv_def holds_def file_records_def simp flip: used_def)
  obtain kept floor where ret: "applyRetention up (co_retention opts) (ci_now io) records = (kept, floor)" by fastforce
  note run = run [unfolded merge_def, folded inputs_def, unfolded Let_def inp option.case prod.case ret]
  have ids': "ids = map fl_id used" by (simp add: ids used_def)
  show ?thesis
  proof (cases "kept = []")
    case True
    obtain r cat1 where rep: "replace_files (ci_replace io ids) (ci_now io div 1000) [] (map fl_id used) (fst cs) = (r, cat1)"
      by fastforce
    then have "\<exists>v. r = Inr v" using io(4) by (auto simp: replace_files_def)
    with replace_nothing [OF cinv used(1) rep] run \<open>ids \<noteq> []\<close> True rep used_f show ?thesis
      by (auto simp: ids')
  next
    case ne: False
    let ?wo = "\<lparr>wo_keep_raw = keepRaw opts (ci_now io) kept, wo_sort_by = sortColumns level (co_cluster_by opts)\<rparr>"
    let ?rs = "po_order pq ?wo kept"
    have rs: "?rs \<noteq> []" "\<forall>r\<in>set ?rs. r_stream r = sn"
      using ne order_ne stream applyRetention_spec(1) [OF ret] by auto
    let ?name = "merge_name sn level inputs ids (hd ?rs)"
    obtain e1 cs1 where pub: "publish_merge pq io ?wo sn ?name level floor ?rs (map fl_id used) cs = (e1, cs1)"
      by (rule prod.exhaust)
    have e1: "e1 = None \<or> e1 = Some (NameTaken ?name)"
      by (rule publish_merge_succeeds [OF rs(1) _ _ _ pub]) (use io in auto)
    show ?thesis
    proof (cases e1)
      case (Some err)
      with e1 run ne pub \<open>ids \<noteq> []\<close> show ?thesis by (auto simp: ids')
    next
      case None
      with publish_merge_spec [OF inv rs used(1) pub] used_f files(1) have "f \<notin> set (live (fst cs1))" by auto
      with None run ne pub \<open>ids \<noteq> []\<close> show ?thesis by (auto simp: ids')
    qed
  qed
qed

end

end
