(* ===== verification/CompactClaims.thy ===== *)
theory CompactClaims
  imports CompactSafety
begin

text \<open>
  The properties of compaction, over the files \<open>go_parquet\<close> writes and reads: for any behaviour
  of the floating point and JSON library and any object sizes.
\<close>

section \<open>One merge\<close>


definition demo_rec :: "nat \<Rightarrow> string \<Rightarrow> rec" where
  "demo_rec q level = empty_rec\<lparr>r_stream := ''web'', r_seq := q, r_ts := int q * 1000, r_level := level\<rparr>"

definition demo_state :: comp_state where
  "demo_state =
     (snd (register True 5 (demo_file ''b'' 2 1) [] (snd (register True 4 (demo_file ''a'' 1 1) [] empty_catalog))),
      \<lparr>o_objects = [(''a'', [demo_rec 1 ''INFO'']), (''b'', [demo_rec 2 ''DEBUG''])], o_temps = [], o_next = 0\<rparr>)"

definition demo_comp_opts :: "int \<Rightarrow> comp_opts" where
  "demo_comp_opts horizon = comp_defaults
     \<lparr>co_l1_min_files = 0, co_l1_after = 0, co_l2_after = 0, co_max_input_files = 0, co_max_input_rows = 0,
      co_cluster_by = [], co_retention = \<lparr>rt_delete_after = 0, rt_drop_raw_after = 0, rt_min_level_after = ''INFO'',
        rt_downsample_after = horizon\<rparr>, co_keep_raw = True\<rparr>"

definition demo_comp_io :: "(nat \<Rightarrow> read_outcome) \<Rightarrow> comp_io" where
  "demo_comp_io reads = \<lparr>ci_now = 1000000, ci_prune = (\<lambda>_. True), ci_tombstone = True, ci_read = reads,
     ci_intend = (\<lambda>_. True), ci_put = (\<lambda>_. Some CommitOk), ci_replace = (\<lambda>_. True)\<rparr>"


lemma demo_comp_inv: "comp_inv demo_state"
proof -
  have "cat_inv (fst demo_state)"
    unfolding demo_state_def fst_conv
    by (rule register_inv [OF register_inv [OF empty_inv demo_new prod.collapse [symmetric]] demo_new prod.collapse [symmetric]])
      simp_all
  moreover have "\<forall>f\<in>set (live (fst demo_state)). holds (snd demo_state) f"
    by (simp add: demo_state_def live_def holds_def open_object_def demo_rec_def demo_file_def empty_rec_def
        register_def insertFileTx_def file_at_def insert_rows_def file_row_def empty_catalog_def Let_def)
  ultimately show ?thesis by (simp add: comp_inv_def)
qed

lemma demo_live: "\<forall>f\<in>set (live (fst demo_state)). fl_stream f = ''web''" "map fl_path (live (fst demo_state)) = [''a'', ''b'']"
  by (simp_all add: demo_state_def live_def demo_file_def register_def insertFileTx_def file_at_def insert_rows_def
      file_row_def empty_catalog_def Let_def)

lemma demo_reads: "whole_reads (demo_comp_io (\<lambda>_. ReadWhole))"
  by (simp add: whole_reads_def demo_comp_io_def)

lemma demo_keeps_all: "\<not> discarded_key up (co_retention (demo_comp_opts 0)) now k"
  "\<not> expired_key (co_retention (demo_comp_opts 0)) now k"
  by (auto simp: discarded_key_def expired_key_def demo_comp_opts_def comp_defaults_def)


text \<open>
  What one merge writes, the policies have nothing left to do to at that time: the output
  keeps no original lines, or some that are recent enough, and promises the level floor, or holds
  a recent record.  So a rewrite is not repeated by the pass after it.
\<close>

theorem merge_output_settled:
  assumes "comp_inv cs" "whole_reads io" "set files \<subseteq> set (live (fst cs))" "\<forall>f\<in>set files. fl_stream f = sn"
    "merge (go_parquet lib volume) up opts io sn files level cs res = (e, cs', res')"
    "g \<in> set (live (fst cs'))" "g \<notin> set (live (fst cs))"
  shows "\<not> due up opts (ci_now io) g"
  by (rule go_file.merge_new_file [OF assms])

theorem merge_output_settled_witness:
  "case merge (go_parquet demo_lib length) id (demo_comp_opts 10) (demo_comp_io (\<lambda>_. ReadWhole)) ''web''
     (live (fst demo_state)) 1 demo_state no_result of
     (_, cs', _) \<Rightarrow> \<forall>g\<in>set (live (fst cs')) - set (live (fst demo_state)). \<not> due id (demo_comp_opts 10) 1000000 g"
proof -
  obtain e cs' res where m: "merge (go_parquet demo_lib length) id (demo_comp_opts 10) (demo_comp_io (\<lambda>_. ReadWhole)) ''web''
     (live (fst demo_state)) 1 demo_state no_result = (e, cs', res)" by (rule prod_cases3)
  have now: "ci_now (demo_comp_io (\<lambda>_. ReadWhole)) = 1000000" by (simp add: demo_comp_io_def)
  show ?thesis
    using merge_output_settled [OF demo_comp_inv demo_reads order.refl demo_live(1) m] unfolding m prod.case now by blast
qed

text \<open>
  when the calls of a merge succeed, the first of its files is retired, so a group that keeps
  being chosen shrinks at every pass however many files it has; the one error left is that the
  name of the output is taken by a registered file.
\<close>

theorem merge_retires_inputs:
  assumes "comp_inv cs" "\<forall>i. ci_read io i = ReadWhole" "\<forall>n. ci_intend io n" "\<forall>n. ci_put io n = Some CommitOk"
    "\<forall>ids. ci_replace io ids" "co_max_input_files opts > 0" "co_max_input_rows opts \<ge> 0"
    "f \<in> set (live (fst cs))" "set fs \<subseteq> set (live (fst cs))" "\<forall>h\<in>set (f # fs). fl_stream h = sn"
    "merge (go_parquet lib volume) up opts io sn (f # fs) level cs res = (e, cs', res')"
  shows "(\<exists>n. e = Some (NameTaken n)) \<or> e = None \<and> f \<notin> set (live (fst cs'))"
  by (rule go_file.merge_progress [OF assms])

theorem merge_retires_inputs_witness:
  "case merge (go_parquet demo_lib length) id (demo_comp_opts 0) (demo_comp_io (\<lambda>_. ReadWhole)) ''web''
     (live (fst demo_state)) 1 demo_state no_result of
     (e, cs', _) \<Rightarrow> e \<noteq> None \<or> hd (live (fst demo_state)) \<notin> set (live (fst cs'))"
proof -
  obtain f fs where l: "live (fst demo_state) = f # fs" using demo_live(2) by (cases "live (fst demo_state)") auto
  obtain e cs' res where m: "merge (go_parquet demo_lib length) id (demo_comp_opts 0) (demo_comp_io (\<lambda>_. ReadWhole)) ''web''
     (f # fs) 1 demo_state no_result = (e, cs', res)" by (rule prod_cases3)
  have "f \<in> set (live (fst demo_state))" "set fs \<subseteq> set (live (fst demo_state))" unfolding l by auto
  note r = merge_retires_inputs [OF demo_comp_inv _ _ _ _ _ _ this demo_live(1) [unfolded l] m]
  have "(\<exists>n. e = Some (NameTaken n)) \<or> e = None \<and> f \<notin> set (live (fst cs'))"
    by (rule r) (simp_all add: demo_comp_io_def demo_comp_opts_def comp_defaults_def)
  then show ?thesis unfolding l m prod.case list.sel by auto
qed

section \<open>A pass\<close>



section \<open>A read that stops short\<close>

text \<open>
  C28: a read that fails before its first row, which \<open>ReadWith\<close> reports as an empty file, makes
  the merge retire that file as downsampled away: no error, nothing counted as dropped, and its
  records are in no live file any more.
\<close>

theorem short_read_loses:
  assumes "comp_inv cs" "f \<in> set (live (fst cs))" "ci_read io (fl_id f) = ReadStops 0" "\<forall>ids. ci_replace io ids"
    "co_max_input_files opts > 0" "co_max_input_rows opts \<ge> 0"
    "merge (go_parquet lib volume) up opts io (fl_stream f) [f] level cs res = (e, cs', res')"
  shows "e = None \<and> cr_dropped res' = cr_dropped res \<and> file_records (snd cs) f \<noteq> [] \<and>
    live_keys cs = live_keys cs' + rkeys (file_records (snd cs) f)"
proof -
  from assms(1,2) have inv: "cat_inv (fst cs)" and h: "holds (snd cs) f" by (auto simp: comp_inv_def)
  then have ne: "file_records (snd cs) f \<noteq> []" by (auto simp: holds_def file_records_def)
  have inp: "read_inputs opts io (snd cs) [f] 0 = Some ([], [fl_id f], fl_bytes f)"
    using h assms(3,6) by (auto simp: holds_def Let_def)
  obtain kept floor where a: "applyRetention up (co_retention opts) (ci_now io) [] = (kept, floor)"
    by (rule prod.exhaust)
  from applyRetention_spec(1) [OF this] have "kept = []" by simp
  note ret = a [unfolded this]
  have sel: "(if int (length [f]) > co_max_input_files opts then take (nat (co_max_input_files opts)) [f] else [f]) = [f]"
    using assms(5) by simp
  obtain r cat where rep: "replace_files (ci_replace io [fl_id f]) (ci_now io div 1000) [] (map fl_id [f]) (fst cs) = (r, cat)"
    by fastforce
  then obtain v where r: "r = Inr v" using assms(4) by (auto simp: replace_files_def)
  have run: "e = None" "cs' = (cat, snd cs)" "cr_dropped res' = cr_dropped res"
    using assms(7) rep unfolding merge_def Let_def sel inp option.case prod.case ret
    by (auto simp: r merged_result_def)
  from replace_nothing [OF inv _ rep] assms(2) r have
    l: "live cat = filter (\<lambda>g. fl_id g \<notin> fl_id ` set [f]) (live (fst cs)) @ []" and cinv: "cat_inv cat" by auto
  have "set [f] \<subseteq> set (live (fst cs))" using assms(2) by simp
  from live_split [OF inv this] have m: "mset (live (fst cs)) = mset (live cat) + {#f#}"
    unfolding l append_Nil2 by simp
  have "live_keys cs = live_keys cs' + rkeys (file_records (snd cs) f)"
    unfolding live_keys_def m run(2) fst_conv snd_conv image_mset_union sum_mset.union by simp
  with run ne show ?thesis by blast
qed

theorem short_read_loses_witness:
  "case merge (go_parquet demo_lib length) id (demo_comp_opts 0) (demo_comp_io (\<lambda>_. ReadStops 0)) ''web''
     [hd (live (fst demo_state))] 1 demo_state no_result of
     (e, cs', res) \<Rightarrow> e = None \<and> cr_dropped res = 0 \<and> live_keys cs' \<noteq> live_keys demo_state"
proof -
  let ?f = "hd (live (fst demo_state))"
  have f: "?f \<in> set (live (fst demo_state))" using demo_live(2) by (intro hd_in_set) auto
  with demo_live(1) have s: "fl_stream ?f = ''web''" by blast
  obtain e cs' res where m: "merge (go_parquet demo_lib length) id (demo_comp_opts 0) (demo_comp_io (\<lambda>_. ReadStops 0)) (fl_stream ?f)
     [?f] 1 demo_state no_result = (e, cs', res)" by (rule prod_cases3)
  have "e = None \<and> cr_dropped res = cr_dropped no_result \<and> file_records (snd demo_state) ?f \<noteq> [] \<and>
      live_keys demo_state = live_keys cs' + rkeys (file_records (snd demo_state) ?f)"
    by (rule short_read_loses [OF demo_comp_inv f _ _ _ _ m])
      (simp_all add: demo_comp_io_def demo_comp_opts_def comp_defaults_def)
  then show ?thesis unfolding m [unfolded s] prod.case by (auto simp: no_result_def)
qed

end
