(* ===== verification/DurableBacklog.thy ===== *)
theory DurableBacklog
  imports DurableSystem ParquetRead
begin

text \<open>
  The history a restarted store shows: \<open>newest\<close> and \<open>loadBacklog\<close> of
  \<open>src/internal/logstore/durable.go\<close>, with \<open>Streams\<close> of the catalog.
\<close>

section \<open>Reading back the newest records of a stream\<close>

definition Streams :: "catalog \<Rightarrow> (string \<times> stream_row) list" where
  "Streams c = sort_key (\<lambda>(_, r). - sr_last_seen r) (c_streams c)"

text \<open>The loop over the files; \<open>reads\<close> is whether the columns and the object of a file can be read.\<close>

fun newest_walk ::
  "nat \<Rightarrow> (nat \<Rightarrow> bool) \<Rightarrow> rec list local_store \<Rightarrow> cat_file list \<Rightarrow> rec list \<Rightarrow> rec list option"
where
  "newest_walk n reads objs [] rs = Some rs"
| "newest_walk n reads objs (f # fs) rs =
     (if n \<le> length rs \<and> fl_max_seq f < r_seq (hd rs) then Some rs
      else if \<not> reads (fl_id f) then None
      else case open_object (fl_path f) objs of
        None \<Rightarrow> None
      | Some all \<Rightarrow> newest_walk n reads objs fs (trim_newest n (rs @ read_chunks n [all] [])))"

definition newest_order :: "cat_file list \<Rightarrow> cat_file list" where
  "newest_order fs = sort_key (\<lambda>f. - int (fl_max_seq f)) (sort_key fl_level fs)"

definition stream_query :: "string \<Rightarrow> cat_query" where
  "stream_query s = \<lparr>q_stream = s, q_from = None, q_to = None, q_require_key = [], q_levels = [], q_limit = 0\<rparr>"

definition newest ::
  "(nat \<Rightarrow> bool) \<Rightarrow> bool \<Rightarrow> string \<Rightarrow> durable \<Rightarrow> rec list option" where
  "newest reads pruned s d =
     (if \<not> pruned then None
      else newest_walk (nat (o_backlog (d_opts d))) reads (d_objects d)
             (newest_order (prune (stream_query s) (d_cat d))) [])"

text \<open>Loading: an error leaves what was loaded before it.\<close>

fun load_streams :: "(nat \<Rightarrow> bool) \<Rightarrow> (string \<Rightarrow> bool) \<Rightarrow> string list \<Rightarrow> durable \<Rightarrow> bool \<times> durable" where
  "load_streams reads pruned [] d = (True, d)"
| "load_streams reads pruned (s # ss) d =
     (case newest reads (pruned s) s d of
        None \<Rightarrow> (False, d)
      | Some rs \<Rightarrow>
          (if rs = [] then load_streams reads pruned ss d
           else
             (let known = (map_of (d_streams d) s \<noteq> None);
                  g = (case map_of (d_streams d) s of None \<Rightarrow> new_ring (nat (o_backlog (d_opts d))) | Some g \<Rightarrow> g)
              in load_streams reads pruned ss
                   (d\<lparr>d_order := (if known then d_order d else d_order d @ [s]),
                      d_streams := AList.update s (fold ring_push rs g) (d_streams d)\<rparr>))))"

definition loadBacklog :: "(nat \<Rightarrow> bool) \<Rightarrow> (string \<Rightarrow> bool) \<Rightarrow> bool \<Rightarrow> durable \<Rightarrow> bool \<times> durable" where
  "loadBacklog reads pruned listed d =
     (if \<not> listed then (False, d) else load_streams reads pruned (map fst (Streams (d_cat d))) d)"

section \<open>The walk is exact\<close>

lemma sort_key_mset_inj:
  assumes "mset xs = mset ys" "inj_on f (set xs)"
  shows "sort_key f xs = sort_key f ys"
  by (rule sort_key_inj_key_eq) (use assms in auto)

lemma newest_stops:
  fixes f :: "'a \<Rightarrow> nat"
  assumes rs: "rs = last_n n (sort_key f seen)" "n \<le> length rs" "0 < n"
    and old: "\<forall>y\<in>set late. f y < f (hd rs)" and inj: "inj_on f (set (seen @ late))"
  shows "last_n n (sort_key f (seen @ late)) = rs"
proof -
  have ne: "rs \<noteq> []" using rs(2,3) by auto
  have "sorted (map f rs)" unfolding rs(1) last_n_def by (simp add: drop_map [symmetric] sorted_wrt_drop)
  then have hd: "\<forall>y\<in>set rs. f (hd rs) \<le> f y" using ne by (cases rs) auto
  have "n \<le> length (filter (\<lambda>y. f d \<le> f y) seen)" if "d \<in> set late" for d
  proof -
    have "filter (\<lambda>y. f d \<le> f y) rs = rs" using hd old that by (fastforce intro: filter_True)
    moreover have "length (filter (\<lambda>y. f d \<le> f y) rs) \<le> length (filter (\<lambda>y. f d \<le> f y) (sort_key f seen))"
    proof -
      have "sort_key f seen = take (length (sort_key f seen) - n) (sort_key f seen) @ rs" by (simp add: rs(1) last_n_def)
      then have "filter P (sort_key f seen) = filter P (take (length (sort_key f seen) - n) (sort_key f seen)) @ filter P rs" for P
        by (metis filter_append)
      then show ?thesis by simp
    qed
    ultimately show ?thesis using rs(2) by (simp add: filter_sort)
  qed
  then have "last_n n (sort_key f (late @ seen)) = last_n n (sort_key f seen)"
    by (intro last_n_sort_drops) blast
  moreover have "sort_key f (late @ seen) = sort_key f (seen @ late)"
    by (rule sort_key_mset_inj) (use inj in \<open>auto simp: Un_commute\<close>)
  ultimately show ?thesis by (simp add: rs(1))
qed

lemma newest_walk_exact:
  assumes "0 < n" "rs = last_n n (sort_key r_seq seen)"
    "\<forall>f\<in>set fs. reads (fl_id f) \<and> open_object (fl_path f) objs = Some (file_records objs f) \<and>
       (\<forall>r\<in>set (file_records objs f). r_seq r \<le> fl_max_seq f)"
    "sorted_wrt (\<lambda>f g. fl_max_seq g \<le> fl_max_seq f) fs"
    "inj_on r_seq (set (seen @ concat (map (file_records objs) fs)))"
  shows "newest_walk n reads objs fs rs = Some (last_n n (sort_key r_seq (seen @ concat (map (file_records objs) fs))))"
  using assms(2-5)
proof (induction fs arbitrary: rs seen)
  case Nil
  then show ?case by simp
next
  case (Cons f fs)
  show ?case
  proof (cases "n \<le> length rs \<and> fl_max_seq f < r_seq (hd rs)")
    case True
    have "r_seq y < r_seq (hd rs)" if "y \<in> set (concat (map (file_records objs) (f # fs)))" for y
    proof -
      from that obtain g where g: "g \<in> set (f # fs)" "y \<in> set (file_records objs g)" by auto
      then have "r_seq y \<le> fl_max_seq g" using Cons.prems(2) by blast
      also have "\<dots> \<le> fl_max_seq f" using Cons.prems(3) g(1) by auto
      finally show ?thesis using True by simp
    qed
    then have "last_n n (sort_key r_seq (seen @ concat (map (file_records objs) (f # fs)))) = rs"
      using True assms(1) by (intro newest_stops [OF Cons.prems(1)] Cons.prems(4)) auto
    with True show ?thesis by simp
  next
    case False
    let ?batch = "file_records objs f"
    have "trim_newest n (rs @ read_chunks n [?batch] []) = last_n n (sort_key r_seq (rs @ last_n n (sort_key r_seq ?batch)))"
      by (simp add: trim_newest_eq read_chunks_newest [OF assms(1)] del: read_chunks.simps)
    also have "\<dots> = last_n n (sort_key r_seq (last_n n (sort_key r_seq ?batch) @ rs))"
    proof -
      have "set (rs @ last_n n (sort_key r_seq ?batch)) \<subseteq> set (seen @ concat (map (file_records objs) (f # fs)))"
        using set_last_n [of _ n] by (fastforce simp: Cons.prems(1))
      then show ?thesis
        by (intro arg_cong [of _ _ "last_n n"] sort_key_mset_inj inj_on_subset [OF Cons.prems(4)]) auto
    qed
    also have "\<dots> = last_n n (sort_key r_seq (?batch @ rs))" by (rule trim_keeps_newest)
    also have "\<dots> = last_n n (sort_key r_seq (rs @ ?batch))"
    proof -
      have "set (?batch @ rs) \<subseteq> set (seen @ concat (map (file_records objs) (f # fs)))"
        using set_last_n [of _ n] by (fastforce simp: Cons.prems(1))
      then show ?thesis
        by (intro arg_cong [of _ _ "last_n n"] sort_key_mset_inj inj_on_subset [OF Cons.prems(4)]) auto
    qed
    also have "\<dots> = last_n n (sort_key r_seq (seen @ ?batch))" unfolding Cons.prems(1) by (rule trim_keeps_newest)
    finally have step: "trim_newest n (rs @ read_chunks n [?batch] []) = last_n n (sort_key r_seq (seen @ ?batch))" .
    have "newest_walk n reads objs fs (trim_newest n (rs @ read_chunks n [?batch] [])) =
        Some (last_n n (sort_key r_seq ((seen @ ?batch) @ concat (map (file_records objs) fs))))"
      by (rule Cons.IH [OF step]) (use Cons.prems in auto)
    moreover have "newest_walk n reads objs (f # fs) rs = newest_walk n reads objs fs (trim_newest n (rs @ read_chunks n [?batch] []))"
      using False Cons.prems(2) by (auto simp del: read_chunks.simps)
    ultimately show ?thesis by simp
  qed
qed

section \<open>The restored backlog\<close>

lemma newest_order_sorted: "sorted_wrt (\<lambda>f g. fl_max_seq g \<le> fl_max_seq f) (newest_order fs)"
proof -
  have "sorted (map (\<lambda>f. - int (fl_max_seq f)) (newest_order fs))" by (simp add: newest_order_def)
  then show ?thesis by (simp add: sorted_map)
qed

lemma ring_pushes_hold: "ring_holds n g xs \<Longrightarrow> ring_holds n (fold ring_push ys g) (xs @ ys)"
proof (induction ys arbitrary: g xs)
  case (Cons y ys)
  from Cons.IH [OF ring_push_holds [OF Cons.prems]] show ?case by simp
qed simp

text \<open>
  What the walk relies on: the objects of the live files can be read, hold no record past the
  highest sequence number registered, and no two of the stream's records have the same number.
\<close>

definition stream_records :: "string \<Rightarrow> catalog \<Rightarrow> rec list local_store \<Rightarrow> rec list" where
  "stream_records s cat objs = concat (map (file_records objs) (filter (\<lambda>f. fl_stream f = s) (live cat)))"

definition readable :: "(nat \<Rightarrow> bool) \<Rightarrow> catalog \<Rightarrow> rec list local_store \<Rightarrow> bool" where
  "readable reads cat objs \<longleftrightarrow> (\<forall>f\<in>set (live cat). reads (fl_id f) \<and>
     open_object (fl_path f) objs = Some (file_records objs f) \<and>
     (\<forall>r\<in>set (file_records objs f). r_seq r \<le> fl_max_seq f)) \<and>
   (\<forall>s. inj_on r_seq (set (stream_records s cat objs)))"

lemma mset_concat_map: "mset (concat (map g xs)) = (\<Sum>x\<in>#mset xs. mset (g x))"
  by (induction xs) simp_all

lemma prune_stream_mset:
  assumes "s \<noteq> []"
  shows "mset (newest_order (prune (stream_query s) cat)) = mset (filter (\<lambda>f. fl_stream f = s) (live cat))"
proof -
  have "filter (prunes cat (stream_query s)) (c_files cat) = filter (\<lambda>f. fl_stream f = s) (live cat)"
    unfolding live_def filter_filter by (rule filter_cong) (use assms in \<open>auto simp: prunes_def stream_query_def\<close>)
  then show ?thesis by (simp add: newest_order_def prune_def stream_query_def Let_def)
qed

lemma newest_exact:
  assumes "0 < o_backlog (d_opts d)" "readable reads (d_cat d) (d_objects d)" "s \<noteq> []"
  shows "newest reads True s d =
    Some (last_n (nat (o_backlog (d_opts d))) (sort_key r_seq (stream_records s (d_cat d) (d_objects d))))"
proof -
  let ?fs = "newest_order (prune (stream_query s) (d_cat d))" and ?g = "file_records (d_objects d)"
  have m: "mset ?fs = mset (filter (\<lambda>f. fl_stream f = s) (live (d_cat d)))" by (rule prune_stream_mset [OF assms(3)])
  have live: "set ?fs \<subseteq> set (live (d_cat d))" using mset_eq_setD [OF m] by auto
  have recs: "mset (concat (map ?g ?fs)) = mset (stream_records s (d_cat d) (d_objects d))"
    unfolding stream_records_def mset_concat_map m ..
  have inj: "inj_on r_seq (set ([] @ concat (map ?g ?fs)))"
    using assms(2) mset_eq_setD [OF recs] by (simp add: readable_def)
  have "newest_walk (nat (o_backlog (d_opts d))) reads (d_objects d) ?fs [] =
      Some (last_n (nat (o_backlog (d_opts d))) (sort_key r_seq ([] @ concat (map ?g ?fs))))"
  proof (rule newest_walk_exact [OF _ _ _ newest_order_sorted inj])
    show "\<forall>f\<in>set ?fs. reads (fl_id f) \<and> open_object (fl_path f) (d_objects d) = Some (?g f) \<and>
        (\<forall>r\<in>set (?g f). r_seq r \<le> fl_max_seq f)"
      using assms(2) live unfolding readable_def by blast
  qed (use assms(1) in \<open>simp_all add: last_n_def\<close>)
  then show ?thesis
    unfolding append_Nil sort_key_mset_inj [OF recs inj [unfolded append_Nil]] by (simp add: newest_def)
qed

text \<open>The state a load leaves for the streams already visited.\<close>

definition stream_restored :: "durable \<Rightarrow> string set \<Rightarrow> rec ring option \<Rightarrow> string \<Rightarrow> bool" where
  "stream_restored d0 loaded g s \<longleftrightarrow>
     (case g of
        None \<Rightarrow> s \<notin> loaded \<or> stream_records s (d_cat d0) (d_objects d0) = []
      | Some g \<Rightarrow> s \<in> loaded \<and> ring_holds (nat (o_backlog (d_opts d0))) g
          (last_n (nat (o_backlog (d_opts d0))) (sort_key r_seq (stream_records s (d_cat d0) (d_objects d0)))))"

definition restored :: "durable \<Rightarrow> string set \<Rightarrow> durable \<Rightarrow> bool" where
  "restored d0 loaded d \<longleftrightarrow> d_opts d = d_opts d0 \<and> d_cat d = d_cat d0 \<and> d_objects d = d_objects d0 \<and>
     (\<forall>s. s \<noteq> [] \<longrightarrow> stream_restored d0 loaded (map_of (d_streams d) s) s)"

lemma stream_restored_other: "t \<noteq> s \<Longrightarrow> stream_restored d0 (insert s loaded) g t = stream_restored d0 loaded g t"
  by (simp add: stream_restored_def split: option.splits)

lemma load_streams_restores:
  assumes "0 < o_backlog (d_opts d0)" "readable reads (d_cat d0) (d_objects d0)" "\<forall>s. pruned s"
    "restored d0 loaded d" "distinct ss" "set ss \<inter> loaded = {}" "[] \<notin> set ss"
    "load_streams reads pruned ss d = (ok, d')"
  shows "ok \<and> restored d0 (loaded \<union> set ss) d'"
  using assms(4-8)
proof (induction ss arbitrary: loaded d)
  case Nil
  then show ?case by simp
next
  case (Cons s ss)
  let ?n = "nat (o_backlog (d_opts d0))" and ?all = "stream_records s (d_cat d0) (d_objects d0)"
  have same: "d_opts d = d_opts d0" "d_cat d = d_cat d0" "d_objects d = d_objects d0"
    using Cons.prems(1) by (simp_all add: restored_def)
  have s: "s \<noteq> []" "s \<notin> loaded" using Cons.prems by auto
  let ?rs = "last_n ?n (sort_key r_seq ?all)"
  have newest: "newest reads True s d = Some ?rs"
    using newest_exact [of d reads s] assms(1,2) s(1) by (simp add: same)
  have fresh: "map_of (d_streams d) s = None"
    using Cons.prems(1) s unfolding restored_def stream_restored_def
    by (cases "map_of (d_streams d) s") fastforce+
  have disj: "set ss \<inter> insert s loaded = {}" using Cons.prems(2,3) by auto
  have "length ?rs = min ?n (length ?all)" "0 < ?n" using assms(1) by simp_all
  then have rs_Nil: "?rs = [] \<longleftrightarrow> ?all = []" unfolding length_0_conv [symmetric] by linarith
  show ?case
  proof (cases "?rs = []")
    case True
    with Cons.prems(5) newest spec [OF assms(3), of s] have "load_streams reads pruned ss d = (ok, d')" by simp
    moreover have "restored d0 (insert s loaded) d"
      unfolding restored_def
    proof (intro conjI allI impI)
      fix t :: string assume "t \<noteq> []"
      then have "stream_restored d0 loaded (map_of (d_streams d) t) t" using Cons.prems(1) by (simp add: restored_def)
      moreover have "stream_restored d0 (insert s loaded) (map_of (d_streams d) s) s"
        using True rs_Nil fresh by (simp add: stream_restored_def)
      ultimately show "stream_restored d0 (insert s loaded) (map_of (d_streams d) t) t"
        using stream_restored_other [of t s d0 loaded] by (cases "t = s") simp_all
    qed (simp_all add: same)
    ultimately show ?thesis using Cons.IH [of "insert s loaded" d] Cons.prems(2,4) disj by simp
  next
    case False
    let ?d = "d\<lparr>d_order := d_order d @ [s], d_streams := AList.update s (fold ring_push ?rs (new_ring ?n)) (d_streams d)\<rparr>"
    have "load_streams reads pruned ss ?d = (ok, d')"
      using Cons.prems(5) False newest spec [OF assms(3), of s] fresh by (simp add: same)
    moreover have "restored d0 (insert s loaded) ?d"
    proof -
      have "ring_holds ?n (fold ring_push ?rs (new_ring ?n)) ?rs"
        using ring_pushes_hold [OF new_ring_holds, of ?n ?rs] assms(1) by simp
      then have mine: "stream_restored d0 (insert s loaded) (Some (fold ring_push ?rs (new_ring ?n))) s"
        by (simp add: stream_restored_def)
      show ?thesis unfolding restored_def
      proof (intro conjI allI impI)
        fix t :: string assume "t \<noteq> []"
        then have old: "stream_restored d0 loaded (map_of (d_streams d) t) t" using Cons.prems(1) by (simp add: restored_def)
        show "stream_restored d0 (insert s loaded) (map_of (d_streams ?d) t) t"
        proof (cases "t = s")
          case True
          with mine show ?thesis by (simp add: update_conv')
        next
          case False
          with old show ?thesis by (simp add: update_conv' stream_restored_other)
        qed
      qed (simp_all add: same)
    qed
    ultimately show ?thesis using Cons.IH [of "insert s loaded" ?d] Cons.prems(2,4) disj by simp
  qed
qed

text \<open>
  C29: the history a restarted store shows is exact.  When the catalog and the objects can be
  read, loading succeeds and the backlog of every stream is exactly its newest records by
  sequence number, of all its live files whatever their level and order, up to the ring's size:
  stopping the walk over the files early leaves out none.
\<close>

theorem restored_backlog_exact:
  assumes "0 < o_backlog (d_opts d)" "d_streams d = []" "distinct (map fst (c_streams (d_cat d)))"
    "[] \<notin> fst ` set (c_streams (d_cat d))" "cat_inv (d_cat d)" "readable reads (d_cat d) (d_objects d)"
    "loadBacklog reads (\<lambda>_. True) True d = (ok, d')" "s \<noteq> []"
  shows "ok \<and> durable_backlog s limit d' =
    (let n = nat (o_backlog (d_opts d))
     in last_n (if 0 < limit then min (nat limit) n else n)
          (sort_key r_seq (stream_records s (d_cat d) (d_objects d))))"
proof -
  let ?names = "map fst (Streams (d_cat d))" and ?n = "nat (o_backlog (d_opts d))"
  let ?all = "stream_records s (d_cat d) (d_objects d)"
  have set: "set ?names = fst ` set (c_streams (d_cat d))" by (simp add: Streams_def)
  have "distinct ?names" using assms(3) unfolding Streams_def
    by (metis mset_eq_imp_distinct_iff mset_map mset_sort)
  note names = this
  have start: "restored d {} d" unfolding restored_def by (simp add: assms(2) stream_restored_def)
  have run: "load_streams reads (\<lambda>_. True) ?names d = (ok, d')" using assms(7) by (simp add: loadBacklog_def)
  have "[] \<notin> set ?names" unfolding set by (rule assms(4))
  from load_streams_restores [OF assms(1,6) _ start names _ this run]
  have ok: "ok" and r: "restored d (set ?names) d'" by simp_all
  from r have opts: "d_opts d' = d_opts d" and st: "stream_restored d (set ?names) (map_of (d_streams d') s) s"
    using assms(8) by (simp_all add: restored_def)
  have unknown: "?all = []" if "s \<notin> set ?names"
  proof -
    have "map_of (c_streams (d_cat d)) s = None" using that unfolding set map_of_eq_None_iff .
    moreover have "rollup_ok (c_files (d_cat d)) s (map_of (c_streams (d_cat d)) s)"
      using assms(5) unfolding cat_inv_def by blast
    ultimately have "live_of s (c_files (d_cat d)) = []" by (simp add: rollup_ok_def)
    then have "filter (\<lambda>f. fl_stream f = s) (live (d_cat d)) = []"
      by (auto simp: live_of_def live_def filter_empty_conv)
    then show ?thesis by (simp add: stream_records_def)
  qed
  show ?thesis
  proof (cases "map_of (d_streams d') s")
    case None
    with st unknown have "?all = []" by (auto simp: stream_restored_def)
    with None ok assms(8) show ?thesis by (simp add: durable_backlog_def rings_backlog_def last_n_def Let_def)
  next
    case (Some g)
    with st have "ring_holds ?n g (last_n ?n (sort_key r_seq ?all))" by (simp add: stream_restored_def)
    from ring_slice_holds [OF this, of limit] Some ok assms(8) show ?thesis
      by (simp add: durable_backlog_def rings_backlog_def opts Let_def o_def min.assoc)
  qed
qed

definition demo_reload :: durable where
  "demo_reload = \<lparr>d_opts = \<lparr>o_backlog = 2, o_flush_rows = 1, o_flush_bytes = 1, o_flush_interval = 1, o_keep_raw = True,
       o_grace = 1, o_orphan_grace = 1\<rparr>,
     d_log = empty_alog, d_cat = demo_catalog,
     d_objects = \<lparr>o_objects = [(''a'', map (\<lambda>q. empty_rec\<lparr>r_stream := ''web'', r_seq := q\<rparr>) [4, 1, 5]),
       (''b'', [empty_rec\<lparr>r_stream := ''web'', r_seq := 7\<rparr>])], o_temps = [], o_next = 0\<rparr>,
     d_fanout = empty_fanout, d_seq = 10, d_order = [], d_streams = [], d_batch = [], d_rows = 0, d_bytes = 0,
     d_closed = False, d_unflushed = [], d_kicked = False, d_quiet = 0, d_backoff = 0\<rparr>"

theorem restored_backlog_exact_witness:
  "map r_seq (durable_backlog ''web'' 0 (snd (loadBacklog (\<lambda>_. True) (\<lambda>_. True) True demo_reload))) = [5, 7]"
proof -
  obtain ok d' where l: "loadBacklog (\<lambda>_. True) (\<lambda>_. True) True demo_reload = (ok, d')" by (rule prod.exhaust)
  have files: "map (\<lambda>f. (fl_path f, fl_stream f, fl_max_seq f)) (live demo_catalog) = [(''a'', ''web'', 5), (''b'', ''web'', 10)]"
    "map fst (c_streams demo_catalog) = [''web'']"
    by code_simp+
  have cat: "d_cat demo_reload = demo_catalog" by (simp add: demo_reload_def)
  have recs: "stream_records s demo_catalog (d_objects demo_reload) =
      (if s = ''web'' then map (\<lambda>q. empty_rec\<lparr>r_stream := ''web'', r_seq := q\<rparr>) [4, 1, 5, 7] else [])" for s
    using files(1) by (auto simp: stream_records_def file_records_def open_object_def demo_reload_def map_eq_Cons_conv)
  have read: "readable (\<lambda>_. True) demo_catalog (d_objects demo_reload)"
    unfolding readable_def recs using files(1)
    by (auto simp: file_records_def open_object_def demo_reload_def map_eq_Cons_conv empty_rec_def inj_on_def)
  have "ok \<and> durable_backlog ''web'' 0 d' =
    (let n = nat (o_backlog (d_opts demo_reload))
     in last_n (if 0 < (0::int) then min (nat 0) n else n) (sort_key r_seq (stream_records ''web'' demo_catalog (d_objects demo_reload))))"
    by (rule restored_backlog_exact [OF _ _ _ _ _ _ l, unfolded cat])
      (use files(2) reachable_inv [OF demo_cat_reachable] read in \<open>auto simp: demo_reload_def\<close>)
  moreover have "o_backlog (d_opts demo_reload) = 2" by (simp add: demo_reload_def)
  ultimately have "durable_backlog ''web'' 0 d' =
      last_n 2 (sort_key r_seq (map (\<lambda>q. empty_rec\<lparr>r_stream := ''web'', r_seq := q\<rparr>) [4, 1, 5, 7]))"
    by (simp add: recs)
  then show ?thesis unfolding l snd_conv by (simp add: last_n_def)
qed

end
