(* ===== verification/Rql.thy ===== *)
theory Rql
  imports RecordModel GoStrings
begin

text \<open>
  The filter language, \<open>src/internal/rql\<close>: its abstract syntax and the rendering of a query
  (\<open>ast.go\<close>), its lexer and its parser (\<open>parse.go\<close>).  The lexer works on \<open>[]rune(input)\<close>; the
  strings cut out of it are here their runes.  \<open>rql_lib\<close> has what the code calls on floats and on
  the case of runes beyond ASCII.  The parser's mutual recursion runs on fuel; \<open>RqlLex\<close> shows
  that \<open>Parse\<close> always has enough.
\<close>

type_synonym rtext = "nat list"

abbreviation rune_of :: "char \<Rightarrow> nat" where "rune_of \<equiv> of_char"

definition lit :: "string \<Rightarrow> rtext" where "lit s = map rune_of s"

record rql_lib =
  q_parse_float :: "rtext \<Rightarrow> float64 option"   \<comment> \<open>\<open>strconv.ParseFloat\<close>, where it returns no error\<close>
  q_show_float :: "float64 \<Rightarrow> rtext"           \<comment> \<open>\<open>fmt.Sprintf("%v", f)\<close>\<close>
  q_lower_rune :: "nat \<Rightarrow> nat"                 \<comment> \<open>\<open>unicode.ToLower\<close>\<close>

section \<open>Abstract syntax\<close>

datatype Op = OpEquals | OpContains | OpMatches | OpLess | OpLessEqual | OpGreater | OpGreaterEqual | OpExists

datatype lit_kind = LString | LNumber | LBool | LNull | LWildcard

record literal =
  l_kind :: lit_kind
  l_str :: rtext
  l_num :: float64
  l_bool :: bool
  l_quoted :: bool

datatype node = Comparison rtext Op literal | Txt rtext | Conj "node list" | Disj "node list" | Neg node

definition plain_literal :: "lit_kind \<Rightarrow> rtext \<Rightarrow> literal" where
  "plain_literal k s = \<lparr>l_kind = k, l_str = s, l_num = 0, l_bool = False, l_quoted = False\<rparr>"

fun op_string :: "Op \<Rightarrow> string" where
  "op_string OpContains = '':''"
| "op_string OpMatches = '':~''"
| "op_string OpLess = ''<''"
| "op_string OpLessEqual = ''<=''"
| "op_string OpGreater = ''>''"
| "op_string OpGreaterEqual = ''>=''"
| "op_string OpExists = ''=*''"
| "op_string OpEquals = ''=''"

section \<open>Rendering\<close>

definition escape_rune :: "nat \<Rightarrow> rtext" where
  "escape_rune r = (if r = 92 then [92, 92] else if r = 34 then [92, 34] else [r])"

definition quoted :: "rtext \<Rightarrow> rtext" where
  "quoted t = 34 # concat (map escape_rune t) @ [34]"

definition quoting_runes :: "nat set" where
  "quoting_runes = set (lit '' ()<>=:-'') \<union> {9, 34, 39}"

definition needsQuoting :: "rtext \<Rightarrow> bool" where
  "needsQuoting s \<longleftrightarrow> s = [] \<or> list_ex (\<lambda>r. r \<in> quoting_runes) s"

definition literal_text :: "rql_lib \<Rightarrow> literal \<Rightarrow> rtext" where
  "literal_text lib l =
     (case l_kind l of
        LNumber \<Rightarrow> q_show_float lib (l_num l)
      | LBool \<Rightarrow> lit (show_bool (l_bool l))
      | LNull \<Rightarrow> lit ''null''
      | LWildcard \<Rightarrow> lit ''*''
      | LString \<Rightarrow> (if l_quoted l \<or> needsQuoting (l_str l) then quoted (l_str l) else l_str l))"

definition is_keyword :: "rtext \<Rightarrow> bool" where
  "is_keyword t \<longleftrightarrow> t = lit ''AND'' \<or> t = lit ''OR'' \<or> t = lit ''NOT''"

fun is_simple :: "node \<Rightarrow> bool" where
  "is_simple (Comparison f p v) = True" | "is_simple (Txt v) = True" | "is_simple _ = False"

fun is_group :: "bool \<Rightarrow> node \<Rightarrow> bool" where
  "is_group inside_or (Disj cs) = True" | "is_group inside_or (Conj cs) = inside_or" | "is_group inside_or _ = False"

definition join :: "rtext \<Rightarrow> rtext list \<Rightarrow> rtext" where
  "join sep parts = concat (case parts of [] \<Rightarrow> [] | p # ps \<Rightarrow> p # map (\<lambda>q. sep @ q) ps)"

definition parens :: "bool \<Rightarrow> rtext \<Rightarrow> rtext" where
  "parens b t = (if b then 40 # t @ [41] else t)"

fun String :: "rql_lib \<Rightarrow> node \<Rightarrow> rtext" where
  "String lib (Comparison field p v) =
     (if p = OpExists then field @ lit ''=*'' else field @ lit (op_string p) @ literal_text lib v)"
| "String lib (Txt v) = (if needsQuoting v \<or> is_keyword v then quoted v else v)"
| "String lib (Neg n) =
     (if is_simple n then 45 # String lib n else lit ''NOT ('' @ String lib n @ [41])"
| "String lib (Conj cs) = join (lit '' '') (map (\<lambda>c. parens (is_group False c) (String lib c)) cs)"
| "String lib (Disj cs) = join (lit '' OR '') (map (\<lambda>c. parens (is_group True c) (String lib c)) cs)"

section \<open>The lexer\<close>

datatype rql_error = RqlError string nat

datatype token_kind = TokWord | TokString | TokLParen | TokRParen | TokEOF

record token =
  t_kind :: token_kind
  t_text :: rtext
  t_pos :: nat
  t_adjacent :: bool

fun prefix_at :: "rtext \<Rightarrow> rtext \<Rightarrow> nat option" where
  "prefix_at pat s = (if prefix pat s then Some 0
     else case s of [] \<Rightarrow> None | _ # s' \<Rightarrow> map_option Suc (prefix_at pat s'))"

declare prefix_at.simps [simp del]

definition operators :: "(rtext \<times> Op) list" where
  "operators = map (\<lambda>p. (lit (op_string p), p))
     [OpMatches, OpGreaterEqual, OpLessEqual, OpEquals, OpContains, OpGreater, OpLess]"

definition split_step :: "rtext \<Rightarrow> (nat \<times> Op \<times> nat) option \<Rightarrow> rtext \<times> Op \<Rightarrow> (nat \<times> Op \<times> nat) option" where
  "split_step chunk best = (\<lambda>(pat, p).
     (case prefix_at pat chunk of
        None \<Rightarrow> best
      | Some at \<Rightarrow>
          (case best of
             None \<Rightarrow> Some (at, p, length pat)
           | Some (b, _, n) \<Rightarrow> (if at < b \<or> at = b \<and> length pat > n then Some (at, p, length pat) else best))))"

definition splitOperator :: "rtext \<Rightarrow> (rtext \<times> Op \<times> rtext) option" where
  "splitOperator chunk =
     (case foldl (split_step chunk) None operators of
        None \<Rightarrow> None
      | Some (at, p, n) \<Rightarrow> Some (take at chunk, p, drop (at + n) chunk))"

definition opensQuote :: "rtext \<Rightarrow> bool" where
  "opensQuote chunk \<longleftrightarrow> chunk = lit ''-'' \<or> (case splitOperator chunk of None \<Rightarrow> False | Some (_, _, rest) \<Rightarrow> rest = [])"

text \<open>The text of a quoted string and what follows its closing quote.\<close>

fun lexQuoted :: "nat \<Rightarrow> rtext \<Rightarrow> rtext \<Rightarrow> (rtext \<times> rtext) option" where
  "lexQuoted q acc [] = None"
| "lexQuoted q acc (r # rs) =
     (if r = 92 then (case rs of [] \<Rightarrow> None | r' # rs' \<Rightarrow> lexQuoted q (acc @ [r']) rs')
      else if r = q then Some (acc, rs)
      else lexQuoted q (acc @ [r]) rs)"

fun lexWord :: "rtext \<Rightarrow> rtext \<Rightarrow> rtext \<times> rtext" where
  "lexWord chunk [] = (chunk, [])"
| "lexWord chunk (r # rs) =
     (if is_space r \<or> r = 40 \<or> r = 41 \<or> r = 34 \<or> (r = 39 \<and> opensQuote chunk) then (chunk, r # rs)
      else lexWord (chunk @ [r]) rs)"

lemma lexQuoted_shorter: "lexQuoted q acc rs = Some (t, rest) \<Longrightarrow> length rest < length rs"
proof (induction q acc rs rule: lexQuoted.induct)
  case (2 q acc r rs)
  show ?case
  proof (cases "r = 92")
    case True
    with "2.prems" obtain r' rs' where rs: "rs = r' # rs'" "lexQuoted q (acc @ [r']) rs' = Some (t, rest)"
      by (cases rs) auto
    with "2.IH"(1) [OF True rs(1)] show ?thesis by simp
  next
    case False
    with 2 show ?thesis by (cases "r = q") auto
  qed
qed simp

lemma lexWord_length: "length (snd (lexWord chunk rs)) \<le> length rs"
  by (induction chunk rs rule: lexWord.induct) (auto intro: le_SucI)

definition mk_token :: "token_kind \<Rightarrow> rtext \<Rightarrow> nat \<Rightarrow> bool \<Rightarrow> token" where
  "mk_token k text pos adj = \<lparr>t_kind = k, t_text = text, t_pos = pos, t_adjacent = adj\<rparr>"

definition then_lex :: "token \<Rightarrow> rql_error + token list \<Rightarrow> rql_error + token list" where
  "then_lex t r = (case r of Inl e \<Rightarrow> Inl e | Inr ts \<Rightarrow> Inr (t # ts))"

text \<open>The runes left from position \<open>pos\<close> on; \<open>space\<close> is whether white space came just before.\<close>

function lex :: "nat \<Rightarrow> bool \<Rightarrow> rtext \<Rightarrow> rql_error + token list" where
  "lex pos space [] = Inr [mk_token TokEOF [] pos False]"
| "lex pos space (r # rs) =
     (if is_space r then lex (pos + 1) True rs
      else if r = 40 then then_lex (mk_token TokLParen [] pos (\<not> space)) (lex (pos + 1) False rs)
      else if r = 41 then then_lex (mk_token TokRParen [] pos (\<not> space)) (lex (pos + 1) False rs)
      else if r = 34 \<or> r = 39 then
        (case lexQuoted r [] rs of
           None \<Rightarrow> Inl (RqlError ''unterminated quoted string'' pos)
         | Some (text, rest) \<Rightarrow>
             then_lex (mk_token TokString text pos (\<not> space)) (lex (pos + 1 + (length rs - length rest)) False rest))
      else
        then_lex (mk_token TokWord (fst (lexWord [r] rs)) pos (\<not> space))
          (lex (pos + length (fst (lexWord [r] rs))) False (snd (lexWord [r] rs))))"
  by pat_completeness auto
termination
  by (relation "measure (\<lambda>(_, _, rs). length rs)")
    (auto dest: lexQuoted_shorter simp: le_imp_less_Suc lexWord_length)

declare lex.simps(2) [simp del]

section \<open>The parser\<close>

text \<open>\<open>strings.ToLower\<close> of a text; on ASCII the library's table is fixed.\<close>

definition lower_rune :: "rql_lib \<Rightarrow> nat \<Rightarrow> nat" where
  "lower_rune lib r = (if 65 \<le> r \<and> r \<le> 90 then r + 32 else if r < 128 then r else q_lower_rune lib r)"

definition lower_text :: "rql_lib \<Rightarrow> rtext \<Rightarrow> rtext" where
  "lower_text lib t = map (lower_rune lib) t"

definition literalOf :: "rql_lib \<Rightarrow> rtext \<Rightarrow> literal" where
  "literalOf lib text =
     (let low = lower_text lib text
      in if low = lit ''true'' then (plain_literal LBool text)\<lparr>l_bool := True\<rparr>
         else if low = lit ''false'' then plain_literal LBool text
         else if low = lit ''null'' \<or> low = lit ''nil'' then plain_literal LNull text
         else case q_parse_float lib text of
           Some n \<Rightarrow> (if \<not> float_nonfinite n \<and> \<not> list_ex (\<lambda>r. r = 120 \<or> r = 88) text
                      then (plain_literal LNumber text)\<lparr>l_num := n\<rparr> else plain_literal LString text)
         | None \<Rightarrow> plain_literal LString text)"

definition keyword :: "token \<Rightarrow> string \<Rightarrow> bool" where
  "keyword t w \<longleftrightarrow> t_kind t = TokWord \<and> t_text t = lit w"

definition parseChunk :: "rql_lib \<Rightarrow> token \<Rightarrow> token list \<Rightarrow> rql_error + (node \<times> token list)" where
  "parseChunk lib t ts =
     (case splitOperator (t_text t) of
        None \<Rightarrow> Inr (Txt (t_text t), ts)
      | Some (field, p, rest) \<Rightarrow>
          (if field = [] then Inl (RqlError ''comparison with no field name'' (t_pos t))
           else if rest = [] then
             (case ts of
                t' # ts' \<Rightarrow> (if t_kind t' = TokString \<and> t_adjacent t'
                   then Inr (Comparison field p ((plain_literal LString (t_text t'))\<lparr>l_quoted := True\<rparr>), ts')
                   else Inl (RqlError ''no value after the operator'' (t_pos t)))
              | [] \<Rightarrow> Inl (RqlError ''no value after the operator'' (t_pos t)))
           else if rest = lit ''*'' then
             (if p \<noteq> OpEquals then Inl (RqlError ''* is only meaningful with ='' (t_pos t))
              else Inr (Comparison field OpExists (plain_literal LWildcard []), ts))
           else Inr (Comparison field p (literalOf lib rest), ts)))"

text \<open>A step of the parser: no fuel left, an error, or a result with the tokens after it.\<close>

definition pbind :: "(rql_error + ('a \<times> token list)) option \<Rightarrow> ('a \<Rightarrow> token list \<Rightarrow> (rql_error + ('b \<times> token list)) option)
    \<Rightarrow> (rql_error + ('b \<times> token list)) option" where
  "pbind m f = (case m of None \<Rightarrow> None | Some (Inl e) \<Rightarrow> Some (Inl e) | Some (Inr (x, ts)) \<Rightarrow> f x ts)"

definition at_end :: "token list \<Rightarrow> bool" where
  "at_end ts \<longleftrightarrow> t_kind (hd ts) = TokEOF"

definition conj_ends :: "token list \<Rightarrow> bool" where
  "conj_ends ts \<longleftrightarrow> at_end ts \<or> t_kind (hd ts) = TokRParen \<or> keyword (hd ts) ''OR''"

type_synonym parse_result = "(rql_error + (node \<times> token list)) option"

text \<open>
  Each method of the parser is one step; \<open>call\<close> runs the method a goal names, its loops are goals
  of their own.
\<close>

datatype goal = GoalOr | OrLoop node "node list" | GoalAnd | AndLoop node "node list" | GoalUnary | GoalPrimary

definition parseOr :: "(goal \<Rightarrow> token list \<Rightarrow> parse_result) \<Rightarrow> token list \<Rightarrow> parse_result" where
  "parseOr call ts = pbind (call GoalAnd ts) (\<lambda>left ts. call (OrLoop left []) ts)"

definition orLoop :: "(goal \<Rightarrow> token list \<Rightarrow> parse_result) \<Rightarrow> node \<Rightarrow> node list \<Rightarrow> token list \<Rightarrow> parse_result" where
  "orLoop call left cs ts =
     (if keyword (hd ts) ''OR''
      then pbind (call GoalAnd (tl ts)) (\<lambda>right ts. call (OrLoop left ((if cs = [] then [left] else cs) @ [right])) ts)
      else Some (Inr (if cs = [] then left else Disj cs, ts)))"

definition parseAnd :: "(goal \<Rightarrow> token list \<Rightarrow> parse_result) \<Rightarrow> token list \<Rightarrow> parse_result" where
  "parseAnd call ts = pbind (call GoalUnary ts) (\<lambda>first ts. call (AndLoop first [first]) ts)"

definition andLoop :: "(goal \<Rightarrow> token list \<Rightarrow> parse_result) \<Rightarrow> node \<Rightarrow> node list \<Rightarrow> token list \<Rightarrow> parse_result" where
  "andLoop call first cs ts =
     (if conj_ends ts then Some (Inr (if length cs = 1 then first else Conj cs, ts))
      else if keyword (hd ts) ''AND'' then
        (if at_end (tl ts) \<or> t_kind (hd (tl ts)) = TokRParen
         then Some (Inl (RqlError ''AND with nothing after it'' (t_pos (hd (tl ts)))))
         else pbind (call GoalUnary (tl ts)) (\<lambda>next ts. call (AndLoop first (cs @ [next])) ts))
      else pbind (call GoalUnary ts) (\<lambda>next ts. call (AndLoop first (cs @ [next])) ts))"

definition negate :: "node \<Rightarrow> token list \<Rightarrow> parse_result" where
  "negate child ts = Some (Inr (Neg child, ts))"

definition parseUnary :: "(goal \<Rightarrow> token list \<Rightarrow> parse_result) \<Rightarrow> token list \<Rightarrow> parse_result" where
  "parseUnary call ts =
     (let t = hd ts; rest = tl ts
      in if keyword t ''NOT'' then
           (if at_end rest then Some (Inl (RqlError ''NOT with nothing after it'' (t_pos t)))
            else pbind (call GoalUnary rest) negate)
         else if t_kind t = TokWord \<and> t_text t = lit ''-'' \<and> t_adjacent (hd rest) \<and>
                 (t_kind (hd rest) = TokString \<or> t_kind (hd rest) = TokLParen) then
           pbind (call GoalPrimary rest) negate
         else if t_kind t = TokWord \<and> prefix (lit ''-'') (t_text t) \<and> length (t_text t) > 1 then
           pbind (call GoalPrimary (t\<lparr>t_text := drop 1 (t_text t)\<rparr> # rest)) negate
         else call GoalPrimary ts)"

definition close_paren :: "node \<Rightarrow> token list \<Rightarrow> parse_result" where
  "close_paren inner ts =
     (if t_kind (hd ts) \<noteq> TokRParen
      then Some (Inl (RqlError ''missing closing parenthesis'' (t_pos (hd ts))))
      else Some (Inr (inner, tl ts)))"

definition parsePrimary :: "rql_lib \<Rightarrow> (goal \<Rightarrow> token list \<Rightarrow> parse_result) \<Rightarrow> token list \<Rightarrow> parse_result" where
  "parsePrimary lib call ts =
     (let t = hd ts; rest = tl ts
      in case t_kind t of
           TokLParen \<Rightarrow>
             (if t_kind (hd rest) = TokRParen then Some (Inl (RqlError ''empty parentheses'' (t_pos t)))
              else pbind (call GoalOr rest) close_paren)
         | TokRParen \<Rightarrow> Some (Inl (RqlError ''unexpected closing parenthesis'' (t_pos t)))
         | TokString \<Rightarrow> Some (Inr (Txt (t_text t), rest))
         | TokEOF \<Rightarrow> Some (Inl (RqlError ''unexpected end of query'' (t_pos t)))
         | TokWord \<Rightarrow> Some (parseChunk lib t rest))"

primrec parse_goal :: "nat \<Rightarrow> rql_lib \<Rightarrow> goal \<Rightarrow> token list \<Rightarrow> parse_result" where
  "parse_goal 0 lib = (\<lambda>g ts. None)"
| "parse_goal (Suc n) lib = (\<lambda>g ts.
     case g of
       GoalOr \<Rightarrow> parseOr (parse_goal n lib) ts
     | OrLoop left cs \<Rightarrow> orLoop (parse_goal n lib) left cs ts
     | GoalAnd \<Rightarrow> parseAnd (parse_goal n lib) ts
     | AndLoop first cs \<Rightarrow> andLoop (parse_goal n lib) first cs ts
     | GoalUnary \<Rightarrow> parseUnary (parse_goal n lib) ts
     | GoalPrimary \<Rightarrow> parsePrimary lib (parse_goal n lib) ts)"

text \<open>Fuel for the deepest chain of calls over that many tokens.\<close>

definition parse_fuel :: "token list \<Rightarrow> nat" where
  "parse_fuel ts = 6 * length ts + 6"

definition Parse :: "rql_lib \<Rightarrow> rtext \<Rightarrow> (rql_error + node option) option" where
  "Parse lib input =
     (case lex 0 True input of
        Inl e \<Rightarrow> Some (Inl e)
      | Inr ts \<Rightarrow>
          (if at_end ts then Some (Inr None)
           else case parse_goal (parse_fuel ts) lib GoalOr ts of
             None \<Rightarrow> None
           | Some (Inl e) \<Rightarrow> Some (Inl e)
           | Some (Inr (n, rest)) \<Rightarrow>
               (if \<not> at_end rest then Some (Inl (RqlError ''unexpected token'' (t_pos (hd rest))))
                else Some (Inr (Some n)))))"

text \<open>\<open>Fields\<close>: every field a query names, once, in the order of the text.\<close>

fun fields_walk :: "node \<Rightarrow> rtext list \<Rightarrow> rtext list" where
  "fields_walk (Comparison f p v) out = (if f \<in> set out then out else out @ [f])"
| "fields_walk (Txt v) out = out"
| "fields_walk (Neg n) out = fields_walk n out"
| "fields_walk (Conj cs) out = foldl (\<lambda>out c. fields_walk c out) out cs"
| "fields_walk (Disj cs) out = foldl (\<lambda>out c. fields_walk c out) out cs"

definition Fields :: "node option \<Rightarrow> rtext list" where
  "Fields n = (case n of None \<Rightarrow> [] | Some n \<Rightarrow> fields_walk n [])"

end
