(* ===== verification/RqlLex.thy ===== *)
theory RqlLex
  imports Rql
begin

text \<open>
  The lexer and the fuel of the parser: where a chunk splits at its operator, the tokens a
  text is cut into, and that the parser returns on every input.
\<close>

section \<open>Splitting a chunk\<close>

definition op_runes :: "nat set" where
  "op_runes = {58, 60, 61, 62}"

text \<open>A scan for the first operator rune, as a reference for the search over all operators.\<close>

fun op_here :: "rtext \<Rightarrow> (Op \<times> rtext) option" where
  "op_here [] = None"
| "op_here (r # rs) =
     (if r = 58 then (case rs of [] \<Rightarrow> Some (OpContains, []) | q # qs \<Rightarrow>
        if q = 126 then Some (OpMatches, qs) else Some (OpContains, q # qs))
      else if r = 61 then Some (OpEquals, rs)
      else if r = 62 then (case rs of [] \<Rightarrow> Some (OpGreater, []) | q # qs \<Rightarrow>
        if q = 61 then Some (OpGreaterEqual, qs) else Some (OpGreater, q # qs))
      else if r = 60 then (case rs of [] \<Rightarrow> Some (OpLess, []) | q # qs \<Rightarrow>
        if q = 61 then Some (OpLessEqual, qs) else Some (OpLess, q # qs))
      else None)"

fun split_scan :: "rtext \<Rightarrow> (rtext \<times> Op \<times> rtext) option" where
  "split_scan [] = None"
| "split_scan (r # rs) =
     (case op_here (r # rs) of
        Some (p, rest) \<Rightarrow> Some ([], p, rest)
      | None \<Rightarrow> map_option (\<lambda>(f, p, rest). (r # f, p, rest)) (split_scan rs))"

lemma operators_eq: "operators = [([58, 126], OpMatches), ([62, 61], OpGreaterEqual), ([60, 61], OpLessEqual),
    ([61], OpEquals), ([58], OpContains), ([62], OpGreater), ([60], OpLess)]"
  by (simp add: operators_def lit_def)

text \<open>A best match that is not at the front, and what a candidate does to it.\<close>

definition late :: "(nat \<times> Op \<times> nat) option \<Rightarrow> bool" where
  "late b \<longleftrightarrow> (case b of None \<Rightarrow> True | Some (n, _, _) \<Rightarrow> 0 < n)"

lemma prefix_at_0: "prefix_at pat s = Some 0 \<longleftrightarrow> prefix pat s"
  by (subst prefix_at.simps) (auto split: list.splits)

lemma late_None [simp]: "late None" by (simp add: late_def)

lemma split_step_late:
  assumes "late b" "\<not> prefix pat s"
  shows "late (split_step s b (pat, p))"
  using assms prefix_at_0 [of pat s]
  by (auto simp: split_step_def late_def split: option.splits if_splits)

lemma split_step_front:
  assumes "late b" "prefix pat s"
  shows "split_step s b (pat, p) = Some (0, p, length pat)"
  using assms prefix_at_0 [of pat s] by (auto simp: split_step_def late_def split: option.splits)

lemma split_step_behind:
  assumes "\<not> prefix pat s \<or> length pat \<le> n"
  shows "split_step s (Some (0, q, n)) (pat, p) = Some (0, q, n)"
  using assms prefix_at_0 [of pat s] by (auto simp: split_step_def split: option.splits)

lemma split_at_operator:
  assumes "op_here s = Some (p, rest)"
  shows "splitOperator s = Some ([], p, rest)"
proof -
  note steps = split_step_late split_step_front split_step_behind
  have "foldl (split_step s) None operators = Some (0, p, length s - length rest) \<and> drop (length s - length rest) s = rest"
    using assms unfolding operators_eq
    by (cases s; cases "tl s") (auto split: if_splits list.splits simp: steps)
  then show ?thesis by (simp add: splitOperator_def)
qed

lemma foldl_split_shift:
  assumes "\<forall>(pat, p)\<in>set ops. \<not> prefix pat (r # s)"
  shows "foldl (split_step (r # s)) (map_option (\<lambda>(a, x). (Suc a, x)) b) ops =
    map_option (\<lambda>(a, x). (Suc a, x)) (foldl (split_step s) b ops)"
  using assms
proof (induction ops arbitrary: b)
  case (Cons o' ops)
  obtain pat p where o': "o' = (pat, p)" by fastforce
  have at: "prefix_at pat (r # s) = map_option Suc (prefix_at pat s)"
    using Cons.prems by (subst prefix_at.simps) (simp add: o')
  have "split_step (r # s) (map_option (\<lambda>(a, x). (Suc a, x)) b) o' =
      map_option (\<lambda>(a, x). (Suc a, x)) (split_step s b o')"
    by (auto simp: o' split_step_def at split: option.splits)
  then show ?case using Cons.IH [of "split_step s b o'"] Cons.prems by (simp add: o')
qed simp

lemma splitOperator_scan: "splitOperator s = split_scan s"
proof (induction s)
  case Nil
  then show ?case
    by (simp add: splitOperator_def operators_eq split_step_def prefix_at.simps)
next
  case (Cons r s)
  show ?case
  proof (cases "op_here (r # s)")
    case (Some x)
    then show ?thesis using split_at_operator [of "r # s"] by (cases x) simp
  next
    case None
    have "\<forall>(pat, p)\<in>set operators. \<not> prefix pat (r # s)"
      using None unfolding operators_eq by (auto split: if_splits list.splits)
    from foldl_split_shift [OF this, of None] have
      f: "foldl (split_step (r # s)) None operators = map_option (\<lambda>(a, x). (Suc a, x)) (foldl (split_step s) None operators)"
      by simp
    show ?thesis
      unfolding split_scan.simps None option.case Cons.IH [symmetric] splitOperator_def f
      by (auto split: option.splits)
  qed
qed

text \<open>What a split means: the field holds no operator, and the operator is the longest there.\<close>

definition splits_as :: "rtext \<Rightarrow> rtext \<Rightarrow> Op \<Rightarrow> rtext \<Rightarrow> bool" where
  "splits_as s f p rest \<longleftrightarrow> s = f @ lit (op_string p) @ rest \<and> set f \<inter> op_runes = {} \<and> p \<noteq> OpExists \<and>
     (p = OpContains \<longrightarrow> \<not> prefix [126] rest) \<and> (p = OpGreater \<or> p = OpLess \<longrightarrow> \<not> prefix [61] rest)"

lemma op_here_Some: "op_here s = Some (p, rest) \<longleftrightarrow> splits_as s [] p rest"
proof
  assume "op_here s = Some (p, rest)"
  then show "splits_as s [] p rest"
    by (cases s; cases "tl s") (auto simp: splits_as_def lit_def split: if_splits list.splits)
next
  assume "splits_as s [] p rest"
  then show "op_here s = Some (p, rest)"
    by (cases p; cases rest) (auto simp: splits_as_def lit_def)
qed

lemma op_here_None: "op_here s = None \<longleftrightarrow> s = [] \<or> hd s \<notin> op_runes"
  by (cases s; cases "tl s") (auto simp: op_runes_def)

lemma split_Some: "splitOperator s = Some (f, p, rest) \<longleftrightarrow> splits_as s f p rest"
  unfolding splitOperator_scan
proof (induction s arbitrary: f)
  case Nil
  then show ?case by (cases p) (auto simp: splits_as_def lit_def)
next
  case (Cons r s)
  show ?case
  proof (cases "op_here (r # s)")
    case None
    then have r: "r \<notin> op_runes" by (simp add: op_here_None del: op_here.simps)
    have "splits_as (r # s) f p rest \<longleftrightarrow> (\<exists>f'. f = r # f' \<and> splits_as s f' p rest)"
    proof (cases f)
      case Nil
      with None op_here_Some [of "r # s" p rest] show ?thesis by (simp del: op_here.simps)
    next
      case (Cons a g)
      with r show ?thesis by (auto simp: splits_as_def)
    qed
    with None Cons.IH show ?thesis by (auto simp del: op_here.simps)
  next
    case (Some x)
    obtain p' rest' where x: "x = (p', rest')" by fastforce
    with Some have s: "splits_as (r # s) [] p' rest'" by (simp add: op_here_Some del: op_here.simps)
    then have r: "r \<in> op_runes" by (cases p') (auto simp: splits_as_def lit_def op_runes_def)
    have "f = [] \<and> p = p' \<and> rest = rest'" if a: "splits_as (r # s) f p rest"
    proof -
      have "f = []" using a r by (cases f) (auto simp: splits_as_def)
      with a have "op_here (r # s) = Some (p, rest)" by (simp add: op_here_Some del: op_here.simps)
      with Some x \<open>f = []\<close> show ?thesis by simp
    qed
    with Some x s show ?thesis by (auto simp del: op_here.simps)
  qed
qed

lemma split_None: "splitOperator s = None \<longleftrightarrow> set s \<inter> op_runes = {}"
  unfolding splitOperator_scan
proof (induction s)
  case (Cons r s)
  then show ?case using op_here_None [of "r # s"]
    by (cases "op_here (r # s)") (auto simp del: op_here.simps)
qed simp

section \<open>What the lexer produces\<close>

text \<open>A token list ends with its only end token; a word is not empty, holds no separator and no opening quote.\<close>

definition breaks :: "nat \<Rightarrow> bool" where
  "breaks r \<longleftrightarrow> is_space r \<or> r = 40 \<or> r = 41 \<or> r = 34"

definition word_ok :: "rtext \<Rightarrow> bool" where
  "word_ok w \<longleftrightarrow> w \<noteq> [] \<and> (\<forall>r\<in>set w. \<not> breaks r) \<and> hd w \<noteq> 39 \<and> \<not> prefix [45, 39] w"

definition token_ok :: "token \<Rightarrow> bool" where
  "token_ok t \<longleftrightarrow> (t_kind t = TokWord \<longrightarrow> word_ok (t_text t))"

definition ended :: "token list \<Rightarrow> bool" where
  "ended ts \<longleftrightarrow> (\<exists>us e. ts = us @ [e] \<and> t_kind e = TokEOF \<and> (\<forall>t\<in>set us. t_kind t \<noteq> TokEOF))"

lemma ended_Cons: "t_kind t \<noteq> TokEOF \<Longrightarrow> ended ts \<Longrightarrow> ended (t # ts)"
  unfolding ended_def by (metis append_Cons set_ConsD)

lemma ended_hd:
  assumes "ended ts"
  shows "ts \<noteq> []" "t_kind (hd ts) \<noteq> TokEOF \<Longrightarrow> ended (tl ts)"
proof -
  from assms obtain us e where ts: "ts = us @ [e]" "t_kind e = TokEOF" "\<forall>t\<in>set us. t_kind t \<noteq> TokEOF"
    by (auto simp: ended_def)
  then show "ts \<noteq> []" by simp
  show "ended (tl ts)" if "t_kind (hd ts) \<noteq> TokEOF"
    using ts that by (cases us) (auto simp: ended_def)
qed

lemma lexWord_ok:
  assumes "chunk \<noteq> []" "\<forall>r\<in>set chunk. \<not> breaks r" "hd chunk \<noteq> 39" "\<not> prefix [45, 39] chunk"
  shows "word_ok (fst (lexWord chunk rs))"
  using assms
proof (induction chunk rs rule: lexWord.induct)
  case (1 chunk)
  then show ?case by (simp add: word_ok_def)
next
  case (2 chunk r rs)
  show ?case
  proof (cases "is_space r \<or> r = 40 \<or> r = 41 \<or> r = 34 \<or> (r = 39 \<and> opensQuote chunk)")
    case True
    with 2(2-) show ?thesis by (simp add: word_ok_def)
  next
    case False
    have "\<not> prefix [45, 39] (chunk @ [r])"
    proof
      assume "prefix [45, 39] (chunk @ [r])"
      with 2(2,5) have "chunk = [45]" "r = 39"
        by (auto simp: prefix_append prefix_Cons append_eq_Cons_conv Cons_eq_append_conv neq_Nil_conv split: if_splits)
      with False show False by (simp add: opensQuote_def lit_def)
    qed
    with 2 False show ?thesis by (auto simp: breaks_def)
  qed
qed

lemma lex_tokens: "lex pos space rs = Inr ts \<Longrightarrow> ended ts \<and> list_all token_ok ts"
proof (induction pos space rs arbitrary: ts rule: lex.induct)
  case (1 pos space)
  then show ?case by (auto simp: ended_def token_ok_def mk_token_def)
next
  case (2 pos space r rs)
  have step: "ended ts \<and> list_all token_ok ts"
    if "then_lex t x = Inr ts" "t_kind t \<noteq> TokEOF" "token_ok t" "\<And>us. x = Inr us \<Longrightarrow> ended us \<and> list_all token_ok us" for t x
    using that ended_Cons by (auto simp: then_lex_def split: sum.splits)
  consider "is_space r" | "\<not> is_space r" "r = 40" | "\<not> is_space r" "r = 41"
    | "\<not> is_space r" "r = 34 \<or> r = 39" | "\<not> is_space r" "r \<noteq> 40" "r \<noteq> 41" "\<not> (r = 34 \<or> r = 39)" by blast
  then show ?case
  proof cases
    case 1
    with "2.IH"(1) [OF 1] "2.prems" show ?thesis by (simp add: lex.simps(2))
  next
    case 2
    with "2.prems" have "then_lex (mk_token TokLParen [] pos (\<not> space)) (lex (pos + 1) False rs) = Inr ts"
      by (simp add: lex.simps(2))
    then show ?thesis
      by (rule step [OF _ _ _ "2.IH"(2)]) (use 2 in \<open>simp_all add: mk_token_def token_ok_def\<close>)
  next
    case 3
    with "2.prems" have "then_lex (mk_token TokRParen [] pos (\<not> space)) (lex (pos + 1) False rs) = Inr ts"
      by (simp add: lex.simps(2))
    then show ?thesis
      by (rule step [OF _ _ _ "2.IH"(3)]) (use 3 in \<open>simp_all add: mk_token_def token_ok_def\<close>)
  next
    case 4
    then have n: "r \<noteq> 40" "r \<noteq> 41" by auto
    show ?thesis
    proof (cases "lexQuoted r [] rs")
      case None
      with "2.prems" 4 n show ?thesis by (simp add: lex.simps(2))
    next
      case (Some p)
      obtain body rest where p: "p = (body, rest)" by fastforce
      from "2.prems" 4 n Some p have "then_lex (mk_token TokString body pos (\<not> space))
          (lex (pos + 1 + (length rs - length rest)) False rest) = Inr ts"
        by (simp add: lex.simps(2))
      then show ?thesis
        by (rule step [OF _ _ _ "2.IH"(4) [OF 4(1) n 4(2) Some p [symmetric]]]) (simp_all add: token_ok_def mk_token_def)
    qed
  next
    case 5
    from "2.prems" 5 have "then_lex (mk_token TokWord (fst (lexWord [r] rs)) pos (\<not> space))
        (lex (pos + length (fst (lexWord [r] rs))) False (snd (lexWord [r] rs))) = Inr ts"
      by (simp add: lex.simps(2))
    moreover have "token_ok (mk_token TokWord (fst (lexWord [r] rs)) pos (\<not> space))"
      using 5 lexWord_ok [of "[r]" rs] by (simp add: token_ok_def mk_token_def breaks_def)
    ultimately show ?thesis by (intro step [OF _ _ _ "2.IH"(5) [OF 5]]) (simp_all add: mk_token_def)
  qed
qed

section \<open>The parser returns\<close>

lemma pbind_Some:
  assumes "m = Some r" "\<And>x ts. r = Inr (x, ts) \<Longrightarrow> \<exists>r'. f x ts = Some r' \<and> Q r'" "\<And>e. Q (Inl e)"
  shows "\<exists>r'. pbind m f = Some r' \<and> Q r'"
  using assms by (cases r) (auto simp: pbind_def)

fun goal_fuel :: "goal \<Rightarrow> nat" where
  "goal_fuel GoalPrimary = 1" | "goal_fuel GoalUnary = 2" | "goal_fuel GoalAnd = 3" | "goal_fuel (AndLoop a b) = 3"
| "goal_fuel GoalOr = 4" | "goal_fuel (OrLoop a b) = 4"

fun is_loop :: "goal \<Rightarrow> bool" where
  "is_loop (AndLoop a b) = True" | "is_loop (OrLoop a b) = True" | "is_loop _ = False"

text \<open>A result's tokens are well-formed and fewer, or no more after a loop.\<close>

definition shrinks :: "bool \<Rightarrow> nat \<Rightarrow> rql_error + (node \<times> token list) \<Rightarrow> bool" where
  "shrinks strict n r \<longleftrightarrow> (\<forall>x ts. r = Inr (x, ts) \<longrightarrow> ended ts \<and> length ts \<le> n \<and> (strict \<longrightarrow> length ts < n))"

lemma shrinks_simps [simp]:
  "shrinks s n (Inl e)"
  "shrinks s n (Inr (x, ts)) \<longleftrightarrow> ended ts \<and> length ts \<le> n \<and> (s \<longrightarrow> length ts < n)"
  by (auto simp: shrinks_def)

lemma shrinks_mono: "shrinks True n r \<Longrightarrow> n \<le> m \<Longrightarrow> shrinks s m r"
  by (auto simp: shrinks_def)

lemma parseChunk_shrinks:
  assumes "ended ts"
  shows "shrinks True (Suc (length ts)) (parseChunk lib t ts)"
  using assms ended_hd [OF assms]
  by (cases ts) (auto simp: parseChunk_def split: option.splits)

lemma parse_goal_total:
  "ended ts \<Longrightarrow> 4 * length ts + goal_fuel g \<le> n \<Longrightarrow>
   \<exists>r. parse_goal n lib g ts = Some r \<and> shrinks (\<not> is_loop g) (length ts) r"
proof (induction n arbitrary: g ts)
  case 0
  then show ?case by (cases g) auto
next
  case (Suc n)
  note hd = ended_hd [OF Suc.prems(1)]
  have tl: "Suc (length (tl ts)) = length ts" using hd(1) by simp
  have call: "\<exists>r. parse_goal n lib h us = Some r \<and> shrinks (\<not> is_loop h) (length us) r"
    if "ended us" "4 * length us + goal_fuel h \<le> n" for h us
    by (rule Suc.IH [OF that])
  have bind: "\<exists>r. pbind (parse_goal n lib h us) f = Some r \<and> shrinks s (length ts) r"
    if us: "ended us" "4 * length us + goal_fuel h \<le> n" "\<not> is_loop h"
      and f: "\<And>x vs. ended vs \<Longrightarrow> length vs < length us \<Longrightarrow> \<exists>r. f x vs = Some r \<and> shrinks s (length ts) r"
    for h us f s
  proof -
    from call [OF us(1,2)] us(3) obtain r where r: "parse_goal n lib h us = Some r" "shrinks True (length us) r" by auto
    show ?thesis by (rule pbind_Some [OF r(1)]) (use r(2) f in auto)
  qed
  show ?case
  proof (cases g)
    case GoalOr
    have "\<exists>r. pbind (parse_goal n lib GoalAnd ts) (\<lambda>left ts. parse_goal n lib (OrLoop left []) ts) = Some r \<and> shrinks True (length ts) r"
    proof (rule bind [OF Suc.prems(1)])
      fix x vs assume vs: "ended vs" "length vs < length ts"
      with call [of vs "OrLoop x []"] Suc.prems(2) GoalOr show
        "\<exists>r. parse_goal n lib (OrLoop x []) vs = Some r \<and> shrinks True (length ts) r"
        by (fastforce simp: shrinks_def)
    qed (use Suc.prems(2) GoalOr in auto)
    then show ?thesis by (simp add: GoalOr parseOr_def)
  next
    case (OrLoop left cs)
    show ?thesis
    proof (cases "keyword (hd ts) ''OR''")
      case False
      with Suc.prems(1) show ?thesis by (simp add: OrLoop orLoop_def)
    next
      case True
      with hd(2) have "ended (tl ts)" by (simp add: keyword_def)
      then have "\<exists>r. pbind (parse_goal n lib GoalAnd (tl ts))
          (\<lambda>right ts. parse_goal n lib (OrLoop left ((if cs = [] then [left] else cs) @ [right])) ts) = Some r \<and>
          shrinks False (length ts) r"
      proof (rule bind)
        fix x vs assume vs: "ended vs" "length vs < length (tl ts)"
        with call [of vs "OrLoop left ((if cs = [] then [left] else cs) @ [x])"] Suc.prems(2) OrLoop tl show
          "\<exists>r. parse_goal n lib (OrLoop left ((if cs = [] then [left] else cs) @ [x])) vs = Some r \<and> shrinks False (length ts) r"
          by (fastforce simp: shrinks_def)
      qed (use Suc.prems(2) OrLoop tl in auto)
      with True show ?thesis by (simp add: OrLoop orLoop_def)
    qed
  next
    case GoalAnd
    have "\<exists>r. pbind (parse_goal n lib GoalUnary ts) (\<lambda>first ts. parse_goal n lib (AndLoop first [first]) ts) = Some r \<and> shrinks True (length ts) r"
    proof (rule bind [OF Suc.prems(1)])
      fix x vs assume vs: "ended vs" "length vs < length ts"
      with call [of vs "AndLoop x [x]"] Suc.prems(2) GoalAnd show
        "\<exists>r. parse_goal n lib (AndLoop x [x]) vs = Some r \<and> shrinks True (length ts) r"
        by (fastforce simp: shrinks_def)
    qed (use Suc.prems(2) GoalAnd in auto)
    then show ?thesis by (simp add: GoalAnd parseAnd_def)
  next
    case (AndLoop first cs)
    have next_term: "\<exists>r. pbind (parse_goal n lib GoalUnary us) (\<lambda>next ts. parse_goal n lib (AndLoop first (cs @ [next])) ts) = Some r \<and>
        shrinks False (length ts) r" if us: "ended us" "length us \<le> length ts" for us
    proof (rule bind [OF us(1)])
      fix x vs assume vs: "ended vs" "length vs < length us"
      with call [of vs "AndLoop first (cs @ [x])"] Suc.prems(2) AndLoop us(2) show
        "\<exists>r. parse_goal n lib (AndLoop first (cs @ [x])) vs = Some r \<and> shrinks False (length ts) r"
        by (fastforce simp: shrinks_def)
    qed (use Suc.prems(2) AndLoop us(2) in auto)
    show ?thesis
    proof (cases "conj_ends ts")
      case True
      with Suc.prems(1) show ?thesis by (simp add: AndLoop andLoop_def)
    next
      case False
      with hd(2) have "ended (tl ts)" by (simp add: conj_ends_def at_end_def)
      with next_term [of "tl ts"] next_term [OF Suc.prems(1)] False tl show ?thesis
        by (auto simp: AndLoop andLoop_def)
    qed
  next
    case GoalUnary
    have neg: "\<exists>r. negate x vs = Some r \<and> shrinks True (length ts) r" if "ended vs" "length vs < length ts" for x vs
      using that by (simp add: negate_def)
    have primary: "\<exists>r. parse_goal n lib GoalPrimary ts = Some r \<and> shrinks True (length ts) r"
      using call [of ts GoalPrimary] Suc.prems GoalUnary by simp
    show ?thesis
    proof (cases "keyword (hd ts) ''NOT''")
      case True
      with hd(2) have "ended (tl ts)" by (simp add: keyword_def)
      then have "\<exists>r. pbind (parse_goal n lib GoalUnary (tl ts)) negate = Some r \<and> shrinks True (length ts) r"
        by (rule bind) (use Suc.prems(2) GoalUnary tl neg in auto)
      with True show ?thesis by (auto simp: GoalUnary parseUnary_def Let_def)
    next
      case not: False
      let ?dash = "t_kind (hd ts) = TokWord \<and> t_text (hd ts) = lit ''-'' \<and> t_adjacent (hd (tl ts)) \<and>
        (t_kind (hd (tl ts)) = TokString \<or> t_kind (hd (tl ts)) = TokLParen)"
      let ?minus = "t_kind (hd ts) = TokWord \<and> prefix (lit ''-'') (t_text (hd ts)) \<and> length (t_text (hd ts)) > 1"
      let ?swapped = "hd ts\<lparr>t_text := drop 1 (t_text (hd ts))\<rparr> # tl ts"
      have dash: "\<exists>r. pbind (parse_goal n lib GoalPrimary (tl ts)) negate = Some r \<and> shrinks True (length ts) r" if ?dash
      proof -
        from that hd(2) have "ended (tl ts)" by simp
        then show ?thesis by (rule bind) (use Suc.prems(2) GoalUnary tl neg in auto)
      qed
      have minus: "\<exists>r. pbind (parse_goal n lib GoalPrimary ?swapped) negate = Some r \<and> shrinks True (length ts) r" if ?minus
      proof -
        from that hd(2) have "ended (tl ts)" by simp
        with that have "ended ?swapped" by (intro ended_Cons) simp_all
        then show ?thesis by (rule bind) (use Suc.prems(2) GoalUnary tl neg in auto)
      qed
      show ?thesis
        using not dash minus primary by (simp add: GoalUnary parseUnary_def Let_def)
    qed
  next
    case GoalPrimary
    have chunk: "shrinks True (length ts) (parseChunk lib (hd ts) (tl ts))" if "t_kind (hd ts) \<noteq> TokEOF"
      using parseChunk_shrinks [OF hd(2) [OF that], of lib "hd ts"] tl by simp
    show ?thesis
    proof (cases "t_kind (hd ts)")
      case TokLParen
      then have rest: "ended (tl ts)" using hd(2) by simp
      have "\<exists>r. pbind (parse_goal n lib GoalOr (tl ts)) close_paren = Some r \<and> shrinks True (length ts) r"
      proof (rule bind [OF rest])
        fix x vs assume vs: "ended vs" "length vs < length (tl ts)"
        with ended_hd [OF vs(1)] tl show "\<exists>r. close_paren x vs = Some r \<and> shrinks True (length ts) r"
          by (auto simp: close_paren_def)
      qed (use Suc.prems(2) GoalPrimary tl in auto)
      with TokLParen show ?thesis by (auto simp: GoalPrimary parsePrimary_def Let_def)
    qed (use chunk hd tl in \<open>auto simp: GoalPrimary parsePrimary_def Let_def\<close>)
  qed
qed

lemma Parse_returns: "\<exists>r. Parse lib input = Some r"
proof (cases "lex 0 True input")
  case (Inr ts)
  then have "ended ts" using lex_tokens by blast
  from parse_goal_total [OF this, of GoalOr "parse_fuel ts" lib] obtain r where
    "parse_goal (parse_fuel ts) lib GoalOr ts = Some r" by (auto simp: parse_fuel_def)
  with Inr show ?thesis by (cases r) (auto simp: Parse_def split: prod.splits)
qed (simp add: Parse_def)

end
