(* ===== verification/RqlRound.thy ===== *)
theory RqlRound
  imports RqlLex
begin

text \<open>
  Rendering a query and parsing it back.  \<open>shapes\<close> are the tokens a rendered node is cut into,
  without their positions; the lexer produces them from the text, and the parser turns them
  back into the node, with nested conjunctions flattened and literals as they are written.
\<close>

section \<open>The tokens of a rendered node\<close>

type_synonym shape = "token_kind \<times> rtext \<times> bool"

definition shape :: "token \<Rightarrow> shape" where
  "shape t = (t_kind t, t_text t, t_adjacent t)"

definition literal_quoted :: "literal \<Rightarrow> bool" where
  "literal_quoted v \<longleftrightarrow> l_kind v = LString \<and> (l_quoted v \<or> needsQuoting (l_str v))"

definition text_quoted :: "rtext \<Rightarrow> bool" where
  "text_quoted v \<longleftrightarrow> needsQuoting v \<or> is_keyword v"

definition comparison_shape :: "rql_lib \<Rightarrow> rtext \<Rightarrow> Op \<Rightarrow> literal \<Rightarrow> bool \<Rightarrow> shape list" where
  "comparison_shape lib f p v a =
     (if p = OpExists then [(TokWord, f @ lit ''=*'', a)]
      else if literal_quoted v then [(TokWord, f @ lit (op_string p), a), (TokString, l_str v, True)]
      else [(TokWord, f @ lit (op_string p) @ literal_text lib v, a)])"

definition text_shape :: "rtext \<Rightarrow> bool \<Rightarrow> shape list" where
  "text_shape v a = (if text_quoted v then [(TokString, v, a)] else [(TokWord, v, a)])"

fun negated_shape :: "shape list \<Rightarrow> shape list" where
  "negated_shape [] = []"
| "negated_shape ((k, w, a) # r) =
     (if k = TokWord then (TokWord, 45 # w, a) # r else (TokWord, [45], a) # (k, w, True) # r)"

definition paren_shape :: "(bool \<Rightarrow> shape list) \<Rightarrow> bool \<Rightarrow> shape list" where
  "paren_shape f a = (TokLParen, [], a) # f True @ [(TokRParen, [], True)]"

definition grouped :: "bool \<Rightarrow> (bool \<Rightarrow> shape list) \<Rightarrow> bool \<Rightarrow> shape list" where
  "grouped b f = (if b then paren_shape f else f)"

definition join_shape :: "shape list \<Rightarrow> (bool \<Rightarrow> shape list) list \<Rightarrow> bool \<Rightarrow> shape list" where
  "join_shape sep fs a = (case fs of [] \<Rightarrow> [] | f # gs \<Rightarrow> f a @ concat (map (\<lambda>g. sep @ g False) gs))"

fun shapes :: "rql_lib \<Rightarrow> node \<Rightarrow> bool \<Rightarrow> shape list" where
  "shapes lib (Comparison f p v) = comparison_shape lib f p v"
| "shapes lib (Txt v) = text_shape v"
| "shapes lib (Neg n) =
     (if is_simple n then (\<lambda>a. negated_shape (shapes lib n a))
      else (\<lambda>a. (TokWord, lit ''NOT'', a) # paren_shape (shapes lib n) False))"
| "shapes lib (Conj cs) = join_shape [] (map (\<lambda>c. grouped (is_group False c) (shapes lib c)) cs)"
| "shapes lib (Disj cs) = join_shape [(TokWord, lit ''OR'', False)] (map (\<lambda>c. grouped (is_group True c) (shapes lib c)) cs)"

section \<open>What can be rendered\<close>

definition field_ok :: "rtext \<Rightarrow> bool" where
  "field_ok f \<longleftrightarrow> f \<noteq> [] \<and> (\<forall>r\<in>set f. \<not> breaks r \<and> r \<notin> op_runes) \<and> hd f \<noteq> 39"

definition number_runes :: "nat set" where
  "number_runes = set (lit ''0123456789.e+-'')"

text \<open>What the code relies on of the text of a float: a decimal that reads back as it.\<close>

definition number_ok :: "rql_lib \<Rightarrow> float64 \<Rightarrow> bool" where
  "number_ok lib n \<longleftrightarrow> \<not> float_nonfinite n \<and> q_show_float lib n \<noteq> [] \<and> set (q_show_float lib n) \<subseteq> number_runes \<and>
     q_parse_float lib (q_show_float lib n) = Some n"

definition literal_ok :: "rql_lib \<Rightarrow> Op \<Rightarrow> literal \<Rightarrow> bool" where
  "literal_ok lib p v \<longleftrightarrow>
     (case l_kind v of
        LString \<Rightarrow> l_num v = 0 \<and> \<not> l_bool v \<and>
          (literal_quoted v \<or> (\<forall>r\<in>set (l_str v). \<not> is_space r) \<and> literalOf lib (l_str v) = plain_literal LString (l_str v) \<and>
             l_str v \<noteq> lit ''*'' \<and> (p = OpContains \<longrightarrow> hd (l_str v) \<noteq> 126))
      | LNumber \<Rightarrow> number_ok lib (l_num v) \<and> \<not> l_bool v \<and> \<not> l_quoted v
      | LBool \<Rightarrow> l_num v = 0 \<and> \<not> l_quoted v
      | LNull \<Rightarrow> l_num v = 0 \<and> \<not> l_bool v \<and> \<not> l_quoted v
      | LWildcard \<Rightarrow> False)"

definition comparison_ok :: "rql_lib \<Rightarrow> rtext \<Rightarrow> Op \<Rightarrow> literal \<Rightarrow> bool" where
  "comparison_ok lib f p v \<longleftrightarrow> field_ok f \<and> (if p = OpExists then v = plain_literal LWildcard [] else literal_ok lib p v)"

text \<open>White space that \<open>needsQuoting\<close> does not know of, a line break say, must not be in a bare text.\<close>

definition text_ok :: "rtext \<Rightarrow> bool" where
  "text_ok v \<longleftrightarrow> needsQuoting v \<or> (\<forall>r\<in>set v. \<not> is_space r)"

fun node_ok :: "rql_lib \<Rightarrow> bool \<Rightarrow> node \<Rightarrow> bool" where
  "node_ok lib negated (Comparison f p v) \<longleftrightarrow> comparison_ok lib f p v \<and> (negated \<or> hd f \<noteq> 45)"
| "node_ok lib negated (Txt v) \<longleftrightarrow> text_ok v"
| "node_ok lib negated (Neg n) \<longleftrightarrow> node_ok lib True n"
| "node_ok lib negated (Conj cs) \<longleftrightarrow> 1 < length cs \<and> (\<forall>c\<in>set cs. node_ok lib False c)"
| "node_ok lib negated (Disj cs) \<longleftrightarrow> 1 < length cs \<and> (\<forall>c\<in>set cs. node_ok lib False c)"

text \<open>What comes back: literals as they are written, conjunctions within conjunctions flattened.\<close>

definition norm_literal :: "rql_lib \<Rightarrow> literal \<Rightarrow> literal" where
  "norm_literal lib v =
     (case l_kind v of
        LString \<Rightarrow> v\<lparr>l_quoted := literal_quoted v\<rparr>
      | LWildcard \<Rightarrow> v
      | _ \<Rightarrow> v\<lparr>l_str := literal_text lib v\<rparr>)"

fun conj_parts :: "node \<Rightarrow> node list" where
  "conj_parts (Conj cs) = cs" | "conj_parts n = [n]"

fun norm :: "rql_lib \<Rightarrow> node \<Rightarrow> node" where
  "norm lib (Comparison f p v) = Comparison f p (norm_literal lib v)"
| "norm lib (Txt v) = Txt v"
| "norm lib (Neg n) = Neg (norm lib n)"
| "norm lib (Conj cs) = Conj (concat (map (\<lambda>c. conj_parts (norm lib c)) cs))"
| "norm lib (Disj cs) = Disj (map (norm lib) cs)"

section \<open>The lexer on a rendered node\<close>

definition prepend :: "token list \<Rightarrow> rql_error + token list \<Rightarrow> rql_error + token list" where
  "prepend ts r = (case r of Inl e \<Rightarrow> Inl e | Inr us \<Rightarrow> Inr (ts @ us))"

lemma prepend_simps [simp]: "prepend [] r = r" "prepend ts (prepend us r) = prepend (ts @ us) r"
  "then_lex t r = prepend [t] r"
  by (cases r; simp add: prepend_def then_lex_def)+

definition lexes :: "rtext \<Rightarrow> (bool \<Rightarrow> shape list) \<Rightarrow> bool" where
  "lexes s f \<longleftrightarrow> (\<forall>pos space rest. rest = [] \<or> hd rest = 32 \<or> hd rest = 41 \<longrightarrow>
     (\<exists>ts. map shape ts = f (\<not> space) \<and> lex pos space (s @ rest) = prepend ts (lex (pos + length s) False rest)))"

lemma lexQuoted_escape: "lexQuoted 34 acc (concat (map escape_rune t) @ 34 # rest) = Some (acc @ t, rest)"
  by (induction t arbitrary: acc) (simp_all add: escape_rune_def)

lemma lex_space: "is_space r \<Longrightarrow> lex pos space (r # rs) = lex (pos + 1) True rs"
  by (simp add: lex.simps(2))

lemma not_space [simp]: "\<not> is_space 34" "\<not> is_space 39" "\<not> is_space 40" "\<not> is_space 41" "\<not> is_space 45" "is_space 32"
  by (simp_all add: is_space_def)

lemma lex_quoted:
  "\<exists>t. shape t = (TokString, v, \<not> space) \<and> lex pos space (quoted v @ rest) = prepend [t] (lex (pos + length (quoted v)) False rest)"
proof -
  have "lex pos space (quoted v @ rest) = prepend [mk_token TokString v pos (\<not> space)] (lex (pos + length (quoted v)) False rest)"
    by (simp add: quoted_def lex.simps(2) lexQuoted_escape [of "[]"])
  then show ?thesis by (intro exI [of _ "mk_token TokString v pos (\<not> space)"]) (simp add: shape_def mk_token_def)
qed

definition plain_word :: "rtext \<Rightarrow> bool" where
  "plain_word w \<longleftrightarrow> w \<noteq> [] \<and> hd w \<noteq> 39 \<and>
     (\<forall>i<length w. \<not> breaks (w ! i) \<and> (w ! i = 39 \<longrightarrow> \<not> opensQuote (take i w)))"

lemma lexWord_run:
  assumes "\<forall>i<length w. \<not> breaks (w ! i) \<and> (w ! i = 39 \<longrightarrow> \<not> opensQuote (chunk @ take i w))"
    and "rest = [] \<or> breaks (hd rest)"
  shows "lexWord chunk (w @ rest) = (chunk @ w, rest)"
  using assms(1)
proof (induction w arbitrary: chunk)
  case Nil
  from assms(2) show ?case by (cases rest) (auto simp: breaks_def)
next
  case (Cons r w)
  from Cons.prems [rule_format, of 0] have r: "\<not> breaks r" "r = 39 \<longrightarrow> \<not> opensQuote chunk" by simp_all
  have "\<forall>i<length w. \<not> breaks (w ! i) \<and> (w ! i = 39 \<longrightarrow> \<not> opensQuote ((chunk @ [r]) @ take i w))"
    using Cons.prems by (metis (no_types, lifting) Suc_less_eq append.assoc append_Cons append_Nil length_Cons nth_Cons_Suc take_Suc_Cons)
  from Cons.IH [OF this] r show ?case by (auto simp: breaks_def)
qed

lemma lex_word:
  assumes "plain_word w" "rest = [] \<or> breaks (hd rest)"
  shows "\<exists>t. shape t = (TokWord, w, \<not> space) \<and> lex pos space (w @ rest) = prepend [t] (lex (pos + length w) False rest)"
proof -
  from assms(1) obtain r w' where w: "w = r # w'" by (auto simp: plain_word_def neq_Nil_conv)
  have r: "\<not> breaks r" "r \<noteq> 39"
    using assms(1) by (auto simp: plain_word_def w dest: spec [of _ 0])
  have "\<forall>i<length w'. \<not> breaks (w' ! i) \<and> (w' ! i = 39 \<longrightarrow> \<not> opensQuote ([r] @ take i w'))"
    using assms(1) unfolding plain_word_def w
    by (metis (no_types, lifting) Suc_less_eq append_Cons append_Nil length_Cons nth_Cons_Suc take_Suc_Cons)
  from lexWord_run [OF this assms(2)] have "lexWord [r] (w' @ rest) = (w, rest)" by (simp add: w)
  with r have "lex pos space (w @ rest) = prepend [mk_token TokWord w pos (\<not> space)] (lex (pos + length w) False rest)"
    by (simp add: w lex.simps(2) breaks_def)
  then show ?thesis by (intro exI [of _ "mk_token TokWord w pos (\<not> space)"]) (simp add: shape_def mk_token_def)
qed

lemma lexes_word: "plain_word w \<Longrightarrow> lexes w (\<lambda>a. [(TokWord, w, a)])"
  unfolding lexes_def
proof (intro allI impI)
  fix pos space and rest :: rtext
  assume "plain_word w" "rest = [] \<or> hd rest = 32 \<or> hd rest = 41"
  with lex_word [of w rest space pos] obtain t where
    "shape t = (TokWord, w, \<not> space)" "lex pos space (w @ rest) = prepend [t] (lex (pos + length w) False rest)"
    by (auto simp: breaks_def)
  then show "\<exists>ts. map shape ts = [(TokWord, w, \<not> space)] \<and> lex pos space (w @ rest) = prepend ts (lex (pos + length w) False rest)"
    by (intro exI [of _ "[t]"]) simp
qed

lemma lexes_quoted: "lexes (quoted v) (\<lambda>a. [(TokString, v, a)])"
  unfolding lexes_def
proof (intro allI impI)
  fix pos space and rest :: rtext
  from lex_quoted [of v space pos rest] obtain t where
    "shape t = (TokString, v, \<not> space)" "lex pos space (quoted v @ rest) = prepend [t] (lex (pos + length (quoted v)) False rest)"
    by blast
  then show "\<exists>ts. map shape ts = [(TokString, v, \<not> space)] \<and>
      lex pos space (quoted v @ rest) = prepend ts (lex (pos + length (quoted v)) False rest)"
    by (intro exI [of _ "[t]"]) simp
qed

lemma lexes_word_quoted: "plain_word w \<Longrightarrow> lexes (w @ quoted v) (\<lambda>a. [(TokWord, w, a), (TokString, v, True)])"
  unfolding lexes_def
proof (intro allI impI)
  fix pos space and rest :: rtext
  assume "plain_word w"
  moreover have "breaks (hd (quoted v @ rest))" by (simp add: quoted_def breaks_def)
  ultimately obtain t where t: "shape t = (TokWord, w, \<not> space)"
    "lex pos space (w @ quoted v @ rest) = prepend [t] (lex (pos + length w) False (quoted v @ rest))"
    using lex_word by blast
  from lex_quoted [of v False "pos + length w" rest] obtain u where
    "shape u = (TokString, v, True)"
    "lex (pos + length w) False (quoted v @ rest) = prepend [u] (lex (pos + length w + length (quoted v)) False rest)"
    by auto
  with t show "\<exists>ts. map shape ts = [(TokWord, w, \<not> space), (TokString, v, True)] \<and>
      lex pos space ((w @ quoted v) @ rest) = prepend ts (lex (pos + length (w @ quoted v)) False rest)"
    by (intro exI [of _ "[t, u]"]) (simp add: add.assoc)
qed

lemma lexes_paren:
  assumes "lexes s f"
  shows "lexes (40 # s @ [41]) (paren_shape f)"
  unfolding lexes_def
proof (intro allI impI)
  fix pos space and rest :: rtext
  have "41 # rest = [] \<or> hd (41 # rest) = 32 \<or> hd (41 # rest) = (41::nat)" by simp
  with assms obtain ts where ts: "map shape ts = f (\<not> False)"
    "lex (pos + 1) False (s @ 41 # rest) = prepend ts (lex (pos + 1 + length s) False (41 # rest))"
    unfolding lexes_def by blast
  have "lex pos space ((40 # s @ [41]) @ rest) =
      prepend (mk_token TokLParen [] pos (\<not> space) # ts @ [mk_token TokRParen [] (pos + 1 + length s) True])
        (lex (pos + length (40 # s @ [41])) False rest)"
    using ts(2) by (simp add: lex.simps(2) [of _ _ 40] lex.simps(2) [of _ _ 41] add.assoc)
  moreover have "map shape (mk_token TokLParen [] pos (\<not> space) # ts @ [mk_token TokRParen [] (pos + 1 + length s) True]) =
      paren_shape f (\<not> space)"
    using ts(1) by (simp add: paren_shape_def shape_def mk_token_def)
  ultimately show "\<exists>us. map shape us = paren_shape f (\<not> space) \<and>
      lex pos space ((40 # s @ [41]) @ rest) = prepend us (lex (pos + length (40 # s @ [41])) False rest)"
    by blast
qed

text \<open>Two parts with a separator between them.\<close>

lemma lexes_then:
  assumes "lexes s f" "lexes t g"
  shows "lexes (s @ 32 # t) (\<lambda>a. f a @ g False)"
  unfolding lexes_def
proof (intro allI impI)
  fix pos space and rest :: rtext
  assume rest: "rest = [] \<or> hd rest = 32 \<or> hd rest = 41"
  have "32 # t @ rest = [] \<or> hd (32 # t @ rest) = 32 \<or> hd (32 # t @ rest) = (41::nat)" by simp
  with assms(1) obtain ts where ts: "map shape ts = f (\<not> space)"
    "lex pos space (s @ 32 # t @ rest) = prepend ts (lex (pos + length s) False (32 # t @ rest))"
    unfolding lexes_def by blast
  from assms(2) rest obtain us where us: "map shape us = g (\<not> True)"
    "lex (pos + length s + 1) True (t @ rest) = prepend us (lex (pos + length s + 1 + length t) False rest)"
    unfolding lexes_def by blast
  have "lex pos space ((s @ 32 # t) @ rest) = prepend (ts @ us) (lex (pos + length (s @ 32 # t)) False rest)"
    using ts(2) us(2) by (simp add: lex_space add.assoc)
  then show "\<exists>vs. map shape vs = f (\<not> space) @ g False \<and>
      lex pos space ((s @ 32 # t) @ rest) = prepend vs (lex (pos + length (s @ 32 # t)) False rest)"
    using ts(1) us(1) by (intro exI [of _ "ts @ us"]) simp
qed

section \<open>The words of a rendered node\<close>

lemma plain_wordI:
  assumes a: "a \<noteq> []" "hd a \<noteq> 39" "\<not> prefix [45, 39] a" "\<forall>r\<in>set a. \<not> breaks r \<and> r \<notin> op_runes"
    and b: "\<forall>r\<in>set b. \<not> breaks r \<and> r \<noteq> 39"
  shows "plain_word (a @ b)"
  unfolding plain_word_def
proof (intro conjI allI impI)
  fix i assume i: "i < length (a @ b)"
  then have "(a @ b) ! i \<in> set (a @ b)" by (rule nth_mem)
  then show "\<not> breaks ((a @ b) ! i)" using a(4) b by auto
  assume quote: "(a @ b) ! i = 39"
  have ia: "i < length a"
  proof (rule ccontr)
    assume "\<not> i < length a"
    then have "(a @ b) ! i \<in> set b" using i by (simp add: nth_append)
    with b quote show False by auto
  qed
  have "set (take i a) \<inter> op_runes = {}" using a(4) set_take_subset [of i a] by auto
  then have none: "splitOperator (take i (a @ b)) = None" using ia by (simp add: split_None)
  have "take i a \<noteq> [45]"
  proof
    assume t: "take i a = [45]"
    then have "i = 1" using ia by (metis One_nat_def length_Cons length_take list.size(3) min.absorb4)
    with quote ia have "a ! 1 = 39" by (simp add: nth_append)
    with t \<open>i = 1\<close> ia have "prefix [45, 39] a" by (cases a; cases "tl a") auto
    with a(3) show False by simp
  qed
  with none ia show "\<not> opensQuote (take i (a @ b))" by (simp add: opensQuote_def lit_def)
qed (use a in auto)

lemma not_breaks_op [simp]: "\<forall>r\<in>set (lit (op_string p)). \<not> breaks r \<and> r \<noteq> 39"
  by (cases p) (auto simp: lit_def breaks_def is_space_def)

lemma op_not_quote [simp]: "39 \<notin> set (lit (op_string p))"
  by (cases p) (auto simp: lit_def)

lemma shape_ext:
  "comparison_shape lib f OpExists v = (\<lambda>a. [(TokWord, f @ lit ''=*'', a)])"
  "text_quoted w \<Longrightarrow> text_shape w = (\<lambda>a. [(TokString, w, a)])"
  "\<not> text_quoted w \<Longrightarrow> text_shape w = (\<lambda>a. [(TokWord, w, a)])"
  "p \<noteq> OpExists \<Longrightarrow> literal_quoted v \<Longrightarrow>
    comparison_shape lib f p v = (\<lambda>a. [(TokWord, f @ lit (op_string p), a), (TokString, l_str v, True)])"
  "p \<noteq> OpExists \<Longrightarrow> \<not> literal_quoted v \<Longrightarrow>
    comparison_shape lib f p v = (\<lambda>a. [(TokWord, f @ lit (op_string p) @ literal_text lib v, a)])"
  by (auto simp: comparison_shape_def text_shape_def)

lemma String_Txt: "String lib (Txt v) = (if text_quoted v then quoted v else v)"
  by (simp add: text_quoted_def)

lemma not_breaks_minus [simp]: "\<not> breaks 45" by (simp add: breaks_def)

lemma number_runes_eq: "number_runes = {48, 49, 50, 51, 52, 53, 54, 55, 56, 57, 46, 101, 43, 45}"
  by (simp add: number_runes_def lit_def)

lemma needsQuoting_iff: "needsQuoting s \<longleftrightarrow> s = [] \<or> (\<exists>r\<in>set s. r \<in> quoting_runes)"
  by (simp add: needsQuoting_def list_ex_iff)

lemma quoting_runes_eq: "quoting_runes = {32, 40, 41, 60, 62, 61, 58, 45, 9, 34, 39}"
  by (auto simp: quoting_runes_def lit_def)

lemma bare_runes:
  assumes "\<not> needsQuoting s" "\<forall>r\<in>set s. \<not> is_space r"
  shows "s \<noteq> []" "\<forall>r\<in>set s. \<not> breaks r \<and> r \<noteq> 39 \<and> r \<notin> op_runes \<and> r \<noteq> 45"
  using assms unfolding needsQuoting_iff quoting_runes_eq breaks_def op_runes_def by auto

lemma literal_text_plain:
  assumes "literal_ok lib p v" "\<not> literal_quoted v"
  shows "\<forall>r\<in>set (literal_text lib v). \<not> breaks r \<and> r \<noteq> 39" "literal_text lib v \<noteq> []"
proof -
  have "literal_text lib v \<noteq> [] \<and> (\<forall>r\<in>set (literal_text lib v). \<not> breaks r \<and> r \<noteq> 39)"
  proof (cases "l_kind v")
    case LString
    with assms have "\<not> needsQuoting (l_str v)" "\<forall>r\<in>set (l_str v). \<not> is_space r" "\<not> l_quoted v"
      by (auto simp: literal_ok_def literal_quoted_def)
    with bare_runes [of "l_str v"] LString show ?thesis by (simp add: literal_text_def)
  next
    case LNumber
    with assms have "literal_text lib v \<noteq> []" "set (literal_text lib v) \<subseteq> number_runes"
      by (auto simp: literal_ok_def number_ok_def literal_text_def)
    moreover have "\<forall>r\<in>number_runes. \<not> breaks r \<and> r \<noteq> 39"
      by (simp add: number_runes_eq breaks_def is_space_def)
    ultimately show ?thesis by blast
  qed (use assms in \<open>auto simp: literal_ok_def literal_text_def lit_def show_bool_def breaks_def is_space_def\<close>)
  then show "\<forall>r\<in>set (literal_text lib v). \<not> breaks r \<and> r \<noteq> 39" "literal_text lib v \<noteq> []" by simp_all
qed

lemma field_word:
  assumes "field_ok f" "hd f \<noteq> 45" "\<forall>r\<in>set b. \<not> breaks r \<and> r \<noteq> 39"
  shows "plain_word (f @ b)"
  using assms by (intro plain_wordI) (auto simp: field_ok_def neq_Nil_conv prefix_Cons)

lemma minus_field_word:
  assumes "field_ok f" "\<forall>r\<in>set b. \<not> breaks r \<and> r \<noteq> 39"
  shows "plain_word (45 # f @ b)"
proof -
  have "plain_word ((45 # f) @ b)"
    using assms by (intro plain_wordI) (auto simp: field_ok_def neq_Nil_conv op_runes_def)
  then show ?thesis by simp
qed

lemma bare_text_word:
  assumes "text_ok v" "\<not> text_quoted v"
  shows "plain_word v" "plain_word (45 # v)"
proof -
  from assms have "\<not> needsQuoting v" "\<forall>r\<in>set v. \<not> is_space r" by (auto simp: text_ok_def text_quoted_def)
  note v = bare_runes [OF this]
  from v have "hd v \<noteq> 39" "\<not> prefix [45, 39] v" "\<not> prefix [45, 39] (45 # v)"
    by (auto simp: neq_Nil_conv prefix_Cons)
  with v plain_wordI [of v "[]"] plain_wordI [of "45 # v" "[]"]
  show "plain_word v" "plain_word (45 # v)" by (auto simp: op_runes_def)
qed

lemma plain_minus: "plain_word [45]" and plain_NOT: "plain_word (lit ''NOT'')" and plain_OR: "plain_word (lit ''OR'')"
  by (simp_all add: plain_word_def lit_def breaks_def is_space_def)
     (auto simp: less_Suc_eq breaks_def is_space_def)

lemma lexes_comparison:
  assumes "comparison_ok lib f p v" "hd f \<noteq> 45"
  shows "lexes (String lib (Comparison f p v)) (comparison_shape lib f p v)"
proof -
  from assms have f: "field_ok f" "p \<noteq> OpExists \<Longrightarrow> literal_ok lib p v" by (auto simp: comparison_ok_def)
  show ?thesis
  proof (cases "p = OpExists")
    case True
    have "plain_word (f @ lit ''=*'')"
      using f(1) assms(2) by (rule field_word) (simp add: lit_def breaks_def is_space_def)
    with True show ?thesis by (simp add: shape_ext lexes_word)
  next
    case False
    show ?thesis
    proof (cases "literal_quoted v")
      case True
      then have "literal_text lib v = quoted (l_str v)" by (auto simp: literal_quoted_def literal_text_def)
      moreover have "plain_word (f @ lit (op_string p))" using f(1) assms(2) by (rule field_word) simp
      ultimately show ?thesis
        using lexes_word_quoted [of "f @ lit (op_string p)" "l_str v"] True False
        by (simp add: shape_ext)
    next
      case plain: False
      have "plain_word (f @ lit (op_string p) @ literal_text lib v)"
        using f(1) assms(2)
        by (rule field_word) (use literal_text_plain(1) [OF f(2) [OF False] plain] not_breaks_op [of p] in auto)
      with lexes_word plain False show ?thesis by (simp add: shape_ext)
    qed
  qed
qed

lemma lexes_minus_comparison:
  assumes "comparison_ok lib f p v"
  shows "lexes (45 # String lib (Comparison f p v)) (\<lambda>a. negated_shape (comparison_shape lib f p v a))"
proof -
  from assms have f: "field_ok f" "p \<noteq> OpExists \<Longrightarrow> literal_ok lib p v" by (auto simp: comparison_ok_def)
  show ?thesis
  proof (cases "p = OpExists")
    case True
    have "plain_word (45 # f @ lit ''=*'')"
      using f(1) by (rule minus_field_word) (simp add: lit_def breaks_def is_space_def)
    with True show ?thesis by (simp add: shape_ext lexes_word)
  next
    case False
    show ?thesis
    proof (cases "literal_quoted v")
      case True
      then have "literal_text lib v = quoted (l_str v)" by (auto simp: literal_quoted_def literal_text_def)
      moreover have "plain_word (45 # f @ lit (op_string p))" using f(1) by (rule minus_field_word) simp
      ultimately show ?thesis
        using lexes_word_quoted [of "45 # f @ lit (op_string p)" "l_str v"] True False
        by (simp add: shape_ext)
    next
      case plain: False
      have "plain_word (45 # f @ lit (op_string p) @ literal_text lib v)"
        using f(1)
        by (rule minus_field_word) (use literal_text_plain(1) [OF f(2) [OF False] plain] not_breaks_op [of p] in auto)
      with lexes_word [of "45 # f @ lit (op_string p) @ literal_text lib v"] plain False
      show ?thesis by (simp add: shape_ext)
    qed
  qed
qed

lemma lexes_text:
  assumes "text_ok v"
  shows "lexes (String lib (Txt v)) (text_shape v)"
    "lexes (45 # String lib (Txt v)) (\<lambda>a. negated_shape (text_shape v a))"
proof -
  show "lexes (String lib (Txt v)) (text_shape v)"
  proof (cases "text_quoted v")
    case True
    then show ?thesis using lexes_quoted [of v] by (simp add: shape_ext String_Txt del: String.simps)
  next
    case False
    with lexes_word [OF bare_text_word(1) [OF assms False]] show ?thesis by (simp add: shape_ext String_Txt del: String.simps)
  qed
  show "lexes (45 # String lib (Txt v)) (\<lambda>a. negated_shape (text_shape v a))"
  proof (cases "text_quoted v")
    case True
    then show ?thesis using lexes_word_quoted [OF plain_minus, of v] by (simp add: shape_ext String_Txt del: String.simps)
  next
    case False
    with lexes_word [OF bare_text_word(2) [OF assms False]] show ?thesis by (simp add: shape_ext String_Txt del: String.simps)
  qed
qed

lemma list_all2_refl_in: "(\<And>x. x \<in> set xs \<Longrightarrow> P x x) \<Longrightarrow> list_all2 P xs xs"
  by (induction xs) auto

lemma lexes_joined:
  assumes "lexes s f" "list_all2 lexes ss fs"
    and step: "\<forall>s f t g. lexes s f \<longrightarrow> lexes t g \<longrightarrow> lexes (s @ sep @ t) (\<lambda>a. f a @ seps @ g False)"
  shows "lexes (s @ concat (map (\<lambda>q. sep @ q) ss)) (\<lambda>a. f a @ concat (map (\<lambda>g. seps @ g False) fs))"
  using assms(2,1)
proof (induction arbitrary: s f rule: list_all2_induct)
  case (Cons t ts g gs)
  from Cons.IH [OF step [rule_format, OF Cons.prems Cons.hyps(1)]] show ?case by simp
qed simp

lemma lexes_join:
  assumes "list_all2 lexes ss fs" "ss \<noteq> []"
    and "\<forall>s f t g. lexes s f \<longrightarrow> lexes t g \<longrightarrow> lexes (s @ sep @ t) (\<lambda>a. f a @ seps @ g False)"
  shows "lexes (join sep ss) (join_shape seps fs)"
proof -
  from assms(1,2) obtain s ss' f fs' where "ss = s # ss'" "fs = f # fs'" "lexes s f" "list_all2 lexes ss' fs'"
    by (cases ss; cases fs) auto
  moreover have "lexes (s @ concat (map (\<lambda>q. sep @ q) ss')) (\<lambda>a. f a @ concat (map (\<lambda>g. seps @ g False) fs'))"
    by (rule lexes_joined) fact+
  moreover have "join_shape seps (f # fs') = (\<lambda>a. f a @ concat (map (\<lambda>g. seps @ g False) fs'))"
    by (simp add: join_shape_def fun_eq_iff)
  ultimately show ?thesis by (simp add: join_def)
qed

lemma lexes_or:
  assumes "lexes s f" "lexes t g"
  shows "lexes (s @ lit '' OR '' @ t) (\<lambda>a. f a @ [(TokWord, lit ''OR'', False)] @ g False)"
proof -
  from lexes_then [OF lexes_then [OF assms(1) lexes_word [OF plain_OR]] assms(2)]
  show ?thesis by (simp add: lit_def)
qed

lemma lexes_node: "node_ok lib negated n \<Longrightarrow> (negated \<longrightarrow> is_simple n \<longrightarrow> lexes (45 # String lib n) (\<lambda>a. negated_shape (shapes lib n a))) \<and>
    (negated \<and> is_simple n \<or> lexes (String lib n) (shapes lib n))"
proof (induction n arbitrary: negated)
  case (Comparison f p v)
  then show ?case using lexes_comparison [of lib f p v] lexes_minus_comparison [of lib f p v] by auto
next
  case (Txt v)
  then show ?case using lexes_text [of v lib] by simp
next
  case (Neg n)
  from Neg.IH [of True] Neg.prems have IH: "is_simple n \<Longrightarrow> lexes (45 # String lib n) (\<lambda>a. negated_shape (shapes lib n a))"
    "\<not> is_simple n \<Longrightarrow> lexes (String lib n) (shapes lib n)" by auto
  show ?case
  proof (cases "is_simple n")
    case True
    with IH(1) show ?thesis by simp
  next
    case False
    from lexes_then [OF lexes_word [OF plain_NOT] lexes_paren [OF IH(2) [OF False]]] False
    show ?thesis by (simp add: lit_def)
  qed
next
  case (Conj cs)
  have "list_all2 lexes (map (\<lambda>c. parens (is_group False c) (String lib c)) cs) (map (\<lambda>c. grouped (is_group False c) (shapes lib c)) cs)"
    unfolding list_all2_map1 list_all2_map2 using Conj.IH [of _ False] Conj.prems
    by (intro list_all2_refl_in) (auto simp: parens_def grouped_def intro: lexes_paren)
  then have "lexes (join (lit '' '') (map (\<lambda>c. parens (is_group False c) (String lib c)) cs))
      (join_shape [] (map (\<lambda>c. grouped (is_group False c) (shapes lib c)) cs))"
    by (rule lexes_join) (use Conj.prems lexes_then in \<open>auto simp: lit_def\<close>)
  then show ?case by simp
next
  case (Disj cs)
  have "list_all2 lexes (map (\<lambda>c. parens (is_group True c) (String lib c)) cs) (map (\<lambda>c. grouped (is_group True c) (shapes lib c)) cs)"
    unfolding list_all2_map1 list_all2_map2 using Disj.IH [of _ False] Disj.prems
    by (intro list_all2_refl_in) (auto simp: parens_def grouped_def intro: lexes_paren)
  then have "lexes (join (lit '' OR '') (map (\<lambda>c. parens (is_group True c) (String lib c)) cs))
      (join_shape [(TokWord, lit ''OR'', False)] (map (\<lambda>c. grouped (is_group True c) (shapes lib c)) cs))"
    by (rule lexes_join) (use Disj.prems lexes_or in auto)
  then show ?case by simp
qed

text \<open>The tokens of a rendered query.\<close>

lemma lex_String:
  assumes "node_ok lib False n"
  shows "\<exists>ts. map shape ts = shapes lib n False \<and> lex 0 True (String lib n) = Inr (ts @ [mk_token TokEOF [] (length (String lib n)) False])"
proof -
  from lexes_node [OF assms] have "lexes (String lib n) (shapes lib n)" by simp
  then obtain ts where "map shape ts = shapes lib n (\<not> True)"
    "lex 0 True (String lib n @ []) = prepend ts (lex (0 + length (String lib n)) False [])"
    unfolding lexes_def by blast
  then show ?thesis by (intro exI [of _ ts]) (simp add: prepend_def)
qed

end
