(* ===== verification/RqlParse.thy ===== *)
theory RqlParse
  imports RqlRound
begin

text \<open>
  The parser on the tokens of a rendered query gives the query back, and every query the parser
  produces is one that can be rendered, unless it looks for a phrase with white space other
  than blanks and tabs.
\<close>

section \<open>Runs of the parser without the fuel\<close>

definition parses :: "rql_lib \<Rightarrow> goal \<Rightarrow> token list \<Rightarrow> rql_error + (node \<times> token list) \<Rightarrow> bool" where
  "parses lib g ts r \<longleftrightarrow> (\<exists>n. parse_goal n lib g ts = Some r)"

definition extends :: "(goal \<Rightarrow> token list \<Rightarrow> parse_result) \<Rightarrow> (goal \<Rightarrow> token list \<Rightarrow> parse_result) \<Rightarrow> bool" where
  "extends c d \<longleftrightarrow> (\<forall>g ts r. c g ts = Some r \<longrightarrow> d g ts = Some r)"

lemma extendsD: "extends c d \<Longrightarrow> c g ts = Some r \<Longrightarrow> d g ts = Some r"
  by (simp add: extends_def)

lemma pbind_mono:
  assumes "pbind m f = Some r" "\<And>x. m = Some x \<Longrightarrow> m' = Some x" "\<And>x ts. f x ts = Some r \<Longrightarrow> f' x ts = Some r"
  shows "pbind m' f' = Some r"
  using assms by (auto simp: pbind_def split: option.splits sum.splits)

lemma method_mono:
  assumes "extends c d"
  shows "parseOr c ts = Some r \<Longrightarrow> parseOr d ts = Some r"
    "orLoop c left cs ts = Some r \<Longrightarrow> orLoop d left cs ts = Some r"
    "parseAnd c ts = Some r \<Longrightarrow> parseAnd d ts = Some r"
    "andLoop c left cs ts = Some r \<Longrightarrow> andLoop d left cs ts = Some r"
    "parseUnary c ts = Some r \<Longrightarrow> parseUnary d ts = Some r"
    "parsePrimary lib c ts = Some r \<Longrightarrow> parsePrimary lib d ts = Some r"
  unfolding parseOr_def orLoop_def parseAnd_def andLoop_def parseUnary_def parsePrimary_def Let_def
  by (auto split: if_splits token_kind.splits elim!: pbind_mono intro: extendsD [OF assms])

lemma parse_goal_mono: "extends (parse_goal n lib) (parse_goal (Suc n) lib)"
proof (induction n)
  case 0
  then show ?case by (simp add: extends_def)
next
  case (Suc n)
  show ?case
    unfolding extends_def
  proof (intro allI impI)
    fix g ts r assume "parse_goal (Suc n) lib g ts = Some r"
    then show "parse_goal (Suc (Suc n)) lib g ts = Some r"
      using method_mono [OF Suc] by (cases g) (simp_all del: parse_goal.simps add: parse_goal.simps(2) [of n] parse_goal.simps(2) [of "Suc n"])
  qed
qed

lemma parse_goal_more: "parse_goal n lib g ts = Some r \<Longrightarrow> n \<le> m \<Longrightarrow> parse_goal m lib g ts = Some r"
proof -
  assume r: "parse_goal n lib g ts = Some r" and "n \<le> m"
  from this(2) show "parse_goal m lib g ts = Some r"
    by (induction rule: dec_induct) (use r in \<open>auto intro: extendsD [OF parse_goal_mono] simp del: parse_goal.simps\<close>)
qed

lemma parses_unique:
  assumes "parses lib g ts r" "parse_goal m lib g ts = Some r'"
  shows "r' = r"
proof -
  from assms(1) obtain n where n: "parse_goal n lib g ts = Some r" by (auto simp: parses_def)
  show ?thesis
    using parse_goal_more [OF n, of "max n m"] parse_goal_more [OF assms(2), of "max n m"] by simp
qed

lemma parses_bind:
  assumes "parses lib h us (Inr (x, vs))" "parses lib k vs r"
    and "\<And>n. parse_goal n lib h us = Some (Inr (x, vs)) \<Longrightarrow> parse_goal n lib k vs = Some r \<Longrightarrow> parse_goal (Suc n) lib g ts = Some r"
  shows "parses lib g ts r"
proof -
  from assms(1,2) obtain n m where "parse_goal n lib h us = Some (Inr (x, vs))" "parse_goal m lib k vs = Some r"
    by (auto simp: parses_def)
  then have "parse_goal (max n m) lib h us = Some (Inr (x, vs))" "parse_goal (max n m) lib k vs = Some r"
    by (auto intro: parse_goal_more)
  from assms(3) [OF this] show ?thesis unfolding parses_def by blast
qed

lemma parses_one:
  assumes "parses lib h us r"
    and "\<And>n. parse_goal n lib h us = Some r \<Longrightarrow> parse_goal (Suc n) lib g ts = Some r'"
  shows "parses lib g ts r'"
  using assms unfolding parses_def by blast

lemma parses_or: "parses lib GoalAnd ts (Inr (x, us)) \<Longrightarrow> parses lib (OrLoop x []) us r \<Longrightarrow> parses lib GoalOr ts r"
  by (erule (1) parses_bind) (simp add: parseOr_def pbind_def)

lemma parses_or_more:
  "keyword (hd ts) ''OR'' \<Longrightarrow> parses lib GoalAnd (tl ts) (Inr (y, us)) \<Longrightarrow>
   parses lib (OrLoop x ((if cs = [] then [x] else cs) @ [y])) us r \<Longrightarrow> parses lib (OrLoop x cs) ts r"
  by (rule parses_bind [of lib GoalAnd "tl ts" y us "OrLoop x ((if cs = [] then [x] else cs) @ [y])" r], assumption+)
     (simp add: orLoop_def pbind_def)

lemma parses_or_end:
  assumes "\<not> keyword (hd ts) ''OR''"
  shows "parses lib (OrLoop x cs) ts (Inr (if cs = [] then x else Disj cs, ts))"
  unfolding parses_def by (rule exI [of _ "Suc 0"]) (use assms in \<open>simp add: orLoop_def\<close>)

lemma parses_and: "parses lib GoalUnary ts (Inr (x, us)) \<Longrightarrow> parses lib (AndLoop x [x]) us r \<Longrightarrow> parses lib GoalAnd ts r"
  by (erule (1) parses_bind) (simp add: parseAnd_def pbind_def)

lemma parses_and_more:
  "\<not> conj_ends ts \<Longrightarrow> \<not> keyword (hd ts) ''AND'' \<Longrightarrow> parses lib GoalUnary ts (Inr (y, us)) \<Longrightarrow>
   parses lib (AndLoop x (cs @ [y])) us r \<Longrightarrow> parses lib (AndLoop x cs) ts r"
  by (rule parses_bind [of lib GoalUnary ts y us "AndLoop x (cs @ [y])" r], assumption+)
     (simp add: andLoop_def pbind_def)

lemma parses_and_end:
  assumes "conj_ends ts"
  shows "parses lib (AndLoop x cs) ts (Inr (if length cs = 1 then x else Conj cs, ts))"
  unfolding parses_def by (rule exI [of _ "Suc 0"]) (use assms in \<open>simp add: andLoop_def\<close>)

lemma parses_not:
  "keyword (hd ts) ''NOT'' \<Longrightarrow> \<not> at_end (tl ts) \<Longrightarrow> parses lib GoalUnary (tl ts) (Inr (x, us)) \<Longrightarrow>
   parses lib GoalUnary ts (Inr (Neg x, us))"
  by (erule parses_one) (simp add: parseUnary_def pbind_def negate_def)

lemma parses_paren:
  "t_kind (hd ts) = TokLParen \<Longrightarrow> t_kind (hd (tl ts)) \<noteq> TokRParen \<Longrightarrow> parses lib GoalOr (tl ts) (Inr (x, us)) \<Longrightarrow>
   t_kind (hd us) = TokRParen \<Longrightarrow> parses lib GoalPrimary ts (Inr (x, tl us))"
  by (erule parses_one) (simp add: parsePrimary_def pbind_def close_paren_def Let_def)

text \<open>A term that is neither \<open>NOT\<close> nor starts with a minus is a primary.\<close>

lemma parses_primary:
  assumes "parses lib GoalPrimary ts r" "t_kind (hd ts) = TokWord \<longrightarrow> t_text (hd ts) \<noteq> lit ''NOT'' \<and> \<not> prefix [45] (t_text (hd ts))"
  shows "parses lib GoalUnary ts r"
  using assms(1)
  by (rule parses_one) (use assms(2) in \<open>auto simp: parseUnary_def keyword_def lit_def Let_def\<close>)

section \<open>Single terms\<close>

lemma prefix_minus: "prefix (lit ''-'') w \<longleftrightarrow> w \<noteq> [] \<and> hd w = 45"
  by (cases w) (auto simp: lit_def)

lemma lower_number_rune: "r \<in> number_runes \<Longrightarrow> lower_rune lib r = r"
  unfolding number_runes_eq lower_rune_def by auto

lemma literalOf_number:
  assumes "number_ok lib n"
  shows "literalOf lib (q_show_float lib n) = (plain_literal LNumber (q_show_float lib n))\<lparr>l_num := n\<rparr>"
proof -
  let ?t = "q_show_float lib n"
  from assms have t: "?t \<noteq> []" "set ?t \<subseteq> number_runes" "q_parse_float lib ?t = Some n" "\<not> float_nonfinite n"
    by (auto simp: number_ok_def)
  have "lower_text lib ?t = ?t"
    unfolding lower_text_def by (rule map_idI) (use t(2) lower_number_rune in blast)
  moreover have "w \<noteq> ?t" if "hd w \<notin> number_runes" for w
    using that t(1,2) by (cases ?t) auto
  then have "?t \<noteq> lit ''true''" "?t \<noteq> lit ''false''" "?t \<noteq> lit ''null''" "?t \<noteq> lit ''nil''"
    by (auto simp: lit_def number_runes_eq dest: sym)
  moreover have "\<not> list_ex (\<lambda>r. r = 120 \<or> r = 88) ?t"
    using t(2) by (auto simp: list_ex_iff number_runes_eq)
  ultimately show ?thesis using t(3,4) by (simp add: literalOf_def)
qed

lemma lower_words: "lower_text lib (lit ''true'') = lit ''true''" "lower_text lib (lit ''false'') = lit ''false''"
  "lower_text lib (lit ''null'') = lit ''null''"
  by (simp_all add: lower_text_def lower_rune_def lit_def)

lemma literalOf_words: "literalOf lib (lit ''true'') = (plain_literal LBool (lit ''true''))\<lparr>l_bool := True\<rparr>"
  "literalOf lib (lit ''false'') = plain_literal LBool (lit ''false'')"
  "literalOf lib (lit ''null'') = plain_literal LNull (lit ''null'')"
  unfolding literalOf_def lower_words by (simp_all add: lit_def)

text \<open>A literal that is not quoted is read as it was.\<close>

lemma literalOf_text:
  assumes "literal_ok lib p v" "\<not> literal_quoted v"
  shows "literalOf lib (literal_text lib v) = norm_literal lib v \<and> literal_text lib v \<noteq> lit ''*''"
proof (cases "l_kind v")
  case LString
  with assms have v: "l_num v = 0" "\<not> l_bool v" "literalOf lib (l_str v) = plain_literal LString (l_str v)" "l_str v \<noteq> lit ''*''"
    "\<not> l_quoted v" "\<not> needsQuoting (l_str v)"
    by (auto simp: literal_ok_def literal_quoted_def)
  have "plain_literal LString (l_str v) = norm_literal lib v"
    using v LString assms(2) by (cases v) (simp add: plain_literal_def norm_literal_def)
  with v LString show ?thesis by (simp add: literal_text_def)
next
  case LNumber
  with assms have v: "number_ok lib (l_num v)" "\<not> l_bool v" "\<not> l_quoted v" by (auto simp: literal_ok_def)
  then have "q_show_float lib (l_num v) \<noteq> lit ''*''" by (auto simp: number_ok_def lit_def number_runes_eq)
  with v LNumber literalOf_number [OF v(1)] show ?thesis
    by (cases v) (simp add: literal_text_def norm_literal_def plain_literal_def)
next
  case LBool
  with assms show ?thesis
    by (cases v) (simp add: literal_ok_def literal_text_def norm_literal_def show_bool_def literalOf_words plain_literal_def,
        simp add: lit_def)
next
  case LNull
  with assms show ?thesis
    by (cases v) (simp add: literal_ok_def literal_text_def norm_literal_def literalOf_words plain_literal_def,
        simp add: lit_def)
qed (use assms in \<open>simp add: literal_ok_def\<close>)

lemma literal_text_start:
  assumes "literal_ok lib p v" "\<not> literal_quoted v"
  shows "p = OpContains \<Longrightarrow> \<not> prefix [126] (literal_text lib v)" "\<not> prefix [61] (literal_text lib v)"
proof -
  have "(p = OpContains \<longrightarrow> \<not> prefix [126] (literal_text lib v)) \<and> \<not> prefix [61] (literal_text lib v)"
  proof (cases "l_kind v")
    case LString
    with assms have "\<not> needsQuoting (l_str v)" "\<forall>r\<in>set (l_str v). \<not> is_space r" "p = OpContains \<longrightarrow> hd (l_str v) \<noteq> 126" "\<not> l_quoted v"
      by (auto simp: literal_ok_def literal_quoted_def)
    with bare_runes [of "l_str v"] LString show ?thesis
      by (cases "l_str v") (auto simp: literal_text_def op_runes_def)
  next
    case LNumber
    with assms have "set (literal_text lib v) \<subseteq> number_runes"
      by (auto simp: literal_ok_def number_ok_def literal_text_def)
    then show ?thesis by (cases "literal_text lib v") (auto simp: number_runes_eq)
  qed (use assms in \<open>auto simp: literal_ok_def literal_text_def lit_def show_bool_def\<close>)
  then show "p = OpContains \<Longrightarrow> \<not> prefix [126] (literal_text lib v)" "\<not> prefix [61] (literal_text lib v)" by auto
qed

lemma field_split:
  assumes "field_ok f" "p \<noteq> OpExists" "p = OpContains \<Longrightarrow> \<not> prefix [126] b" "\<not> prefix [61] b"
  shows "splitOperator (f @ lit (op_string p) @ b) = Some (f, p, b)"
  unfolding split_Some splits_as_def using assms by (auto simp: field_ok_def)

lemma parseChunk_comparison:
  assumes "comparison_ok lib f p v" "map shape (t # ts) = comparison_shape lib f p v a"
  shows "parseChunk lib t (ts @ us) = Inr (Comparison f p (norm_literal lib v), us)"
proof -
  from assms have f: "field_ok f" "f \<noteq> []" "p \<noteq> OpExists \<Longrightarrow> literal_ok lib p v" "p = OpExists \<Longrightarrow> v = plain_literal LWildcard []"
    by (auto simp: comparison_ok_def field_ok_def)
  consider "p = OpExists" | "p \<noteq> OpExists" "literal_quoted v" | "p \<noteq> OpExists" "\<not> literal_quoted v" by blast
  then show ?thesis
  proof cases
    case 1
    then have t: "t_text t = f @ lit (op_string OpEquals) @ lit ''*''" "ts = []"
      using assms(2) by (auto simp: comparison_shape_def shape_def lit_def)
    have "splitOperator (t_text t) = Some (f, OpEquals, lit ''*'')"
      unfolding t(1) using f(1) by (rule field_split) (auto simp: lit_def)
    then show ?thesis using f 1 t(2) by (simp add: parseChunk_def norm_literal_def plain_literal_def lit_def)
  next
    case 2
    then obtain t' where t: "t_text t = f @ lit (op_string p) @ []" "ts = [t']" "t_kind t' = TokString" "t_text t' = l_str v" "t_adjacent t'"
      using assms(2) by (auto simp: shape_ext shape_def)
    have "splitOperator (t_text t) = Some (f, p, [])"
      unfolding t(1) using f(1) 2(1) by (rule field_split) auto
    moreover have "l_kind v = LString" "l_num v = 0" "\<not> l_bool v" using f(3) [OF 2(1)] 2(2) by (auto simp: literal_ok_def literal_quoted_def)
    then have "norm_literal lib v = (plain_literal LString (l_str v))\<lparr>l_quoted := True\<rparr>"
      using 2(2) by (cases v) (simp add: norm_literal_def plain_literal_def)
    ultimately show ?thesis using f(2) t by (simp add: parseChunk_def)
  next
    case 3
    note v = f(3) [OF 3(1)]
    from 3 assms(2) have t: "t_text t = f @ lit (op_string p) @ literal_text lib v" "ts = []"
      by (auto simp: shape_ext shape_def)
    have "splitOperator (t_text t) = Some (f, p, literal_text lib v)"
      unfolding t(1) using f(1) 3(1) by (rule field_split) (use literal_text_start [OF v 3(2)] in auto)
    then show ?thesis
      using f(2) t(2) literal_text_plain(2) [OF v 3(2)] literalOf_text [OF v 3(2)] by (simp add: parseChunk_def)
  qed
qed

lemma parses_chunk: "t_kind t = TokWord \<Longrightarrow> parses lib GoalPrimary (t # ts) (parseChunk lib t ts)"
  unfolding parses_def by (rule exI [of _ "Suc 0"]) (simp add: parsePrimary_def)

lemma parses_string: "t_kind t = TokString \<Longrightarrow> parses lib GoalPrimary (t # ts) (Inr (Txt (t_text t), ts))"
  unfolding parses_def by (rule exI [of _ "Suc 0"]) (simp add: parsePrimary_def)

lemma shapes_simple_ne: "is_simple n \<Longrightarrow> shapes lib n a \<noteq> []"
  by (cases n) (auto simp: comparison_shape_def text_shape_def)

lemma parses_simple:
  assumes "is_simple n" "node_ok lib True n" "map shape ts = shapes lib n a"
  shows "parses lib GoalPrimary (ts @ us) (Inr (norm lib n, us))"
proof -
  from assms(1,3) obtain t ts' where ts: "ts = t # ts'" using shapes_simple_ne [of n lib a] by (cases ts) auto
  show ?thesis
  proof (cases n)
    case (Comparison f p v)
    then have "t_kind t = TokWord" using assms(3) ts by (auto simp: comparison_shape_def shape_def split: if_splits)
    moreover have "parseChunk lib t (ts' @ us) = Inr (norm lib n, us)"
      using parseChunk_comparison [of lib f p v t ts' a us] assms(2,3) ts Comparison by simp
    ultimately show ?thesis using parses_chunk [of t lib "ts' @ us"] ts by simp
  next
    case (Txt v)
    show ?thesis
    proof (cases "text_quoted v")
      case True
      then have "t_kind t = TokString" "t_text t = v" "ts' = []" using assms(3) ts Txt by (auto simp: shape_ext shape_def)
      with parses_string [of t lib us] ts Txt show ?thesis by simp
    next
      case False
      then have t: "t_kind t = TokWord" "t_text t = v" "ts' = []" using assms(3) ts Txt by (auto simp: shape_ext shape_def)
      have "\<not> needsQuoting v" "\<forall>r\<in>set v. \<not> is_space r" using assms(2) False Txt by (auto simp: text_ok_def text_quoted_def)
      from bare_runes [OF this] have "splitOperator v = None" by (auto simp: split_None)
      with parses_chunk [of t lib us] t ts Txt show ?thesis by (simp add: parseChunk_def)
    qed
  qed (use assms(1) in auto)
qed

text \<open>
  What a part of a conjunction needs: its tokens do not start with what ends or joins a
  conjunction, and one call reads them all.
\<close>

definition starts :: "token \<Rightarrow> bool" where
  "starts t \<longleftrightarrow> t_kind t \<noteq> TokEOF \<and> t_kind t \<noteq> TokRParen \<and> \<not> keyword t ''OR'' \<and> \<not> keyword t ''AND''"

definition is_part :: "rql_lib \<Rightarrow> (bool \<Rightarrow> shape list) \<Rightarrow> node \<Rightarrow> bool" where
  "is_part lib f x \<longleftrightarrow> (\<forall>a ts us. us \<noteq> [] \<longrightarrow> map shape ts = f a \<longrightarrow>
     ts \<noteq> [] \<and> starts (hd ts) \<and> parses lib GoalUnary (ts @ us) (Inr (x, us)))"

lemma is_partI:
  assumes "\<And>a t ts us. us \<noteq> [] \<Longrightarrow> map shape (t # ts) = f a \<Longrightarrow> starts t \<and> parses lib GoalUnary (t # ts @ us) (Inr (x, us))"
    and "\<And>a. f a \<noteq> []"
  shows "is_part lib f x"
  unfolding is_part_def
proof (intro allI impI)
  fix a and us ts :: "token list"
  assume "us \<noteq> []" "map shape ts = f a"
  with assms(1) [of us _ _ a] assms(2) [of a] show "ts \<noteq> [] \<and> starts (hd ts) \<and> parses lib GoalUnary (ts @ us) (Inr (x, us))"
    by (cases ts) auto
qed

lemma is_partD:
  assumes "is_part lib f x" "us \<noteq> []" "map shape ts = f a"
  shows "ts \<noteq> []" "starts (hd ts)" "parses lib GoalUnary (ts @ us) (Inr (x, us))"
  using assms unfolding is_part_def by blast+

lemma field_not_keyword: "f @ lit (op_string p) @ b \<noteq> lit ''AND''" "f @ lit (op_string p) @ b \<noteq> lit ''OR''"
    "f @ lit (op_string p) @ b \<noteq> lit ''NOT''"
proof -
  have "\<exists>r\<in>set (lit (op_string p)). r \<in> op_runes" by (cases p) (auto simp: lit_def op_runes_def)
  then obtain r where "r \<in> set (f @ lit (op_string p) @ b)" "r \<in> op_runes" by auto
  moreover have "set (lit ''AND'') \<inter> op_runes = {}" "set (lit ''OR'') \<inter> op_runes = {}" "set (lit ''NOT'') \<inter> op_runes = {}"
    by (auto simp: lit_def op_runes_def)
  ultimately show "f @ lit (op_string p) @ b \<noteq> lit ''AND''" "f @ lit (op_string p) @ b \<noteq> lit ''OR''"
    "f @ lit (op_string p) @ b \<noteq> lit ''NOT''" by (metis disjoint_iff)+
qed

lemma comparison_head:
  assumes "map shape (t # ts) = comparison_shape lib f p v a"
  shows "t_kind t = TokWord \<and> (\<exists>b. t_text t = f @ lit (op_string p) @ b)"
  using assms by (auto simp: comparison_shape_def shape_def split: if_splits)

lemma bare_not_minus:
  assumes "text_ok v" "\<not> text_quoted v"
  shows "v \<noteq> []" "hd v \<noteq> 45" "v \<noteq> lit ''AND''" "v \<noteq> lit ''OR''" "v \<noteq> lit ''NOT''"
proof -
  from assms have "\<not> needsQuoting v" "\<forall>r\<in>set v. \<not> is_space r" "\<not> is_keyword v" by (auto simp: text_ok_def text_quoted_def)
  with bare_runes [OF this(1,2)] show "v \<noteq> []" "hd v \<noteq> 45" "v \<noteq> lit ''AND''" "v \<noteq> lit ''OR''" "v \<noteq> lit ''NOT''"
    by (auto simp: is_keyword_def)
qed

lemma part_simple:
  assumes "is_simple n" "node_ok lib False n"
  shows "is_part lib (shapes lib n) (norm lib n)"
proof (rule is_partI)
  fix a t ts and us :: "token list"
  assume us: "us \<noteq> []" and ts: "map shape (t # ts) = shapes lib n a"
  have "node_ok lib True n" using assms by (cases n) auto
  from parses_simple [OF assms(1) this ts, of us] have prim: "parses lib GoalPrimary (t # ts @ us) (Inr (norm lib n, us))" by simp
  have head: "starts t \<and> (t_kind t = TokWord \<longrightarrow> t_text t \<noteq> lit ''NOT'' \<and> \<not> prefix [45] (t_text t))"
  proof (cases n)
    case (Comparison f p v)
    with ts have "t_kind t = TokWord \<and> (\<exists>b. t_text t = f @ lit (op_string p) @ b)"
      using comparison_head [of t ts lib f p v a] by simp
    then obtain b where t: "t_kind t = TokWord" "t_text t = f @ lit (op_string p) @ b" by blast
    have "f \<noteq> []" "hd f \<noteq> 45" using assms(2) Comparison by (auto simp: comparison_ok_def field_ok_def)
    with t field_not_keyword [of f p b] show ?thesis
      by (cases f) (auto simp: starts_def keyword_def)
  next
    case (Txt v)
    show ?thesis
    proof (cases "text_quoted v")
      case True
      then show ?thesis using ts Txt by (auto simp: shape_ext shape_def starts_def keyword_def)
    next
      case False
      have v: "text_ok v" using assms(2) Txt by simp
      show ?thesis
        using ts Txt False bare_not_minus [OF v False] by (cases v) (auto simp: shape_ext shape_def starts_def keyword_def)
    qed
  qed (use assms(1) in auto)
  from prim have "parses lib GoalUnary (t # ts @ us) (Inr (norm lib n, us))"
    by (rule parses_primary) (use head in simp)
  with head show "starts t \<and> parses lib GoalUnary (t # ts @ us) (Inr (norm lib n, us))" by blast
qed (use assms(1) shapes_simple_ne in blast)

lemma parses_dash:
  assumes "t_kind t = TokWord" "t_text t = [45]" "t_adjacent u" "t_kind u = TokString \<or> t_kind u = TokLParen"
    "parses lib GoalPrimary (u # ts) (Inr (x, us))"
  shows "parses lib GoalUnary (t # u # ts) (Inr (Neg x, us))"
  using assms(5)
  by (rule parses_one) (use assms(1-4) in \<open>auto simp: parseUnary_def keyword_def lit_def Let_def pbind_def negate_def\<close>)

lemma parses_minus:
  assumes "t_kind t = TokWord" "t_text t = 45 # w" "w \<noteq> []"
    "parses lib GoalPrimary (t\<lparr>t_text := w\<rparr> # ts) (Inr (x, us))"
  shows "parses lib GoalUnary (t # ts) (Inr (Neg x, us))"
  using assms(4)
  by (rule parses_one) (use assms(1-3) in \<open>auto simp: parseUnary_def keyword_def lit_def Let_def pbind_def negate_def\<close>)

lemma part_minus:
  assumes "is_simple n" "node_ok lib True n"
  shows "is_part lib (\<lambda>a. negated_shape (shapes lib n a)) (Neg (norm lib n))"
proof (rule is_partI)
  fix a t ts and us :: "token list"
  assume us: "us \<noteq> []" and ts: "map shape (t # ts) = negated_shape (shapes lib n a)"
  obtain k w b r where s: "shapes lib n a = (k, w, b) # r"
    using shapes_simple_ne [OF assms(1), of lib a] by (metis neq_Nil_conv prod_cases3)
  have word: "t_kind t = TokWord" using ts s by (auto simp: shape_def split: if_splits)
  have "prefix [45] (t_text t)" using ts s by (auto simp: shape_def split: if_splits)
  then have starts: "starts t" using word by (auto simp: starts_def keyword_def lit_def)
  have "parses lib GoalUnary (t # ts @ us) (Inr (Neg (norm lib n), us))"
  proof (cases "k = TokWord")
    case True
    then have t: "t_text t = 45 # w" "map shape (t\<lparr>t_text := w\<rparr> # ts) = shapes lib n a"
      using ts s by (auto simp: shape_def)
    have "w \<noteq> []"
    proof (cases n)
      case (Comparison f p v)
      then show ?thesis using s assms(2)
        by (auto simp: comparison_shape_def comparison_ok_def field_ok_def split: if_splits)
    next
      case (Txt v)
      then have "text_ok v" "\<not> text_quoted v" "w = v" using s assms(2) True by (auto simp: text_shape_def split: if_splits)
      with bare_not_minus show ?thesis by blast
    qed (use assms(1) in auto)
    with word t(1) show ?thesis
      using parses_simple [OF assms t(2), of us] by (intro parses_minus) auto
  next
    case False
    then obtain u ts' where u: "ts = u # ts'" "t_text t = [45]" "t_kind u = k" "t_text u = w" "t_adjacent u" "map shape ts' = r"
      using ts s by (auto simp: shape_def)
    have k: "k = TokString" "b = a" using s False assms(1)
      by (cases n; auto simp: comparison_shape_def text_shape_def split: if_splits)+
    have n: "shapes lib n True = (k, w, True) # r" using s False assms(1)
      by (cases n) (auto simp: comparison_shape_def text_shape_def split: if_splits)
    have "map shape (u # ts') = shapes lib n True" using u n by (simp add: shape_def)
    from parses_simple [OF assms this, of us] have "parses lib GoalPrimary (u # ts' @ us) (Inr (norm lib n, us))" by simp
    with parses_dash [OF word u(2,5)] u(3) k(1) show ?thesis by (simp add: u(1))
  qed
  with starts show "starts t \<and> parses lib GoalUnary (t # ts @ us) (Inr (Neg (norm lib n), us))" by blast
next
  fix a
  show "negated_shape (shapes lib n a) \<noteq> []"
    using shapes_simple_ne [OF assms(1), of lib a] by (cases "shapes lib n a" rule: negated_shape.cases) auto
qed

section \<open>Groups, conjunctions and disjunctions\<close>

definition is_query :: "rql_lib \<Rightarrow> (bool \<Rightarrow> shape list) \<Rightarrow> node \<Rightarrow> bool" where
  "is_query lib f x \<longleftrightarrow> (\<forall>a ts us. us \<noteq> [] \<longrightarrow> at_end us \<or> t_kind (hd us) = TokRParen \<longrightarrow> map shape ts = f a \<longrightarrow>
     ts \<noteq> [] \<and> starts (hd ts) \<and> parses lib GoalOr (ts @ us) (Inr (x, us)))"

lemma is_queryD:
  assumes "is_query lib f x" "us \<noteq> []" "at_end us \<or> t_kind (hd us) = TokRParen" "map shape ts = f a"
  shows "ts \<noteq> []" "starts (hd ts)" "parses lib GoalOr (ts @ us) (Inr (x, us))"
  using assms unfolding is_query_def by blast+

lemma paren_tokens:
  assumes "map shape ts = paren_shape f a"
  obtains l us r where "ts = l # us @ [r]" "shape l = (TokLParen, [], a)" "map shape us = f True" "t_kind r = TokRParen"
proof -
  from assms obtain l vs where l: "ts = l # vs" "shape l = (TokLParen, [], a)" "map shape vs = f True @ [(TokRParen, [], True)]"
    by (auto simp: paren_shape_def map_eq_Cons_conv)
  then obtain us rs where "vs = us @ rs" "map shape us = f True" "map shape rs = [(TokRParen, [], True)]"
    by (auto simp: map_eq_append_conv)
  moreover from this obtain r where "rs = [r]" "t_kind r = TokRParen" by (auto simp: shape_def)
  ultimately show thesis using that l by blast
qed

lemma parses_group:
  assumes "is_query lib f x" "map shape ts = paren_shape f a"
  shows "parses lib GoalPrimary (ts @ us) (Inr (x, us))" "t_kind (hd ts) = TokLParen" "t_adjacent (hd ts) = a" "ts \<noteq> []"
proof -
  from assms(2) obtain l vs r where ts: "ts = l # vs @ [r]" "shape l = (TokLParen, [], a)" "map shape vs = f True" "t_kind r = TokRParen"
    by (rule paren_tokens)
  have l: "t_kind l = TokLParen" "t_adjacent l = a" using ts(2) by (auto simp: shape_def)
  have "r # us \<noteq> []" "at_end (r # us) \<or> t_kind (hd (r # us)) = TokRParen" using ts(4) by simp_all
  note q = is_queryD [OF assms(1) this ts(3)]
  have "parses lib GoalPrimary (l # vs @ r # us) (Inr (x, tl (r # us)))"
    by (rule parses_paren) (use q l ts(4) in \<open>auto simp: starts_def\<close>)
  with ts l show "parses lib GoalPrimary (ts @ us) (Inr (x, us))" "t_kind (hd ts) = TokLParen" "t_adjacent (hd ts) = a" "ts \<noteq> []"
    by simp_all
qed

lemma part_paren:
  assumes "is_query lib f x"
  shows "is_part lib (paren_shape f) x"
proof (rule is_partI)
  fix a t ts and us :: "token list"
  assume ts: "map shape (t # ts) = paren_shape f a"
  note g = parses_group [OF assms ts]
  have "parses lib GoalUnary ((t # ts) @ us) (Inr (x, us))"
    by (rule parses_primary [OF g(1)]) (use g(2) in simp)
  with g(2) show "starts t \<and> parses lib GoalUnary (t # ts @ us) (Inr (x, us))" by (simp add: starts_def keyword_def)
qed (simp add: paren_shape_def)

lemma part_not:
  assumes "is_query lib f x"
  shows "is_part lib (\<lambda>a. (TokWord, lit ''NOT'', a) # paren_shape f False) (Neg x)"
proof (rule is_partI)
  fix a t ts and us :: "token list"
  assume ts: "map shape (t # ts) = (TokWord, lit ''NOT'', a) # paren_shape f False"
  then have t: "keyword t ''NOT''" "map shape ts = paren_shape f False" by (simp_all add: keyword_def shape_def)
  note g = parses_group [OF assms t(2)]
  have "parses lib GoalUnary (ts @ us) (Inr (x, us))"
    by (rule parses_primary [OF g(1)]) (use g(2,4) in simp)
  then have "parses lib GoalUnary (t # ts @ us) (Inr (Neg x, us))"
    by (intro parses_not) (use t(1) g(2,4) in \<open>simp_all add: at_end_def\<close>)
  with t(1) show "starts t \<and> parses lib GoalUnary (t # ts @ us) (Inr (Neg x, us))"
    by (auto simp: starts_def keyword_def lit_def)
qed simp

lemma parses_and_loop:
  assumes "\<forall>p\<in>set ps. is_part lib (fst p) (snd p)" "us \<noteq> []" "conj_ends us"
    "map shape ts = concat (map (\<lambda>p. fst p False) ps)"
  shows "parses lib (AndLoop x cs) (ts @ us) (Inr (if length (cs @ map snd ps) = 1 then x else Conj (cs @ map snd ps), us))"
  using assms(1,4)
proof (induction ps arbitrary: ts cs)
  case Nil
  then show ?case using parses_and_end [OF assms(3), of lib x cs] by (cases "length cs = 1") auto
next
  case (Cons p ps)
  from Cons.prems(2) obtain ts1 ts2 where ts: "ts = ts1 @ ts2" "map shape ts1 = fst p False"
    "map shape ts2 = concat (map (\<lambda>p. fst p False) ps)" by (auto simp: map_eq_append_conv)
  have p: "is_part lib (fst p) (snd p)" and rest: "ts2 @ us \<noteq> []" using Cons.prems(1) assms(2) by auto
  note one = is_partD [OF p rest ts(2)]
  from Cons.IH [OF _ ts(3), of "cs @ [snd p]"] Cons.prems(1)
  have "parses lib (AndLoop x (cs @ [snd p])) (ts2 @ us)
      (Inr (if length (cs @ map snd (p # ps)) = 1 then x else Conj (cs @ map snd (p # ps)), us))"
    by (cases "cs = [] \<and> ps = []") auto
  then show ?case
    unfolding ts(1) append_assoc
    by (rule parses_and_more [rotated 3]) (use one in \<open>auto simp: conj_ends_def at_end_def starts_def\<close>)
qed

lemma join_shape_Cons: "join_shape sep (f # fs) a = f a @ concat (map (\<lambda>g. sep @ g False) fs)"
  by (simp add: join_shape_def)

lemma parses_and_parts:
  assumes "\<forall>p\<in>set ps. is_part lib (fst p) (snd p)" "ps \<noteq> []" "us \<noteq> []" "conj_ends us"
    "map shape ts = join_shape [] (map fst ps) a"
  shows "ts \<noteq> []" "starts (hd ts)"
    "parses lib GoalAnd (ts @ us) (Inr (if length ps = 1 then snd (hd ps) else Conj (map snd ps), us))"
proof -
  obtain p ps' where ps: "ps = p # ps'" using assms(2) by (cases ps) auto
  from assms(5) obtain ts1 ts2 where ts: "ts = ts1 @ ts2" "map shape ts1 = fst p a"
    "map shape ts2 = concat (map (\<lambda>p. fst p False) ps')" by (auto simp: ps join_shape_Cons map_eq_append_conv comp_def)
  have p: "is_part lib (fst p) (snd p)" "ts2 @ us \<noteq> []" using assms(1,3) ps by auto
  note one = is_partD [OF p ts(2)]
  show "ts \<noteq> []" "starts (hd ts)" using one ts(1) by auto
  have "parses lib (AndLoop (snd p) [snd p]) (ts2 @ us)
      (Inr (if length ([snd p] @ map snd ps') = 1 then snd p else Conj ([snd p] @ map snd ps'), us))"
    by (rule parses_and_loop) (use assms(1,3,4) ts(3) ps in auto)
  then have "parses lib GoalAnd (ts1 @ ts2 @ us) (Inr (if length ([snd p] @ map snd ps') = 1 then snd p else Conj ([snd p] @ map snd ps'), us))"
    by (rule parses_and [OF one(3)])
  then show "parses lib GoalAnd (ts @ us) (Inr (if length ps = 1 then snd (hd ps) else Conj (map snd ps), us))"
    by (cases ps') (simp_all add: ts(1) ps)
qed

lemma parses_or_loop:
  assumes "\<forall>p\<in>set ps. is_part lib (fst p) (snd p)" "us \<noteq> []" "at_end us \<or> t_kind (hd us) = TokRParen"
    "map shape ts = concat (map (\<lambda>p. [(TokWord, lit ''OR'', False)] @ fst p False) ps)"
  shows "parses lib (OrLoop x cs) (ts @ us)
    (Inr (if cs = [] \<and> ps = [] then x else Disj ((if cs = [] then [x] else cs) @ map snd ps), us))"
  using assms(1,4)
proof (induction ps arbitrary: ts cs)
  case Nil
  have "\<not> keyword (hd us) ''OR''" using assms(3) by (auto simp: keyword_def at_end_def)
  from parses_or_end [OF this, of lib x cs] Nil show ?case by (cases cs) auto
next
  case (Cons p ps)
  from Cons.prems(2) obtain t ts1 ts2 where ts: "ts = t # ts1 @ ts2" "shape t = (TokWord, lit ''OR'', False)" "map shape ts1 = fst p False"
    "map shape ts2 = concat (map (\<lambda>p. [(TokWord, lit ''OR'', False)] @ fst p False) ps)" by (auto simp: map_eq_append_conv map_eq_Cons_conv)
  have rest: "ts2 @ us \<noteq> []" "conj_ends (ts2 @ us)"
  proof -
    show "conj_ends (ts2 @ us)"
    proof (cases ps)
      case Nil
      then show ?thesis using ts(4) assms(3) by (auto simp: conj_ends_def)
    next
      case (Cons q qs)
      then show ?thesis using ts(4) by (auto simp: conj_ends_def keyword_def shape_def map_eq_Cons_conv)
    qed
  qed (use assms(2) in simp)
  have "parses lib GoalAnd (ts1 @ ts2 @ us) (Inr (if length [p] = 1 then snd (hd [p]) else Conj (map snd [p]), ts2 @ us))"
    by (rule parses_and_parts(3)) (use Cons.prems(1) rest ts(3) in \<open>auto simp: join_shape_Cons\<close>)
  then have one: "parses lib GoalAnd (tl (ts @ us)) (Inr (snd p, ts2 @ us))" by (simp add: ts(1))
  have "keyword (hd (ts @ us)) ''OR''" using ts(1,2) by (simp add: keyword_def shape_def)
  from parses_or_more [OF this one] Cons.IH [OF _ ts(4), of "(if cs = [] then [x] else cs) @ [snd p]"] Cons.prems(1)
  show ?case by (cases cs) auto
qed

lemma query_parts:
  assumes "\<forall>p\<in>set ps. is_part lib (fst p) (snd p)" "ps \<noteq> []"
  shows "is_query lib (join_shape [] (map fst ps)) (if length ps = 1 then snd (hd ps) else Conj (map snd ps))"
  unfolding is_query_def
proof (intro allI impI)
  fix a ts and us :: "token list"
  assume us: "us \<noteq> []" "at_end us \<or> t_kind (hd us) = TokRParen" and ts: "map shape ts = join_shape [] (map fst ps) a"
  have ends: "conj_ends us" "\<not> keyword (hd us) ''OR''" using us(2) by (auto simp: conj_ends_def keyword_def at_end_def)
  note and_parts = parses_and_parts [OF assms us(1) ends(1) ts]
  from parses_or [OF and_parts(3) parses_or_end [OF ends(2)]] and_parts(1,2)
  show "ts \<noteq> [] \<and> starts (hd ts) \<and> parses lib GoalOr (ts @ us) (Inr (if length ps = 1 then snd (hd ps) else Conj (map snd ps), us))"
    by simp
qed

lemma query_alternatives:
  assumes "\<forall>p\<in>set ps. is_part lib (fst p) (snd p)" "1 < length ps"
  shows "is_query lib (join_shape [(TokWord, lit ''OR'', False)] (map fst ps)) (Disj (map snd ps))"
  unfolding is_query_def
proof (intro allI impI)
  fix a ts and us :: "token list"
  assume us: "us \<noteq> []" "at_end us \<or> t_kind (hd us) = TokRParen"
    and ts: "map shape ts = join_shape [(TokWord, lit ''OR'', False)] (map fst ps) a"
  obtain p q qs where ps: "ps = p # q # qs" using assms(2) by (cases ps; cases "tl ps") auto
  from ts obtain ts1 ts2 where t: "ts = ts1 @ ts2" "map shape ts1 = fst p a"
    "map shape ts2 = concat (map (\<lambda>p. [(TokWord, lit ''OR'', False)] @ fst p False) (q # qs))"
    by (auto simp: ps join_shape_Cons map_eq_append_conv comp_def)
  have "conj_ends (ts2 @ us)" using t(3) by (auto simp: conj_ends_def keyword_def shape_def map_eq_Cons_conv)
  then have one: "ts1 \<noteq> []" "starts (hd ts1)"
    "parses lib GoalAnd (ts1 @ ts2 @ us) (Inr (if length [p] = 1 then snd (hd [p]) else Conj (map snd [p]), ts2 @ us))"
    using parses_and_parts [of "[p]" lib "ts2 @ us" ts1 a] assms(1) us(1) t(2) by (auto simp: ps join_shape_Cons)
  from parses_or_loop [OF _ us t(3), of lib "snd p" "[]"] assms(1) ps have "parses lib (OrLoop (snd p) []) (ts2 @ us) (Inr (Disj (map snd ps), us))" by (simp add: ps)
  from parses_or [OF _ this, of "ts1 @ ts2 @ us"] one t(1)
  show "ts \<noteq> [] \<and> starts (hd ts) \<and> parses lib GoalOr (ts @ us) (Inr (Disj (map snd ps), us))" by simp
qed

section \<open>Every rendered query\<close>

definition parts_of :: "rql_lib \<Rightarrow> (bool \<Rightarrow> shape list) \<Rightarrow> node list \<Rightarrow> ((bool \<Rightarrow> shape list) \<times> node) list \<Rightarrow> bool" where
  "parts_of lib f xs ps \<longleftrightarrow> ps \<noteq> [] \<and> (\<forall>p\<in>set ps. is_part lib (fst p) (snd p)) \<and> f = join_shape [] (map fst ps) \<and> xs = map snd ps"

definition renders :: "rql_lib \<Rightarrow> node \<Rightarrow> bool" where
  "renders lib n \<longleftrightarrow> is_query lib (shapes lib n) (norm lib n) \<and>
     (\<not> is_group True n \<longrightarrow> is_part lib (shapes lib n) (norm lib n)) \<and>
     (\<not> is_group False n \<longrightarrow> (\<exists>ps. parts_of lib (shapes lib n) (conj_parts (norm lib n)) ps))"

lemma join_shape_single: "join_shape [] [f] = f"
  by (simp add: join_shape_def fun_eq_iff)

lemma renders_part:
  assumes "is_part lib (shapes lib n) (norm lib n)" "conj_parts (norm lib n) = [norm lib n]"
  shows "renders lib n"
proof -
  have "parts_of lib (shapes lib n) (conj_parts (norm lib n)) [(shapes lib n, norm lib n)]"
    using assms by (simp add: parts_of_def join_shape_single)
  moreover have "is_query lib (shapes lib n) (norm lib n)"
    using query_parts [of "[(shapes lib n, norm lib n)]" lib] assms by (simp add: join_shape_single)
  ultimately show ?thesis using assms unfolding renders_def by blast
qed

lemma join_shape_append:
  assumes "gs \<noteq> []"
  shows "join_shape [] (join_shape [] gs # fs) = join_shape [] (gs @ fs)"
  using assms by (cases gs) (simp_all add: join_shape_def fun_eq_iff)

lemma join_shape_tail: "fs \<noteq> [] \<Longrightarrow> join_shape [] (f # fs) = (\<lambda>a. f a @ join_shape [] fs False)"
  by (cases fs) (simp_all add: join_shape_def fun_eq_iff)

lemma join_shape_two:
  assumes "gs \<noteq> []" "hs \<noteq> []"
  shows "join_shape [] (gs @ hs) = (\<lambda>a. join_shape [] gs a @ join_shape [] hs False)"
  using assms by (cases gs; cases hs) (simp_all add: join_shape_def fun_eq_iff)

text \<open>The parts of a conjunction: those of its members, one for a member in parentheses.\<close>

lemma conj_members:
  assumes "cs \<noteq> []" "\<forall>c\<in>set cs. renders lib c"
  shows "\<exists>ps. parts_of lib (join_shape [] (map (\<lambda>c. grouped (is_group False c) (shapes lib c)) cs))
      (concat (map (\<lambda>c. conj_parts (norm lib c)) cs)) ps \<and> length cs \<le> length ps"
  using assms
proof (induction cs rule: list_nonempty_induct)
  case (single c)
  have "\<exists>ps. parts_of lib (grouped (is_group False c) (shapes lib c)) (conj_parts (norm lib c)) ps"
  proof (cases "is_group False c")
    case True
    then obtain ds where c: "c = Disj ds" by (cases c) auto
    have "is_part lib (paren_shape (shapes lib c)) (norm lib c)"
      using single by (intro part_paren) (simp add: renders_def)
    then show ?thesis
      using c by (intro exI [of _ "[(paren_shape (shapes lib c), norm lib c)]"]) (simp add: parts_of_def grouped_def join_shape_single)
  next
    case False
    with single show ?thesis by (simp add: renders_def grouped_def)
  qed
  then show ?case by (auto simp: parts_of_def join_shape_single Suc_le_eq)
next
  case (cons c cs)
  have "\<exists>ps. parts_of lib (grouped (is_group False c) (shapes lib c)) (conj_parts (norm lib c)) ps"
  proof (cases "is_group False c")
    case True
    then obtain ds where c: "c = Disj ds" by (cases c) auto
    have "is_part lib (paren_shape (shapes lib c)) (norm lib c)"
      using cons.prems by (intro part_paren) (simp add: renders_def)
    then show ?thesis
      using c by (intro exI [of _ "[(paren_shape (shapes lib c), norm lib c)]"]) (simp add: parts_of_def grouped_def join_shape_single)
  next
    case False
    with cons.prems show ?thesis by (simp add: renders_def grouped_def)
  qed
  then obtain ps where ps: "parts_of lib (grouped (is_group False c) (shapes lib c)) (conj_parts (norm lib c)) ps" by blast
  from cons obtain qs where qs: "parts_of lib (join_shape [] (map (\<lambda>c. grouped (is_group False c) (shapes lib c)) cs))
      (concat (map (\<lambda>c. conj_parts (norm lib c)) cs)) qs" "length cs \<le> length qs" by auto
  have "join_shape [] (map (\<lambda>c. grouped (is_group False c) (shapes lib c)) (c # cs)) = join_shape [] (map fst (ps @ qs))"
    using ps qs(1) cons.hyps by (simp add: join_shape_tail join_shape_two parts_of_def)
  moreover have "length (c # cs) \<le> length (ps @ qs)" using ps qs(2) by (cases ps) (auto simp: parts_of_def)
  ultimately show ?case
    using ps qs(1) unfolding parts_of_def by (intro exI [of _ "ps @ qs"]) auto
qed

lemma disj_members:
  assumes "\<forall>c\<in>set cs. renders lib c"
  shows "\<forall>c\<in>set cs. is_part lib (grouped (is_group True c) (shapes lib c)) (norm lib c)"
proof
  fix c assume "c \<in> set cs"
  with assms have "renders lib c" by blast
  then show "is_part lib (grouped (is_group True c) (shapes lib c)) (norm lib c)"
    using part_paren by (cases "is_group True c") (auto simp: renders_def grouped_def)
qed

lemma renders_node: "node_ok lib negated n \<Longrightarrow> negated \<and> is_simple n \<or> renders lib n"
proof (induction n arbitrary: negated)
  case (Comparison f p v)
  show ?case
  proof (cases negated)
    case False
    with Comparison have "is_part lib (shapes lib (Comparison f p v)) (norm lib (Comparison f p v))"
      by (intro part_simple) auto
    then show ?thesis by (intro disjI2 renders_part) auto
  qed simp
next
  case (Txt v)
  then have "is_part lib (shapes lib (Txt v)) (norm lib (Txt v))" by (intro part_simple) auto
  then show ?case by (intro disjI2 renders_part) auto
next
  case (Neg n)
  have "is_part lib (shapes lib (Neg n)) (norm lib (Neg n))"
  proof (cases "is_simple n")
    case True
    with Neg.prems part_minus [of n lib] show ?thesis by simp
  next
    case False
    with Neg.IH [of True] Neg.prems have "is_query lib (shapes lib n) (norm lib n)" by (simp add: renders_def)
    from part_not [OF this] False show ?thesis by simp
  qed
  then show ?case by (intro disjI2 renders_part) auto
next
  case (Conj cs)
  have "\<forall>c\<in>set cs. renders lib c" using Conj.IH [of _ False] Conj.prems by auto
  moreover have "cs \<noteq> []" using Conj.prems by auto
  ultimately obtain ps where ps: "parts_of lib (shapes lib (Conj cs)) (conj_parts (norm lib (Conj cs))) ps" "length cs \<le> length ps"
    using conj_members [of cs lib] by auto
  have two: "length ps \<noteq> 1" using ps(2) Conj.prems by auto
  have "is_query lib (shapes lib (Conj cs)) (if length ps = 1 then snd (hd ps) else Conj (map snd ps))"
    using query_parts [of ps lib] ps(1) unfolding parts_of_def by metis
  with two ps(1) have "is_query lib (shapes lib (Conj cs)) (norm lib (Conj cs))" by (simp add: parts_of_def)
  with ps(1) show ?case unfolding renders_def by (auto simp del: shapes.simps)
next
  case (Disj cs)
  define ps where "ps = map (\<lambda>c. (grouped (is_group True c) (shapes lib c), norm lib c)) cs"
  have "\<forall>c\<in>set cs. renders lib c" using Disj.IH [of _ False] Disj.prems by auto
  then have "\<forall>p\<in>set ps. is_part lib (fst p) (snd p)" using disj_members [of cs lib] by (auto simp: ps_def)
  then have "is_query lib (join_shape [(TokWord, lit ''OR'', False)] (map fst ps)) (Disj (map snd ps))"
    by (rule query_alternatives) (use Disj.prems in \<open>simp add: ps_def\<close>)
  then have "is_query lib (shapes lib (Disj cs)) (norm lib (Disj cs))" by (simp add: ps_def comp_def)
  then show ?case by (simp add: renders_def)
qed

text \<open>What \<open>Parse\<close> makes of the text of a node.\<close>

lemma Parse_String:
  assumes "node_ok lib False n"
  shows "Parse lib (String lib n) = Some (Inr (Some (norm lib n)))"
proof -
  from renders_node [OF assms] have q: "is_query lib (shapes lib n) (norm lib n)" by (simp add: renders_def)
  let ?e = "mk_token TokEOF [] (length (String lib n)) False"
  from lex_String [OF assms] obtain ts where
    ts: "map shape ts = shapes lib n False" "lex 0 True (String lib n) = Inr (ts @ [?e])" by blast
  have "at_end [?e]" by (simp add: at_end_def mk_token_def)
  note p = is_queryD [OF q _ disjI1 [OF this] ts(1), simplified]
  have "\<not> at_end (ts @ [?e])" using p(1,2) by (simp add: at_end_def starts_def)
  moreover from lex_tokens [OF ts(2)] have "ended (ts @ [?e])" by blast
  from parse_goal_total [OF this, of GoalOr "parse_fuel (ts @ [?e])" lib] obtain r where
    r: "parse_goal (parse_fuel (ts @ [?e])) lib GoalOr (ts @ [?e]) = Some r" by (auto simp: parse_fuel_def)
  moreover from parses_unique [OF p(3) r] have "r = Inr (norm lib n, [?e])" .
  ultimately show ?thesis using ts(2) \<open>at_end [?e]\<close> by (simp add: Parse_def)
qed

end
