(* ===== verification/RqlClaims.thy ===== *)
theory RqlClaims
  imports RqlParse
begin

text \<open>
  What every run of the parser produces, and the properties of the filter language: parsing
  returns on every input with a position inside it when it fails, and a parsed query rendered
  and parsed again is the query it was.
\<close>

section \<open>Results of the parser\<close>

fun phrases :: "node \<Rightarrow> rtext list" where
  "phrases (Comparison f p v) = []"
| "phrases (Txt v) = [v]"
| "phrases (Neg n) = phrases n"
| "phrases (Conj cs) = concat (map phrases cs)"
| "phrases (Disj cs) = concat (map phrases cs)"

text \<open>What the code relies on of the library: a finite float's text reads back as it.\<close>

definition floats_read_back :: "rql_lib \<Rightarrow> bool" where
  "floats_read_back lib \<longleftrightarrow> (\<forall>t n. q_parse_float lib t = Some n \<longrightarrow> \<not> float_nonfinite n \<longrightarrow> number_ok lib n)"

definition fine :: "rql_lib \<Rightarrow> bool \<Rightarrow> node \<Rightarrow> bool" where
  "fine lib b n \<longleftrightarrow> (floats_read_back lib \<longrightarrow> (\<forall>v\<in>set (phrases n). text_ok v) \<longrightarrow> node_ok lib b n)"

text \<open>A word after its leading minus is cut off.\<close>

definition weak_word :: "rtext \<Rightarrow> bool" where
  "weak_word w \<longleftrightarrow> w \<noteq> [] \<and> (\<forall>r\<in>set w. \<not> breaks r) \<and> hd w \<noteq> 39"

definition minus_word :: "token \<Rightarrow> bool" where
  "minus_word t \<longleftrightarrow> t_kind t = TokWord \<and> prefix [45] (t_text t) \<and> length (t_text t) > 1"

definition tokens_ok :: "nat \<Rightarrow> token list \<Rightarrow> bool" where
  "tokens_ok B ts \<longleftrightarrow> ended ts \<and> (\<forall>t\<in>set ts. t_pos t \<le> B \<and> token_ok t)"

definition primary_ok :: "nat \<Rightarrow> token list \<Rightarrow> bool" where
  "primary_ok B ts \<longleftrightarrow> ended ts \<and> t_pos (hd ts) \<le> B \<and> (t_kind (hd ts) = TokWord \<longrightarrow> weak_word (t_text (hd ts))) \<and>
     (\<forall>t\<in>set (tl ts). t_pos t \<le> B \<and> token_ok t)"

fun goal_ok :: "rql_lib \<Rightarrow> nat \<Rightarrow> goal \<Rightarrow> token list \<Rightarrow> bool" where
  "goal_ok lib B GoalPrimary ts = primary_ok B ts"
| "goal_ok lib B (AndLoop x cs) ts = (tokens_ok B ts \<and> cs \<noteq> [] \<and> fine lib False x \<and> (\<forall>c\<in>set cs. fine lib False c))"
| "goal_ok lib B (OrLoop x cs) ts = (tokens_ok B ts \<and> length cs \<noteq> 1 \<and> fine lib False x \<and> (\<forall>c\<in>set cs. fine lib False c))"
| "goal_ok lib B g ts = tokens_ok B ts"

fun result_ok :: "rql_lib \<Rightarrow> nat \<Rightarrow> bool \<Rightarrow> rql_error + (node \<times> token list) \<Rightarrow> bool" where
  "result_ok lib B b (Inl (RqlError m p)) = (p \<le> B)"
| "result_ok lib B b (Inr (x, ts)) = (fine lib b x \<and> tokens_ok B ts)"

lemma tokens_ok_hd:
  assumes "tokens_ok B ts"
  shows "t_pos (hd ts) \<le> B" "token_ok (hd ts)" "t_kind (hd ts) \<noteq> TokEOF \<Longrightarrow> tokens_ok B (tl ts)" "primary_ok B ts"
proof -
  from assms have "ended ts" by (simp add: tokens_ok_def)
  note e = ended_hd [OF this]
  from e(1) obtain t us where ts: "ts = t # us" by (cases ts) auto
  with assms show "t_pos (hd ts) \<le> B" "token_ok (hd ts)" by (simp_all add: tokens_ok_def)
  show "t_kind (hd ts) \<noteq> TokEOF \<Longrightarrow> tokens_ok B (tl ts)" using assms e(2) ts by (simp add: tokens_ok_def)
  show "primary_ok B ts"
    using assms ts by (auto simp: tokens_ok_def primary_ok_def token_ok_def weak_word_def word_ok_def)
qed

lemma primary_ok_tl: "primary_ok B ts \<Longrightarrow> t_kind (hd ts) \<noteq> TokEOF \<Longrightarrow> tokens_ok B (tl ts)"
  using ended_hd(2) by (simp add: primary_ok_def tokens_ok_def)

lemma not_breaks_space: "\<not> breaks r \<Longrightarrow> \<not> is_space r"
  by (simp add: breaks_def)

lemma literalOf_ok:
  assumes "splits_as w f p rest" "rest \<noteq> []" "rest \<noteq> lit ''*''" "\<forall>r\<in>set w. \<not> breaks r" "floats_read_back lib"
  shows "literal_ok lib p (literalOf lib rest)"
proof -
  have start: "p = OpContains \<longrightarrow> hd rest \<noteq> 126" using assms(1,2) by (cases rest) (auto simp: splits_as_def)
  have space: "\<forall>r\<in>set rest. \<not> is_space r" using assms(1,4) not_breaks_space by (auto simp: splits_as_def)
  show ?thesis
  proof (cases "l_kind (literalOf lib rest) = LString")
    case True
    then have v: "literalOf lib rest = plain_literal LString rest"
      by (auto simp: literalOf_def Let_def plain_literal_def split: if_splits option.splits)
    have "l_str (plain_literal LString rest) = rest" "l_kind (plain_literal LString rest) = LString"
      "l_num (plain_literal LString rest) = 0" "\<not> l_bool (plain_literal LString rest)" by (simp_all add: plain_literal_def)
    with start space v assms(3) show ?thesis by (simp add: literal_ok_def)
  next
    case False
    with assms(5) show ?thesis
      by (auto simp: literal_ok_def literalOf_def Let_def plain_literal_def floats_read_back_def split: if_splits option.splits)
  qed
qed

lemma field_of_split:
  assumes "splits_as w f p rest" "f \<noteq> []" "weak_word w"
  shows "field_ok f"
  using assms by (cases f) (auto simp: splits_as_def field_ok_def weak_word_def)

lemma parseChunk_result:
  assumes "primary_ok B (t # ts)" "t_kind t = TokWord" "b = minus_word t"
  shows "result_ok lib B b (parseChunk lib t ts)"
proof -
  from assms(1,2) have w: "weak_word (t_text t)" "t_pos t \<le> B" by (simp_all add: primary_ok_def)
  have ts: "tokens_ok B ts" using primary_ok_tl [OF assms(1)] assms(2) by simp
  show ?thesis
  proof (cases "splitOperator (t_text t)")
    case None
    have "text_ok (t_text t)" using w(1) not_breaks_space by (auto simp: text_ok_def weak_word_def)
    with None ts show ?thesis by (simp add: parseChunk_def fine_def)
  next
    case (Some s)
    obtain f p rest where s: "s = (f, p, rest)" by (rule prod_cases3)
    with Some have split: "splits_as (t_text t) f p rest" by (simp add: split_Some)
    show ?thesis
    proof (cases "f = []")
      case True
      with Some s w(2) show ?thesis by (simp add: parseChunk_def)
    next
      case False
      note f = field_of_split [OF split False w(1)]
      have minus: "b \<or> hd f \<noteq> 45"
      proof -
        have "hd f = 45 \<Longrightarrow> minus_word t"
          using split False assms(2) by (cases f; cases p) (auto simp: splits_as_def minus_word_def lit_def)
        with assms(3) show ?thesis by blast
      qed
      show ?thesis
      proof (cases "rest = []")
        case True
        have quoted: "comparison_ok lib f p ((plain_literal LString v)\<lparr>l_quoted := True\<rparr>)" for v
          using f split by (simp add: comparison_ok_def literal_ok_def literal_quoted_def plain_literal_def splits_as_def)
        show ?thesis
        proof (cases ts)
          case Nil
          with Some s True False w(2) show ?thesis by (simp add: parseChunk_def)
        next
          case (Cons u us)
          with Some s True False w(2) quoted minus ts tokens_ok_hd(3) [OF ts] show ?thesis
            by (auto simp: parseChunk_def fine_def)
        qed
      next
        case rest: False
        have "comparison_ok lib f OpExists (plain_literal LWildcard [])" using f by (simp add: comparison_ok_def)
        moreover have "floats_read_back lib \<Longrightarrow> rest \<noteq> lit ''*'' \<Longrightarrow> comparison_ok lib f p (literalOf lib rest)"
          using literalOf_ok [OF split rest] w(1) f split by (auto simp: comparison_ok_def weak_word_def splits_as_def)
        ultimately show ?thesis
          using Some s False rest w(2) ts minus by (auto simp: parseChunk_def fine_def)
      qed
    qed
  qed
qed

lemma pbind_result:
  assumes "pbind m f = Some r" "\<And>x. m = Some x \<Longrightarrow> result_ok lib B b' x"
    and "\<And>x us. fine lib b' x \<Longrightarrow> tokens_ok B us \<Longrightarrow> f x us = Some r \<Longrightarrow> result_ok lib B b r"
  shows "result_ok lib B b r"
proof (cases m)
  case None
  with assms(1) show ?thesis by (simp add: pbind_def)
next
  case (Some x)
  show ?thesis
  proof (cases x)
    case (Inl e)
    with Some assms(1,2) show ?thesis by (cases e) (auto simp: pbind_def)
  next
    case (Inr y)
    with Some assms show ?thesis by (cases y) (auto simp: pbind_def)
  qed
qed

lemma fine_Neg: "fine lib True x \<Longrightarrow> fine lib b (Neg x)"
  by (simp add: fine_def)

lemma node_ok_weaken: "node_ok lib False n \<Longrightarrow> node_ok lib True n"
  by (cases n) auto

lemma fine_weaken: "fine lib False n \<Longrightarrow> fine lib b n"
  by (cases b) (auto simp: fine_def node_ok_weaken)

lemma fine_members:
  assumes "1 < length cs" "\<forall>c\<in>set cs. fine lib False c"
  shows "fine lib b (Conj cs)" "fine lib b (Disj cs)"
  using assms unfolding fine_def by auto

lemma negate_result: "fine lib True x \<Longrightarrow> tokens_ok B us \<Longrightarrow> negate x us = Some r \<Longrightarrow> result_ok lib B b r"
  by (auto simp: negate_def fine_Neg)

definition weak_goal :: "goal \<Rightarrow> token list \<Rightarrow> bool" where
  "weak_goal g ts \<longleftrightarrow> g = GoalPrimary \<and> minus_word (hd ts)"

lemma length_not_one: "cs \<noteq> [] \<Longrightarrow> length cs \<noteq> 1 \<Longrightarrow> 1 < length cs"
  by (cases cs) auto

lemma parse_goal_result:
  "parse_goal n lib g ts = Some r \<Longrightarrow> goal_ok lib B g ts \<Longrightarrow> result_ok lib B (weak_goal g ts) r"
proof (induction n arbitrary: g ts r)
  case 0
  then show ?case by simp
next
  case (Suc n)
  have call: "result_ok lib B b x" if "parse_goal n lib h us = Some x" "goal_ok lib B h us" "b = weak_goal h us" for h us x b
    using Suc.IH [OF that(1,2)] that(3) by simp
  have bind: "result_ok lib B b r"
    if "pbind (parse_goal n lib h us) f = Some r" "goal_ok lib B h us"
      and "\<And>x vs. fine lib (weak_goal h us) x \<Longrightarrow> tokens_ok B vs \<Longrightarrow> f x vs = Some r \<Longrightarrow> result_ok lib B b r" for h us f b
    by (rule pbind_result [OF that(1) call [OF _ that(2) refl] that(3)])
  show ?case
  proof (cases g)
    case GoalOr
    with Suc.prems have ts: "tokens_ok B ts" "pbind (parse_goal n lib GoalAnd ts) (\<lambda>left ts. parse_goal n lib (OrLoop left []) ts) = Some r"
      by (simp_all add: parseOr_def)
    show ?thesis
      by (rule bind [OF ts(2)]) (use ts(1) in \<open>auto simp: weak_goal_def GoalOr intro!: call [of "OrLoop _ []"]\<close>)
  next
    case (OrLoop left cs)
    with Suc.prems have ts: "tokens_ok B ts" "length cs \<noteq> 1" "fine lib False left" "\<forall>c\<in>set cs. fine lib False c"
      "orLoop (parse_goal n lib) left cs ts = Some r" by simp_all
    show ?thesis
    proof (cases "keyword (hd ts) ''OR''")
      case True
      then have tl: "tokens_ok B (tl ts)" using tokens_ok_hd(3) [OF ts(1)] by (simp add: keyword_def)
      have "pbind (parse_goal n lib GoalAnd (tl ts))
          (\<lambda>right ts. parse_goal n lib (OrLoop left ((if cs = [] then [left] else cs) @ [right])) ts) = Some r"
        using True ts(5) by (simp add: orLoop_def)
      then show ?thesis
      proof (rule bind)
        fix x vs assume x: "fine lib (weak_goal GoalAnd (tl ts)) x" "tokens_ok B vs"
          "parse_goal n lib (OrLoop left ((if cs = [] then [left] else cs) @ [x])) vs = Some r"
        from x(3) show "result_ok lib B (weak_goal g ts) r"
          by (rule call) (use x(1,2) ts in \<open>auto simp: weak_goal_def OrLoop\<close>)
      qed (use tl in simp)
    next
      case False
      with ts(5) have "r = Inr (if cs = [] then left else Disj cs, ts)" by (simp add: orLoop_def)
      moreover have "fine lib (weak_goal g ts) (Disj cs)" if "cs \<noteq> []"
        using fine_members(2) [OF length_not_one [OF that ts(2)] ts(4)] by simp
      ultimately show ?thesis using ts(1,3) fine_weaken by simp
    qed
  next
    case GoalAnd
    with Suc.prems have ts: "tokens_ok B ts" "pbind (parse_goal n lib GoalUnary ts) (\<lambda>first ts. parse_goal n lib (AndLoop first [first]) ts) = Some r"
      by (simp_all add: parseAnd_def)
    show ?thesis
      by (rule bind [OF ts(2)]) (use ts(1) in \<open>auto simp: weak_goal_def GoalAnd intro!: call [of "AndLoop _ _"]\<close>)
  next
    case (AndLoop first cs)
    with Suc.prems have ts: "tokens_ok B ts" "cs \<noteq> []" "fine lib False first" "\<forall>c\<in>set cs. fine lib False c"
      "andLoop (parse_goal n lib) first cs ts = Some r" by simp_all
    have next_term: "result_ok lib B (weak_goal g ts) r"
      if us: "tokens_ok B us" "pbind (parse_goal n lib GoalUnary us) (\<lambda>next ts. parse_goal n lib (AndLoop first (cs @ [next])) ts) = Some r" for us
      using us(2)
    proof (rule bind)
      fix x vs assume x: "fine lib (weak_goal GoalUnary us) x" "tokens_ok B vs" "parse_goal n lib (AndLoop first (cs @ [x])) vs = Some r"
      from x(3) show "result_ok lib B (weak_goal g ts) r"
        by (rule call) (use x(1,2) ts in \<open>auto simp: weak_goal_def AndLoop\<close>)
    qed (use us(1) in simp)
    show ?thesis
    proof (cases "conj_ends ts")
      case True
      with ts(5) have "r = Inr (if length cs = 1 then first else Conj cs, ts)" by (simp add: andLoop_def)
      moreover have "fine lib (weak_goal g ts) (Conj cs)" if "length cs \<noteq> 1"
        using fine_members(1) [OF length_not_one [OF ts(2) that] ts(4)] by simp
      ultimately show ?thesis using ts(1,3) fine_weaken by simp
    next
      case False
      then have "tokens_ok B (tl ts)" using tokens_ok_hd(3) [OF ts(1)] by (simp add: conj_ends_def at_end_def)
      with next_term [of "tl ts"] next_term [OF ts(1)] tokens_ok_hd(1) [of B "tl ts"] False ts(5) show ?thesis
        by (auto simp: andLoop_def split: if_splits)
    qed
  next
    case GoalUnary
    with Suc.prems have ts: "tokens_ok B ts" "parseUnary (parse_goal n lib) ts = Some r" by simp_all
    note hd = tokens_ok_hd [OF ts(1)]
    show ?thesis
    proof (cases "keyword (hd ts) ''NOT''")
      case True
      then have tl: "tokens_ok B (tl ts)" using hd(3) by (simp add: keyword_def)
      show ?thesis
      proof (cases "at_end (tl ts)")
        case at_end: True
        with True ts(2) hd(1) show ?thesis by (auto simp: parseUnary_def Let_def)
      next
        case False
        with True ts(2) have "pbind (parse_goal n lib GoalUnary (tl ts)) negate = Some r" by (simp add: parseUnary_def Let_def)
        then show ?thesis
          by (rule bind) (use tl in \<open>auto simp: weak_goal_def intro: negate_result [OF fine_weaken]\<close>)
      qed
    next
      case not: False
      let ?dash = "t_kind (hd ts) = TokWord \<and> t_text (hd ts) = lit ''-'' \<and> t_adjacent (hd (tl ts)) \<and>
        (t_kind (hd (tl ts)) = TokString \<or> t_kind (hd (tl ts)) = TokLParen)"
      let ?swapped = "hd ts\<lparr>t_text := drop 1 (t_text (hd ts))\<rparr> # tl ts"
      consider (dash) ?dash | (minus) "\<not> ?dash" "minus_word (hd ts)" | (primary) "\<not> ?dash" "\<not> minus_word (hd ts)" by blast
      then show ?thesis
      proof cases
        case dash
        then have "tokens_ok B (tl ts)" using hd(3) by simp
        then have "goal_ok lib B GoalPrimary (tl ts)" using tokens_ok_hd(4) by simp
        moreover have "pbind (parse_goal n lib GoalPrimary (tl ts)) negate = Some r"
          using not dash ts(2) by (simp add: parseUnary_def Let_def)
        moreover have "weak_goal GoalPrimary (tl ts) = False" using dash by (auto simp: weak_goal_def minus_word_def)
        ultimately show ?thesis using bind [of GoalPrimary "tl ts" negate] negate_result [OF fine_weaken] by metis
      next
        case minus
        then have tl: "tokens_ok B (tl ts)" "t_kind (hd ts) = TokWord" using hd(3) by (simp_all add: minus_word_def)
        have "weak_word (drop 1 (t_text (hd ts)))"
          using hd(2) minus(2) by (cases "t_text (hd ts)"; cases "tl (t_text (hd ts))")
            (auto simp: token_ok_def word_ok_def weak_word_def minus_word_def)
        with tl hd(1) have "goal_ok lib B GoalPrimary ?swapped"
          by (auto simp: primary_ok_def tokens_ok_def intro: ended_Cons)
        moreover have "pbind (parse_goal n lib GoalPrimary ?swapped) negate = Some r"
          using not minus ts(2) by (auto simp: parseUnary_def Let_def minus_word_def lit_def)
        ultimately show ?thesis
          using bind [of GoalPrimary ?swapped negate] negate_result [of lib _ B _ r "weak_goal g ts"]
          by (metis (full_types) fine_weaken)
      next
        case primary
        then have "parse_goal n lib GoalPrimary ts = Some r"
          using not ts(2) by (auto simp: parseUnary_def Let_def minus_word_def lit_def)
        then show ?thesis
          by (rule call) (use hd(4) primary GoalUnary in \<open>auto simp: weak_goal_def\<close>)
      qed
    qed
  next
    case GoalPrimary
    with Suc.prems have ts: "primary_ok B ts" "parsePrimary lib (parse_goal n lib) ts = Some r" by simp_all
    then have pos: "t_pos (hd ts) \<le> B" "ended ts" by (simp_all add: primary_ok_def)
    from ended_hd(1) [OF pos(2)] obtain t us where t: "ts = t # us" by (cases ts) auto
    have tl: "t_kind t \<noteq> TokEOF \<Longrightarrow> tokens_ok B us" using primary_ok_tl [OF ts(1)] t by simp
    show ?thesis
    proof (cases "t_kind t")
      case TokWord
      with ts t parseChunk_result [of B t us "minus_word t" lib] GoalPrimary show ?thesis
        by (auto simp: parsePrimary_def Let_def weak_goal_def)
    next
      case TokLParen
      with tl have us: "tokens_ok B us" by simp
      show ?thesis
      proof (cases "t_kind (hd us) = TokRParen")
        case True
        with TokLParen ts(2) t pos(1) show ?thesis by (auto simp: parsePrimary_def)
      next
        case False
        with TokLParen ts(2) t have "pbind (parse_goal n lib GoalOr us) close_paren = Some r" by (simp add: parsePrimary_def)
        then show ?thesis
        proof (rule bind)
          fix x vs assume x: "fine lib (weak_goal GoalOr us) x" "tokens_ok B vs" "close_paren x vs = Some r"
          then show "result_ok lib B (weak_goal g ts) r"
            using tokens_ok_hd(1,3) [OF x(2)]
            by (auto simp: close_paren_def weak_goal_def GoalPrimary intro: fine_weaken split: if_splits)
        qed (use us in simp)
      qed
    next
      case TokString
      with ts(2) t tl show ?thesis by (auto simp: parsePrimary_def fine_def)
    qed (use ts(2) t pos(1) in \<open>auto simp: parsePrimary_def\<close>)
  qed
qed

section \<open>Positions\<close>

fun positions_ok :: "nat \<Rightarrow> rql_error + token list \<Rightarrow> bool" where
  "positions_ok B (Inl (RqlError m p)) = (p \<le> B)"
| "positions_ok B (Inr ts) = (\<forall>t\<in>set ts. t_pos t \<le> B)"

lemma positions_then: "t_pos t \<le> B \<Longrightarrow> positions_ok B r \<Longrightarrow> positions_ok B (then_lex t r)"
  by (cases "(B, r)" rule: positions_ok.cases) (auto simp: prepend_def)

lemma lexWord_split: "fst (lexWord chunk rs) @ snd (lexWord chunk rs) = chunk @ rs"
  by (induction chunk rs rule: lexWord.induct) auto

lemma lex_positions: "pos + length rs \<le> B \<Longrightarrow> positions_ok B (lex pos space rs)"
proof (induction pos space rs rule: lex.induct)
  case (1 pos space)
  then show ?case by (simp add: mk_token_def)
next
  case (2 pos space r rs)
  have pos: "t_pos (mk_token k w pos adj) \<le> B" for k w adj using "2.prems" by (simp add: mk_token_def)
  consider "is_space r" | "\<not> is_space r" "r = 40" | "\<not> is_space r" "r = 41"
    | "\<not> is_space r" "r = 34 \<or> r = 39" | "\<not> is_space r" "r \<noteq> 40" "r \<noteq> 41" "\<not> (r = 34 \<or> r = 39)" by blast
  then show ?case
  proof cases
    case 1
    then have "lex pos space (r # rs) = lex (pos + 1) True rs" by (simp add: lex.simps(2))
    with "2.IH"(1) [OF 1] "2.prems" show ?thesis by simp
  next
    case 2
    then have e: "lex pos space (r # rs) = then_lex (mk_token TokLParen [] pos (\<not> space)) (lex (pos + 1) False rs)"
      by (simp add: lex.simps(2))
    show ?thesis unfolding e by (rule positions_then [OF pos "2.IH"(2) [OF 2]]) (use "2.prems" in simp)
  next
    case 3
    then have e: "lex pos space (r # rs) = then_lex (mk_token TokRParen [] pos (\<not> space)) (lex (pos + 1) False rs)"
      by (simp add: lex.simps(2))
    show ?thesis unfolding e by (rule positions_then [OF pos "2.IH"(3)]) (use 3 "2.prems" in simp_all)
  next
    case 4
    then have n: "r \<noteq> 40" "r \<noteq> 41" by auto
    show ?thesis
    proof (cases "lexQuoted r [] rs")
      case None
      with 4 n have "lex pos space (r # rs) = Inl (RqlError ''unterminated quoted string'' pos)" by (simp add: lex.simps(2))
      with "2.prems" show ?thesis by simp
    next
      case (Some p)
      obtain body rest where p: "p = (body, rest)" by fastforce
      with lexQuoted_shorter [of r "[]" rs body rest] Some "2.prems"
      have B: "pos + 1 + (length rs - length rest) + length rest \<le> B" by simp
      from 4 n Some p have e: "lex pos space (r # rs) =
          then_lex (mk_token TokString body pos (\<not> space)) (lex (pos + 1 + (length rs - length rest)) False rest)"
        by (simp add: lex.simps(2))
      show ?thesis unfolding e by (rule positions_then [OF pos "2.IH"(4) [OF 4(1) n 4(2) Some p [symmetric] B]])
    qed
  next
    case 5
    then have e: "lex pos space (r # rs) = then_lex (mk_token TokWord (fst (lexWord [r] rs)) pos (\<not> space))
        (lex (pos + length (fst (lexWord [r] rs))) False (snd (lexWord [r] rs)))"
      by (simp add: lex.simps(2))
    have "length (fst (lexWord [r] rs) @ snd (lexWord [r] rs)) = length ([r] @ rs)"
      unfolding lexWord_split by (rule refl)
    then have "pos + length (fst (lexWord [r] rs)) + length (snd (lexWord [r] rs)) \<le> B" using "2.prems" by simp
    then show ?thesis unfolding e by (rule positions_then [OF pos "2.IH"(5) [OF 5]])
  qed
qed

lemma lex_tokens_ok: "lex 0 True input = Inr ts \<Longrightarrow> tokens_ok (length input) ts"
  using lex_tokens [of 0 True input ts] lex_positions [of 0 input "length input" True]
  by (auto simp: tokens_ok_def list_all_iff)

lemma Parse_result:
  assumes "Parse lib input = Some r"
  shows "case r of Inl (RqlError m p) \<Rightarrow> p \<le> length input | Inr None \<Rightarrow> True | Inr (Some n) \<Rightarrow> fine lib False n"
proof (cases "lex 0 True input")
  case (Inl e)
  with assms lex_positions [of 0 input "length input" True] show ?thesis by (cases e) (auto simp: Parse_def)
next
  case (Inr ts)
  note ts = lex_tokens_ok [OF Inr]
  show ?thesis
  proof (cases "at_end ts")
    case True
    with assms Inr show ?thesis by (auto simp: Parse_def)
  next
    case False
    then obtain q where q: "parse_goal (parse_fuel ts) lib GoalOr ts = Some q"
      using assms Inr by (cases "parse_goal (parse_fuel ts) lib GoalOr ts") (auto simp: Parse_def)
    with parse_goal_result [OF q, of "length input"] ts have "result_ok lib (length input) False q"
      by (simp add: weak_goal_def)
    with q assms Inr False tokens_ok_hd(1) [of "length input"] show ?thesis
      by (cases "(lib, length input, False, q)" rule: result_ok.cases) (auto simp: Parse_def split: if_splits)
  qed
qed

section \<open>A rendered query is its own rendering\<close>

lemma join_append: "xs \<noteq> [] \<Longrightarrow> ys \<noteq> [] \<Longrightarrow> join sep (xs @ ys) = join sep xs @ sep @ join sep ys"
  by (cases xs; cases ys) (simp_all add: join_def)

lemma join_Cons: "ys \<noteq> [] \<Longrightarrow> join sep (x # ys) = x @ sep @ join sep ys"
  by (cases ys) (simp_all add: join_def)

lemma join_concat:
  assumes "\<forall>xs\<in>set xss. xs \<noteq> []"
  shows "join sep (concat xss) = join sep (map (join sep) xss)"
  using assms
proof (induction xss)
  case (Cons xs xss)
  show ?case
  proof (cases xss)
    case Nil
    then show ?thesis by (simp add: join_def)
  next
    case (Cons ys yss)
    with Cons.prems have "concat xss \<noteq> []" by auto
    with Cons.prems Cons.IH Cons show ?thesis by (simp add: join_append join_Cons)
  qed
qed simp

lemma literal_text_norm: "literal_text lib (norm_literal lib v) = literal_text lib v"
  by (cases "l_kind v") (simp_all add: literal_text_def norm_literal_def literal_quoted_def)

lemma is_group_norm: "is_group b (norm lib n) = is_group b n" "is_simple (norm lib n) = is_simple n"
  by (cases n; simp)+

lemma conj_parts_ne: "node_ok lib b n \<Longrightarrow> conj_parts (norm lib n) \<noteq> []"
proof (induction n arbitrary: b)
  case (Conj cs)
  then show ?case by (cases cs) auto
qed simp_all

text \<open>The members of a flattened conjunction hold no conjunction themselves.\<close>

definition member_text :: "rql_lib \<Rightarrow> node \<Rightarrow> rtext" where
  "member_text lib c = parens (is_group False c) (String lib c)"

lemma String_members:
  assumes "conj_parts x \<noteq> []"
  shows "parens (is_group False x) (String lib x) = join (lit '' '') (map (member_text lib) (conj_parts x))"
  by (cases x) (simp_all add: member_text_def parens_def join_def cong: map_cong)

lemma String_norm: "node_ok lib b n \<Longrightarrow> String lib (norm lib n) = String lib n"
proof (induction n arbitrary: b)
  case (Comparison f p v)
  then show ?case by (simp add: literal_text_norm)
next
  case (Neg n)
  then show ?case by (auto simp: is_group_norm)
next
  case (Conj cs)
  have c: "c \<in> set cs \<Longrightarrow> node_ok lib False c" for c using Conj.prems by auto
  have "String lib (norm lib (Conj cs)) = join (lit '' '') (concat (map (\<lambda>c. map (member_text lib) (conj_parts (norm lib c))) cs))"
    by (simp add: member_text_def map_concat comp_def cong: map_cong)
  also have "\<dots> = join (lit '' '') (map (join (lit '' '')) (map (\<lambda>c. map (member_text lib) (conj_parts (norm lib c))) cs))"
    by (rule join_concat) (use c conj_parts_ne in auto)
  also have "map (join (lit '' '')) (map (\<lambda>c. map (member_text lib) (conj_parts (norm lib c))) cs) =
      map (\<lambda>c. parens (is_group False c) (String lib c)) cs"
    unfolding map_map comp_def
  proof (rule map_cong [OF refl])
    fix c assume "c \<in> set cs"
    with c have ok: "node_ok lib False c" by blast
    from String_members [OF conj_parts_ne [OF ok], of lib] Conj.IH [OF \<open>c \<in> set cs\<close> ok]
    show "join (lit '' '') (map (member_text lib) (conj_parts (norm lib c))) = parens (is_group False c) (String lib c)"
      by (simp add: is_group_norm)
  qed
  finally show ?case by simp
next
  case (Disj cs)
  have "map (\<lambda>c. parens (is_group True c) (String lib c)) (map (norm lib) cs) = map (\<lambda>c. parens (is_group True c) (String lib c)) cs"
    using Disj.IH [of _ False] Disj.prems by (auto simp: is_group_norm)
  then show ?case unfolding norm.simps String.simps by (rule arg_cong)
qed simp

section \<open>Properties\<close>

text \<open>
  C30: Rendering a parsed query and parsing it again gives the query back, with literals as they
  are written and conjunctions inside conjunctions flattened, and that rendering is stable: the
  query that comes back renders to the same text.  The phrases of the query must not hold white
  space other than blanks and tabs, which the rendering does not know to quote.
\<close>

theorem query_roundtrip:
  assumes "Parse lib input = Some (Inr (Some n))" "floats_read_back lib" "\<forall>v\<in>set (phrases n). text_ok v"
  shows "Parse lib (String lib n) = Some (Inr (Some (norm lib n))) \<and> String lib (norm lib n) = String lib n"
proof -
  from Parse_result [OF assms(1)] assms(2,3) have "node_ok lib False n" by (simp add: fine_def)
  then show ?thesis using Parse_String String_norm by blast
qed

definition small_lib :: rql_lib where
  "small_lib = \<lparr>q_parse_float = (\<lambda>t. if t = lit ''1'' then Some 0x3ff0000000000000 else None),
     q_show_float = (\<lambda>n. lit ''1''), q_lower_rune = (\<lambda>r. r)\<rparr>"

lemma small_lib_floats: "floats_read_back small_lib"
  by (simp add: floats_read_back_def small_lib_def number_ok_def number_runes_eq lit_def)

definition small_node :: node where
  "small_node = Disj [Conj [Comparison (lit ''a'') OpContains ((plain_literal LNumber (lit ''1''))\<lparr>l_num := 0x3ff0000000000000\<rparr>),
      Neg (Comparison (lit ''b'') OpGreaterEqual ((plain_literal LString (lit ''x-y''))\<lparr>l_quoted := True\<rparr>))],
    Neg (Conj [Txt (lit ''c''), Txt (lit ''d'')])]"

lemma one_finite: "\<not> float_nonfinite 0x3ff0000000000000"
  unfolding float_nonfinite_def by code_simp

lemma small_node_ok: "node_ok small_lib False small_node" and small_node_norm: "norm small_lib small_node = small_node"
  using small_lib_floats one_finite
  by (simp_all add: small_node_def comparison_ok_def field_ok_def literal_ok_def plain_literal_def norm_literal_def literal_quoted_def
      literal_text_def text_ok_def breaks_def is_space_def op_runes_def lit_def number_ok_def number_runes_eq small_lib_def)

lemma small_node_text: "String small_lib small_node = lit ''(a:1 -b>=\"x-y\") OR NOT (c d)''"
  by (simp add: small_node_def lit_def join_def parens_def literal_text_def plain_literal_def small_lib_def needsQuoting_iff
      quoting_runes_eq is_keyword_def quoted_def escape_rune_def)

lemma small_query: "Parse small_lib (lit ''(a:1 -b>=\"x-y\") OR NOT (c d)'') = Some (Inr (Some small_node))"
  using Parse_String [OF small_node_ok] by (simp add: small_node_text small_node_norm)

lemma query_roundtrip_witness:
  "Parse small_lib (String small_lib small_node) = Some (Inr (Some (norm small_lib small_node)))"
proof -
  have "\<forall>v\<in>set (phrases small_node). text_ok v" by (simp add: small_node_def text_ok_def lit_def is_space_def)
  from query_roundtrip [OF small_query small_lib_floats this] show ?thesis by blast
qed

text \<open>
  C31: Parsing returns on every input, with a query, with no query when the text is blank, or
  with an error whose position lies within the text.
\<close>

theorem query_parse_returns:
  "\<exists>r. Parse lib input = Some r \<and>
     (case r of Inl (RqlError m p) \<Rightarrow> p \<le> length input
      | Inr None \<Rightarrow> list_all is_space input
      | Inr (Some n) \<Rightarrow> \<not> list_all is_space input)"
proof -
  obtain r where r: "Parse lib input = Some r" using Parse_returns by blast
  have blank: "lex pos space s = Inr ts \<Longrightarrow> at_end ts \<longleftrightarrow> (\<forall>r\<in>set s. is_space r)" for pos space s ts
  proof (induction s arbitrary: pos space ts)
    case Nil
    then show ?case by (auto simp: at_end_def mk_token_def)
  next
    case (Cons a s)
    show ?case
    proof (cases "is_space a")
      case True
      with Cons show ?thesis by (simp add: lex.simps(2))
    next
      case False
      with Cons.prems show ?thesis
        by (auto simp: lex.simps(2) prepend_def at_end_def mk_token_def split: if_splits sum.splits option.splits)
    qed
  qed
  have "at_end ts \<longleftrightarrow> r = Inr None" if "lex 0 True input = Inr ts" for ts
    using r that by (auto simp: Parse_def split: option.splits sum.splits if_splits)
  moreover have "\<exists>ts. lex 0 True input = Inr ts" if "r = Inr x" for x
    using r that by (auto simp: Parse_def split: option.splits sum.splits if_splits)
  ultimately show ?thesis
    using r Parse_result [OF r] blank [of 0 True input] by (auto simp: list_all_iff split: sum.splits option.splits)
qed

end
