(* ===== verification/JsonText.thy ===== *)
theory JsonText
  imports RecordModel GoStrings
begin

text \<open>
  JSON as DuckDB reads it back, \<open>src/internal/rql/jsontext.go\<close>.  The decoder of the standard
  library is a parameter: the tokens it yields for a document, the members of an object it
  decodes in order, and a string literal's text.  \<open>writeJSON\<close> runs on fuel, one unit per token.
\<close>

section \<open>The decoder\<close>

text \<open>\<open>JOpen\<close> and \<open>JClose\<close> are the delimiters, of an object or of an array.\<close>

datatype jtok = JOpen bool | JClose bool | JStr string | JNum string | JBool bool | JNull

text \<open>
  What the code calls: \<open>j_tokens\<close> the tokens with \<open>UseNumber\<close> up to the end or to an error;
  \<open>j_members\<close> names and raw values until the first error, \<open>None\<close> when the document opens no
  object; \<open>j_unquote\<close> is \<open>json.Unmarshal\<close> into a string; \<open>j_float\<close> is \<open>strconv.ParseFloat\<close> where it
  returns no error; \<open>j_exp\<close> is \<open>strconv.FormatFloat(f, 'e', -1, 64)\<close>.
\<close>

record json_lib =
  j_tokens :: "string \<Rightarrow> jtok list"
  j_members :: "string \<Rightarrow> (string \<times> string) list option"
  j_unquote :: "string \<Rightarrow> string option"
  j_float :: "string \<Rightarrow> float64 option"
  j_exp :: "float64 \<Rightarrow> string"

definition member :: "json_lib \<Rightarrow> string \<Rightarrow> string \<Rightarrow> string option" where
  "member lib document key = (case j_members lib document of None \<Rightarrow> None | Some ms \<Rightarrow> map_of ms key)"

section \<open>Strings\<close>

definition hex_upper :: "nat \<Rightarrow> char" where
  "hex_upper n = (if n < 10 then digit_char n else char_of (55 + n))"

definition json_escape :: "char \<Rightarrow> string" where
  "json_escape c =
     (if c = CHR 34 \<or> c = CHR 92 then [CHR 92, c]
      else if c = CHR 8 then [CHR 92, CHR ''b'']
      else if c = CHR 12 then [CHR 92, CHR ''f'']
      else if c = CHR 10 then [CHR 92, CHR ''n'']
      else if c = CHR 13 then [CHR 92, CHR ''r'']
      else if c = CHR 9 then [CHR 92, CHR ''t'']
      else if (of_char c :: nat) < 32
        then [CHR 92, CHR ''u'', CHR ''0'', CHR ''0'', hex_upper (of_char c div 16), hex_upper (of_char c mod 16)]
      else [c])"

definition jsonString :: "string \<Rightarrow> string" where
  "jsonString text = CHR 34 # concat (map json_escape text) @ [CHR 34]"

section \<open>Numbers\<close>

definition is_real :: "string \<Rightarrow> bool" where
  "is_real text \<longleftrightarrow> list_ex (\<lambda>c. c = CHR ''.'' \<or> c = CHR ''e'' \<or> c = CHR ''E'') text"

definition float_abs :: "float64 \<Rightarrow> float64" where
  "float_abs f = take_bit 63 f"

definition float_signbit :: "float64 \<Rightarrow> bool" where
  "float_signbit f \<longleftrightarrow> bit f 63"

text \<open>\<open>strings.Cut\<close> at a character, where it is found, and \<open>strings.Replace\<close> of its first occurrence by nothing.\<close>

definition cut_at :: "char \<Rightarrow> string \<Rightarrow> string \<times> string" where
  "cut_at c s = (takeWhile (\<lambda>x. x \<noteq> c) s, tl (dropWhile (\<lambda>x. x \<noteq> c) s))"

text \<open>The digits with the decimal point \<open>point\<close> places after the first of them.\<close>

definition place_point :: "string \<Rightarrow> int \<Rightarrow> int \<Rightarrow> string" where
  "place_point digits pw point =
     (if point \<le> -6 \<or> point > 21
      then take 1 digits @ (if length digits > 1 then CHR ''.'' # drop 1 digits else []) @ CHR ''e'' # show_int pw
      else if point \<le> 0 then ''0.'' @ replicate (nat (- point)) (CHR ''0'') @ digits
      else if int (length digits) \<le> point then digits @ replicate (nat point - length digits) (CHR ''0'') @ ''.0''
      else take (nat point) digits @ CHR ''.'' # drop (nat point) digits)"

definition atoi :: "string \<Rightarrow> int" where
  "atoi s = (case parse_int 64 s of Some n \<Rightarrow> n | None \<Rightarrow> 0)"

definition jsonNumber :: "json_lib \<Rightarrow> string \<Rightarrow> string" where
  "jsonNumber lib text =
     (if \<not> is_real text then
        (case parse_int 64 text of
           Some n \<Rightarrow> show_int n
         | None \<Rightarrow> (case parse_uint 64 text of Some n \<Rightarrow> show_nat n | None \<Rightarrow> text))
      else case j_float lib text of
        None \<Rightarrow> text
      | Some f \<Rightarrow>
          (let (mantissa, exponent) = cut_at (CHR ''e'') (j_exp lib (float_abs f));
             digits = remove1 (CHR ''.'') mantissa;
             pw = atoi exponent
           in (if float_signbit f then ''-'' else '''') @ place_point digits pw (pw + 1)))"

section \<open>Values\<close>

fun delim :: "bool \<Rightarrow> bool \<Rightarrow> char" where
  "delim obj opening = (if obj then (if opening then CHR ''{'' else CHR ''}'') else (if opening then CHR ''['' else CHR '']''))"

text \<open>
  The next value, with the tokens after it; the second function is the loop over the members
  of the container that is open, \<open>first\<close> when none is written yet.  Nothing when the decoder
  stops first.
\<close>

fun writeJSON :: "json_lib \<Rightarrow> nat \<Rightarrow> jtok list \<Rightarrow> (string \<times> jtok list) option"
  and writeMembers :: "json_lib \<Rightarrow> nat \<Rightarrow> bool \<Rightarrow> bool \<Rightarrow> jtok list \<Rightarrow> (string \<times> jtok list) option" where
  "writeJSON lib 0 ts = None"
| "writeJSON lib (Suc n) [] = None"
| "writeJSON lib (Suc n) (JStr s # ts) = Some (jsonString s, ts)"
| "writeJSON lib (Suc n) (JNum s # ts) = Some (jsonNumber lib s, ts)"
| "writeJSON lib (Suc n) (JBool b # ts) = Some (show_bool b, ts)"
| "writeJSON lib (Suc n) (JNull # ts) = Some (''null'', ts)"
| "writeJSON lib (Suc n) (JClose obj # ts) = None"
| "writeJSON lib (Suc n) (JOpen obj # ts) =
     (case writeMembers lib n obj True ts of None \<Rightarrow> None | Some (s, rest) \<Rightarrow> Some (delim obj True # s, rest))"
| "writeMembers lib 0 obj first ts = None"
| "writeMembers lib (Suc n) obj first [] = None"
| "writeMembers lib (Suc n) obj first (JClose c # ts) = Some ([delim obj False], ts)"
| "writeMembers lib (Suc n) obj first (t # ts) =
     (let comma = (if first then '''' else '','')
      in if obj then
        (case t of
           JStr key \<Rightarrow>
             (case writeJSON lib n ts of
                None \<Rightarrow> None
              | Some (v, rest) \<Rightarrow>
                  (case writeMembers lib n obj False rest of
                     None \<Rightarrow> None
                   | Some (others, rest') \<Rightarrow> Some (comma @ jsonString key @ '':'' @ v @ others, rest')))
         | _ \<Rightarrow> None)
      else
        (case writeJSON lib n (t # ts) of
           None \<Rightarrow> None
         | Some (v, rest) \<Rightarrow>
             (case writeMembers lib n obj False rest of
                None \<Rightarrow> None
              | Some (others, rest') \<Rightarrow> Some (comma @ v @ others, rest'))))"

definition jsonValue :: "json_lib \<Rightarrow> string \<Rightarrow> fvalue option" where
  "jsonValue lib raw =
     (let trimmed = trim_space raw
      in case trimmed of
           [] \<Rightarrow> None
         | c # _ \<Rightarrow>
             (if c = CHR ''n'' then None
              else if c = CHR ''t'' \<or> c = CHR ''f'' then Some (StrV trimmed)
              else if c = CHR 34 then map_option StrV (j_unquote lib trimmed)
              else if c = CHR ''{'' \<or> c = CHR ''['' then
                map_option (\<lambda>(s, _). JSONV s) (writeJSON lib (2 * length (j_tokens lib trimmed) + 1) (j_tokens lib trimmed))
              else Some (StrV (jsonNumber lib trimmed))))"

definition jsonPath :: "json_lib \<Rightarrow> string \<Rightarrow> string \<Rightarrow> fvalue option" where
  "jsonPath lib document path =
     (case foldl (\<lambda>doc segment. Option.bind doc (\<lambda>d. member lib d segment)) (Some document) (split_on (CHR ''.'') path) of
        None \<Rightarrow> None
      | Some current \<Rightarrow> jsonValue lib current)"

section \<open>What is written\<close>

text \<open>A reference: the value as a tree, its tokens, and its compact text.\<close>

datatype jval = JVStr string | JVNum string | JVBool bool | JVNull | JVArray "jval list" | JVObject "(string \<times> jval) list"

fun tokens_of :: "jval \<Rightarrow> jtok list" where
  "tokens_of (JVStr s) = [JStr s]"
| "tokens_of (JVNum s) = [JNum s]"
| "tokens_of (JVBool b) = [JBool b]"
| "tokens_of JVNull = [JNull]"
| "tokens_of (JVArray vs) = JOpen False # concat (map tokens_of vs) @ [JClose False]"
| "tokens_of (JVObject ms) = JOpen True # concat (map (\<lambda>m. JStr (fst m) # tokens_of (snd m)) ms) @ [JClose True]"

definition commas :: "string list \<Rightarrow> string" where
  "commas parts = concat (case parts of [] \<Rightarrow> [] | p # ps \<Rightarrow> p # map (\<lambda>q. CHR '','' # q) ps)"

fun compact :: "json_lib \<Rightarrow> jval \<Rightarrow> string" where
  "compact lib (JVStr s) = jsonString s"
| "compact lib (JVNum s) = jsonNumber lib s"
| "compact lib (JVBool b) = show_bool b"
| "compact lib JVNull = ''null''"
| "compact lib (JVArray vs) = ''['' @ commas (map (compact lib) vs) @ '']''"
| "compact lib (JVObject ms) = ''{'' @ commas (map (\<lambda>m. jsonString (fst m) @ '':'' @ compact lib (snd m)) ms) @ ''}''"

lemma writeMembers_value:
  assumes "tokens_of v @ us = t # rest" "t \<noteq> JClose True" "t \<noteq> JClose False"
    and "writeJSON lib n (tokens_of v @ us) = Some (s, us)"
  shows "writeMembers lib (Suc n) False first (tokens_of v @ us) =
     (case writeMembers lib n False False us of None \<Rightarrow> None | Some (others, rest') \<Rightarrow>
        Some ((if first then '''' else '','') @ s @ others, rest'))"
proof -
  have "writeMembers lib (Suc n) False first (t # rest) =
     (case writeJSON lib n (t # rest) of None \<Rightarrow> None | Some (v, rest) \<Rightarrow>
        (case writeMembers lib n False False rest of None \<Rightarrow> None | Some (others, rest') \<Rightarrow>
          Some ((if first then '''' else '','') @ v @ others, rest')))"
    using assms(2,3) by (cases t) (simp_all add: Let_def cong: option.case_cong)
  with assms(1,4) show ?thesis by simp
qed

lemma tokens_of_start: "\<exists>t rest. tokens_of v @ us = t # rest \<and> t \<noteq> JClose True \<and> t \<noteq> JClose False"
  by (cases v) auto

lemma tokens_of_length: "0 < length (tokens_of v)"
  by (cases v) auto

lemma commas_Cons: "commas (p # ps) = p @ concat (map (\<lambda>q. CHR '','' # q) ps)"
  by (simp add: commas_def)

definition separated :: "bool \<Rightarrow> string list \<Rightarrow> string" where
  "separated first parts = (if first then commas parts else concat (map (\<lambda>q. CHR '','' # q) parts))"

lemma separated_Cons: "separated first (p # ps) = (if first then '''' else '','') @ p @ separated False ps"
  by (simp add: separated_def commas_Cons)

lemma separated_Nil [simp]: "separated first [] = ''''"
  by (simp add: separated_def commas_def)

lemma writeMembers_array:
  assumes "\<And>v n us. v \<in> set vs \<Longrightarrow> length (tokens_of v) \<le> n \<Longrightarrow> writeJSON lib n (tokens_of v @ us) = Some (compact lib v, us)"
    and "length (concat (map tokens_of vs)) < n"
  shows "writeMembers lib n False first (concat (map tokens_of vs) @ JClose False # us) =
    Some (separated first (map (compact lib) vs) @ '']'', us)"
  using assms
proof (induction vs arbitrary: n first)
  case Nil
  then show ?case by (cases n) auto
next
  case (Cons v vs)
  from Cons.prems(2) obtain m where n: "n = Suc m" by (cases n) auto
  have len: "length (tokens_of v) \<le> m" "length (concat (map tokens_of vs)) < m"
    using Cons.prems(2) tokens_of_length [of v] by (auto simp: n simp del: length_greater_0_conv)
  let ?rest = "concat (map tokens_of vs) @ JClose False # us"
  have v: "writeJSON lib m (tokens_of v @ ?rest) = Some (compact lib v, ?rest)"
    by (rule Cons.prems(1) [OF _ len(1)]) simp
  obtain t r where t: "tokens_of v @ ?rest = t # r" "t \<noteq> JClose True" "t \<noteq> JClose False"
    using tokens_of_start by metis
  from writeMembers_value [OF t v, of first]
  have "writeMembers lib n False first (tokens_of v @ ?rest) =
     (case writeMembers lib m False False ?rest of None \<Rightarrow> None | Some (others, rest') \<Rightarrow>
        Some ((if first then '''' else '','') @ compact lib v @ others, rest'))" by (simp add: n)
  also have "writeMembers lib m False False ?rest = Some (separated False (map (compact lib) vs) @ '']'', us)"
    by (rule Cons.IH [OF _ len(2)]) (use Cons.prems(1) in simp)
  finally show ?case by (simp add: separated_Cons)
qed

lemma writeMembers_object:
  assumes "\<And>k v n us. (k, v) \<in> set ms \<Longrightarrow> length (tokens_of v) \<le> n \<Longrightarrow> writeJSON lib n (tokens_of v @ us) = Some (compact lib v, us)"
    and "length (concat (map (\<lambda>m. JStr (fst m) # tokens_of (snd m)) ms)) < n"
  shows "writeMembers lib n True first (concat (map (\<lambda>m. JStr (fst m) # tokens_of (snd m)) ms) @ JClose True # us) =
    Some (separated first (map (\<lambda>m. jsonString (fst m) @ '':'' @ compact lib (snd m)) ms) @ ''}'', us)"
  using assms
proof (induction ms arbitrary: n first)
  case Nil
  then show ?case by (cases n) auto
next
  case (Cons m ms)
  obtain k v where m: "m = (k, v)" by fastforce
  from Cons.prems(2) obtain j where n: "n = Suc j" by (cases n) auto
  let ?ts = "concat (map (\<lambda>m. JStr (fst m) # tokens_of (snd m)) ms)"
  have len: "length (tokens_of v) \<le> j" "length ?ts < j"
    using Cons.prems(2) tokens_of_length [of v] by (auto simp: n m simp del: length_greater_0_conv)
  let ?rest = "?ts @ JClose True # us"
  have v: "writeJSON lib j (tokens_of v @ ?rest) = Some (compact lib v, ?rest)"
    by (rule Cons.prems(1) [OF _ len(1), of k]) (simp add: m)
  have "writeMembers lib j True False ?rest =
      Some (separated False (map (\<lambda>m. jsonString (fst m) @ '':'' @ compact lib (snd m)) ms) @ ''}'', us)"
    by (rule Cons.IH [OF _ len(2)]) (use Cons.prems(1) in auto)
  with v show ?case by (simp add: n m separated_Cons Let_def)
qed

lemma writeJSON_value: "length (tokens_of v) \<le> n \<Longrightarrow> writeJSON lib n (tokens_of v @ us) = Some (compact lib v, us)"
proof (induction v arbitrary: n us)
  case (JVArray vs)
  then obtain m where n: "n = Suc m" by (cases n) auto
  have "writeMembers lib m False True (concat (map tokens_of vs) @ JClose False # us) =
      Some (separated True (map (compact lib) vs) @ '']'', us)"
    by (rule writeMembers_array) (use JVArray n in auto)
  then show ?case by (simp add: n separated_def)
next
  case (JVObject ms)
  then obtain m where n: "n = Suc m" by (cases n) auto
  have "writeMembers lib m True True (concat (map (\<lambda>m. JStr (fst m) # tokens_of (snd m)) ms) @ JClose True # us) =
      Some (separated True (map (\<lambda>m. jsonString (fst m) @ '':'' @ compact lib (snd m)) ms) @ ''}'', us)"
  proof (rule writeMembers_object)
    fix k v n us assume "(k, v) \<in> set ms" "length (tokens_of v) \<le> n"
    then show "writeJSON lib n (tokens_of v @ us) = Some (compact lib v, us)"
      using JVObject.IH [of "(k, v)" v n us] by simp
  qed (use JVObject.prems n in simp)
  then show ?case by (simp add: n separated_def)
next
  case (JVStr s)
  then show ?case by (cases n) auto
next
  case (JVNum s)
  then show ?case by (cases n) auto
next
  case (JVBool b)
  then show ?case by (cases n) auto
next
  case JVNull
  then show ?case by (cases n) auto
qed

text \<open>A string literal read back, as a reference for what is escaped.\<close>

definition hex_val :: "char \<Rightarrow> nat" where
  "hex_val c = (if is_digit c then digit_val c else of_char c - 55)"

fun json_body :: "string \<Rightarrow> (string \<times> string) option" where
  "json_body [] = None"
| "json_body (c # cs) =
     (if c = CHR 34 then Some ([], cs)
      else if c = CHR 92 then
        (case cs of
           [] \<Rightarrow> None
         | e # r \<Rightarrow>
             (if e = CHR ''u'' then
                (case r of
                   a # b # x # y # r' \<Rightarrow>
                     map_option (apfst ((#) (char_of (16 * hex_val x + hex_val y)))) (json_body r')
                 | _ \<Rightarrow> None)
              else map_option (apfst ((#) (if e = CHR ''b'' then CHR 8 else if e = CHR ''f'' then CHR 12 else if e = CHR ''n'' then CHR 10
                else if e = CHR ''r'' then CHR 13 else if e = CHR ''t'' then CHR 9 else e))) (json_body r)))
      else if (of_char c :: nat) < 32 then None
      else map_option (apfst ((#) c)) (json_body cs))"

lemma hex_val_upper: "n < 16 \<Longrightarrow> hex_val (hex_upper n) = n"
proof (cases "n < 10")
  case False
  assume "n < 16"
  with False show ?thesis by (auto simp: hex_val_def hex_upper_def is_digit_def)
qed (simp add: hex_val_def hex_upper_def)

lemma json_escape_read: "json_body (json_escape c @ rest) = map_option (apfst ((#) c)) (json_body rest)"
proof -
  consider "c = CHR 34" | "c = CHR 92" | "c = CHR 8" | "c = CHR 12" | "c = CHR 10" | "c = CHR 13" | "c = CHR 9"
    | (control) "(of_char c :: nat) < 32" "c \<noteq> CHR 34" "c \<noteq> CHR 92" "c \<noteq> CHR 8" "c \<noteq> CHR 12" "c \<noteq> CHR 10" "c \<noteq> CHR 13" "c \<noteq> CHR 9"
    | (plain) "\<not> (of_char c :: nat) < 32" "c \<noteq> CHR 34" "c \<noteq> CHR 92" "c \<noteq> CHR 8" "c \<noteq> CHR 12" "c \<noteq> CHR 10" "c \<noteq> CHR 13" "c \<noteq> CHR 9"
    by blast
  then show ?thesis
  proof cases
    case control
    have lt: "of_char c div 16 < (16::nat)" "of_char c mod 16 < (16::nat)" using control(1) by auto
    have "char_of (16 * hex_val (hex_upper (of_char c div 16)) + hex_val (hex_upper (of_char c mod 16))) = c"
      unfolding hex_val_upper [OF lt(1)] hex_val_upper [OF lt(2)] by simp
    with control show ?thesis by (simp add: json_escape_def)
  next
    case plain
    then show ?thesis by (simp add: json_escape_def)
  qed (simp_all add: json_escape_def)
qed

lemma jsonString_read: "json_body (tl (jsonString s) @ rest) = Some (s, rest)"
proof -
  have "json_body (concat (map json_escape s) @ CHR 34 # rest) = Some (s, rest)"
    by (induction s) (simp_all add: json_escape_read del: json_body.simps(2), simp)
  then show ?thesis by (simp add: jsonString_def)
qed

text \<open>
  C35: The text of a nested container is its compact JSON: members in their order, repeats kept,
  nothing dropped whatever the depth, and every string in it reads back as the string it was.
\<close>

theorem json_value_text:
  assumes "trim_space raw = c # cs" "c = CHR ''{'' \<or> c = CHR ''[''" "j_tokens lib (c # cs) = tokens_of v @ rest"
  shows "jsonValue lib raw = Some (JSONV (compact lib v)) \<and> json_body (tl (jsonString s) @ after) = Some (s, after)"
proof -
  have "length (tokens_of v) \<le> 2 * length (tokens_of v @ rest) + 1" by simp
  from writeJSON_value [OF this, of lib rest] assms have "jsonValue lib raw = Some (JSONV (compact lib v))"
    by (auto simp: jsonValue_def)
  with jsonString_read show ?thesis by blast
qed

definition list_lib :: json_lib where
  "list_lib = \<lparr>j_tokens = (\<lambda>s. [JOpen False, JStr ''a'', JNull, JOpen True, JStr ''k'', JBool True, JClose True, JClose False]),
     j_members = (\<lambda>s. None), j_unquote = (\<lambda>s. None), j_float = (\<lambda>s. None), j_exp = (\<lambda>f. [])\<rparr>"

lemma json_value_text_witness:
  "jsonValue list_lib ''[...]'' = Some (JSONV (compact list_lib (JVArray [JVStr ''a'', JVNull, JVObject [(''k'', JVBool True)]])))"
proof -
  have "trim_space ''[...]'' = ''[...]''" by (rule trim_space_ascii) (simp_all add: is_ascii_def is_space_def)
  moreover have "j_tokens list_lib s = tokens_of (JVArray [JVStr ''a'', JVNull, JVObject [(''k'', JVBool True)]]) @ []" for s
    by (simp add: list_lib_def)
  ultimately show ?thesis using json_value_text [of "''[...]''" "CHR ''[''" "''...]''" list_lib] by blast
qed

end
