(* ===== verification/RqlPredicate.thy ===== *)
theory RqlPredicate
  imports Rql Severity JsonText
begin

text \<open>
  A query as a predicate on live records, \<open>src/internal/rql/predicate.go\<close>, with the level and
  timestamp literals it shares with the SQL compiler (\<open>levelOf\<close> and \<open>Timestamp\<close> in \<open>sql.go\<close>).
  Times are nanoseconds since the epoch; \<open>query_lib\<close> has what the code calls of the libraries.
\<close>

section \<open>Libraries\<close>

text \<open>What \<open>strconv.ParseFloat\<close> returns: a number, an infinity with \<open>ErrRange\<close>, or an error.\<close>

datatype parsed_float = Parsed float64 | OutOfRange float64 | NotANumber

record query_lib =
  ql_json :: json_lib
  ql_lower :: "string \<Rightarrow> string"                        \<comment> \<open>\<open>strings.ToLower\<close> beyond ASCII\<close>
  ql_upper :: "string \<Rightarrow> string"
  ql_regexp :: "string \<Rightarrow> (string \<Rightarrow> bool) option"      \<comment> \<open>\<open>regexp.Compile\<close> and \<open>MatchString\<close>\<close>
  ql_parse_float :: "string \<Rightarrow> parsed_float"
  ql_of_int :: "int \<Rightarrow> float64"
  ql_float_less :: "float64 \<Rightarrow> float64 \<Rightarrow> bool"
  ql_float_text :: "float64 \<Rightarrow> string"
  ql_integral :: "float64 \<Rightarrow> int option"                \<comment> \<open>\<open>int64(f)\<close> where \<open>f\<close> is \<open>math.Trunc(f)\<close>\<close>
  ql_parse_time :: "string \<Rightarrow> string \<Rightarrow> int option"      \<comment> \<open>\<open>time.Parse\<close> with a layout\<close>
  ql_time_text :: "int \<Rightarrow> string"                       \<comment> \<open>\<open>Format(timestampText)\<close> in UTC\<close>

definition utf8_rune :: "nat \<Rightarrow> string" where
  "utf8_rune r =
     (if r < 0x80 then [char_of r]
      else if r < 0x800 then [char_of (0xC0 + r div 64), char_of (0x80 + r mod 64)]
      else if 0xD800 \<le> r \<and> r < 0xE000 \<or> 0x10FFFF < r then [char_of (0xEF::nat), char_of (0xBF::nat), char_of (0xBD::nat)]
      else if r < 0x10000 then [char_of (0xE0 + r div 4096), char_of (0x80 + r div 64 mod 64), char_of (0x80 + r mod 64)]
      else [char_of (0xF0 + r div 262144), char_of (0x80 + r div 4096 mod 64), char_of (0x80 + r div 64 mod 64), char_of (0x80 + r mod 64)])"

text \<open>The Go string of a text of runes.\<close>

definition utf8 :: "rtext \<Rightarrow> string" where
  "utf8 t = concat (map utf8_rune t)"

definition go_lower :: "query_lib \<Rightarrow> string \<Rightarrow> string" where
  "go_lower lib s = to_lower (ql_lower lib) s"

section \<open>Literals\<close>

definition levelOf :: "query_lib \<Rightarrow> literal \<Rightarrow> string" where
  "levelOf lib v =
     (case (if l_kind v = LNumber then Option.bind (ql_integral lib (l_num v)) PinoLevel else None) of
        Some name \<Rightarrow> name
      | None \<Rightarrow> Level (ql_lower lib) (ql_upper lib) (utf8 (l_str v)))"

definition timestampLayouts :: "string list" where
  "timestampLayouts = [''2006-01-02T15:04:05.999999999Z07:00'', ''2006-01-02T15:04:05.999999999'',
     ''2006-01-02 15:04:05.999999999'', ''2006-01-02 15:04:05.999999999-07'', ''2006-01-02T15:04'', ''2006-01-02'']"

definition truncate_micro :: "int \<Rightarrow> int" where
  "truncate_micro t = t div 1000 * 1000"

fun first_layout :: "query_lib \<Rightarrow> string list \<Rightarrow> string \<Rightarrow> int option" where
  "first_layout lib [] t = None"
| "first_layout lib (layout # layouts) t =
     (case ql_parse_time lib layout t of Some at \<Rightarrow> Some (truncate_micro at) | None \<Rightarrow> first_layout lib layouts t)"

definition Timestamp :: "query_lib \<Rightarrow> literal \<Rightarrow> rql_error + int" where
  "Timestamp lib v = (case first_layout lib timestampLayouts (utf8 (l_str v)) of
     Some at \<Rightarrow> Inr at | None \<Rightarrow> Inl (RqlError ''not a timestamp'' 0))"

section \<open>Comparisons\<close>

fun compareOrder :: "int \<Rightarrow> Op \<Rightarrow> bool" where
  "compareOrder order OpEquals = (order = 0)"
| "compareOrder order OpLess = (order < 0)"
| "compareOrder order OpLessEqual = (order \<le> 0)"
| "compareOrder order OpGreater = (order > 0)"
| "compareOrder order OpGreaterEqual = (order \<ge> 0)"
| "compareOrder order p = False"

definition compareFloats :: "query_lib \<Rightarrow> float64 \<Rightarrow> float64 \<Rightarrow> Op \<Rightarrow> bool" where
  "compareFloats lib a b p =
     compareOrder
       (if float_nan a \<and> float_nan b then 0
        else if float_nan a then 1
        else if float_nan b then -1
        else if ql_float_less lib b a then 1
        else if ql_float_less lib a b then -1
        else 0) p"

definition compareTimes :: "int \<Rightarrow> int \<Rightarrow> Op \<Rightarrow> bool" where
  "compareTimes a b p = compareOrder (if a < b then -1 else if a > b then 1 else 0) p"

definition compareInts :: "query_lib \<Rightarrow> int \<Rightarrow> int \<Rightarrow> Op \<Rightarrow> bool" where
  "compareInts lib a b p = compareFloats lib (ql_of_int lib a) (ql_of_int lib b) p"

fun compareStrings :: "string \<Rightarrow> string \<Rightarrow> Op \<Rightarrow> bool" where
  "compareStrings a b OpEquals = (a = b)"
| "compareStrings a b OpLess = (a < b)"
| "compareStrings a b OpLessEqual = (a \<le> b)"
| "compareStrings a b OpGreater = (a > b)"
| "compareStrings a b OpGreaterEqual = (a \<ge> b)"
| "compareStrings a b p = False"

definition compareBools :: "bool \<Rightarrow> bool \<Rightarrow> Op \<Rightarrow> bool" where
  "compareBools a b p = compareOrder (if a \<and> \<not> b then 1 else if \<not> a \<and> b then -1 else 0) p"

definition text_number :: "query_lib \<Rightarrow> string \<Rightarrow> float64 option" where
  "text_number lib s =
     (let t = trim_space s
      in if list_ex (\<lambda>c. c = CHR ''x'' \<or> c = CHR ''X'') t then None
         else case ql_parse_float lib t of Parsed n \<Rightarrow> Some n | OutOfRange n \<Rightarrow> Some n | NotANumber \<Rightarrow> None)"

definition numericOf :: "query_lib \<Rightarrow> fvalue \<Rightarrow> float64 option" where
  "numericOf lib v =
     (case v_kind v of
        KindInt \<Rightarrow> Some (ql_of_int lib (v_int v))
      | KindFloat \<Rightarrow> Some (v_float v)
      | KindString \<Rightarrow> text_number lib (v_str v)
      | KindJSON \<Rightarrow> text_number lib (v_str v)
      | _ \<Rightarrow> None)"

definition live_text :: "query_lib \<Rightarrow> fvalue \<Rightarrow> string" where
  "live_text lib v = value_text (ql_float_text lib) v"

definition compareValue :: "query_lib \<Rightarrow> fvalue \<Rightarrow> literal \<Rightarrow> Op \<Rightarrow> bool" where
  "compareValue lib v l p =
     (if v_kind v = KindInt \<or> v_kind v = KindFloat then
        l_kind l = LNumber \<and> compareFloats lib (case numericOf lib v of Some n \<Rightarrow> n | None \<Rightarrow> 0) (l_num l) p
      else if v_kind v = KindBool then l_kind l = LBool \<and> compareBools (v_bool v) (l_bool l) p
      else if l_kind l = LNumber then
        (case numericOf lib v of Some n \<Rightarrow> compareFloats lib n (l_num l) p | None \<Rightarrow> False)
      else compareStrings (live_text lib v) (utf8 (l_str l)) p)"

section \<open>Fields of a record\<close>

definition isSeverityField :: "string \<Rightarrow> bool" where
  "isSeverityField f \<longleftrightarrow> f = ''level'' \<or> f = ''severity''"

definition isTimestampField :: "string \<Rightarrow> bool" where
  "isTimestampField f \<longleftrightarrow> f = ''ts'' \<or> f = ''time'' \<or> f = ''ingest_ts''"

definition timestampOf :: "rec \<Rightarrow> string \<Rightarrow> int" where
  "timestampOf r f = truncate_micro (if f = ''ingest_ts'' then r_ingest_ts r else r_ts r)"

definition int64_of :: "nat \<Rightarrow> int" where
  "int64_of n = sint (of_nat n :: 64 word)"

definition nonempty :: "string \<Rightarrow> fvalue option" where
  "nonempty s = (if s = [] then None else Some (StrV s))"

text \<open>The fields of the envelope, as \<open>lookup\<close> and the SQL resolver name them.\<close>

definition envelope_value :: "query_lib \<Rightarrow> rec \<Rightarrow> string \<Rightarrow> fvalue option option" where
  "envelope_value lib r f =
     (if f = ''level'' \<or> f = ''severity'' then Some (nonempty (r_level r))
      else if f = ''msg'' \<or> f = ''message'' then Some (nonempty (r_msg r))
      else if f = ''stream'' then Some (Some (StrV (r_stream r)))
      else if f = ''host'' then Some (nonempty (r_host r))
      else if f = ''raw'' then Some (Some (StrV (r_raw r)))
      else if f = ''seq'' then Some (Some (IntV (int64_of (r_seq r))))
      else if isTimestampField f then Some (Some (StrV (ql_time_text lib (timestampOf r f))))
      else if f = ''is_json'' then Some (Some (BoolV (is_object r)))
      else None)"

definition nested_value :: "query_lib \<Rightarrow> rec \<Rightarrow> string \<Rightarrow> fvalue option" where
  "nested_value lib r f =
     (if CHR ''.'' \<in> set f
      then (case map_of (r_fields r) (fst (cut_at (CHR ''.'') f)) of
              None \<Rightarrow> None
            | Some v \<Rightarrow> (if v_kind v = KindJSON then jsonPath (ql_json lib) (v_str v) (snd (cut_at (CHR ''.'') f)) else None))
      else None)"

definition lookup :: "query_lib \<Rightarrow> rec \<Rightarrow> string \<Rightarrow> fvalue option" where
  "lookup lib r f =
     (case envelope_value lib r f of
        Some v \<Rightarrow> v
      | None \<Rightarrow>
          (case map_of (r_fields r) f of
             Some v \<Rightarrow> (if v_kind v = KindNull then None else Some v)
           | None \<Rightarrow> nested_value lib r f))"

section \<open>Predicates\<close>

type_synonym predicate = "rec \<Rightarrow> bool"

definition on_value :: "query_lib \<Rightarrow> string \<Rightarrow> (fvalue \<Rightarrow> bool) \<Rightarrow> predicate" where
  "on_value lib f q = (\<lambda>r. case lookup lib r f of None \<Rightarrow> False | Some v \<Rightarrow> q v)"

definition comparisonPredicate :: "query_lib \<Rightarrow> rtext \<Rightarrow> Op \<Rightarrow> literal \<Rightarrow> rql_error + predicate" where
  "comparisonPredicate lib field p l =
     (let f = utf8 field
      in if p = OpExists then Inr (\<lambda>r. lookup lib r f \<noteq> None)
         else if l_kind l = LNull then
           (if p \<noteq> OpEquals then Inl (RqlError ''null can only be compared with ='' 0)
            else Inr (\<lambda>r. lookup lib r f = None))
         else if p = OpMatches then
           (case ql_regexp lib (utf8 (l_str l)) of
              None \<Rightarrow> Inl (RqlError ''invalid regular expression'' 0)
            | Some pattern \<Rightarrow> Inr (on_value lib f (\<lambda>v. pattern (live_text lib v))))
         else if p = OpContains then
           Inr (on_value lib f (\<lambda>v. sublist (go_lower lib (utf8 (l_str l))) (go_lower lib (live_text lib v))))
         else if isSeverityField f then
           (let level = levelOf lib l
            in Inr (on_value lib f (\<lambda>v. if p = OpEquals then live_text lib v = level
                 else compareInts lib (Rank (ql_upper lib) (live_text lib v)) (Rank (ql_upper lib) level) p)))
         else if isTimestampField f then
           (case Timestamp lib l of
              Inl e \<Rightarrow> Inl e
            | Inr at \<Rightarrow> Inr (\<lambda>r. compareTimes (timestampOf r f) at p))
         else Inr (on_value lib f (\<lambda>v. compareValue lib v l p)))"

fun compile_predicate :: "query_lib \<Rightarrow> node \<Rightarrow> rql_error + predicate" where
  "compile_predicate lib (Conj cs) =
     (case map_sum_list (compile_predicate lib) cs of
        Inl e \<Rightarrow> Inl e
      | Inr qs \<Rightarrow> Inr (\<lambda>r. list_all (\<lambda>q. q r) qs))"
| "compile_predicate lib (Disj cs) =
     (case map_sum_list (compile_predicate lib) cs of
        Inl e \<Rightarrow> Inl e
      | Inr qs \<Rightarrow> Inr (\<lambda>r. list_ex (\<lambda>q. q r) qs))"
| "compile_predicate lib (Neg n) =
     (case compile_predicate lib n of Inl e \<Rightarrow> Inl e | Inr q \<Rightarrow> Inr (\<lambda>r. \<not> q r))"
| "compile_predicate lib (Txt v) =
     Inr (\<lambda>r. sublist (go_lower lib (utf8 v)) (go_lower lib (r_msg r)) \<or> sublist (go_lower lib (utf8 v)) (go_lower lib (r_raw r)))"
| "compile_predicate lib (Comparison f p l) = comparisonPredicate lib f p l"

definition ToPredicate :: "query_lib \<Rightarrow> node option \<Rightarrow> rql_error + predicate" where
  "ToPredicate lib n = (case n of None \<Rightarrow> Inr (\<lambda>r. True) | Some n \<Rightarrow> compile_predicate lib n)"

end
