(* ===== verification/RqlSql.thy ===== *)
theory RqlSql
  imports RqlPredicate
begin

text \<open>
  A query as SQL, \<open>src/internal/rql/sql.go\<close>: the text of the condition with its placeholders and the
  arguments bound to them.  The resolver, which maps a field to a column expression, is an
  argument; \<open>src/internal/query/resolve.go\<close> provides it.
\<close>

section \<open>The compiler\<close>

datatype field_kind = FieldString | FieldNumber | FieldBool | FieldJSON | FieldSeverity | FieldTimestamp

type_synonym resolver = "rtext \<Rightarrow> (string \<times> field_kind) option"

datatype sql_arg = ArgStr string | ArgNum float64 | ArgBool bool | ArgTime int | ArgInt int

type_synonym sql_result = "rql_error + (string \<times> sql_arg list)"

definition bind :: "sql_arg \<Rightarrow> sql_arg list \<Rightarrow> string \<times> sql_arg list" where
  "bind v args = (''?'', args @ [v])"

definition escape_like_char :: "char \<Rightarrow> string" where
  "escape_like_char c = (if c = CHR 92 \<or> c = CHR ''%'' \<or> c = CHR ''_'' then [CHR 92, c] else [c])"

definition escapeLike :: "string \<Rightarrow> string" where
  "escapeLike s = concat (map escape_like_char s)"

definition castText :: "string \<Rightarrow> field_kind \<Rightarrow> string" where
  "castText expr k = (if k = FieldString then expr else ''CAST('' @ expr @ '' AS VARCHAR)'')"

definition Levels :: "string list" where
  "Levels = [''TRACE'', ''DEBUG'', ''INFO'', ''NOTICE'', ''WARN'', ''ERROR'', ''CRITICAL'', ''ALERT'', ''EMERGENCY'', ''FATAL'']"

definition quote :: string where "quote = [CHR 39]"

definition severityCase :: "string \<Rightarrow> string" where
  "severityCase expr =
     ''CASE WHEN nullif('' @ expr @ '', '' @ quote @ quote @ '') IS NULL THEN NULL ELSE CASE upper('' @ expr @ '')'' @
     concat (map (\<lambda>l. '' WHEN '' @ quote @ l @ quote @ '' THEN '' @ show_int (the (map_of SeverityRank l))) Levels) @
     '' ELSE '' @ show_int 33 @ '' END END''"

definition like_pattern :: "string \<Rightarrow> string" where
  "like_pattern v = ''%'' @ escapeLike v @ ''%''"

definition escape_clause :: string where
  "escape_clause = '' ESCAPE '' @ quote @ [CHR 92] @ quote"

definition sql_text :: "rtext \<Rightarrow> sql_arg list \<Rightarrow> string \<times> sql_arg list" where
  "sql_text value args =
     (let pattern = ArgStr (like_pattern (utf8 value));
          (p1, args1) = bind pattern args;
          (p2, args2) = bind pattern args1
      in (''(msg ILIKE '' @ p1 @ escape_clause @ '' OR raw ILIKE '' @ p2 @ escape_clause @ '')'', args2))"

text \<open>A comparison in parentheses with a bound value on its right.\<close>

definition compared :: "string \<Rightarrow> string \<Rightarrow> sql_arg \<Rightarrow> sql_arg list \<Rightarrow> sql_result" where
  "compared left p v args = (case bind v args of (mark, args') \<Rightarrow> Inr (''('' @ left @ '' '' @ p @ '' '' @ mark @ '')'', args'))"

definition ordered :: "query_lib \<Rightarrow> Op \<Rightarrow> literal \<Rightarrow> string \<Rightarrow> field_kind \<Rightarrow> sql_arg list \<Rightarrow> sql_result" where
  "ordered lib p v expr k args =
     (let operator = op_string p
      in case k of
           FieldSeverity \<Rightarrow>
             (let level = levelOf lib v
              in if p = OpEquals then compared expr ''='' (ArgStr level) args
                 else compared (severityCase expr) operator (ArgInt (Rank (ql_upper lib) level)) args)
         | FieldNumber \<Rightarrow> (if l_kind v \<noteq> LNumber then Inr (''FALSE'', args) else compared expr operator (ArgNum (l_num v)) args)
         | FieldBool \<Rightarrow> (if l_kind v \<noteq> LBool then Inr (''FALSE'', args) else compared expr operator (ArgBool (l_bool v)) args)
         | FieldTimestamp \<Rightarrow> (case Timestamp lib v of Inl e \<Rightarrow> Inl e | Inr at \<Rightarrow> compared expr operator (ArgTime at) args)
         | _ \<Rightarrow>
             (if l_kind v = LNumber then compared (''try_cast('' @ expr @ '' AS DOUBLE)'') operator (ArgNum (l_num v)) args
              else compared expr operator (ArgStr (utf8 (l_str v))) args))"

definition sql_comparison :: "query_lib \<Rightarrow> resolver \<Rightarrow> rtext \<Rightarrow> Op \<Rightarrow> literal \<Rightarrow> sql_arg list \<Rightarrow> sql_result" where
  "sql_comparison lib res field p v args =
     (case res field of
        None \<Rightarrow> Inr (''FALSE'', args)
      | Some (expr, k) \<Rightarrow>
          (if p = OpExists then Inr (''('' @ expr @ '' IS NOT NULL)'', args)
           else if l_kind v = LNull then
             (if p = OpEquals then Inr (''('' @ expr @ '' IS NULL)'', args)
              else Inl (RqlError ''null can only be compared with ='' 0))
           else if p = OpContains then
             (case bind (ArgStr (like_pattern (utf8 (l_str v)))) args of (mark, args') \<Rightarrow>
                Inr (''('' @ castText expr k @ '' ILIKE '' @ mark @ escape_clause @ '')'', args'))
           else if p = OpMatches then
             (if ql_regexp lib (utf8 (l_str v)) = None then Inl (RqlError ''invalid regular expression'' 0)
              else case bind (ArgStr (utf8 (l_str v))) args of (mark, args') \<Rightarrow>
                Inr (''regexp_matches('' @ castText expr k @ '', '' @ mark @ '')'', args'))
           else ordered lib p v expr k args))"

text \<open>The loop over the children of a conjunction or disjunction, which share the arguments.\<close>

fun sql_parts :: "(node \<Rightarrow> sql_arg list \<Rightarrow> sql_result) \<Rightarrow> node list \<Rightarrow> sql_arg list \<Rightarrow> rql_error + (string list \<times> sql_arg list)" where
  "sql_parts f [] args = Inr ([], args)"
| "sql_parts f (n # ns) args =
     (case f n args of
        Inl e \<Rightarrow> Inl e
      | Inr (s, args') \<Rightarrow>
          (case sql_parts f ns args' of Inl e \<Rightarrow> Inl e | Inr (ss, args'') \<Rightarrow> Inr (s # ss, args'')))"

lemma sql_parts_cong [fundef_cong]:
  "ns = ms \<Longrightarrow> args = args' \<Longrightarrow> (\<And>n a. n \<in> set ms \<Longrightarrow> f n a = g n a) \<Longrightarrow> sql_parts f ns args = sql_parts g ms args'"
  by (induction ms arbitrary: ns args args') (auto split: sum.splits)

fun sep_join :: "string \<Rightarrow> string list \<Rightarrow> string" where
  "sep_join sep [] = ''''"
| "sep_join sep [p] = p"
| "sep_join sep (p # q # ps) = p @ sep @ sep_join sep (q # ps)"

definition sql_join :: "string \<Rightarrow> rql_error + (string list \<times> sql_arg list) \<Rightarrow> sql_result" where
  "sql_join sep r = (case r of Inl e \<Rightarrow> Inl e | Inr (parts, args) \<Rightarrow> Inr (''('' @ sep_join sep parts @ '')'', args))"

fun compile_sql :: "query_lib \<Rightarrow> resolver \<Rightarrow> node \<Rightarrow> sql_arg list \<Rightarrow> sql_result" where
  "compile_sql lib res (Conj cs) args = sql_join '' AND '' (sql_parts (compile_sql lib res) cs args)"
| "compile_sql lib res (Disj cs) args = sql_join '' OR '' (sql_parts (compile_sql lib res) cs args)"
| "compile_sql lib res (Neg n) args =
     (case compile_sql lib res n args of
        Inl e \<Rightarrow> Inl e
      | Inr (inner, args') \<Rightarrow> Inr (''NOT coalesce('' @ inner @ '', FALSE)'', args'))"
| "compile_sql lib res (Txt v) args = Inr (sql_text v args)"
| "compile_sql lib res (Comparison f p v) args = sql_comparison lib res f p v args"

definition ToSQL :: "query_lib \<Rightarrow> resolver \<Rightarrow> node option \<Rightarrow> sql_result" where
  "ToSQL lib res n = (case n of None \<Rightarrow> Inr (''TRUE'', []) | Some n \<Rightarrow> compile_sql lib res n [])"

section \<open>The statement as a tree\<close>

text \<open>
  The conditions the compiler writes, as a syntax tree with the bound values in it: \<open>render\<close> is its
  text and \<open>args_of\<close> its arguments, in the order of the placeholders.
\<close>

datatype operand = Column string | AsText string | AsDouble string | LevelRank string

datatype sql =
    QTrue | QFalse
  | QAnd "sql list" | QOr "sql list" | QNot sql
  | QText sql_arg sql_arg
  | QIsNull string | QNotNull string
  | QLike operand sql_arg | QMatches operand sql_arg
  | QCompare operand Op sql_arg

fun render_operand :: "operand \<Rightarrow> string" where
  "render_operand (Column e) = e"
| "render_operand (AsText e) = ''CAST('' @ e @ '' AS VARCHAR)''"
| "render_operand (AsDouble e) = ''try_cast('' @ e @ '' AS DOUBLE)''"
| "render_operand (LevelRank e) = severityCase e"

fun render :: "sql \<Rightarrow> string" where
  "render QTrue = ''TRUE''"
| "render QFalse = ''FALSE''"
| "render (QAnd qs) = ''('' @ sep_join '' AND '' (map render qs) @ '')''"
| "render (QOr qs) = ''('' @ sep_join '' OR '' (map render qs) @ '')''"
| "render (QNot q) = ''NOT coalesce('' @ render q @ '', FALSE)''"
| "render (QText a b) = ''(msg ILIKE ?'' @ escape_clause @ '' OR raw ILIKE ?'' @ escape_clause @ '')''"
| "render (QIsNull e) = ''('' @ e @ '' IS NULL)''"
| "render (QNotNull e) = ''('' @ e @ '' IS NOT NULL)''"
| "render (QLike x a) = ''('' @ render_operand x @ '' ILIKE ?'' @ escape_clause @ '')''"
| "render (QMatches x a) = ''regexp_matches('' @ render_operand x @ '', ?)''"
| "render (QCompare x p a) = ''('' @ render_operand x @ '' '' @ op_string p @ '' ?)''"

fun args_of :: "sql \<Rightarrow> sql_arg list" where
  "args_of (QAnd qs) = concat (map args_of qs)"
| "args_of (QOr qs) = concat (map args_of qs)"
| "args_of (QNot q) = args_of q"
| "args_of (QText a b) = [a, b]"
| "args_of (QLike x a) = [a]"
| "args_of (QMatches x a) = [a]"
| "args_of (QCompare x p a) = [a]"
| "args_of _ = []"

definition as_text :: "string \<Rightarrow> field_kind \<Rightarrow> operand" where
  "as_text e k = (if k = FieldString then Column e else AsText e)"

definition ordered_tree :: "query_lib \<Rightarrow> Op \<Rightarrow> literal \<Rightarrow> string \<Rightarrow> field_kind \<Rightarrow> rql_error + sql" where
  "ordered_tree lib p v e k =
     (case k of
        FieldSeverity \<Rightarrow>
          Inr (if p = OpEquals then QCompare (Column e) OpEquals (ArgStr (levelOf lib v))
               else QCompare (LevelRank e) p (ArgInt (Rank (ql_upper lib) (levelOf lib v))))
      | FieldNumber \<Rightarrow> Inr (if l_kind v = LNumber then QCompare (Column e) p (ArgNum (l_num v)) else QFalse)
      | FieldBool \<Rightarrow> Inr (if l_kind v = LBool then QCompare (Column e) p (ArgBool (l_bool v)) else QFalse)
      | FieldTimestamp \<Rightarrow> (case Timestamp lib v of Inl err \<Rightarrow> Inl err | Inr at \<Rightarrow> Inr (QCompare (Column e) p (ArgTime at)))
      | _ \<Rightarrow> Inr (if l_kind v = LNumber then QCompare (AsDouble e) p (ArgNum (l_num v))
                  else QCompare (Column e) p (ArgStr (utf8 (l_str v)))))"

definition comparison_tree :: "query_lib \<Rightarrow> resolver \<Rightarrow> rtext \<Rightarrow> Op \<Rightarrow> literal \<Rightarrow> rql_error + sql" where
  "comparison_tree lib res field p v =
     (case res field of
        None \<Rightarrow> Inr QFalse
      | Some (e, k) \<Rightarrow>
          (if p = OpExists then Inr (QNotNull e)
           else if l_kind v = LNull then
             (if p = OpEquals then Inr (QIsNull e) else Inl (RqlError ''null can only be compared with ='' 0))
           else if p = OpContains then Inr (QLike (as_text e k) (ArgStr (like_pattern (utf8 (l_str v)))))
           else if p = OpMatches then
             (if ql_regexp lib (utf8 (l_str v)) = None then Inl (RqlError ''invalid regular expression'' 0)
              else Inr (QMatches (as_text e k) (ArgStr (utf8 (l_str v)))))
           else ordered_tree lib p v e k))"

fun compile_tree :: "query_lib \<Rightarrow> resolver \<Rightarrow> node \<Rightarrow> rql_error + sql" where
  "compile_tree lib res (Conj cs) =
     (case map_sum_list (compile_tree lib res) cs of Inl e \<Rightarrow> Inl e | Inr qs \<Rightarrow> Inr (QAnd qs))"
| "compile_tree lib res (Disj cs) =
     (case map_sum_list (compile_tree lib res) cs of Inl e \<Rightarrow> Inl e | Inr qs \<Rightarrow> Inr (QOr qs))"
| "compile_tree lib res (Neg n) = (case compile_tree lib res n of Inl e \<Rightarrow> Inl e | Inr q \<Rightarrow> Inr (QNot q))"
| "compile_tree lib res (Txt v) = Inr (QText (ArgStr (like_pattern (utf8 v))) (ArgStr (like_pattern (utf8 v))))"
| "compile_tree lib res (Comparison f p v) = comparison_tree lib res f p v"

definition query_tree :: "query_lib \<Rightarrow> resolver \<Rightarrow> node option \<Rightarrow> rql_error + sql" where
  "query_tree lib res n = (case n of None \<Rightarrow> Inr QTrue | Some n \<Rightarrow> compile_tree lib res n)"

text \<open>The compiler writes the tree.\<close>

definition written :: "sql_arg list \<Rightarrow> rql_error + sql \<Rightarrow> sql_result" where
  "written args r = (case r of Inl e \<Rightarrow> Inl e | Inr q \<Rightarrow> Inr (render q, args @ args_of q))"

lemma written_simps [simp]: "written args (Inl e) = Inl e" "written args (Inr q) = Inr (render q, args @ args_of q)"
  by (simp_all add: written_def)

lemma compared_written: "compared left (op_string p) v args = Inr (''('' @ left @ '' '' @ op_string p @ '' ?)'', args @ [v])"
  by (simp add: compared_def bind_def)

lemma compared_equals: "compared left ''='' v args = Inr (''('' @ left @ '' = ?)'', args @ [v])"
  by (simp add: compared_def bind_def)

lemma ordered_written: "ordered lib p v e k args = written args (ordered_tree lib p v e k)"
  by (cases k) (simp_all add: ordered_def ordered_tree_def Let_def compared_written compared_equals split: sum.splits)

lemma castText_operand: "castText e k = render_operand (as_text e k)"
  by (simp add: castText_def as_text_def)

lemma comparison_written: "sql_comparison lib res f p v args = written args (comparison_tree lib res f p v)"
proof (cases "res f")
  case None
  then show ?thesis by (simp add: sql_comparison_def comparison_tree_def)
next
  case (Some x)
  obtain e k where x: "x = (e, k)" by fastforce
  show ?thesis
    unfolding sql_comparison_def comparison_tree_def Some x option.case prod.case ordered_written castText_operand
    by (simp add: bind_def)
qed

lemma sql_parts_written:
  assumes "\<And>n args. n \<in> set ns \<Longrightarrow> f n args = written args (g n)"
  shows "sql_parts f ns args = (case map_sum_list g ns of Inl e \<Rightarrow> Inl e | Inr qs \<Rightarrow> Inr (map render qs, args @ concat (map args_of qs)))"
  using assms
proof (induction ns arbitrary: args)
  case (Cons n ns)
  then show ?case by (cases "g n") (auto split: sum.splits)
qed simp

lemma compile_written: "compile_sql lib res n args = written args (compile_tree lib res n)"
proof (induction n arbitrary: args)
  case (Conj cs)
  have "sql_parts (compile_sql lib res) cs args =
      (case map_sum_list (compile_tree lib res) cs of Inl e \<Rightarrow> Inl e | Inr qs \<Rightarrow> Inr (map render qs, args @ concat (map args_of qs)))"
    by (rule sql_parts_written) (rule Conj.IH)
  then show ?case by (simp add: sql_join_def split: sum.splits)
next
  case (Disj cs)
  have "sql_parts (compile_sql lib res) cs args =
      (case map_sum_list (compile_tree lib res) cs of Inl e \<Rightarrow> Inl e | Inr qs \<Rightarrow> Inr (map render qs, args @ concat (map args_of qs)))"
    by (rule sql_parts_written) (rule Disj.IH)
  then show ?case by (simp add: sql_join_def split: sum.splits)
next
  case (Neg n)
  then show ?case by (cases "compile_tree lib res n") simp_all
qed (simp_all add: comparison_written sql_text_def bind_def Let_def)

lemma ToSQL_written: "ToSQL lib res n = written [] (query_tree lib res n)"
  by (cases n) (simp_all add: ToSQL_def query_tree_def compile_written)

end
