(* ===== verification/RqlAgree.thy ===== *)
theory RqlAgree
  imports RqlSql
begin

text \<open>
  The two compilers of a query agree: the SQL condition is true of a stored row exactly where the
  predicate holds of the record.  SQL's conditions are evaluated in three-valued logic; what DuckDB
  does with a column, a case, a cast or a pattern is a parameter, and \<open>duck_behaves\<close> states its
  documented behaviour.  \<open>LIKE\<close> is defined here, so that the escaping of its wildcards is proved.
\<close>

section \<open>Patterns\<close>

text \<open>\<open>LIKE\<close> with \<open>ESCAPE '\'\<close>; \<open>_\<close> is a single byte, which escaped patterns do not use.\<close>

function like :: "string \<Rightarrow> string \<Rightarrow> bool" where
  "like [] s = (s = [])"
| "like (c # p) s =
     (if c = CHR ''%'' then like p s \<or> (case s of [] \<Rightarrow> False | x # s' \<Rightarrow> like (c # p) s')
      else if c = CHR 92 then
        (case p of [] \<Rightarrow> False | d # p' \<Rightarrow> (case s of [] \<Rightarrow> False | x # s' \<Rightarrow> x = d \<and> like p' s'))
      else if c = CHR ''_'' then (case s of [] \<Rightarrow> False | x # s' \<Rightarrow> like p s')
      else (case s of [] \<Rightarrow> False | x # s' \<Rightarrow> x = c \<and> like p s'))"
  by pat_completeness auto
termination by (relation "measure (\<lambda>(p, s). length p + length s)") auto

declare like.simps(2) [simp del]

lemma like_percent: "like (CHR ''%'' # p) s \<longleftrightarrow> (\<exists>a b. s = a @ b \<and> like p b)"
proof (induction s)
  case Nil
  then show ?case by (simp add: like.simps(2))
next
  case (Cons x s)
  have "like (CHR ''%'' # p) (x # s) \<longleftrightarrow> like p (x # s) \<or> like (CHR ''%'' # p) s" by (simp add: like.simps(2))
  also have "\<dots> \<longleftrightarrow> (\<exists>a b. x # s = a @ b \<and> like p b)"
    unfolding Cons.IH by (metis append_Cons append_Nil Cons_eq_append_conv)
  finally show ?case .
qed

lemma like_escape: "like (escapeLike v @ p) s \<longleftrightarrow> (\<exists>t. s = v @ t \<and> like p t)"
proof (induction v arbitrary: s)
  case Nil
  then show ?case by (simp add: escapeLike_def)
next
  case (Cons c v)
  have "like (escape_like_char c @ escapeLike v @ p) s \<longleftrightarrow> (\<exists>s'. s = c # s' \<and> like (escapeLike v @ p) s')"
    by (cases s) (auto simp: escape_like_char_def like.simps(2))
  with Cons.IH show ?case by (auto simp: escapeLike_def)
qed

lemma like_pattern_contains: "like (like_pattern v) s \<longleftrightarrow> sublist v s"
  unfolding like_pattern_def
  by (simp add: like_percent like_escape) (auto simp: sublist_def like_percent)

text \<open>Case mapping that treats the special characters of patterns as characters without case.\<close>

definition specials :: "char set" where "specials = {CHR 92, CHR ''%'', CHR ''_''}"

definition keeps_specials :: "(string \<Rightarrow> string) \<Rightarrow> bool" where
  "keeps_specials lower \<longleftrightarrow>
     (\<forall>a b. \<forall>c\<in>specials. lower (a @ c # b) = lower a @ c # lower b) \<and>
     (\<forall>a. set a \<inter> specials = {} \<longrightarrow> set (lower a) \<inter> specials = {}) \<and> lower [] = []"

lemma escapeLike_plain: "set v \<inter> specials = {} \<Longrightarrow> escapeLike v = v"
  by (induction v) (auto simp: escapeLike_def escape_like_char_def specials_def)

lemma escapeLike_append: "escapeLike (a @ b) = escapeLike a @ escapeLike b"
  by (simp add: escapeLike_def)

lemma escapeLike_special: "c \<in> specials \<Longrightarrow> escapeLike (c # b) = CHR 92 # c # escapeLike b"
  by (auto simp: escapeLike_def escape_like_char_def specials_def)

lemma lower_escapeLike:
  assumes "keeps_specials lower"
  shows "lower (escapeLike v) = escapeLike (lower v)"
proof (induction "length v" arbitrary: v rule: less_induct)
  case less
  from assms have law: "\<And>a b c. c \<in> specials \<Longrightarrow> lower (a @ c # b) = lower a @ c # lower b"
    "\<And>a. set a \<inter> specials = {} \<Longrightarrow> set (lower a) \<inter> specials = {}" "lower [] = []"
    by (auto simp: keeps_specials_def)
  show ?case
  proof (cases "set v \<inter> specials = {}")
    case True
    then show ?thesis using law(2) by (simp add: escapeLike_plain)
  next
    case False
    then have "\<exists>x\<in>set v. x \<in> specials" by blast
    from split_list_first_prop [OF this] obtain a c b where
      v: "v = a @ c # b" "c \<in> specials" "\<forall>x\<in>set a. x \<notin> specials" by blast
    have a: "set a \<inter> specials = {}" using v(3) by blast
    have bs: "CHR 92 \<in> specials" by (simp add: specials_def)
    have front: "lower (c # w) = c # lower w" for w using law(1) [OF v(2), of "[]" w] law(3) by simp
    have "lower (escapeLike v) = lower (a @ CHR 92 # c # escapeLike b)"
      by (simp add: v(1) escapeLike_append escapeLike_special [OF v(2)] escapeLike_plain [OF a])
    also have "\<dots> = lower a @ CHR 92 # c # lower (escapeLike b)" by (simp add: law(1) [OF bs] front)
    also have "lower (escapeLike b) = escapeLike (lower b)" by (rule less) (simp add: v(1))
    also have "lower a @ CHR 92 # c # escapeLike (lower b) = escapeLike (lower a @ c # lower b)"
      by (simp add: escapeLike_append escapeLike_special [OF v(2)] escapeLike_plain [OF law(2) [OF a]])
    also have "lower a @ c # lower b = lower v" by (simp add: v(1) law(1) [OF v(2)])
    finally show ?thesis .
  qed
qed

lemma lower_like_pattern:
  assumes "keeps_specials lower"
  shows "lower (like_pattern v) = like_pattern (lower v)"
proof -
  from assms have law: "\<And>a b. lower (a @ CHR ''%'' # b) = lower a @ CHR ''%'' # lower b" "lower [] = []"
    by (auto simp: keeps_specials_def specials_def)
  have "lower (like_pattern v) = lower ([] @ CHR ''%'' # (escapeLike v @ CHR ''%'' # []))"
    by (simp add: like_pattern_def)
  also have "\<dots> = lower [] @ CHR ''%'' # lower (escapeLike v) @ CHR ''%'' # lower []"
    by (simp only: law(1))
  also have "\<dots> = CHR ''%'' # lower (escapeLike v) @ ''%''" by (simp add: law(2))
  finally show ?thesis by (simp add: like_pattern_def lower_escapeLike [OF assms])
qed

section \<open>Evaluating a condition\<close>

datatype sql_cell = CNull | CText string | CNum float64 | CBool bool | CTime int | CInt int

text \<open>A row of a query: the value of every column expression, and DuckDB's functions.\<close>

record duck =
  d_column :: "string \<Rightarrow> sql_cell"
  d_lower :: "string \<Rightarrow> string"
  d_upper :: "string \<Rightarrow> string"
  d_text :: "sql_cell \<Rightarrow> string"                \<comment> \<open>\<open>CAST(_ AS VARCHAR)\<close>\<close>
  d_double :: "string \<Rightarrow> float64 option"    \<comment> \<open>\<open>try_cast(_ AS DOUBLE)\<close>\<close>
  d_matches :: "string \<Rightarrow> string \<Rightarrow> bool"   \<comment> \<open>\<open>regexp_matches\<close>\<close>
  d_order :: "float64 \<Rightarrow> float64 \<Rightarrow> int"    \<comment> \<open>order of \<open>DOUBLE\<close>\<close>

fun and3 :: "bool option list \<Rightarrow> bool option" where
  "and3 bs = (if Some False \<in> set bs then Some False else if None \<in> set bs then None else Some True)"

fun or3 :: "bool option list \<Rightarrow> bool option" where
  "or3 bs = (if Some True \<in> set bs then Some True else if None \<in> set bs then None else Some False)"

definition level_rank :: "duck \<Rightarrow> string \<Rightarrow> sql_cell" where
  "level_rank db s =
     (if s = [] then CNull
      else CInt (case map_of (map (\<lambda>l. (l, the (map_of SeverityRank l))) Levels) (d_upper db s) of Some n \<Rightarrow> n | None \<Rightarrow> 33))"

fun cell_of :: "duck \<Rightarrow> operand \<Rightarrow> sql_cell" where
  "cell_of db (Column e) = d_column db e"
| "cell_of db (AsText e) = (if d_column db e = CNull then CNull else CText (d_text db (d_column db e)))"
| "cell_of db (AsDouble e) =
     (case d_column db e of
        CText s \<Rightarrow> (case d_double db s of Some f \<Rightarrow> CNum f | None \<Rightarrow> CNull)
      | CNum f \<Rightarrow> CNum f
      | _ \<Rightarrow> CNull)"
| "cell_of db (LevelRank e) = (case d_column db e of CText s \<Rightarrow> level_rank db s | _ \<Rightarrow> CNull)"

fun cell_compare :: "duck \<Rightarrow> sql_cell \<Rightarrow> Op \<Rightarrow> sql_arg \<Rightarrow> bool option" where
  "cell_compare db (CText a) p (ArgStr b) = Some (compareStrings a b p)"
| "cell_compare db (CNum a) p (ArgNum b) = Some (compareOrder (d_order db a b) p)"
| "cell_compare db (CBool a) p (ArgBool b) = Some (compareBools a b p)"
| "cell_compare db (CTime a) p (ArgTime b) = Some (compareTimes a b p)"
| "cell_compare db (CInt a) p (ArgInt b) = Some (compareOrder (a - b) p)"
| "cell_compare db c p v = None"

fun cell_like :: "duck \<Rightarrow> sql_cell \<Rightarrow> sql_arg \<Rightarrow> bool option" where
  "cell_like db (CText s) (ArgStr pat) = Some (like (d_lower db pat) (d_lower db s))"
| "cell_like db c v = None"

fun cell_matches :: "duck \<Rightarrow> sql_cell \<Rightarrow> sql_arg \<Rightarrow> bool option" where
  "cell_matches db (CText s) (ArgStr pat) = Some (d_matches db s pat)"
| "cell_matches db c v = None"

fun eval :: "duck \<Rightarrow> sql \<Rightarrow> bool option" where
  "eval db QTrue = Some True"
| "eval db QFalse = Some False"
| "eval db (QAnd qs) = and3 (map (eval db) qs)"
| "eval db (QOr qs) = or3 (map (eval db) qs)"
| "eval db (QNot q) = Some (eval db q \<noteq> Some True)"
| "eval db (QText a b) = or3 [cell_like db (d_column db ''msg'') a, cell_like db (d_column db ''raw'') b]"
| "eval db (QIsNull e) = Some (d_column db e = CNull)"
| "eval db (QNotNull e) = Some (d_column db e \<noteq> CNull)"
| "eval db (QLike x v) = cell_like db (cell_of db x) v"
| "eval db (QMatches x v) = cell_matches db (cell_of db x) v"
| "eval db (QCompare x p v) = cell_compare db (cell_of db x) p v"

definition holds_sql :: "duck \<Rightarrow> sql \<Rightarrow> bool" where
  "holds_sql db q \<longleftrightarrow> eval db q = Some True"

lemma holds_and: "holds_sql db (QAnd qs) \<longleftrightarrow> list_all (holds_sql db) qs"
proof -
  have "and3 bs = Some True \<longleftrightarrow> (\<forall>b\<in>set bs. b = Some True)" for bs by (auto split: if_splits) (metis (full_types) not_None_eq)
  then show ?thesis by (auto simp: holds_sql_def list_all_iff simp del: and3.simps)
qed

lemma holds_or: "holds_sql db (QOr qs) \<longleftrightarrow> list_ex (holds_sql db) qs"
  by (auto simp: holds_sql_def list_ex_iff image_iff eq_commute [of "Some True"])

section \<open>What is documented of DuckDB, and how a row stores a record\<close>

definition duck_behaves :: "query_lib \<Rightarrow> duck \<Rightarrow> bool" where
  "duck_behaves lib db \<longleftrightarrow>
     (\<forall>s. d_lower db s = go_lower lib s) \<and> keeps_specials (go_lower lib) \<and>
     (\<forall>s. d_upper db s = to_upper (ql_upper lib) s) \<and>
     (\<forall>s. d_double db s = text_number lib s) \<and>
     (\<forall>s pat m. ql_regexp lib pat = Some m \<longrightarrow> d_matches db s pat = m s) \<and>
     (\<forall>a b p. compareOrder (d_order db a b) p = compareFloats lib a b p) \<and>
     (\<forall>a b p. 0 \<le> a \<longrightarrow> a \<le> 60 \<longrightarrow> 0 \<le> b \<longrightarrow> b \<le> 60 \<longrightarrow> compareInts lib a b p = compareOrder (a - b) p)"

text \<open>The sql_cell of a value, by the kind its column has; text operators read every kind as its text.\<close>

definition stores :: "query_lib \<Rightarrow> duck \<Rightarrow> rec \<Rightarrow> string \<Rightarrow> field_kind \<Rightarrow> fvalue \<Rightarrow> sql_cell \<Rightarrow> bool" where
  "stores lib db r f k v c \<longleftrightarrow> c \<noteq> CNull \<and> (k \<noteq> FieldString \<longrightarrow> d_text db c = live_text lib v) \<and>
     (case k of
        FieldNumber \<Rightarrow> (v_kind v = KindInt \<or> v_kind v = KindFloat) \<and> Some c = map_option CNum (numericOf lib v)
      | FieldBool \<Rightarrow> v_kind v = KindBool \<and> c = CBool (v_bool v)
      | FieldTimestamp \<Rightarrow> c = CTime (timestampOf r f)
      | _ \<Rightarrow> (v_kind v = KindString \<or> v_kind v = KindJSON) \<and> c = CText (live_text lib v))"

definition resolves :: "query_lib \<Rightarrow> duck \<Rightarrow> resolver \<Rightarrow> rec \<Rightarrow> rtext \<Rightarrow> bool" where
  "resolves lib db res r f \<longleftrightarrow>
     (case res f of
        None \<Rightarrow> lookup lib r (utf8 f) = None
      | Some (e, k) \<Rightarrow> (k = FieldSeverity \<longleftrightarrow> isSeverityField (utf8 f)) \<and> (k = FieldTimestamp \<longleftrightarrow> isTimestampField (utf8 f)) \<and>
          (case lookup lib r (utf8 f) of
             None \<Rightarrow> d_column db e = CNull
           | Some v \<Rightarrow> stores lib db r (utf8 f) k v (d_column db e)))"

text \<open>A record without a message stores an empty one or none; levels are stored without surrounding space.\<close>

definition stored_row :: "query_lib \<Rightarrow> duck \<Rightarrow> resolver \<Rightarrow> rec \<Rightarrow> bool" where
  "stored_row lib db res r \<longleftrightarrow>
     (d_column db ''msg'' = CText (r_msg r) \<or> r_msg r = [] \<and> d_column db ''msg'' = CNull) \<and>
     d_column db ''raw'' = CText (r_raw r) \<and> trim_space (r_level r) = r_level r \<and> (\<forall>f. resolves lib db res r f)"

text \<open>Every field that is compared with \<open>null\<close> resolves.\<close>

fun nulls_resolve :: "resolver \<Rightarrow> node \<Rightarrow> bool" where
  "nulls_resolve res (Comparison f p v) \<longleftrightarrow> p = OpExists \<or> l_kind v \<noteq> LNull \<or> res f \<noteq> None"
| "nulls_resolve res (Txt v) \<longleftrightarrow> True"
| "nulls_resolve res (Neg n) \<longleftrightarrow> nulls_resolve res n"
| "nulls_resolve res (Conj cs) \<longleftrightarrow> list_all (nulls_resolve res) cs"
| "nulls_resolve res (Disj cs) \<longleftrightarrow> list_all (nulls_resolve res) cs"

section \<open>Agreement\<close>

lemma Levels_ranks: "map (\<lambda>l. (l, the (map_of SeverityRank l))) Levels = SeverityRank"
  by (simp add: Levels_def SeverityRank_def)

lemma cell_contains:
  assumes "duck_behaves lib db"
  shows "cell_like db (CText s) (ArgStr (like_pattern v)) = Some (sublist (go_lower lib v) (go_lower lib s))"
  using assms by (simp add: duck_behaves_def lower_like_pattern like_pattern_contains)

lemma as_text_cell:
  assumes "stores lib db r f k v (d_column db e)"
  shows "cell_of db (as_text e k) = CText (live_text lib v)"
  using assms by (cases "k = FieldString") (auto simp: stores_def as_text_def)

lemma Rank_bounds: "0 \<le> Rank up s" "Rank up s \<le> 60"
  by (auto simp: Rank_def SeverityRank_def split: option.split if_splits dest!: map_of_SomeD)

lemma level_rank_eq:
  assumes "duck_behaves lib db" "trim_space s = s" "s \<noteq> []"
  shows "level_rank db s = CInt (Rank (ql_upper lib) s)"
  using assms by (auto simp: level_rank_def Levels_ranks duck_behaves_def Rank_def split: option.splits)

lemma lookup_level:
  assumes "isSeverityField f"
  shows "lookup lib r f = nonempty (r_level r)"
  using assms by (simp add: lookup_def envelope_value_def isSeverityField_def)

lemma severity_agrees:
  assumes db: "duck_behaves lib db" and row: "trim_space (r_level r) = r_level r"
    and f: "isSeverityField f" "lookup lib r f = Some v" "d_column db e = CText (live_text lib v)"
    and p: "p \<notin> {OpExists, OpContains, OpMatches}"
  shows "holds_sql db (if p = OpEquals then QCompare (Column e) OpEquals (ArgStr level)
      else QCompare (LevelRank e) p (ArgInt (Rank (ql_upper lib) level2))) \<longleftrightarrow>
    (if p = OpEquals then live_text lib v = level
     else compareInts lib (Rank (ql_upper lib) (live_text lib v)) (Rank (ql_upper lib) level2) p)"
proof -
  have v: "live_text lib v = r_level r" "r_level r \<noteq> []"
    using f(2) unfolding lookup_level [OF f(1)]
    by (auto simp: nonempty_def live_text_def value_text_def StrV_def NullV_def split: if_splits)
  have "level_rank db (r_level r) = CInt (Rank (ql_upper lib) (r_level r))"
    by (rule level_rank_eq [OF db row v(2)])
  then show ?thesis
    using db f(3) v Rank_bounds by (simp add: holds_sql_def duck_behaves_def)
qed

lemma value_agrees:
  assumes db: "duck_behaves lib db" and k: "k \<noteq> FieldSeverity" "k \<noteq> FieldTimestamp"
    and v: "stores lib db r f k v (d_column db e)" and q: "ordered_tree lib p l e k = Inr q"
    and p: "p \<notin> {OpExists, OpContains, OpMatches}"
  shows "holds_sql db q \<longleftrightarrow> compareValue lib v l p"
proof -
  consider "k = FieldNumber" | "k = FieldBool" | "k = FieldString \<or> k = FieldJSON" using k by (cases k) auto
  then show ?thesis
  proof cases
    case 1
    then obtain n where n: "numericOf lib v = Some n" "d_column db e = CNum n" "v_kind v = KindInt \<or> v_kind v = KindFloat"
      using v by (auto simp: stores_def map_option_case split: option.splits)
    show ?thesis
    proof (cases "l_kind l = LNumber")
      case True
      with 1 q have "q = QCompare (Column e) p (ArgNum (l_num l))" by (simp add: ordered_tree_def)
      with n True db show ?thesis by (auto simp: holds_sql_def compareValue_def duck_behaves_def)
    next
      case False
      with 1 q have "q = QFalse" by (simp add: ordered_tree_def)
      with n False show ?thesis by (auto simp: holds_sql_def compareValue_def)
    qed
  next
    case 2
    with v have c: "d_column db e = CBool (v_bool v)" "v_kind v = KindBool" by (auto simp: stores_def)
    with 2 q show ?thesis
      by (cases "l_kind l = LBool") (auto simp: ordered_tree_def holds_sql_def compareValue_def)
  next
    case 3
    with v have c: "d_column db e = CText (live_text lib v)" "v_kind v = KindString \<or> v_kind v = KindJSON"
      by (auto simp: stores_def)
    have tx: "live_text lib v = v_str v" "numericOf lib v = text_number lib (v_str v)"
      using c(2) by (auto simp: live_text_def value_text_def numericOf_def)
    show ?thesis
    proof (cases "l_kind l = LNumber")
      case True
      with 3 q have "q = QCompare (AsDouble e) p (ArgNum (l_num l))" by (auto simp: ordered_tree_def)
      with c tx True db show ?thesis
        by (auto simp: holds_sql_def compareValue_def duck_behaves_def split: option.splits)
    next
      case False
      with 3 q have "q = QCompare (Column e) p (ArgStr (utf8 (l_str l)))" by (auto simp: ordered_tree_def)
      with c False show ?thesis by (auto simp: holds_sql_def compareValue_def)
    qed
  qed
qed

lemma comparison_agrees:
  assumes db: "duck_behaves lib db" and row: "stored_row lib db res r"
    and null: "nulls_resolve res (Comparison f p l)"
    and tree: "comparison_tree lib res f p l = Inr q" and live: "comparisonPredicate lib f p l = Inr m"
  shows "holds_sql db q \<longleftrightarrow> m r"
proof (cases "res f")
  case None
  with row have none: "lookup lib r (utf8 f) = None" by (auto simp: stored_row_def resolves_def split: option.splits dest: spec [of _ f])
  have "\<not> isTimestampField (utf8 f)"
    using none by (auto simp: lookup_def envelope_value_def isTimestampField_def)
  with None none tree live null have "q = QFalse" "\<not> m r"
    by (auto simp: comparison_tree_def comparisonPredicate_def Let_def on_value_def split: if_splits option.splits sum.splits)
  then show ?thesis by (simp add: holds_sql_def)
next
  case (Some x)
  obtain e k where x: "x = (e, k)" by fastforce
  have "resolves lib db res r f" using row by (simp add: stored_row_def)
  with Some x have kinds: "k = FieldSeverity \<longleftrightarrow> isSeverityField (utf8 f)" "k = FieldTimestamp \<longleftrightarrow> isTimestampField (utf8 f)"
    and sql_cell: "lookup lib r (utf8 f) = None \<Longrightarrow> d_column db e = CNull"
      "\<And>v. lookup lib r (utf8 f) = Some v \<Longrightarrow> stores lib db r (utf8 f) k v (d_column db e)"
    by (auto simp: resolves_def)
  have some: "lookup lib r (utf8 f) = Some v \<Longrightarrow> d_column db e \<noteq> CNull" for v using sql_cell(2) by (auto simp: stores_def)
  consider (exists) "p = OpExists" | (null) "p \<noteq> OpExists" "l_kind l = LNull"
    | (contains) "p = OpContains" "l_kind l \<noteq> LNull" | (matches) "p = OpMatches" "l_kind l \<noteq> LNull"
    | (ordered) "p \<notin> {OpExists, OpContains, OpMatches}" "l_kind l \<noteq> LNull" by blast
  then show ?thesis
  proof cases
    case exists
    with tree live Some x have "q = QNotNull e" "m = (\<lambda>r. lookup lib r (utf8 f) \<noteq> None)"
      by (auto simp: comparison_tree_def comparisonPredicate_def)
    with sql_cell(1) some show ?thesis by (auto simp: holds_sql_def)
  next
    case null
    with tree live Some x have "q = QIsNull e" "m = (\<lambda>r. lookup lib r (utf8 f) = None)"
      by (auto simp: comparison_tree_def comparisonPredicate_def split: if_splits)
    with sql_cell(1) some show ?thesis by (cases "lookup lib r (utf8 f)") (auto simp: holds_sql_def)
  next
    case contains
    with tree live Some x have qm: "q = QLike (as_text e k) (ArgStr (like_pattern (utf8 (l_str l))))"
      "m = on_value lib (utf8 f) (\<lambda>v. sublist (go_lower lib (utf8 (l_str l))) (go_lower lib (live_text lib v)))"
      by (auto simp: comparison_tree_def comparisonPredicate_def)
    show ?thesis
    proof (cases "lookup lib r (utf8 f)")
      case None
      with sql_cell(1) show ?thesis by (simp add: qm holds_sql_def on_value_def as_text_def)
    next
      case (Some v)
      then show ?thesis
        using as_text_cell [OF sql_cell(2) [OF Some]] cell_contains [OF db] by (simp add: qm holds_sql_def on_value_def)
    qed
  next
    case matches
    with tree live Some x obtain pat where qm: "q = QMatches (as_text e k) (ArgStr (utf8 (l_str l)))"
      "ql_regexp lib (utf8 (l_str l)) = Some pat" "m = on_value lib (utf8 f) (\<lambda>v. pat (live_text lib v))"
      by (auto simp: comparison_tree_def comparisonPredicate_def split: option.splits if_splits)
    show ?thesis
    proof (cases "lookup lib r (utf8 f)")
      case None
      with sql_cell(1) show ?thesis by (simp add: qm holds_sql_def on_value_def as_text_def)
    next
      case (Some v)
      then show ?thesis
        using as_text_cell [OF sql_cell(2) [OF Some]] db qm(2) by (simp add: qm(1,3) holds_sql_def on_value_def duck_behaves_def)
    qed
  next
    case ordered
    with tree Some x have q: "ordered_tree lib p l e k = Inr q" by (auto simp: comparison_tree_def)
    consider (severity) "k = FieldSeverity" | (time) "k = FieldTimestamp" | (plain) "k \<noteq> FieldSeverity" "k \<noteq> FieldTimestamp" by blast
    then show ?thesis
    proof cases
      case severity
      then have sev: "isSeverityField (utf8 f)" using kinds by simp
      with ordered live have m: "m = on_value lib (utf8 f) (\<lambda>v. if p = OpEquals then live_text lib v = levelOf lib l
          else compareInts lib (Rank (ql_upper lib) (live_text lib v)) (Rank (ql_upper lib) (levelOf lib l)) p)"
        by (auto simp: comparisonPredicate_def Let_def)
      have q': "q = (if p = OpEquals then QCompare (Column e) OpEquals (ArgStr (levelOf lib l))
          else QCompare (LevelRank e) p (ArgInt (Rank (ql_upper lib) (levelOf lib l))))"
        using q severity by (auto simp: ordered_tree_def)
      show ?thesis
      proof (cases "lookup lib r (utf8 f)")
        case None
        with sql_cell(1) show ?thesis by (auto simp: q' m holds_sql_def on_value_def)
      next
        case (Some v)
        with sql_cell(2) severity have "d_column db e = CText (live_text lib v)" by (auto simp: stores_def)
        moreover have "trim_space (r_level r) = r_level r" using row by (simp add: stored_row_def)
        ultimately show ?thesis
          unfolding q' m using severity_agrees [OF db _ sev Some _ ordered(1)] Some by (simp add: on_value_def)
      qed
    next
      case time
      then have t: "isTimestampField (utf8 f)" using kinds by simp
      then have "\<not> isSeverityField (utf8 f)" by (auto simp: isTimestampField_def isSeverityField_def)
      with t ordered live q time obtain at where qm: "q = QCompare (Column e) p (ArgTime at)"
        "m = (\<lambda>r. compareTimes (timestampOf r (utf8 f)) at p)"
        by (auto simp: comparisonPredicate_def Let_def ordered_tree_def split: sum.splits)
      obtain v where "lookup lib r (utf8 f) = Some v"
        using t by (auto simp: lookup_def envelope_value_def isTimestampField_def)
      with sql_cell(2) time have "d_column db e = CTime (timestampOf r (utf8 f))" by (auto simp: stores_def)
      with qm show ?thesis by (simp add: holds_sql_def)
    next
      case plain
      with kinds ordered live have m: "m = on_value lib (utf8 f) (\<lambda>v. compareValue lib v l p)"
        by (auto simp: comparisonPredicate_def Let_def)
      show ?thesis
      proof (cases "lookup lib r (utf8 f)")
        case None
        with sql_cell(1) q plain show ?thesis
          by (auto simp: m holds_sql_def on_value_def ordered_tree_def split: field_kind.splits if_splits)
      next
        case (Some v)
        with value_agrees [OF db plain sql_cell(2) [OF Some] q ordered(1)] show ?thesis by (simp add: m on_value_def)
      qed
    qed
  qed
qed

lemma map_sum_list_pair:
  assumes "map_sum_list f xs = Inr ys" "map_sum_list g xs = Inr zs"
    and "\<And>x y z. x \<in> set xs \<Longrightarrow> f x = Inr y \<Longrightarrow> g x = Inr z \<Longrightarrow> P y z"
  shows "list_all2 P ys zs"
  using assms
proof (induction xs arbitrary: ys zs)
  case (Cons x xs)
  from Cons.prems(1,2) obtain y ys' z zs' where l: "f x = Inr y" "map_sum_list f xs = Inr ys'" "ys = y # ys'"
    "g x = Inr z" "map_sum_list g xs = Inr zs'" "zs = z # zs'" by (auto split: sum.splits)
  have "list_all2 P ys' zs'" by (rule Cons.IH [OF l(2,5)]) (use Cons.prems(3) in auto)
  moreover have "P y z" by (rule Cons.prems(3) [OF _ l(1,4)]) simp
  ultimately show ?case by (simp add: l)
qed simp

lemma or3_pair: "or3 [a, b] = Some True \<longleftrightarrow> a = Some True \<or> b = Some True"
  by auto

lemma list_all2_all: "list_all2 (\<lambda>y z. P y \<longleftrightarrow> Q z) ys zs \<Longrightarrow> list_all P ys \<longleftrightarrow> list_all Q zs"
  and list_all2_ex: "list_all2 (\<lambda>y z. P y \<longleftrightarrow> Q z) ys zs \<Longrightarrow> list_ex P ys \<longleftrightarrow> list_ex Q zs"
  by (induction rule: list_all2_induct) auto

lemma node_agrees:
  assumes db: "duck_behaves lib db" and row: "stored_row lib db res r"
  shows "nulls_resolve res n \<Longrightarrow> compile_tree lib res n = Inr q \<Longrightarrow> compile_predicate lib n = Inr m \<Longrightarrow> holds_sql db q \<longleftrightarrow> m r"
proof (induction n arbitrary: q m)
  case (Comparison f p l)
  then show ?case using comparison_agrees [OF db row] by simp
next
  case (Txt v)
  have raw: "cell_like db (d_column db ''raw'') (ArgStr (like_pattern (utf8 v))) =
      Some (sublist (go_lower lib (utf8 v)) (go_lower lib (r_raw r)))"
    using row cell_contains [OF db] by (simp add: stored_row_def)
  have msg: "cell_like db (d_column db ''msg'') (ArgStr (like_pattern (utf8 v))) =
        Some (sublist (go_lower lib (utf8 v)) (go_lower lib (r_msg r))) \<or>
      cell_like db (d_column db ''msg'') (ArgStr (like_pattern (utf8 v))) = None \<and> r_msg r = []"
    using row cell_contains [OF db] by (auto simp: stored_row_def)
  have "go_lower lib [] = []" by (simp add: go_lower_def to_lower_def is_ascii_def)
  moreover have "sublist [] s" for s :: string by simp
  ultimately have empty: "r_msg r = [] \<Longrightarrow> sublist (go_lower lib (utf8 v)) (go_lower lib (r_msg r)) \<Longrightarrow>
      sublist (go_lower lib (utf8 v)) (go_lower lib (r_raw r))" by auto
  from Txt.prems have "q = QText (ArgStr (like_pattern (utf8 v))) (ArgStr (like_pattern (utf8 v)))"
    "m r \<longleftrightarrow> sublist (go_lower lib (utf8 v)) (go_lower lib (r_msg r)) \<or> sublist (go_lower lib (utf8 v)) (go_lower lib (r_raw r))"
    by auto
  moreover have "holds_sql db (QText x y) \<longleftrightarrow> cell_like db (d_column db ''msg'') x = Some True \<or> cell_like db (d_column db ''raw'') y = Some True" for x y
    unfolding holds_sql_def eval.simps by (rule or3_pair)
  ultimately show ?case using raw msg empty by auto
next
  case (Neg n)
  then show ?case by (auto simp: holds_sql_def split: sum.splits)
next
  case (Conj cs)
  from Conj.prems obtain qs ms where l: "map_sum_list (compile_tree lib res) cs = Inr qs" "q = QAnd qs"
    "map_sum_list (compile_predicate lib) cs = Inr ms" "m = (\<lambda>r. list_all (\<lambda>q. q r) ms)" by (auto split: sum.splits)
  have "list_all2 (\<lambda>q m. holds_sql db q \<longleftrightarrow> m r) qs ms"
    using l(1,3) by (rule map_sum_list_pair) (use Conj in \<open>auto simp: list_all_iff\<close>)
  then show ?case unfolding l(2,4) holds_and by (rule list_all2_all)
next
  case (Disj cs)
  from Disj.prems obtain qs ms where l: "map_sum_list (compile_tree lib res) cs = Inr qs" "q = QOr qs"
    "map_sum_list (compile_predicate lib) cs = Inr ms" "m = (\<lambda>r. list_ex (\<lambda>q. q r) ms)" by (auto split: sum.splits)
  have "list_all2 (\<lambda>q m. holds_sql db q \<longleftrightarrow> m r) qs ms"
    using l(1,3) by (rule map_sum_list_pair) (use Disj in \<open>auto simp: list_all_iff\<close>)
  then show ?case unfolding l(2,4) holds_or by (rule list_all2_ex)
qed

section \<open>The text of a statement\<close>

text \<open>What is left of a query without the values the user typed.\<close>

fun skeleton :: "node \<Rightarrow> node" where
  "skeleton (Comparison f p v) = Comparison f p (plain_literal (l_kind v) [])"
| "skeleton (Txt v) = Txt []"
| "skeleton (Neg n) = Neg (skeleton n)"
| "skeleton (Conj cs) = Conj (map skeleton cs)"
| "skeleton (Disj cs) = Disj (map skeleton cs)"

definition same_text :: "sql \<Rightarrow> sql \<Rightarrow> bool" where
  "same_text q q' \<longleftrightarrow> render q = render q' \<and> length (args_of q) = length (args_of q')"

lemma ordered_text:
  assumes "ordered_tree lib p v e k = Inr q" "ordered_tree lib p w e k = Inr q'" "l_kind v = l_kind w"
  shows "same_text q q'"
  using assms by (auto simp: ordered_tree_def same_text_def split: field_kind.splits if_splits sum.splits)

lemma comparison_text:
  assumes "comparison_tree lib res f p v = Inr q" "comparison_tree lib res f p w = Inr q'" "l_kind v = l_kind w"
  shows "same_text q q'"
proof (cases "res f")
  case None
  with assms show ?thesis by (simp add: comparison_tree_def same_text_def)
next
  case (Some x)
  obtain e k where x: "x = (e, k)" by fastforce
  show ?thesis
  proof (cases "p \<in> {OpExists, OpContains, OpMatches} \<or> l_kind v = LNull")
    case True
    with assms Some x show ?thesis by (auto simp: comparison_tree_def same_text_def split: if_splits)
  next
    case False
    with assms Some x ordered_text [of lib p v e k q w q'] show ?thesis by (simp add: comparison_tree_def)
  qed
qed

lemma parts_text:
  assumes "\<And>n n' q q'. n \<in> set ns \<Longrightarrow> f n = Inr q \<Longrightarrow> f n' = Inr q' \<Longrightarrow> skeleton n = skeleton n' \<Longrightarrow> same_text q q'"
    and "map_sum_list f ns = Inr qs" "map_sum_list f ns' = Inr qs'" "map skeleton ns = map skeleton ns'"
  shows "map render qs = map render qs' \<and> length (concat (map args_of qs)) = length (concat (map args_of qs'))"
  using assms
proof (induction ns arbitrary: ns' qs qs')
  case (Cons n ns)
  from Cons.prems(4) obtain n' ms where ns': "ns' = n' # ms" "skeleton n = skeleton n'" "map skeleton ns = map skeleton ms"
    by (cases ns') auto
  from Cons.prems(2,3) ns'(1) obtain q rs q' rs' where q: "f n = Inr q" "map_sum_list f ns = Inr rs" "qs = q # rs"
    "f n' = Inr q'" "map_sum_list f ms = Inr rs'" "qs' = q' # rs'"
    by (auto split: sum.splits)
  have "same_text q q'" by (rule Cons.prems(1) [OF _ q(1,4) ns'(2)]) simp
  moreover have "map render rs = map render rs' \<and> length (concat (map args_of rs)) = length (concat (map args_of rs'))"
    by (rule Cons.IH [OF _ q(2,5) ns'(3)]) (use Cons.prems(1) in auto)
  ultimately show ?case by (simp add: q same_text_def)
qed auto

lemma tree_text:
  "compile_tree lib res n = Inr q \<Longrightarrow> compile_tree lib res n' = Inr q' \<Longrightarrow> skeleton n = skeleton n' \<Longrightarrow> same_text q q'"
proof (induction n arbitrary: n' q q')
  case (Comparison f p v)
  then obtain w where "n' = Comparison f p w" "l_kind v = l_kind w" by (cases n') (auto simp: plain_literal_def)
  with Comparison comparison_text show ?case by simp
next
  case (Txt v)
  then show ?case by (cases n') (auto simp: same_text_def)
next
  case (Neg n)
  then obtain k where k: "n' = Neg k" "skeleton n = skeleton k" by (cases n') auto
  with Neg.prems obtain a b where "compile_tree lib res n = Inr a" "q = QNot a" "compile_tree lib res k = Inr b" "q' = QNot b"
    by (auto split: sum.splits)
  with Neg.IH [of a k b] k show ?case by (simp add: same_text_def)
next
  case (Conj cs)
  then obtain ds where ds: "n' = Conj ds" "map skeleton cs = map skeleton ds" by (cases n') auto
  with Conj.prems obtain as bs where ab: "map_sum_list (compile_tree lib res) cs = Inr as" "q = QAnd as"
    "map_sum_list (compile_tree lib res) ds = Inr bs" "q' = QAnd bs" by (auto split: sum.splits)
  from parts_text [OF Conj.IH ab(1,3) ds(2)] ab show ?case by (simp add: same_text_def)
next
  case (Disj cs)
  then obtain ds where ds: "n' = Disj ds" "map skeleton cs = map skeleton ds" by (cases n') auto
  with Disj.prems obtain as bs where ab: "map_sum_list (compile_tree lib res) cs = Inr as" "q = QOr as"
    "map_sum_list (compile_tree lib res) ds = Inr bs" "q' = QOr bs" by (auto split: sum.splits)
  from parts_text [OF Disj.IH ab(1,3) ds(2)] ab show ?case by (simp add: same_text_def)
qed

section \<open>Properties\<close>


text \<open>
  C33: Comparing a field that does not resolve with \<open>null\<close> is where they disagree: the SQL
  condition is false of every row, while the predicate holds of every record without the field.
\<close>

theorem unresolved_null_disagrees:
  assumes "res f = None" "l_kind v = LNull" "lookup lib r (utf8 f) = None"
  shows "\<exists>m. ToSQL lib res (Some (Comparison f OpEquals v)) = Inr (render QFalse, []) \<and> \<not> holds_sql db QFalse \<and>
    ToPredicate lib (Some (Comparison f OpEquals v)) = Inr m \<and> m r"
  using assms
  by (simp add: ToSQL_written query_tree_def comparison_tree_def ToPredicate_def comparisonPredicate_def Let_def holds_sql_def)

text \<open>
  C34: No value a user types reaches the text of the statement: two queries with the same fields,
  operators and kinds of literals have the same text and as many arguments.
\<close>

theorem statement_text_fixed:
  assumes "ToSQL lib res (Some n) = Inr (s, args)" "ToSQL lib res (Some n') = Inr (s', args')" "skeleton n = skeleton n'"
  shows "s = s' \<and> length args = length args'"
proof -
  from assms(1,2) obtain q q' where "compile_tree lib res n = Inr q" "s = render q" "args = args_of q"
    "compile_tree lib res n' = Inr q'" "s' = render q'" "args' = args_of q'"
    by (cases "compile_tree lib res n"; cases "compile_tree lib res n'") (simp_all add: ToSQL_written query_tree_def)
  with tree_text [OF _ _ assms(3), of lib res q q'] show ?thesis by (simp add: same_text_def)
qed

section \<open>Witnesses\<close>

text \<open>A small library and a row: integers are their own bit patterns, every time has one text.\<close>

definition toy_json :: json_lib where
  "toy_json = \<lparr>j_tokens = (\<lambda>s. []), j_members = (\<lambda>s. None), j_unquote = (\<lambda>s. None), j_float = (\<lambda>s. None), j_exp = (\<lambda>f. [])\<rparr>"

definition toy_query_lib :: query_lib where
  "toy_query_lib = \<lparr>ql_json = toy_json, ql_lower = map ascii_lower, ql_upper = map ascii_upper, ql_regexp = (\<lambda>s. None),
     ql_parse_float = (\<lambda>s. NotANumber), ql_of_int = word_of_int, ql_float_less = (\<lambda>a b. sint a < sint b),
     ql_float_text = (\<lambda>f. []), ql_integral = (\<lambda>f. None), ql_parse_time = (\<lambda>l s. None), ql_time_text = (\<lambda>t. ''then'')\<rparr>"

definition toy_record :: rec where
  "toy_record = empty_rec\<lparr>r_msg := ''Timed out'', r_raw := ''Timed out'', r_level := ''WARN'', r_fields := [(''status'', BoolV True)]\<rparr>"

definition toy_resolver :: resolver where
  "toy_resolver f = map_of [(''level'', (''level'', FieldSeverity)), (''severity'', (''level'', FieldSeverity)), (''msg'', (''msg'', FieldString)),
     (''message'', (''msg'', FieldString)), (''stream'', (''stream'', FieldString)), (''raw'', (''raw'', FieldString)),
     (''seq'', (''seq'', FieldNumber)), (''ts'', (''ts'', FieldTimestamp)), (''time'', (''ts'', FieldTimestamp)),
     (''ingest_ts'', (''ts'', FieldTimestamp)), (''is_json'', (''is_json'', FieldBool)), (''status'', (''a_status'', FieldBool))] (utf8 f)"

definition toy_duck :: duck where
  "toy_duck = \<lparr>d_column = (\<lambda>e. if e = ''level'' then CText ''WARN'' else if e = ''msg'' \<or> e = ''raw'' then CText ''Timed out''
       else if e = ''stream'' then CText [] else if e = ''seq'' then CNum 0 else if e = ''ts'' then CTime 0
       else if e = ''is_json'' then CBool False else if e = ''a_status'' then CBool True else CNull),
     d_lower = go_lower toy_query_lib, d_upper = to_upper (map ascii_upper),
     d_text = (\<lambda>c. case c of CText s \<Rightarrow> s | CBool b \<Rightarrow> show_bool b | CNum f \<Rightarrow> ''0'' | _ \<Rightarrow> ''then''),
     d_double = text_number toy_query_lib, d_matches = (\<lambda>s pat. False),
     d_order = (\<lambda>a b. if float_nan a \<and> float_nan b then 0 else if float_nan a then 1 else if float_nan b then -1
       else if sint b < sint a then 1 else if sint a < sint b then -1 else 0)\<rparr>"

lemma go_lower_toy: "go_lower toy_query_lib s = map ascii_lower s"
  by (simp add: go_lower_def to_lower_def toy_query_lib_def)

lemma ascii_lower_special: "ascii_lower c \<in> specials \<longleftrightarrow> c \<in> specials" "c \<in> specials \<Longrightarrow> ascii_lower c = c"
proof -
  show "c \<in> specials \<Longrightarrow> ascii_lower c = c" by (auto simp: specials_def ascii_lower_def)
  have "char_of (n + 32) \<notin> specials" if "65 \<le> n" "n \<le> 90" for n :: nat
  proof
    assume "char_of (n + 32) \<in> specials"
    then have "(of_char (char_of (n + 32) :: char) :: nat) \<in> of_char ` specials" by (rule imageI)
    moreover have "(of_char ` specials :: nat set) = {92, 37, 95}" by (simp add: specials_def)
    ultimately show False using that by simp
  qed
  then show "ascii_lower c \<in> specials \<longleftrightarrow> c \<in> specials" by (auto simp: ascii_lower_def specials_def)
qed

lemma small_ints: "0 \<le> a \<Longrightarrow> a \<le> 60 \<Longrightarrow> \<not> float_nan (word_of_int a) \<and> sint (word_of_int a :: 64 word) = a"
proof -
  assume "0 \<le> a" "a \<le> 60"
  moreover have "\<forall>a\<in>set [0..60]. \<not> float_nan (word_of_int a) \<and> sint (word_of_int a :: 64 word) = a" by code_simp
  ultimately show ?thesis unfolding set_upto by (auto simp: Ball_def)
qed

lemma toy_duck_behaves: "duck_behaves toy_query_lib toy_duck"
proof -
  have "keeps_specials (go_lower toy_query_lib)"
    unfolding keeps_specials_def go_lower_toy [abs_def] using ascii_lower_special
    by (auto simp: go_lower_toy)
  moreover have "compareOrder (d_order toy_duck a b) p = compareFloats toy_query_lib a b p" for a b p
    by (simp add: toy_duck_def compareFloats_def toy_query_lib_def)
  moreover have "compareInts toy_query_lib a b p = compareOrder (a - b) p" if "0 \<le> a" "a \<le> 60" "0 \<le> b" "b \<le> 60" for a b p
    using small_ints [OF that(1,2)] small_ints [OF that(3,4)]
    by (cases p) (auto simp: compareInts_def compareFloats_def toy_query_lib_def)
  ultimately show ?thesis
    by (simp add: duck_behaves_def) (simp add: toy_duck_def toy_query_lib_def)
qed

lemma toy_resolves: "resolves toy_query_lib toy_duck toy_resolver toy_record f"
proof -
  have time: "truncate_micro 0 = 0" by (simp add: truncate_micro_def)
  have "char_of (48 :: nat) = CHR ''0''" by code_simp
  then have int: "int64_of 0 = 0" "show_int 0 = ''0''" by (simp_all add: int64_of_def show_int_def show_nat.simps digit_char_def)
  show ?thesis
    by (auto simp: resolves_def toy_resolver_def lookup_def envelope_value_def nested_value_def toy_record_def empty_rec_def
      isSeverityField_def isTimestampField_def nonempty_def toy_duck_def stores_def live_text_def value_text_def StrV_def NullV_def
      BoolV_def IntV_def show_bool_def is_object_def timestampOf_def toy_query_lib_def numericOf_def time int split: option.splits)
qed

lemma toy_stored: "stored_row toy_query_lib toy_duck toy_resolver toy_record"
  using toy_resolves by (simp add: stored_row_def) (simp add: toy_duck_def toy_record_def trim_space_ascii is_ascii_def is_space_def)

definition toy_node :: node where
  "toy_node = Conj [Txt (lit ''timed OUT''), Comparison (lit ''status'') OpEquals ((plain_literal LBool (lit ''true''))\<lparr>l_bool := True\<rparr>)]"

lemma utf8_lit: "is_ascii s \<Longrightarrow> utf8 (lit s) = s"
  by (induction s) (simp_all add: utf8_def lit_def utf8_rune_def is_ascii_def)

lemma toy_utf8: "utf8 (lit ''timed OUT'') = ''timed OUT''" "utf8 (lit ''status'') = ''status''"
  "utf8 (lit ''gone'') = ''gone''" "utf8 (lit ''msg'') = ''msg''"
  by (simp_all add: utf8_lit is_ascii_def)


lemma unresolved_null_disagrees_witness:
  "\<exists>m. ToPredicate toy_query_lib (Some (Comparison (lit ''gone'') OpEquals (plain_literal LNull (lit ''null'')))) = Inr m \<and> m toy_record"
proof -
  have "toy_resolver (lit ''gone'') = None" "lookup toy_query_lib toy_record (utf8 (lit ''gone'')) = None"
    by (simp_all add: toy_resolver_def lookup_def envelope_value_def nested_value_def isTimestampField_def toy_record_def toy_utf8)
  from unresolved_null_disagrees [of toy_resolver, OF this(1) _ this(2), of "plain_literal LNull (lit ''null'')"]
  show ?thesis by (auto simp: plain_literal_def)
qed

lemma statement_text_fixed_witness:
  "fst (sum.projr (ToSQL toy_query_lib toy_resolver (Some (Comparison (lit ''msg'') OpContains (plain_literal LString (lit ''x'')))))) =
   fst (sum.projr (ToSQL toy_query_lib toy_resolver (Some (Comparison (lit ''msg'') OpContains (plain_literal LString (39 # lit '' OR 1=1''))))))"
proof -
  have r: "toy_resolver (lit ''msg'') = Some (''msg'', FieldString)" by (simp add: toy_resolver_def toy_utf8)
  have sql: "ToSQL toy_query_lib toy_resolver (Some (Comparison (lit ''msg'') OpContains (plain_literal LString w))) =
      Inr (render (QLike (Column ''msg'') (ArgStr (like_pattern (utf8 w)))), [ArgStr (like_pattern (utf8 w))])" for w
    by (simp add: ToSQL_written query_tree_def comparison_tree_def r plain_literal_def as_text_def)
  have "skeleton (Comparison (lit ''msg'') OpContains (plain_literal LString (lit ''x''))) =
      skeleton (Comparison (lit ''msg'') OpContains (plain_literal LString (39 # lit '' OR 1=1'')))" by (simp add: plain_literal_def)
  from statement_text_fixed [OF sql sql this] show ?thesis unfolding sql by simp
qed

end
