(* ===== verification/Normalize.thy ===== *)
theory Normalize
  imports Severity
begin

text \<open>
  From an incoming line to a record, \<open>src/internal/normalize/normalize.go\<close>: promotion of the root
  keys, extraction of level, message and time, and the repair of invalid UTF-8.  \<open>now\<close> is the
  clock; the decoder of a JSON object is a parameter whose result is in the order the map happens
  to be iterated in.
\<close>

record norm_lib =
  n_valid :: "string \<Rightarrow> bool"                               \<comment> \<open>\<open>json.Valid\<close>\<close>
  n_object :: "string \<Rightarrow> (string \<times> string) list option"     \<comment> \<open>\<open>json.Unmarshal\<close> into a map\<close>
  n_unquote :: "string \<Rightarrow> string option"                     \<comment> \<open>\<open>json.Unmarshal\<close> into a string\<close>
  n_float :: "string \<Rightarrow> float64 option"                      \<comment> \<open>\<open>strconv.ParseFloat\<close>\<close>
  n_float_text :: "float64 \<Rightarrow> string"
  n_float_time :: "float64 \<Rightarrow> int"                           \<comment> \<open>fractional seconds as a time\<close>
  n_time :: "string \<Rightarrow> string \<Rightarrow> int option"                  \<comment> \<open>\<open>time.Parse\<close>\<close>
  n_lower :: "string \<Rightarrow> string"
  n_upper :: "string \<Rightarrow> string"

section \<open>Invalid UTF-8\<close>

definition replacement :: "nat list" where
  "replacement = [0xEF, 0xBF, 0xBD]"

text \<open>\<open>strings.ToValidUTF8\<close>: every run of invalid bytes becomes one replacement character.\<close>

fun valid_pieces :: "bool \<Rightarrow> (nat \<times> nat list) list \<Rightarrow> nat list list" where
  "valid_pieces in_run [] = []"
| "valid_pieces in_run (p # ps) =
     (if bad_rune p then (if in_run then valid_pieces True ps else replacement # valid_pieces True ps)
      else snd p # valid_pieces False ps)"

definition validUTF8 :: "string \<Rightarrow> string" where
  "validUTF8 s = string_of_bytes (concat (valid_pieces False (decode_runes (bytes_of s))))"

section \<open>Sanitize\<close>

fun numbered_name :: "nat \<Rightarrow> string list \<Rightarrow> string \<Rightarrow> nat \<Rightarrow> string" where
  "numbered_name 0 taken base n = base @ ''~'' @ show_nat n"
| "numbered_name (Suc k) taken base n =
     (if base @ ''~'' @ show_nat n \<in> set taken then numbered_name k taken base (n + 1) else base @ ''~'' @ show_nat n)"

text \<open>The loop over suffixes runs at most once per name that is taken.\<close>

definition unused_name :: "string list \<Rightarrow> string \<Rightarrow> string" where
  "unused_name taken base = (if base \<in> set taken then numbered_name (length taken) taken base 2 else base)"

definition rename_key :: "(string \<times> fvalue) list \<Rightarrow> string \<Rightarrow> (string \<times> fvalue) list" where
  "rename_key fs key =
     (case map_of fs key of
        None \<Rightarrow> fs
      | Some v \<Rightarrow>
          (let others = filter (\<lambda>f. fst f \<noteq> key) fs
           in others @ [(unused_name (map fst others) (validUTF8 key), v)]))"

definition clean_value :: "fvalue \<Rightarrow> fvalue" where
  "clean_value v = (if v_kind v = KindString \<or> v_kind v = KindJSON then v\<lparr>v_str := validUTF8 (v_str v)\<rparr> else v)"

definition sanitize_fields :: "(string \<times> fvalue) list \<Rightarrow> (string \<times> fvalue) list" where
  "sanitize_fields fs =
     foldl rename_key (map (\<lambda>(k, v). (k, clean_value v)) fs) (sort (filter (\<lambda>k. \<not> valid_utf8 k) (map fst fs)))"

definition Sanitize :: "rec \<Rightarrow> rec" where
  "Sanitize r = r\<lparr>r_stream := validUTF8 (r_stream r), r_host := validUTF8 (r_host r), r_level := validUTF8 (r_level r),
     r_msg := validUTF8 (r_msg r), r_raw := validUTF8 (r_raw r), r_json := map_option validUTF8 (r_json r),
     r_fields := sanitize_fields (r_fields r)\<rparr>"

section \<open>Promotion\<close>

definition levelKeys :: "string list" where
  "levelKeys = [''level'', ''severity'', ''severity_text'', ''severitytext'', ''lvl'', ''loglevel'', ''log_level'', ''@l'']"

definition msgKeys :: "string list" where
  "msgKeys = [''message'', ''msg'', ''text'', ''short_message'', ''@m'']"

definition tsKeys :: "string list" where
  "tsKeys = [''timestamp'', ''ts'', ''time'', ''@timestamp'', ''eventtime'', ''datetime'']"

definition classify :: "norm_lib \<Rightarrow> string \<Rightarrow> fvalue" where
  "classify lib raw =
     (let trimmed = trim_space raw
      in case trimmed of
           [] \<Rightarrow> NullV
         | c # _ \<Rightarrow>
             (if c = CHR ''{'' \<or> c = CHR ''['' then JSONV trimmed
              else if c = CHR 34 then (case n_unquote lib raw of Some t \<Rightarrow> StrV t | None \<Rightarrow> NullV)
              else if c = CHR ''t'' then BoolV True
              else if c = CHR ''f'' then BoolV False
              else if c = CHR ''n'' then NullV
              else case (if list_ex (\<lambda>c. c = CHR ''.'' \<or> c = CHR ''e'' \<or> c = CHR ''E'') trimmed then None else parse_int 64 trimmed) of
                Some n \<Rightarrow> IntV n
              | None \<Rightarrow> (case n_float lib trimmed of Some f \<Rightarrow> FloatV f | None \<Rightarrow> NullV)))"

definition typeOf :: "string \<Rightarrow> string" where
  "typeOf raw =
     (case trim_space raw of
        [] \<Rightarrow> ''undefined''
      | c # _ \<Rightarrow>
          (if c = CHR ''{'' \<or> c = CHR ''['' \<or> c = CHR ''n'' then ''object''
           else if c = CHR 34 then ''string''
           else if c = CHR ''t'' \<or> c = CHR ''f'' then ''boolean''
           else ''number''))"

text \<open>The record with its fields, and the index of their lower-cased names, the last one written winning.\<close>

definition Promote :: "norm_lib \<Rightarrow> rec \<Rightarrow> rec \<times> (string \<rightharpoonup> string) option" where
  "Promote lib r =
     (if r_type r \<noteq> ''object'' then (r, None)
      else case r_json r of
        None \<Rightarrow> (r, None)
      | Some j \<Rightarrow>
          (case n_object lib j of
             None \<Rightarrow> (r, None)
           | Some root \<Rightarrow>
               (r\<lparr>r_fields := map (\<lambda>(k, raw). (k, classify lib raw)) root\<rparr>,
                Some (foldl (\<lambda>m (k, raw). m(to_lower (n_lower lib) k \<mapsto> k)) Map.empty root))))"

fun pick :: "(string \<times> fvalue) list \<Rightarrow> (string \<rightharpoonup> string) \<Rightarrow> string list \<Rightarrow> fvalue option" where
  "pick fs lowered [] = None"
| "pick fs lowered (c # cs) =
     (case lowered c of
        None \<Rightarrow> pick fs lowered cs
      | Some key \<Rightarrow>
          (case map_of fs key of
             None \<Rightarrow> pick fs lowered cs
           | Some v \<Rightarrow> (if v_kind v \<noteq> KindNull then Some v else pick fs lowered cs)))"

section \<open>Times\<close>

definition tsFloor :: int where "tsFloor = 946684800 * 10 ^ 9"

definition tsRoof :: int where "tsRoof = 365 * 24 * 3600 * 10 ^ 9"

definition Plausible :: "int \<Rightarrow> int \<Rightarrow> bool" where
  "Plausible now ts \<longleftrightarrow> ts > tsFloor \<and> ts < now + tsRoof"

definition epoch_time :: "int \<Rightarrow> int" where
  "epoch_time n =
     (if n < 10 ^ 11 then n * 10 ^ 9
      else if n < 10 ^ 14 then n * 10 ^ 6
      else if n < 10 ^ 17 then n * 1000
      else n)"

definition fromEpoch :: "int \<Rightarrow> int \<Rightarrow> int \<times> bool" where
  "fromEpoch now n = (epoch_time n, Plausible now (epoch_time n))"

definition timeLayouts :: "string list" where
  "timeLayouts = [''2006-01-02T15:04:05.999999999Z07:00'', ''2006-01-02T15:04:05Z07:00'',
     ''2006-01-02T15:04:05.999999999'', ''2006-01-02 15:04:05.999999999'']"

fun first_time :: "norm_lib \<Rightarrow> string list \<Rightarrow> string \<Rightarrow> int option" where
  "first_time lib [] t = None"
| "first_time lib (l # ls) t = (case n_time lib l t of Some at \<Rightarrow> Some at | None \<Rightarrow> first_time lib ls t)"

definition parseTimestamp :: "norm_lib \<Rightarrow> int \<Rightarrow> fvalue \<Rightarrow> int option" where
  "parseTimestamp lib now v =
     (case (case v_kind v of
              KindString \<Rightarrow> first_time lib timeLayouts (v_str v)
            | KindInt \<Rightarrow> Some (epoch_time (v_int v))
            | KindFloat \<Rightarrow> Some (n_float_time lib (v_float v))
            | _ \<Rightarrow> None) of
        None \<Rightarrow> None
      | Some ts \<Rightarrow> (if Plausible now ts then Some ts else None))"

section \<open>Records\<close>

definition enrich :: "norm_lib \<Rightarrow> int \<Rightarrow> rec \<Rightarrow> rec" where
  "enrich lib now r =
     (case Promote lib r of
        (r, None) \<Rightarrow> r
      | (r, Some lowered) \<Rightarrow>
          (let r1 = (case pick (r_fields r) lowered levelKeys of
               None \<Rightarrow> r | Some v \<Rightarrow> r\<lparr>r_level := normalizeLevel (n_lower lib) (n_upper lib) v\<rparr>);
             r2 = (case pick (r_fields r) lowered msgKeys of
               None \<Rightarrow> r1 | Some v \<Rightarrow> r1\<lparr>r_msg := (if v_kind v = KindString then v_str v else value_text (n_float_text lib) v)\<rparr>)
           in (case pick (r_fields r) lowered tsKeys of
                 None \<Rightarrow> r2
               | Some v \<Rightarrow> (case parseTimestamp lib now v of None \<Rightarrow> r2 | Some ts \<Rightarrow> r2\<lparr>r_ts := ts\<rparr>))))"

definition received :: "int \<Rightarrow> string \<Rightarrow> string \<Rightarrow> int \<Rightarrow> rec" where
  "received now stream host port = empty_rec\<lparr>r_stream := stream, r_host := host, r_port := port, r_ts := now, r_ingest_ts := now\<rparr>"

definition FromPayload :: "norm_lib \<Rightarrow> int \<Rightarrow> string \<Rightarrow> string \<Rightarrow> int \<Rightarrow> int \<Rightarrow> string \<Rightarrow> rec" where
  "FromPayload lib now stream host port clientTs content =
     (let r = (received now stream host port)\<lparr>r_type := typeOf content, r_ts := (if Plausible now clientTs then clientTs else now)\<rparr>
      in case (if r_type r = ''string'' then n_unquote lib content else None) of
           Some t \<Rightarrow> Sanitize (r\<lparr>r_raw := t, r_msg := t\<rparr>)
         | None \<Rightarrow> Sanitize (enrich lib now (r\<lparr>r_raw := content, r_json := Some content\<rparr>)))"

definition trim_line_end :: "string \<Rightarrow> string" where
  "trim_line_end s = rev (dropWhile (\<lambda>c. c = CHR 13 \<or> c = CHR 10) (rev s))"

definition FromLine :: "norm_lib \<Rightarrow> int \<Rightarrow> string \<Rightarrow> string \<Rightarrow> int \<Rightarrow> string \<Rightarrow> rec" where
  "FromLine lib now stream host port raw =
     (let line = trim_line_end raw;
          r = (received now stream host port)\<lparr>r_raw := line, r_type := ''string'', r_msg := line\<rparr>;
          trimmed = trim_space line
      in if \<not> prefix ''{'' trimmed \<or> \<not> n_valid lib trimmed then Sanitize r
         else let r' = enrich lib now (r\<lparr>r_json := Some trimmed, r_type := ''object'', r_msg := ''''\<rparr>)
              in Sanitize (if r_msg r' = '''' then r'\<lparr>r_msg := line\<rparr> else r'))"

end
