(* ===== verification/NormalizeInv.thy ===== *)
theory NormalizeInv
  imports Normalize "HOL-Library.Multiset"
begin

text \<open>
  What \<open>Sanitize\<close> guarantees to the storage engine: valid UTF-8 in every string of a record and in
  every field name, no field lost, and the same result whatever order the fields come in.
\<close>

section \<open>Pieces of UTF-8\<close>

text \<open>Bytes that decode as one rune whatever follows them.\<close>

definition good_piece :: "nat list \<Rightarrow> bool" where
  "good_piece q \<longleftrightarrow> q \<noteq> [] \<and> (\<forall>rest. snd (decode_rune (q @ rest)) = length q \<and> \<not> bad_rune (fst (decode_rune (q @ rest)), q))"

lemma decode_rune_local:
  assumes "decode_rune bs = (r, w)" "bs \<noteq> []" "\<not> (r = 0xFFFD \<and> w = 1)"
  shows "decode_rune (take w bs @ rest) = (r, w)"
proof -
  obtain a bs1 where bs: "bs = a # bs1" using assms(2) by (cases bs) auto
  consider "bs1 = []" | b where "bs1 = [b]" | b c where "bs1 = [b, c]" | b c d bs4 where "bs1 = b # c # d # bs4"
    by (metis neq_Nil_conv)
  then show ?thesis
    using assms(1,3) unfolding bs decode_rune.simps(2)
    by cases (auto simp: decode_rune.simps(2) split: if_splits)
qed

lemma decode_runes_good: "p \<in> set (decode_runes bs) \<Longrightarrow> \<not> bad_rune p \<Longrightarrow> good_piece (snd p)"
proof (induction bs rule: decode_runes.induct)
  case (1 bs)
  show ?case
  proof (cases "bs = []")
    case False
    obtain r w where d: "decode_rune bs = (r, w)" by fastforce
    have w: "0 < w" "w \<le> length bs" using decode_rune_width [OF False] d by simp_all
    show ?thesis
    proof (cases "p = (r, take w bs)")
      case True
      then have "\<not> (r = 0xFFFD \<and> w = 1)" using "1.prems"(2) w by (auto simp: bad_rune_def)
      from decode_rune_local [OF d False this] True "1.prems"(2) w show ?thesis
        by (auto simp: good_piece_def)
    next
      case False2: False
      then have "p \<in> set (decode_runes (drop w bs))"
        using "1.prems"(1) d by (simp add: decode_runes_not_Nil [OF False])
      with "1.IH" [OF False] d "1.prems"(2) show ?thesis by simp
    qed
  qed (use 1 in simp)
qed

lemma decode_runes_pieces:
  assumes "\<forall>q\<in>set qs. good_piece q"
  shows "list_all (\<lambda>p. \<not> bad_rune p) (decode_runes (concat qs @ rest)) \<longleftrightarrow> list_all (\<lambda>p. \<not> bad_rune p) (decode_runes rest)"
  using assms
proof (induction qs)
  case (Cons q qs)
  then have q: "q \<noteq> []" "snd (decode_rune (q @ concat qs @ rest)) = length q"
    "\<not> bad_rune (fst (decode_rune (q @ concat qs @ rest)), q)" by (auto simp: good_piece_def)
  then show ?case using Cons by (simp add: decode_runes_not_Nil)
qed simp

lemma good_replacement: "good_piece replacement"
  by (simp add: good_piece_def replacement_def decode_rune.simps is_cont_def bad_rune_def)

lemma valid_pieces_good:
  assumes "\<forall>p\<in>set ps. \<not> bad_rune p \<longrightarrow> good_piece (snd p)"
  shows "\<forall>q\<in>set (valid_pieces in_run ps). good_piece q"
  using assms good_replacement by (induction in_run ps rule: valid_pieces.induct) auto

lemma bytes_of_string: "\<forall>b\<in>set bs. b < 256 \<Longrightarrow> bytes_of (string_of_bytes bs) = bs"
  unfolding bytes_of_def string_of_bytes_def map_map by (rule map_idI) simp

lemma bytes_of_bound: "\<forall>b\<in>set (bytes_of s). b < 256"
  by (auto simp: bytes_of_def nat_of_char_less_256)

lemma valid_pieces_bytes:
  assumes "\<forall>b\<in>set (concat (map snd ps)). b < 256"
  shows "\<forall>b\<in>set (concat (valid_pieces in_run ps)). b < 256"
  using assms by (induction in_run ps rule: valid_pieces.induct) (auto simp: replacement_def)

lemma validUTF8_bytes: "bytes_of (validUTF8 s) = concat (valid_pieces False (decode_runes (bytes_of s)))"
  unfolding validUTF8_def
  by (rule bytes_of_string, rule valid_pieces_bytes) (simp add: concat_decode_runes bytes_of_bound)

lemma valid_validUTF8 [simp]: "valid_utf8 (validUTF8 s)"
proof -
  have "\<forall>q\<in>set (valid_pieces False (decode_runes (bytes_of s))). good_piece q"
    by (rule valid_pieces_good) (use decode_runes_good in blast)
  from decode_runes_pieces [OF this, of "[]"] show ?thesis by (simp add: valid_utf8_def validUTF8_bytes)
qed

lemma valid_pieces_all: "list_all (\<lambda>p. \<not> bad_rune p) ps \<Longrightarrow> valid_pieces b ps = map snd ps"
  by (induction b ps rule: valid_pieces.induct) auto

lemma validUTF8_id: "valid_utf8 s \<Longrightarrow> validUTF8 s = s"
proof -
  assume "valid_utf8 s"
  then have "list_all (\<lambda>p. \<not> bad_rune p) (decode_runes (bytes_of s))" by (simp add: valid_utf8_def)
  then have "valid_pieces False (decode_runes (bytes_of s)) = map snd (decode_runes (bytes_of s))"
    by (rule valid_pieces_all)
  then show ?thesis by (simp add: validUTF8_def concat_decode_runes) (simp add: string_of_bytes_def bytes_of_def comp_def)
qed

lemma valid_utf8_append:
  assumes "valid_utf8 a" "valid_utf8 b"
  shows "valid_utf8 (a @ b)"
proof -
  let ?qs = "map snd (decode_runes (bytes_of a))"
  have "\<forall>q\<in>set ?qs. good_piece q"
    using assms(1) decode_runes_good by (auto simp: valid_utf8_def list_all_iff)
  from decode_runes_pieces [OF this, of "bytes_of b"] assms(2) show ?thesis
    by (simp add: valid_utf8_def concat_decode_runes) (simp add: bytes_of_def)
qed

lemma valid_ascii: "is_ascii s \<Longrightarrow> valid_utf8 s"
  unfolding valid_utf8_def
  by (subst decode_runes_ascii) (auto simp: is_ascii_def list_all_iff bytes_of_def bad_rune_def)

section \<open>Renaming\<close>

lemma is_ascii_show_nat: "is_ascii (show_nat n)"
  using show_nat_digits [of n] by (auto simp: is_ascii_def list_all_iff is_digit_def)

lemma show_nat_inj: "show_nat m = show_nat n \<Longrightarrow> m = n"
  by (metis nat_of_show_nat)

lemma numbered_inj: "base @ ''~'' @ show_nat m = base @ ''~'' @ show_nat n \<longleftrightarrow> m = n"
  using show_nat_inj by auto

lemma numbered_name_free:
  assumes "\<exists>i\<le>k. base @ ''~'' @ show_nat (n + i) \<notin> set taken"
  shows "numbered_name k taken base n \<notin> set taken"
  using assms
proof (induction k arbitrary: n)
  case (Suc k)
  show ?case
  proof (cases "base @ ''~'' @ show_nat n \<in> set taken")
    case True
    from Suc.prems obtain i where i: "i \<le> Suc k" "base @ ''~'' @ show_nat (n + i) \<notin> set taken" by blast
    with True have "i \<noteq> 0" by (intro notI) simp
    then obtain j where "i = Suc j" by (cases i) auto
    with i have "j \<le> k \<and> base @ ''~'' @ show_nat (n + 1 + j) \<notin> set taken" by simp
    then have "\<exists>i\<le>k. base @ ''~'' @ show_nat (n + 1 + i) \<notin> set taken" by blast
    from Suc.IH [OF this] True show ?thesis by simp
  qed simp
qed simp

lemma unused_name_free: "unused_name taken base \<notin> set taken"
proof (cases "base \<in> set taken")
  case True
  have "\<exists>i\<le>length taken. base @ ''~'' @ show_nat (2 + i) \<notin> set taken"
  proof (rule ccontr)
    assume "\<not> ?thesis"
    then have "(\<lambda>i. base @ ''~'' @ show_nat (2 + i)) ` {..length taken} \<subseteq> set taken" by auto
    then have "card ((\<lambda>i. base @ ''~'' @ show_nat (2 + i)) ` {..length taken}) \<le> card (set taken)" by (rule card_mono [rotated]) simp
    moreover have "inj_on (\<lambda>i. base @ ''~'' @ show_nat (2 + i)) {..length taken}"
      using numbered_inj by (auto simp: inj_on_def)
    ultimately show False using card_length [of taken] by (simp add: card_image)
  qed
  from numbered_name_free [OF this] True show ?thesis by (simp add: unused_name_def)
qed (simp add: unused_name_def)

lemma numbered_name_valid: "valid_utf8 base \<Longrightarrow> valid_utf8 (numbered_name k taken base n)"
proof (induction k arbitrary: n)
  case 0
  have "valid_utf8 ''~''" by (rule valid_ascii) (simp add: is_ascii_def)
  with 0 valid_ascii [OF is_ascii_show_nat] show ?case
    by (simp del: append_Cons append_Nil add: valid_utf8_append)
next
  case (Suc k)
  have "valid_utf8 ''~''" by (rule valid_ascii) (simp add: is_ascii_def)
  with Suc valid_ascii [OF is_ascii_show_nat] show ?case
    by (simp del: append_Cons append_Nil add: valid_utf8_append)
qed

lemma unused_name_valid: "valid_utf8 (unused_name taken (validUTF8 key))"
  by (simp add: unused_name_def numbered_name_valid)

lemma numbered_name_cong: "set taken = set taken' \<Longrightarrow> numbered_name k taken base n = numbered_name k taken' base n"
  by (induction k arbitrary: n) auto

lemma unused_name_cong: "set taken = set taken' \<Longrightarrow> length taken = length taken' \<Longrightarrow> unused_name taken base = unused_name taken' base"
  unfolding unused_name_def using numbered_name_cong [of taken taken' "length taken'"] by simp

type_synonym fields_list = "(string \<times> fvalue) list"

lemma rename_key_present:
  assumes "distinct (map fst fs)" "(key, v) \<in> set fs"
  shows "rename_key fs key = filter (\<lambda>f. fst f \<noteq> key) fs @ [(unused_name (map fst (filter (\<lambda>f. fst f \<noteq> key) fs)) (validUTF8 key), v)]"
  using assms by (simp add: rename_key_def Let_def)

lemma rename_key_absent: "key \<notin> fst ` set fs \<Longrightarrow> rename_key fs key = fs"
  using map_of_eq_None_iff [of fs key] by (simp add: rename_key_def)

lemma remove_key: "distinct (map fst fs) \<Longrightarrow> (key, v) \<in> set fs \<Longrightarrow>
    mset fs = add_mset (key, v) (mset (filter (\<lambda>f. fst f \<noteq> key) fs))"
proof (induction fs)
  case (Cons f fs)
  show ?case
  proof (cases "f = (key, v)")
    case True
    with Cons.prems have "filter (\<lambda>f. fst f \<noteq> key) fs = fs" by (auto simp: filter_id_conv)
    with True show ?thesis by simp
  next
    case False
    with Cons.prems(2) have kv: "(key, v) \<in> set fs" by auto
    then have "key \<in> fst ` set fs" by force
    with kv Cons.prems(1) have "(key, v) \<in> set fs" "fst f \<noteq> key" by auto
    with Cons show ?thesis by simp
  qed
qed simp

text \<open>One step of the renaming keeps every value, and every field but the one renamed.\<close>

lemma rename_key_inv:
  assumes "distinct (map fst fs)"
  shows "distinct (map fst (rename_key fs key))" "mset (map snd (rename_key fs key)) = mset (map snd fs)"
    "k \<noteq> key \<Longrightarrow> map_of fs k \<noteq> None \<Longrightarrow> map_of (rename_key fs key) k = map_of fs k"
    "fst ` set (rename_key fs key) \<subseteq> {k. valid_utf8 k} \<union> (fst ` set fs - {key})"
proof -
  have "distinct (map fst (rename_key fs key)) \<and> mset (map snd (rename_key fs key)) = mset (map snd fs) \<and>
    (k \<noteq> key \<longrightarrow> map_of fs k \<noteq> None \<longrightarrow> map_of (rename_key fs key) k = map_of fs k) \<and>
    fst ` set (rename_key fs key) \<subseteq> {k. valid_utf8 k} \<union> (fst ` set fs - {key})"
  proof (cases "key \<in> fst ` set fs")
    case False
    then show ?thesis using assms by (auto simp: rename_key_absent)
  next
    case True
    then obtain v where v: "(key, v) \<in> set fs" by auto
    let ?others = "filter (\<lambda>f. fst f \<noteq> key) fs"
    let ?name = "unused_name (map fst ?others) (validUTF8 key)"
    note r = rename_key_present [OF assms v]
    have fresh: "?name \<notin> fst ` set ?others" using unused_name_free [of "map fst ?others"] by simp
    have "distinct (map fst ?others)" using assms by (rule distinct_map_filter)
    with fresh have "distinct (map fst (rename_key fs key))" by (simp add: r)
    moreover have "mset (map snd (rename_key fs key)) = mset (map snd fs)"
      using arg_cong [OF remove_key [OF assms v], of "image_mset snd"] by (simp add: r)
    moreover have "map_of (rename_key fs key) k = map_of fs k" if k: "k \<noteq> key" "map_of fs k \<noteq> None"
    proof -
      have "map_of ?others k = map_of fs k" using k(1) by (induction fs) auto
      with k(2) show ?thesis by (auto simp: r map_add_def split: option.splits)
    qed
    moreover have "fst ` set (rename_key fs key) \<subseteq> {k. valid_utf8 k} \<union> (fst ` set fs - {key})"
      using unused_name_valid by (auto simp: r)
    ultimately show ?thesis by blast
  qed
  then show "distinct (map fst (rename_key fs key))" "mset (map snd (rename_key fs key)) = mset (map snd fs)"
    "k \<noteq> key \<Longrightarrow> map_of fs k \<noteq> None \<Longrightarrow> map_of (rename_key fs key) k = map_of fs k"
    "fst ` set (rename_key fs key) \<subseteq> {k. valid_utf8 k} \<union> (fst ` set fs - {key})" by blast+
qed

lemma rename_keys_inv:
  assumes "distinct (map fst fs)"
  shows "distinct (map fst (foldl rename_key fs keys)) \<and> mset (map snd (foldl rename_key fs keys)) = mset (map snd fs) \<and>
    (\<forall>k. k \<notin> set keys \<longrightarrow> map_of fs k \<noteq> None \<longrightarrow> map_of (foldl rename_key fs keys) k = map_of fs k) \<and>
    fst ` set (foldl rename_key fs keys) \<subseteq> {k. valid_utf8 k} \<union> (fst ` set fs - set keys)"
  using assms
proof (induction keys arbitrary: fs)
  case Nil
  then show ?case by auto
next
  case (Cons key keys)
  note step = rename_key_inv(1,2,4) [OF Cons.prems, of key] rename_key_inv(3) [OF Cons.prems]
  from Cons.IH [OF step(1)] have IH: "distinct (map fst (foldl rename_key (rename_key fs key) keys))"
    "mset (map snd (foldl rename_key (rename_key fs key) keys)) = mset (map snd (rename_key fs key))"
    "\<And>k. k \<notin> set keys \<Longrightarrow> map_of (rename_key fs key) k \<noteq> None \<Longrightarrow>
      map_of (foldl rename_key (rename_key fs key) keys) k = map_of (rename_key fs key) k"
    "fst ` set (foldl rename_key (rename_key fs key) keys) \<subseteq> {k. valid_utf8 k} \<union> (fst ` set (rename_key fs key) - set keys)"
    by blast+
  have "map_of (foldl rename_key fs (key # keys)) k = map_of fs k" if "k \<notin> set (key # keys)" "map_of fs k \<noteq> None" for k
    using IH(3) [of k] step(4) [of k key] that by simp
  moreover have "fst ` set (foldl rename_key fs (key # keys)) \<subseteq> {k. valid_utf8 k} \<union> (fst ` set fs - set (key # keys))"
    using IH(4) step(3) by (simp, blast)
  ultimately show ?case using IH(1,2) step(2) by simp
qed

text \<open>The order of the fields does not matter.\<close>

lemma rename_key_cong:
  assumes "mset fs = mset gs" "distinct (map fst fs)"
  shows "mset (rename_key fs key) = mset (rename_key gs key)"
proof -
  have gs: "distinct (map fst gs)" using assms by (metis mset_map mset_eq_imp_distinct_iff)
  have "set fs = set gs" using assms(1) by (rule mset_eq_setD)
  show ?thesis
  proof (cases "key \<in> fst ` set fs")
    case False
    then show ?thesis using assms(1) \<open>set fs = set gs\<close> by (simp add: rename_key_absent)
  next
    case True
    then obtain v where v: "(key, v) \<in> set fs" "(key, v) \<in> set gs" using \<open>set fs = set gs\<close> by auto
    let ?f = "filter (\<lambda>f. fst f \<noteq> key)"
    have m: "mset (?f fs) = mset (?f gs)" using assms(1) by simp
    have "set (map fst (?f fs)) = set (map fst (?f gs))" unfolding set_map mset_eq_setD [OF m] by (rule refl)
    moreover have "length (map fst (?f fs)) = length (map fst (?f gs))" unfolding length_map by (rule mset_eq_length [OF m])
    ultimately have "unused_name (map fst (?f fs)) (validUTF8 key) = unused_name (map fst (?f gs)) (validUTF8 key)"
      by (rule unused_name_cong)
    with m show ?thesis by (simp add: rename_key_present [OF assms(2) v(1)] rename_key_present [OF gs v(2)])
  qed
qed

lemma rename_keys_cong:
  assumes "mset fs = mset gs" "distinct (map fst fs)"
  shows "mset (foldl rename_key fs keys) = mset (foldl rename_key gs keys)"
  using assms
proof (induction keys arbitrary: fs gs)
  case (Cons key keys)
  from Cons.IH [OF rename_key_cong [OF Cons.prems] rename_key_inv(1) [OF Cons.prems(2)]] show ?case by simp
qed simp

section \<open>Sanitized records\<close>

definition value_valid :: "fvalue \<Rightarrow> bool" where
  "value_valid v \<longleftrightarrow> (v_kind v = KindString \<or> v_kind v = KindJSON \<longrightarrow> valid_utf8 (v_str v))"

definition record_valid :: "rec \<Rightarrow> bool" where
  "record_valid r \<longleftrightarrow> valid_utf8 (r_stream r) \<and> valid_utf8 (r_host r) \<and> valid_utf8 (r_level r) \<and> valid_utf8 (r_msg r) \<and>
     valid_utf8 (r_raw r) \<and> (case r_json r of None \<Rightarrow> True | Some j \<Rightarrow> valid_utf8 j) \<and>
     list_all (\<lambda>(k, v). valid_utf8 k \<and> value_valid v) (r_fields r)"

lemma clean_value_valid: "value_valid (clean_value v)"
  by (simp add: value_valid_def clean_value_def)

lemma clean_value_id: "value_valid v \<Longrightarrow> clean_value v = v"
  by (auto simp: value_valid_def clean_value_def validUTF8_id)

lemma map_fst_clean: "map fst (map (\<lambda>(k, v). (k, clean_value v)) fs) = map fst fs"
  by (induction fs) auto

lemma map_snd_clean: "map snd (map (\<lambda>(k, v). (k, clean_value v)) fs) = map (\<lambda>f. clean_value (snd f)) fs"
  by (induction fs) auto

lemma map_of_clean: "map_of (map (\<lambda>(k, v). (k, clean_value v)) fs) k = map_option clean_value (map_of fs k)"
  by (induction fs) auto

lemma sort_mset_cong: "mset xs = mset ys \<Longrightarrow> sort xs = sort (ys :: string list)"
  by (metis mset_sort properties_for_sort sorted_sort)

lemma sanitize_fields_inv:
  assumes "distinct (map fst fs)"
  shows "distinct (map fst (sanitize_fields fs))" "mset (map snd (sanitize_fields fs)) = mset (map (\<lambda>f. clean_value (snd f)) fs)"
    "valid_utf8 k \<Longrightarrow> map_of fs k = Some v \<Longrightarrow> map_of (sanitize_fields fs) k = Some (clean_value v)"
    "list_all (\<lambda>(k, v). valid_utf8 k \<and> value_valid v) (sanitize_fields fs)"
proof -
  let ?gs = "map (\<lambda>(k, v). (k, clean_value v)) fs"
  let ?keys = "sort (filter (\<lambda>k. \<not> valid_utf8 k) (map fst fs))"
  have s: "sanitize_fields fs = foldl rename_key ?gs ?keys" by (simp add: sanitize_fields_def)
  have "distinct (map fst ?gs)" using assms by (simp only: map_fst_clean)
  from rename_keys_inv [OF this, of ?keys] have inv: "distinct (map fst (sanitize_fields fs))"
    "mset (map snd (sanitize_fields fs)) = mset (map snd ?gs)"
    "\<And>k. k \<notin> set ?keys \<Longrightarrow> map_of ?gs k \<noteq> None \<Longrightarrow> map_of (sanitize_fields fs) k = map_of ?gs k"
    "fst ` set (sanitize_fields fs) \<subseteq> {k. valid_utf8 k} \<union> (fst ` set ?gs - set ?keys)"
    unfolding s by blast+
  show "distinct (map fst (sanitize_fields fs))" by (rule inv(1))
  show vals: "mset (map snd (sanitize_fields fs)) = mset (map (\<lambda>f. clean_value (snd f)) fs)"
    using inv(2) by (simp only: map_snd_clean)
  show "valid_utf8 k \<Longrightarrow> map_of fs k = Some v \<Longrightarrow> map_of (sanitize_fields fs) k = Some (clean_value v)"
    using inv(3) [of k] by (simp add: map_of_clean)
  have "fst ` set ?gs = set (map fst fs)" unfolding set_map [symmetric] by (simp only: map_fst_clean)
  then have keys: "\<forall>f\<in>set (sanitize_fields fs). valid_utf8 (fst f)" using inv(4) by auto
  have "set (map snd (sanitize_fields fs)) = set (map (\<lambda>f. clean_value (snd f)) fs)" using vals by (rule mset_eq_setD)
  then have "snd ` set (sanitize_fields fs) = (\<lambda>f. clean_value (snd f)) ` set fs" by simp
  then have "\<forall>f\<in>set (sanitize_fields fs). value_valid (snd f)" using clean_value_valid by (metis (no_types, lifting) imageE image_eqI)
  with keys show "list_all (\<lambda>(k, v). valid_utf8 k \<and> value_valid v) (sanitize_fields fs)" by (auto simp: list_all_iff)
qed

lemma sanitize_fields_id:
  assumes "list_all (\<lambda>(k, v). valid_utf8 k \<and> value_valid v) fs"
  shows "sanitize_fields fs = fs"
proof -
  have "filter (\<lambda>k. \<not> valid_utf8 k) (map fst fs) = []" using assms by (auto simp: list_all_iff filter_empty_conv)
  moreover have "map (\<lambda>(k, v). (k, clean_value v)) fs = fs" using assms by (induction fs) (auto simp: clean_value_id)
  ultimately show ?thesis by (simp add: sanitize_fields_def)
qed

lemma sanitize_fields_perm:
  assumes "mset fs = mset gs" "distinct (map fst fs)"
  shows "mset (sanitize_fields fs) = mset (sanitize_fields gs)"
proof -
  have "mset (filter (\<lambda>k. \<not> valid_utf8 k) (map fst fs)) = mset (filter (\<lambda>k. \<not> valid_utf8 k) (map fst gs))"
    using assms(1) by (simp flip: mset_map) (metis mset_filter mset_map)
  then have "sort (filter (\<lambda>k. \<not> valid_utf8 k) (map fst fs)) = sort (filter (\<lambda>k. \<not> valid_utf8 k) (map fst gs))"
    by (rule sort_mset_cong)
  moreover have "mset (map (\<lambda>(k, v). (k, clean_value v)) fs) = mset (map (\<lambda>(k, v). (k, clean_value v)) gs)"
    using assms(1) by simp
  moreover have "distinct (map fst (map (\<lambda>(k, v). (k, clean_value v)) fs))" using assms(2) by (simp only: map_fst_clean)
  ultimately show ?thesis unfolding sanitize_fields_def using rename_keys_cong by metis
qed

lemma Sanitize_valid: "distinct (map fst (r_fields r)) \<Longrightarrow> record_valid (Sanitize r)"
  using sanitize_fields_inv(4) [of "r_fields r"] by (simp add: record_valid_def Sanitize_def split: option.splits)

lemma Sanitize_id: "record_valid r \<Longrightarrow> Sanitize r = r"
  by (cases r) (auto simp: record_valid_def Sanitize_def validUTF8_id sanitize_fields_id split: option.splits)

text \<open>
  C36: Sanitize makes every string and every field name of a record valid UTF-8, keeps every value,
  leaves names that were valid alone, tells apart names that clean to the same text, gives the
  same fields in whatever order the map is iterated, and changes nothing the second time.
\<close>

theorem sanitize_sound:
  assumes "distinct (map fst (r_fields r))"
  shows "record_valid (Sanitize r) \<and> distinct (map fst (r_fields (Sanitize r))) \<and>
    mset (map snd (r_fields (Sanitize r))) = mset (map (\<lambda>f. clean_value (snd f)) (r_fields r)) \<and>
    (\<forall>k v. valid_utf8 k \<longrightarrow> map_of (r_fields r) k = Some v \<longrightarrow> map_of (r_fields (Sanitize r)) k = Some (clean_value v)) \<and>
    (\<forall>fs. mset fs = mset (r_fields r) \<longrightarrow> mset (sanitize_fields fs) = mset (r_fields (Sanitize r))) \<and>
    Sanitize (Sanitize r) = Sanitize r"
proof -
  have f: "r_fields (Sanitize r) = sanitize_fields (r_fields r)" by (simp add: Sanitize_def)
  note inv = sanitize_fields_inv [OF assms]
  have "mset (sanitize_fields fs) = mset (sanitize_fields (r_fields r))" if "mset fs = mset (r_fields r)" for fs
    using sanitize_fields_perm [OF _ assms, of fs] that by simp
  with inv Sanitize_valid [OF assms] Sanitize_id [OF Sanitize_valid [OF assms]] show ?thesis
    unfolding f by blast
qed

lemma sanitize_sound_witness:
  "record_valid (Sanitize (empty_rec\<lparr>r_msg := [CHR 0xE9], r_fields := [([CHR 0xFF], StrV ''x''), ([CHR 0xFE], StrV ''y'')]\<rparr>)) \<and>
   distinct (map fst (r_fields (Sanitize (empty_rec\<lparr>r_msg := [CHR 0xE9], r_fields := [([CHR 0xFF], StrV ''x''), ([CHR 0xFE], StrV ''y'')]\<rparr>))))"
proof -
  have "distinct (map fst (r_fields (empty_rec\<lparr>r_msg := [CHR 0xE9], r_fields := [([CHR 0xFF], StrV ''x''), ([CHR 0xFE], StrV ''y'')]\<rparr>)))"
    by simp
  from sanitize_sound [OF this] show ?thesis by blast
qed

end
