(* ===== verification/QueryResolve.thy ===== *)
theory QueryResolve
  imports RqlSql Catalog Parquet
begin

text \<open>
  Field resolution, \<open>src/internal/query/resolve.go\<close>: which SQL expression reads a field, given the
  files a query is going to read and the columns the catalog has for them.  Go's maps are
  association lists.  \<open>field_expr\<close> is the structure of the expressions, \<open>render_field\<close> their text.
\<close>

section \<open>What the catalog knows about a key\<close>

record column_facts =
  cf_column :: string
  cf_kind :: string
  cf_present :: nat
  cf_missing :: int
  cf_polymorphic :: bool

record field_resolver =
  fr_facts :: "(string \<times> column_facts) list"
  fr_files :: nat
  fr_with_raw :: nat

text \<open>\<open>rs_owners\<close> maps a folded column name to the first key that used it, \<open>rs_shared\<close> lists the keys that met another there.\<close>

record resolver_state =
  rs_owners :: "(string \<times> string) list"
  rs_shared :: "string list"
  rs_facts :: "(string \<times> column_facts) list"

definition note_owner :: "(string \<Rightarrow> string) \<Rightarrow> column \<Rightarrow> resolver_state \<Rightarrow> resolver_state" where
  "note_owner unicode c s =
     (let folded = to_lower unicode (cl_name c)
      in case map_of (rs_owners s) folded of
           None \<Rightarrow> s\<lparr>rs_owners := (folded, cl_source_key c) # rs_owners s\<rparr>
         | Some owner \<Rightarrow>
             (if owner \<noteq> cl_source_key c then s\<lparr>rs_shared := [owner, cl_source_key c] @ rs_shared s\<rparr> else s))"

definition new_facts :: "column \<Rightarrow> column_facts" where
  "new_facts c = \<lparr>cf_column = cl_name c, cf_kind = cl_kind c, cf_present = 0, cf_missing = 0, cf_polymorphic = False\<rparr>"

definition count_column :: "column \<Rightarrow> column_facts \<Rightarrow> column_facts" where
  "count_column c f =
     (let f1 = f\<lparr>cf_present := cf_present f + 1\<rparr>;
          f2 = (if cl_polymorphic c \<or> cf_kind f1 \<noteq> cl_kind c then f1\<lparr>cf_polymorphic := True, cf_kind := ''string''\<rparr> else f1)
      in if cf_column f2 \<noteq> cl_name c then f2\<lparr>cf_column := ''''\<rparr> else f2)"

definition note_facts :: "column \<Rightarrow> resolver_state \<Rightarrow> resolver_state" where
  "note_facts c s =
     s\<lparr>rs_facts := AList.update (cl_source_key c)
        (count_column c (case map_of (rs_facts s) (cl_source_key c) of Some f \<Rightarrow> f | None \<Rightarrow> new_facts c)) (rs_facts s)\<rparr>"

definition note_column :: "(string \<Rightarrow> string) \<Rightarrow> column \<Rightarrow> resolver_state \<Rightarrow> resolver_state" where
  "note_column unicode c s = note_facts c (note_owner unicode c s)"

definition note_files :: "(string \<Rightarrow> string) \<Rightarrow> (cat_file \<Rightarrow> column list) \<Rightarrow> cat_file list \<Rightarrow> resolver_state" where
  "note_files unicode columns files =
     fold (\<lambda>f s. fold (note_column unicode) (columns f) s) files \<lparr>rs_owners = [], rs_shared = [], rs_facts = []\<rparr>"

definition NewResolver :: "(string \<Rightarrow> string) \<Rightarrow> (cat_file \<Rightarrow> column list) \<Rightarrow> cat_file list \<Rightarrow> field_resolver" where
  "NewResolver unicode columns files =
     (let s = note_files unicode columns files
      in \<lparr>fr_facts = map (\<lambda>(k, f). (k, f\<lparr>cf_missing := int (length files) - int (cf_present f),
               cf_column := (if k \<in> set (rs_shared s) then '''' else cf_column f)\<rparr>)) (rs_facts s),
          fr_files = length files, fr_with_raw = length (filter fl_has_raw files)\<rparr>)"

section \<open>Expressions\<close>

definition replace_all :: "(char \<times> string) list \<Rightarrow> string \<Rightarrow> string" where
  "replace_all rs s = concat (map (\<lambda>c. case map_of rs c of Some t \<Rightarrow> t | None \<Rightarrow> [c]) s)"

definition quote_literal :: "string \<Rightarrow> string" where
  "quote_literal t = CHR 39 # replace_all [(CHR 39, [CHR 39, CHR 39])] t @ [CHR 39]"

definition json_path :: "string \<Rightarrow> string" where
  "json_path field =
     (let segments = split_on (CHR ''.'') field
      in if '''' \<in> set segments \<or> ''*'' \<in> set segments then
           ''/'' @ sep_join ''/'' (map (replace_all [(CHR ''~'', ''~0''), (CHR ''/'', ''~1'')]) segments)
         else ''$.'' @ sep_join ''.'' (map (\<lambda>s. CHR 34 # replace_all [(CHR 92, [CHR 92, CHR 92]), (CHR 34, [CHR 92, CHR 34])] s @ [CHR 34]) segments))"

datatype field_expr =
    XColumn string                       \<comment> \<open>a column\<close>
  | XNested string string                \<comment> \<open>a path in a JSON column\<close>
  | XRaw string                          \<comment> \<open>a key of the original line\<close>
  | XCast field_expr string              \<comment> \<open>\<open>try_cast\<close>\<close>
  | XCoalesce field_expr field_expr

definition rawPath :: "string \<Rightarrow> string" where
  "rawPath field = ''CASE WHEN json_valid('' @ ColRaw @ '') THEN '' @ ColRaw @ '' ->> '' @ quote_literal (json_path field) @ '' END''"

fun render_field :: "field_expr \<Rightarrow> string" where
  "render_field (XColumn c) = c"
| "render_field (XNested c path) = c @ '' ->> '' @ quote_literal (json_path path)"
| "render_field (XRaw field) = rawPath field"
| "render_field (XCast e t) = ''try_cast('' @ render_field e @ '' AS '' @ t @ '')''"
| "render_field (XCoalesce a b) = ''coalesce('' @ render_field a @ '', '' @ render_field b @ '')''"

definition kindOf :: "string \<Rightarrow> field_kind" where
  "kindOf k =
     (if k = ''int'' \<or> k = ''float'' then FieldNumber
      else if k = ''boolean'' then FieldBool
      else if k = ''json'' then FieldJSON
      else FieldString)"

definition castFromRaw :: "string \<Rightarrow> field_kind \<Rightarrow> field_expr" where
  "castFromRaw field k =
     (case k of
        FieldNumber \<Rightarrow> XCast (XRaw field) ''DOUBLE''
      | FieldBool \<Rightarrow> XCast (XRaw field) ''BOOLEAN''
      | _ \<Rightarrow> XRaw field)"

definition envelope_fields :: "(string \<times> string \<times> field_kind) list" where
  "envelope_fields =
     [(''ts'', ColTs, FieldTimestamp), (''time'', ColTs, FieldTimestamp), (''ingest_ts'', ColIngestTs, FieldTimestamp),
      (''stream'', ColStream, FieldString), (''seq'', ColSeq, FieldNumber), (''level'', ColLevel, FieldSeverity),
      (''severity'', ColLevel, FieldSeverity), (''msg'', ColMsg, FieldString), (''message'', ColMsg, FieldString),
      (''host'', ColHost, FieldString), (''raw'', ColRaw, FieldString), (''is_json'', ColIsJSON, FieldBool)]"

section \<open>Resolve\<close>

definition resolve_nested :: "field_resolver \<Rightarrow> string \<Rightarrow> (field_expr \<times> field_kind) option" where
  "resolve_nested r field =
     (if CHR ''.'' \<in> set field then
        (let (head, tail) = cut_at (CHR ''.'') field
         in case map_of (fr_facts r) head of
              None \<Rightarrow> None
            | Some f \<Rightarrow>
                (if cf_column f \<noteq> '''' \<and> cf_kind f = ''json'' then
                   Some (if cf_missing f > 0 \<and> fr_with_raw r > 0
                         then XCoalesce (XNested (cf_column f) tail) (XRaw field)
                         else XNested (cf_column f) tail, FieldString)
                 else None))
      else None)"

definition resolve_key_expr :: "field_resolver \<Rightarrow> string \<Rightarrow> (field_expr \<times> field_kind) option" where
  "resolve_key_expr r field =
     (case map_of (fr_facts r) field of
        None \<Rightarrow> (if fr_with_raw r = 0 then None else Some (XRaw field, FieldString))
      | Some f \<Rightarrow>
          (if cf_column f = '''' then (if fr_with_raw r = 0 then None else Some (XRaw field, FieldString))
           else if cf_missing f = 0 \<or> fr_with_raw r = 0 then Some (XColumn (cf_column f), kindOf (cf_kind f))
           else Some (XCoalesce (XColumn (cf_column f)) (castFromRaw field (kindOf (cf_kind f))), kindOf (cf_kind f))))"

definition Resolve :: "field_resolver \<Rightarrow> string \<Rightarrow> (field_expr \<times> field_kind) option" where
  "Resolve r field =
     (case map_of envelope_fields field of
        Some (c, k) \<Rightarrow> Some (XColumn c, k)
      | None \<Rightarrow>
          (case resolve_nested r field of
             Some x \<Rightarrow> Some x
           | None \<Rightarrow> resolve_key_expr r field))"

definition rql_resolver :: "field_resolver \<Rightarrow> resolver" where
  "rql_resolver r field = map_option (apfst render_field) (Resolve r (utf8 field))"

definition Kind :: "field_resolver \<Rightarrow> string \<Rightarrow> field_kind" where
  "Kind r field =
     (case map_of envelope_fields field of
        Some (c, k) \<Rightarrow> k
      | None \<Rightarrow> (case map_of (fr_facts r) field of Some f \<Rightarrow> kindOf (cf_kind f) | None \<Rightarrow> FieldString))"

end
