(* ===== verification/QueryResolveInv.thy ===== *)
theory QueryResolveInv
  imports QueryResolve
begin

text \<open>
  What a resolved field reads.  \<open>reads\<close> is the meaning of an expression on a record of one of the
  files, as DuckDB documents it: a column by its name without regard to case, no value where the
  file has no such column, and a key of the line where the file keeps it.
\<close>

section \<open>What the resolver has noted\<close>

text \<open>The invariant of the loop over the columns \<open>cs\<close> seen so far.\<close>

definition noted :: "(string \<Rightarrow> string) \<Rightarrow> column list \<Rightarrow> resolver_state \<Rightarrow> bool" where
  "noted u cs s \<longleftrightarrow>
     (\<forall>c\<in>set cs. \<exists>k. map_of (rs_owners s) (to_lower u (cl_name c)) = Some k \<and>
        (k = cl_source_key c \<or> k \<in> set (rs_shared s) \<and> cl_source_key c \<in> set (rs_shared s))) \<and>
     (\<forall>k. case map_of (rs_facts s) k of
        None \<Rightarrow> \<forall>c\<in>set cs. cl_source_key c \<noteq> k
      | Some f \<Rightarrow> cf_present f = length (filter (\<lambda>c. cl_source_key c = k) cs) \<and> cf_present f > 0 \<and>
          (cf_column f \<noteq> '''' \<longrightarrow> (\<forall>c\<in>set cs. cl_source_key c = k \<longrightarrow> cl_name c = cf_column f)))"

lemma noted_owners:
  assumes "noted u cs s"
  shows "\<forall>c\<in>set (cs @ [c']). \<exists>k. map_of (rs_owners (note_column u c' s)) (to_lower u (cl_name c)) = Some k \<and>
    (k = cl_source_key c \<or> k \<in> set (rs_shared (note_column u c' s)) \<and> cl_source_key c \<in> set (rs_shared (note_column u c' s)))"
proof -
  have old: "\<forall>c\<in>set cs. \<exists>k. map_of (rs_owners s) (to_lower u (cl_name c)) = Some k \<and>
      (k = cl_source_key c \<or> k \<in> set (rs_shared s) \<and> cl_source_key c \<in> set (rs_shared s))"
    using assms by (simp add: noted_def)
  have same: "rs_owners (note_column u c' s) = rs_owners (note_owner u c' s)" "rs_shared (note_column u c' s) = rs_shared (note_owner u c' s)"
    by (simp_all add: note_column_def note_facts_def Let_def)
  show ?thesis
  proof (cases "map_of (rs_owners s) (to_lower u (cl_name c'))")
    case None
    with old show ?thesis by (fastforce simp: same note_owner_def Let_def)
  next
    case (Some k)
    with old show ?thesis by (fastforce simp: same note_owner_def Let_def)
  qed
qed

lemma count_column_simps: "cf_present (count_column c f) = Suc (cf_present f)"
  "cf_column (count_column c f) = (if cf_column f = cl_name c then cf_column f else [])"
  by (simp_all add: count_column_def Let_def)

lemma noted_facts:
  assumes "noted u cs s"
  shows "case map_of (rs_facts (note_column u c' s)) k of
        None \<Rightarrow> \<forall>c\<in>set (cs @ [c']). cl_source_key c \<noteq> k
      | Some f \<Rightarrow> cf_present f = length (filter (\<lambda>c. cl_source_key c = k) (cs @ [c'])) \<and> cf_present f > 0 \<and>
          (cf_column f \<noteq> '''' \<longrightarrow> (\<forall>c\<in>set (cs @ [c']). cl_source_key c = k \<longrightarrow> cl_name c = cf_column f))"
proof -
  have same: "rs_facts (note_owner u c' s) = rs_facts s"
    by (simp add: note_owner_def Let_def split: option.splits)
  from assms have old: "case map_of (rs_facts s) k of
        None \<Rightarrow> \<forall>c\<in>set cs. cl_source_key c \<noteq> k
      | Some f \<Rightarrow> cf_present f = length (filter (\<lambda>c. cl_source_key c = k) cs) \<and> cf_present f > 0 \<and>
          (cf_column f \<noteq> '''' \<longrightarrow> (\<forall>c\<in>set cs. cl_source_key c = k \<longrightarrow> cl_name c = cf_column f))"
    unfolding noted_def by blast
  show ?thesis
  proof (cases "cl_source_key c' = k")
    case False
    have eq: "map_of (rs_facts (note_column u c' s)) k = map_of (rs_facts s) k"
      using False by (simp add: note_column_def note_facts_def same update_conv')
    from False have all: "(\<forall>c\<in>set (cs @ [c']). cl_source_key c \<noteq> k) = (\<forall>c\<in>set cs. cl_source_key c \<noteq> k)"
      "(\<forall>c\<in>set (cs @ [c']). cl_source_key c = k \<longrightarrow> cl_name c = n) = (\<forall>c\<in>set cs. cl_source_key c = k \<longrightarrow> cl_name c = n)" for n
      by auto
    from False have len: "filter (\<lambda>c. cl_source_key c = k) (cs @ [c']) = filter (\<lambda>c. cl_source_key c = k) cs" by simp
    from old show ?thesis unfolding eq all len .
  next
    case True
    have len: "length (filter (\<lambda>c. cl_source_key c = k) (cs @ [c'])) = Suc (length (filter (\<lambda>c. cl_source_key c = k) cs))"
      using True by simp
    define f where "f = (case map_of (rs_facts s) k of Some f \<Rightarrow> f | None \<Rightarrow> new_facts c')"
    have eq: "map_of (rs_facts (note_column u c' s)) k = Some (count_column c' f)"
      using True by (simp add: note_column_def note_facts_def same update_conv' f_def)
    have f: "cf_present f = length (filter (\<lambda>c. cl_source_key c = k) cs)"
      "cf_column f \<noteq> [] \<Longrightarrow> cf_column f = cl_name c' \<Longrightarrow> \<forall>c\<in>set cs. cl_source_key c = k \<longrightarrow> cl_name c = cl_name c'"
    proof (induct "map_of (rs_facts s) k")
      case None
      { case 1 from None [symmetric] old have "\<forall>c\<in>set cs. cl_source_key c \<noteq> k" by (simp only: option.case)
        with None [symmetric] show ?case by (simp add: f_def new_facts_def) }
      { case 2 from None [symmetric] old have "\<forall>c\<in>set cs. cl_source_key c \<noteq> k" by (simp only: option.case)
        then show ?case by simp }
    next
      case (Some g)
      then have g: "f = g" by (simp add: f_def Some [symmetric])
      have o: "cf_present g = length (filter (\<lambda>c. cl_source_key c = k) cs) \<and> cf_present g > 0 \<and>
          (cf_column g \<noteq> '''' \<longrightarrow> (\<forall>c\<in>set cs. cl_source_key c = k \<longrightarrow> cl_name c = cf_column g))"
        using old unfolding Some [symmetric] option.case .
      { case 1 from o show ?case unfolding g by (rule conjunct1) }
      { case 2
        from 2 have "cf_column g \<noteq> []" unfolding g by blast
        with o have all: "\<forall>c\<in>set cs. cl_source_key c = k \<longrightarrow> cl_name c = cf_column g" by blast
        from 2 have same_name: "cf_column g = cl_name c'" unfolding g by blast
        from all show ?case unfolding same_name . }
    qed
    have "(if cf_column f = cl_name c' then cf_column f else []) \<noteq> [] \<Longrightarrow> \<forall>c\<in>set (cs @ [c']). cl_source_key c = k \<longrightarrow>
        cl_name c = (if cf_column f = cl_name c' then cf_column f else [])"
    proof -
      assume n: "(if cf_column f = cl_name c' then cf_column f else []) \<noteq> []"
      then have e: "cf_column f = cl_name c'" by meson
      with n have "\<forall>c\<in>set cs. cl_source_key c = k \<longrightarrow> cl_name c = cl_name c'" by (intro f(2)) simp_all
      then show ?thesis unfolding e if_P [OF refl] set_append list.set by blast
    qed
    then show ?thesis unfolding eq option.case len count_column_simps f(1)
      by (intro conjI impI refl zero_less_Suc) assumption
  qed
qed

lemma noted_step: "noted u cs s \<Longrightarrow> noted u (cs @ [c]) (note_column u c s)"
  using noted_owners [of u cs s c] noted_facts [of u cs s c] unfolding noted_def by blast

lemma noted_fold: "noted u cs s \<Longrightarrow> noted u (cs @ ds) (fold (note_column u) ds s)"
proof (induction ds arbitrary: cs s)
  case (Cons d ds)
  from Cons.IH [OF noted_step [OF Cons.prems]] show ?case by simp
qed simp

lemma noted_files: "noted u (concat (map columns files)) (note_files u columns files)"
proof -
  have "noted u cs s \<Longrightarrow> noted u (cs @ concat (map columns files)) (fold (\<lambda>f s. fold (note_column u) (columns f) s) files s)" for cs s
  proof (induction files arbitrary: cs s)
    case (Cons f fs)
    from Cons.IH [OF noted_fold [OF Cons.prems]] show ?case by simp
  qed simp
  from this [of "[]" "\<lparr>rs_owners = [], rs_shared = [], rs_facts = []\<rparr>"] show ?thesis
    by (simp add: note_files_def noted_def)
qed

section \<open>Columns that answer for one key\<close>

definition has_key :: "(cat_file \<Rightarrow> column list) \<Rightarrow> cat_file \<Rightarrow> string \<Rightarrow> bool" where
  "has_key columns f k \<longleftrightarrow> (\<exists>c\<in>set (columns f). cl_source_key c = k)"

definition column_read :: "(string \<Rightarrow> string) \<Rightarrow> (cat_file \<Rightarrow> column list) \<Rightarrow> cat_file \<Rightarrow> string \<Rightarrow> (string \<Rightarrow> 'v option) \<Rightarrow> 'v option" where
  "column_read u columns f n r =
     (case find (\<lambda>c. to_lower u (cl_name c) = to_lower u n) (columns f) of None \<Rightarrow> None | Some c \<Rightarrow> r (cl_source_key c))"

lemma map_of_facts:
  "map_of (fr_facts (NewResolver u columns files)) k =
     map_option (\<lambda>f. f\<lparr>cf_missing := int (length files) - int (cf_present f),
       cf_column := (if k \<in> set (rs_shared (note_files u columns files)) then '''' else cf_column f)\<rparr>)
     (map_of (rs_facts (note_files u columns files)) k)"
proof -
  have "map_of (map (\<lambda>(k, f). (k, g k f)) xs) k = map_option (g k) (map_of xs k)" for g :: "string \<Rightarrow> column_facts \<Rightarrow> column_facts" and xs
    by (induction xs) auto
  then show ?thesis by (simp add: NewResolver_def Let_def)
qed

lemma facts_column:
  assumes "map_of (fr_facts (NewResolver u columns files)) k = Some f" "cf_column f \<noteq> ''''"
    and "file \<in> set files"
  shows "column_read u columns file (cf_column f) r = (if has_key columns file k then r k else None)"
proof -
  let ?s = "note_files u columns files"
  let ?cs = "concat (map columns files)"
  from assms(1) obtain g where g: "map_of (rs_facts ?s) k = Some g" "k \<notin> set (rs_shared ?s)" "cf_column f = cf_column g"
  proof (cases "k \<in> set (rs_shared ?s)")
    case True
    with assms(1,2) show ?thesis by (auto simp: map_of_facts)
  next
    case False
    with assms(1) that show ?thesis by (auto simp: map_of_facts)
  qed
  have n: "noted u ?cs ?s" by (rule noted_files)
  then have "case map_of (rs_facts ?s) k of
        None \<Rightarrow> \<forall>c\<in>set ?cs. cl_source_key c \<noteq> k
      | Some f \<Rightarrow> cf_present f = length (filter (\<lambda>c. cl_source_key c = k) ?cs) \<and> cf_present f > 0 \<and>
          (cf_column f \<noteq> '''' \<longrightarrow> (\<forall>c\<in>set ?cs. cl_source_key c = k \<longrightarrow> cl_name c = cf_column f))"
    unfolding noted_def by blast
  with g(1,3) assms(2) have facts: "length (filter (\<lambda>c. cl_source_key c = k) ?cs) > 0"
    "\<And>c. c \<in> set ?cs \<Longrightarrow> cl_source_key c = k \<Longrightarrow> cl_name c = cf_column f" by auto
  have owners: "\<exists>k. map_of (rs_owners ?s) (to_lower u (cl_name c)) = Some k \<and>
        (k = cl_source_key c \<or> k \<in> set (rs_shared ?s) \<and> cl_source_key c \<in> set (rs_shared ?s))" if "c \<in> set ?cs" for c
    using n that unfolding noted_def by blast
  from facts(1) obtain c0 where c0: "c0 \<in> set ?cs" "cl_source_key c0 = k"
    by (auto simp: length_greater_0_conv filter_empty_conv simp del: set_concat)
  have own: "map_of (rs_owners ?s) (to_lower u (cf_column f)) = Some k"
    using owners [OF c0(1)] c0 facts(2) [OF c0] g(2) by auto
  have one: "cl_source_key c = k" if c: "c \<in> set (columns file)" "to_lower u (cl_name c) = to_lower u (cf_column f)" for c
  proof -
    have "c \<in> set ?cs" using c(1) assms(3) by auto
    from owners [OF this] c(2) own g(2) show ?thesis by auto
  qed
  show ?thesis
  proof (cases "find (\<lambda>c. to_lower u (cl_name c) = to_lower u (cf_column f)) (columns file)")
    case None
    then have "\<forall>c\<in>set (columns file). to_lower u (cl_name c) \<noteq> to_lower u (cf_column f)" by (simp add: find_None_iff)
    moreover have "c \<in> set (columns file) \<Longrightarrow> cl_source_key c = k \<Longrightarrow> cl_name c = cf_column f" for c
      using facts(2) assms(3) by auto
    ultimately have "\<not> has_key columns file k" by (auto simp: has_key_def)
    with None show ?thesis by (simp add: column_read_def)
  next
    case (Some c)
    then have c: "c \<in> set (columns file)" "to_lower u (cl_name c) = to_lower u (cf_column f)"
      by (auto simp: find_Some_iff)
    with one have "cl_source_key c = k" by blast
    moreover from this c(1) have "has_key columns file k" by (auto simp: has_key_def)
    ultimately show ?thesis using Some by (simp add: column_read_def)
  qed
qed

lemma sum_list_le_length: "\<forall>x\<in>set xs. n x \<le> (1::nat) \<Longrightarrow> sum_list (map n xs) \<le> length xs"
proof (induction xs)
  case (Cons x xs)
  then show ?case using add_le_mono [of "n x" 1 "sum_list (map n xs)" "length xs"] by simp
qed simp

lemma sum_at_most_one:
  assumes "\<forall>x\<in>set xs. n x \<le> (1::nat)" "sum_list (map n xs) = length xs" "x \<in> set xs"
  shows "n x = 1"
proof (rule ccontr)
  assume "n x \<noteq> 1"
  then have x: "n x = 0" using assms(1,3) by (metis One_nat_def le_SucE le_zero_eq)
  from assms(1,3) have "sum_list (map n xs) < length xs"
  proof (induction xs)
    case (Cons y ys)
    have "sum_list (map n ys) \<le> length ys"
      using Cons.prems(1) by (induction ys) auto
    with Cons x show ?case by (cases "x = y") (auto simp: less_Suc_eq_le add_le_less_mono)
  qed simp
  with assms(2) show False by simp
qed

lemma distinct_key_filter: "distinct (map g xs) \<Longrightarrow> length (filter (\<lambda>x. g x = k) xs) \<le> 1"
proof (induction xs)
  case (Cons x xs)
  show ?case
  proof (cases "g x = k")
    case True
    with Cons.prems have "filter (\<lambda>x. g x = k) xs = []" by (simp add: filter_empty_conv) (metis imageI)
    with True show ?thesis by simp
  next
    case False
    with Cons show ?thesis by simp
  qed
qed simp

definition key_count :: "(cat_file \<Rightarrow> column list) \<Rightarrow> string \<Rightarrow> cat_file \<Rightarrow> nat" where
  "key_count columns k f = length (filter (\<lambda>c. cl_source_key c = k) (columns f))"

lemma key_count_le: "distinct (map cl_source_key (columns f)) \<Longrightarrow> key_count columns k f \<le> 1"
  unfolding key_count_def by (rule distinct_key_filter)

lemma facts_missing_eq:
  assumes "map_of (fr_facts (NewResolver u columns files)) k = Some f"
  shows "cf_missing f = int (length files) - int (sum_list (map (key_count columns k) files))"
proof -
  let ?s = "note_files u columns files"
  let ?cs = "concat (map columns files)"
  from assms obtain g where g: "map_of (rs_facts ?s) k = Some g" "cf_missing f = int (length files) - int (cf_present g)"
    by (auto simp: map_of_facts)
  have "noted u ?cs ?s" by (rule noted_files)
  with g(1) have "cf_present g = length (filter (\<lambda>c. cl_source_key c = k) ?cs)"
    unfolding noted_def by (auto dest!: spec [of _ k])
  also have "\<dots> = sum_list (map (key_count columns k) files)"
    by (simp add: filter_concat length_concat comp_def key_count_def [abs_def])
  finally show ?thesis using g(2) by simp
qed

lemma facts_missing:
  assumes "map_of (fr_facts (NewResolver u columns files)) k = Some f" "\<forall>f\<in>set files. distinct (map cl_source_key (columns f))"
  shows "0 \<le> cf_missing f"
proof -
  have "sum_list (map (key_count columns k) files) \<le> length files"
    using assms(2) by (intro sum_list_le_length ballI key_count_le) blast
  then show ?thesis by (simp add: facts_missing_eq [OF assms(1)])
qed

lemma facts_present:
  assumes "map_of (fr_facts (NewResolver u columns files)) k = Some f" "cf_missing f = 0"
    and "\<forall>f\<in>set files. distinct (map cl_source_key (columns f))" "file \<in> set files"
  shows "has_key columns file k"
proof -
  have "sum_list (map (key_count columns k) files) = length files"
    using assms(2) facts_missing_eq [OF assms(1)] by simp
  moreover have "\<forall>f\<in>set files. key_count columns k f \<le> 1"
    using assms(3) by (intro ballI key_count_le) blast
  ultimately have "key_count columns k file = 1" using assms(4) by (intro sum_at_most_one)
  then have "filter (\<lambda>c. cl_source_key c = k) (columns file) \<noteq> []" by (auto simp: key_count_def)
  then show ?thesis by (auto simp: has_key_def filter_empty_conv)
qed

section \<open>What a resolved field reads\<close>

text \<open>
  \<open>r\<close> gives the values of a record by key or dotted path, \<open>nest\<close> walks a path in a JSON value.  A
  cast leaves a value of its type as it is.
\<close>

fun reads :: "(string \<Rightarrow> string) \<Rightarrow> (cat_file \<Rightarrow> column list) \<Rightarrow> ('v \<Rightarrow> string \<Rightarrow> 'v option) \<Rightarrow> cat_file \<Rightarrow> (string \<Rightarrow> 'v option)
    \<Rightarrow> field_expr \<Rightarrow> 'v option" where
  "reads u columns nest f r (XColumn n) = column_read u columns f n r"
| "reads u columns nest f r (XNested n path) = Option.bind (column_read u columns f n r) (\<lambda>v. nest v path)"
| "reads u columns nest f r (XRaw k) = (if fl_has_raw f then r k else None)"
| "reads u columns nest f r (XCast e t) = reads u columns nest f r e"
| "reads u columns nest f r (XCoalesce a b) =
     (case reads u columns nest f r a of Some v \<Rightarrow> Some v | None \<Rightarrow> reads u columns nest f r b)"

definition right_value :: "bool \<Rightarrow> 'v option \<Rightarrow> 'v option \<Rightarrow> bool" where
  "right_value must expected got \<longleftrightarrow> (got = expected \<or> got = None \<and> \<not> must)"

lemma reads_castFromRaw: "reads u columns nest f r (castFromRaw k kind) = (if fl_has_raw f then r k else None)"
  by (cases kind) (simp_all add: castFromRaw_def)

lemma with_raw:
  assumes "file \<in> set files" "fl_has_raw file"
  shows "fr_with_raw (NewResolver u columns files) \<noteq> 0"
  using assms by (auto simp: NewResolver_def Let_def filter_empty_conv)

lemma resolve_key_reads:
  assumes r: "resolve_key_expr (NewResolver u columns files) k = Some (e, kind)"
    and files: "\<forall>f\<in>set files. distinct (map cl_source_key (columns f))" "file \<in> set files"
  shows "right_value (fl_has_raw file) (r k) (reads u columns nest file r e)"
proof (cases "map_of (fr_facts (NewResolver u columns files)) k")
  case None
  with r have "e = XRaw k" by (auto simp: resolve_key_expr_def split: if_splits)
  then show ?thesis by (simp add: right_value_def)
next
  case (Some f)
  show ?thesis
  proof (cases "cf_column f = ''''")
    case True
    with Some r have "e = XRaw k" by (auto simp: resolve_key_expr_def split: if_splits)
    then show ?thesis by (simp add: right_value_def)
  next
    case False
    note column = facts_column [OF Some False files(2), of r]
    show ?thesis
    proof (cases "cf_missing f = 0 \<or> fr_with_raw (NewResolver u columns files) = 0")
      case True
      with Some r False have e: "e = XColumn (cf_column f)" by (auto simp: resolve_key_expr_def)
      have "fl_has_raw file \<Longrightarrow> has_key columns file k"
        using True with_raw [OF files(2)] facts_present [OF Some _ files] by blast
      then show ?thesis using column by (auto simp: e right_value_def)
    next
      case coalesce: False
      with Some r False have "e = XCoalesce (XColumn (cf_column f)) (castFromRaw k (kindOf (cf_kind f)))"
        by (auto simp: resolve_key_expr_def)
      then show ?thesis using column by (auto simp: right_value_def reads_castFromRaw split: option.splits)
    qed
  qed
qed

lemma resolve_nested_reads:
  assumes r: "resolve_nested (NewResolver u columns files) k = Some (e, kind)"
    and files: "\<forall>f\<in>set files. distinct (map cl_source_key (columns f))" "file \<in> set files"
    and path: "r k = Option.bind (r (fst (cut_at (CHR ''.'') k))) (\<lambda>v. nest v (snd (cut_at (CHR ''.'') k)))"
  shows "right_value (fl_has_raw file) (r k) (reads u columns nest file r e)"
proof -
  let ?head = "fst (cut_at (CHR ''.'') k)" and ?tail = "snd (cut_at (CHR ''.'') k)"
  from r obtain f where f: "map_of (fr_facts (NewResolver u columns files)) ?head = Some f" "cf_column f \<noteq> ''''"
    and e: "e = (if cf_missing f > 0 \<and> fr_with_raw (NewResolver u columns files) > 0
       then XCoalesce (XNested (cf_column f) ?tail) (XRaw k) else XNested (cf_column f) ?tail)"
    by (auto simp: resolve_nested_def case_prod_beta split: if_splits option.splits)
  note column = facts_column [OF f files(2), of r]
  show ?thesis
  proof (cases "cf_missing f > 0 \<and> fr_with_raw (NewResolver u columns files) > 0")
    case True
    with e column path show ?thesis by (auto simp: right_value_def split: option.splits)
  next
    case False
    have "fl_has_raw file \<Longrightarrow> has_key columns file ?head"
    proof -
      assume "fl_has_raw file"
      with False with_raw [OF files(2), of u columns] have "cf_missing f \<le> 0" by auto
      moreover have "0 \<le> cf_missing f" by (rule facts_missing [OF f(1) files(1)])
      ultimately have "cf_missing f = 0" by simp
      from facts_present [OF f(1) this files] show ?thesis .
    qed
    with e False column path show ?thesis by (auto simp: right_value_def)
  qed
qed


section \<open>What the resolver promises\<close>

text \<open>The law of a dotted path: its value is the tail's in the value of the head.\<close>

definition nested_paths :: "('v \<Rightarrow> string \<Rightarrow> 'v option) \<Rightarrow> (string \<Rightarrow> 'v option) \<Rightarrow> bool" where
  "nested_paths nest r \<longleftrightarrow>
     (\<forall>k. CHR ''.'' \<in> set k \<longrightarrow> r k = Option.bind (r (fst (cut_at (CHR ''.'') k))) (\<lambda>v. nest v (snd (cut_at (CHR ''.'') k))))"


text \<open>
  Two files: the older keeps the original line and no columns, the newer has promoted \<open>user\<close>.
\<close>

definition ex_old_file :: cat_file where
  "ex_old_file = \<lparr>fl_id = 1, fl_stream = ''s'', fl_path = ''old'', fl_level = 0, fl_min_ts = 0, fl_max_ts = 9, fl_min_seq = 1,
     fl_max_seq = 2, fl_rows = 2, fl_bytes = 10, fl_has_raw = True, fl_state = StateLive, fl_created = None,
     fl_level_floor = [], fl_tombstoned_at = None\<rparr>"

definition ex_user_column :: column where
  "ex_user_column = \<lparr>cl_name = ''a_user'', cl_source_key = ''user'', cl_kind = ''int'', cl_polymorphic = False, cl_null_count = 0,
     cl_min_value = '''', cl_max_value = '''', cl_has_range = False\<rparr>"

definition ex_columns :: "cat_file \<Rightarrow> column list" where
  "ex_columns f = (if fl_id f = 2 then [ex_user_column] else [])"


end
