(* ===== verification/QueryEngine.thy ===== *)
theory QueryEngine
  imports QueryResolve
begin

text \<open>
  The query engine, \<open>src/internal/query/engine.go\<close>: limits, the sandbox, the slots that bound the
  queries in flight, plans over the catalog, and what a client may see of a failure.

  DuckDB is a function from a statement and its arguments to an \<open>answer\<close>: the context ended while
  the query waited for a slot, DuckDB refused the statement, or it gave rows, each one scanned
  into the caller's variables (\<open>None\<close> where the scan fails), and then the end or an error.
\<close>

section \<open>Limits\<close>

record limits =
  l_timeout :: int
  l_max_rows :: int
  l_memory :: string
  l_threads :: int
  l_concurrency :: int

definition DefaultTimeout :: int where "DefaultTimeout = 30 * 10 ^ 9"
definition DefaultMaxRows :: int where "DefaultMaxRows = 10000"
definition DefaultMemory :: string where "DefaultMemory = ''1GB''"
definition DefaultConcurrency :: int where "DefaultConcurrency = 4"
definition DefaultWindow :: int where "DefaultWindow = 24 * 3600 * 10 ^ 9"

definition limits_withDefaults :: "limits \<Rightarrow> limits" where
  "limits_withDefaults l =
     l\<lparr>l_timeout := (if l_timeout l = 0 then DefaultTimeout else l_timeout l),
       l_max_rows := (if l_max_rows l = 0 then DefaultMaxRows else l_max_rows l),
       l_memory := (if l_memory l = '''' then DefaultMemory else l_memory l),
       l_concurrency := (if l_concurrency l = 0 then DefaultConcurrency else l_concurrency l)\<rparr>"

section \<open>Opening\<close>

text \<open>
  The statements that configure DuckDB, in order.  \<open>Open\<close> runs them one by one and gives up at the
  first that fails; the engine is its limits, its root and the number of free slots.
\<close>

definition setup_statements :: "limits \<Rightarrow> string \<Rightarrow> string list" where
  "setup_statements l root =
     [''SET memory_limit='' @ quote @ l_memory l @ quote,
      ''SET allowed_directories=['' @ quote @ replace_all [(CHR 39, [CHR 39, CHR 39])] root @ quote @ '']''] @
     (if l_threads l > 0 then [''SET threads='' @ show_int (l_threads l)] else []) @
     [''SET GLOBAL TimeZone='' @ quote @ ''UTC'' @ quote,
      ''SET enable_external_access=false'', ''SET lock_configuration=true'']"

record engine =
  e_root :: string
  e_limits :: limits

datatype open_error = NeedsLocalBackend | OpeningDuckdb | ConfiguringDuckdb string

text \<open>\<open>backend\<close> is the root of a local backend, \<open>sql_open\<close> and \<open>exec\<close> whether the calls succeed.\<close>

definition Open_engine :: "string option \<Rightarrow> bool \<Rightarrow> (string \<Rightarrow> bool) \<Rightarrow> limits \<Rightarrow> open_error + (engine \<times> nat)" where
  "Open_engine backend sql_open exec limits0 =
     (let l = limits_withDefaults limits0
      in case backend of
           None \<Rightarrow> Inl NeedsLocalBackend
         | Some root \<Rightarrow>
             (if \<not> sql_open then Inl OpeningDuckdb
              else case find (\<lambda>st. \<not> exec st) (setup_statements l root) of
                Some st \<Rightarrow> Inl (ConfiguringDuckdb st)
              | None \<Rightarrow> Inr (\<lparr>e_root = root, e_limits = l\<rparr>, nat (l_concurrency l))))"

section \<open>Failures\<close>

datatype duck_type =
    ErrorTypeParser | ErrorTypeSyntax | ErrorTypeBinder | ErrorTypeCatalog | ErrorTypeConversion
  | ErrorTypeInvalidInput | ErrorTypeOutOfRange | ErrorTypeDivideByZero | ErrorTypeMismatchType
  | ErrorTypeInvalidType | ErrorTypeNotImplemented | ErrorTypePermission
  | ErrorTypeOther nat              \<comment> \<open>every other type: out of memory, an interrupt, an unreadable file, \<dots>\<close>

datatype cause = DuckError duck_type string | OtherError string

fun cause_text :: "cause \<Rightarrow> string" where
  "cause_text (DuckError t m) = m"
| "cause_text (OtherError m) = m"

record failure =
  f_cause :: cause
  f_statement :: string
  f_user :: bool
  f_root :: string

definition failure_error :: "failure \<Rightarrow> string" where
  "failure_error f = cause_text (f_cause f) @ [CHR 10, CHR 10] @ ''query:'' @ [CHR 10] @ f_statement f"

text \<open>\<open>strings.Index\<close>, and \<open>strings.ReplaceAll\<close> of a text that is not empty.\<close>

fun index_of :: "string \<Rightarrow> string \<Rightarrow> nat option" where
  "index_of t [] = (if t = [] then Some 0 else None)"
| "index_of t (c # s) = (if prefix t (c # s) then Some 0 else map_option Suc (index_of t s))"

function replace_text :: "string \<Rightarrow> string \<Rightarrow> string \<Rightarrow> string" where
  "replace_text old new s =
     (case s of
        [] \<Rightarrow> []
      | c # s' \<Rightarrow> (if old \<noteq> [] \<and> prefix old s then new @ replace_text old new (drop (length old) s) else c # replace_text old new s'))"
  by pat_completeness auto
termination
  by (relation "measure (\<lambda>(old, new, s). length s)") auto

declare replace_text.simps [simp del]

definition Public :: "failure \<Rightarrow> string" where
  "Public f =
     (let message = cause_text (f_cause f);
          cut = (case index_of (CHR 10 # ''LINE '') message of Some at \<Rightarrow> take at message | None \<Rightarrow> message)
      in trim_space (if f_root f \<noteq> '''' then replace_text (f_root f) ''<data>'' cut else cut))"

definition UserFault :: "failure \<Rightarrow> bool" where
  "UserFault f =
     (case f_cause f of
        OtherError _ \<Rightarrow> False
      | DuckError t _ \<Rightarrow> f_user f \<and>
          (t = ErrorTypeParser \<or> t = ErrorTypeSyntax \<or> t = ErrorTypeBinder \<or> t = ErrorTypeCatalog \<or>
           t = ErrorTypeConversion \<or> t = ErrorTypeInvalidInput \<or> t = ErrorTypeOutOfRange \<or>
           t = ErrorTypeDivideByZero \<or> t = ErrorTypeMismatchType \<or> t = ErrorTypeInvalidType \<or>
           t = ErrorTypeNotImplemented \<or> t = ErrorTypePermission))"

section \<open>Slots\<close>

text \<open>
  A call of the engine is a function of the number of free slots.  \<open>Waits\<close> is a call that asks for
  a slot when none is free: it blocks until some other call releases one or its context ends.
\<close>

datatype search_error =
    Waits | ContextEnded | Failed failure | BadQuery rql_error | PruneFailed | ColumnsFailed string

type_synonym 'a run = "nat \<Rightarrow> (search_error + 'a) \<times> nat"

datatype 'r answer = Cancelled | Refused cause | Rows "'r option list" "cause option"

type_synonym 'r db = "string \<Rightarrow> sql_arg list \<Rightarrow> 'r answer"

definition give :: "'a \<Rightarrow> 'a run" where "give x n = (Inr x, n)"

definition raise :: "search_error \<Rightarrow> 'a run" where "raise e n = (Inl e, n)"

definition and_then :: "'a run \<Rightarrow> ('a \<Rightarrow> 'b run) \<Rightarrow> 'b run" where
  "and_then m f n = (case m n of (Inl e, n') \<Rightarrow> (Inl e, n') | (Inr x, n') \<Rightarrow> f x n')"

definition lift :: "search_error + 'a \<Rightarrow> 'a run" where "lift r n = (r, n)"

definition acquire :: "bool \<Rightarrow> unit run" where
  "acquire cancelled n =
     (if cancelled then (Inl ContextEnded, n) else if n = 0 then (Inl Waits, n) else (Inr (), n - 1))"

definition release :: "unit run" where "release n = (Inr (), Suc n)"

definition failed :: "engine \<Rightarrow> cause \<Rightarrow> string \<Rightarrow> bool \<Rightarrow> search_error" where
  "failed e c st user = Failed \<lparr>f_cause = c, f_statement = st, f_user = user, f_root = e_root e\<rparr>"

text \<open>The rows hold the slot until the caller calls the function that comes with them, here \<open>release\<close>.\<close>

definition query :: "engine \<Rightarrow> 'r db \<Rightarrow> bool \<Rightarrow> string \<Rightarrow> sql_arg list \<Rightarrow> ('r option list \<times> cause option) run" where
  "query e db user st args =
     and_then (acquire (db st args = Cancelled)) (\<lambda>_.
       (case db st args of
          Rows rs err \<Rightarrow> give (rs, err)
        | Refused c \<Rightarrow> and_then release (\<lambda>_. raise (failed e c st user))
        | Cancelled \<Rightarrow> raise ContextEnded))"

text \<open>
  The loops over the rows: all of them, or at most \<open>limit\<close>; an error of a scan or of the rows ends
  them.  With \<open>defer done()\<close> the slot is released however the function ends.
\<close>

definition ScanFailed :: cause where "ScanFailed = OtherError ''sql: Scan error''"

fun scan_all :: "'r option list \<Rightarrow> cause option \<Rightarrow> cause + 'r list" where
  "scan_all [] None = Inr []"
| "scan_all [] (Some c) = Inl c"
| "scan_all (None # rs) err = Inl ScanFailed"
| "scan_all (Some r # rs) err = map_sum id ((#) r) (scan_all rs err)"

definition scan_upto :: "nat \<Rightarrow> 'r option list \<Rightarrow> cause option \<Rightarrow> cause + 'r list" where
  "scan_upto limit rs err = (if limit \<le> length rs then scan_all (take limit rs) None else scan_all rs err)"

text \<open>A statement, its rows scanned by \<open>scan\<close>, and the slot released.\<close>

definition fetch :: "engine \<Rightarrow> 'r db \<Rightarrow> bool \<Rightarrow> ('r option list \<Rightarrow> cause option \<Rightarrow> cause + 'r list) \<Rightarrow> string \<Rightarrow> sql_arg list \<Rightarrow> 'r list run" where
  "fetch e db user scan st args =
     and_then (query e db user st args) (\<lambda>(rs, err).
       and_then release (\<lambda>_.
         (case scan rs err of Inl c \<Rightarrow> raise (failed e c st user) | Inr out \<Rightarrow> give out)))"

section \<open>Plans\<close>

record plan =
  pl_files :: "cat_file list"
  pl_columns :: "cat_file \<Rightarrow> column list"
  pl_resolver :: field_resolver
  pl_from :: int
  pl_to :: int
  pl_rows :: int
  pl_bytes :: int

text \<open>The zero \<open>time.Time\<close>, the first of January of year 1.\<close>

definition zero_time :: int where "zero_time = - 62135596800 * 10 ^ 9"

text \<open>What a plan reads: the catalog, whether its calls succeed, and the clock.\<close>

record world =
  w_catalog :: catalog
  w_prune_ok :: bool
  w_columns_ok :: "cat_file \<Rightarrow> bool"
  w_now :: int

definition Empty :: "plan \<Rightarrow> bool" where "Empty p \<longleftrightarrow> pl_files p = []"

definition time_query :: "string \<Rightarrow> int \<Rightarrow> int \<Rightarrow> cat_query" where
  "time_query stream from to =
     \<lparr>q_stream = stream, q_from = (if from = zero_time then None else Some from),
      q_to = (if to = zero_time then None else Some to), q_require_key = '''', q_levels = [], q_limit = 0\<rparr>"

definition plan_window :: "world \<Rightarrow> int \<Rightarrow> int \<Rightarrow> int \<times> int" where
  "plan_window w from to =
     (let to' = (if to = zero_time then w_now w else to)
      in (if from = zero_time then to' - DefaultWindow else from, to'))"

definition Plan :: "(string \<Rightarrow> string) \<Rightarrow> world \<Rightarrow> string \<Rightarrow> int \<Rightarrow> int \<Rightarrow> search_error + plan" where
  "Plan unicode w stream from0 to0 =
     (let (from, to) = plan_window w from0 to0
      in if \<not> w_prune_ok w then Inl PruneFailed
         else let files = prune (time_query stream from to) (w_catalog w);
                  columns = (\<lambda>f. columns_of (fl_id f) (w_catalog w))
              in case find (\<lambda>f. \<not> w_columns_ok w f) files of
                   Some f \<Rightarrow> Inl (ColumnsFailed (fl_path f))
                 | None \<Rightarrow> Inr \<lparr>pl_files = files, pl_columns = columns, pl_resolver = NewResolver unicode columns files,
                     pl_from = from, pl_to = to, pl_rows = sum_list (map fl_rows files), pl_bytes = sum_list (map fl_bytes files)\<rparr>)"

definition indent :: "nat \<Rightarrow> string" where "indent k = CHR 10 # replicate k (CHR 9)"

definition emptySource :: string where
  "emptySource = ''('' @ indent 1 @ ''SELECT'' @ indent 2 @
     ''CAST(NULL AS TIMESTAMP) AS ts,'' @ indent 2 @ ''CAST(NULL AS TIMESTAMP) AS ingest_ts,'' @ indent 2 @
     ''CAST(NULL AS VARCHAR)   AS stream,'' @ indent 2 @ ''CAST(NULL AS BIGINT)    AS seq,'' @ indent 2 @
     ''CAST(NULL AS VARCHAR)   AS level,'' @ indent 2 @ ''CAST(NULL AS VARCHAR)   AS msg,'' @ indent 2 @
     ''CAST(NULL AS VARCHAR)   AS host,'' @ indent 2 @ ''CAST(NULL AS BOOLEAN)   AS is_json,'' @ indent 2 @
     ''CAST(NULL AS VARCHAR)   AS raw'' @ indent 1 @ ''WHERE FALSE'' @ indent 0 @ '')''"

definition Source :: "engine \<Rightarrow> plan \<Rightarrow> string" where
  "Source e p =
     (if Empty p then emptySource
      else ''read_parquet(['' @ sep_join '', '' (map (\<lambda>f. quote_literal (e_root e @ ''/'' @ fl_path f)) (pl_files p)) @
           ''], union_by_name := true)'')"

end
