(* ===== verification/QuerySearch.thy ===== *)
theory QuerySearch
  imports QueryEngine Normalize ParquetFile
begin

text \<open>
  Search, the histogram and the field explorer, \<open>src/internal/query/search.go\<close>.  Statements are
  built as text with their arguments, as the code builds them; what DuckDB answers is a parameter.
\<close>

section \<open>Requests and cursors\<close>

datatype lang = LangRQL | LangSQL

record cursor =
  cu_ts :: int
  cu_seq :: nat
  cu_from :: int
  cu_to :: int

record request =
  rq_query :: string
  rq_lang :: lang
  rq_stream :: string
  rq_from :: int
  rq_to :: int
  rq_limit :: int
  rq_ascending :: bool
  rq_cursor :: "cursor option"

definition UnixMicro :: "int \<Rightarrow> int" where "UnixMicro t = t div 1000"

definition cursor_string :: "cursor \<Rightarrow> string" where
  "cursor_string c =
     show_int (UnixMicro (cu_ts c)) @ '':'' @ show_nat (cu_seq c) @
     (if cu_from c \<noteq> zero_time \<or> cu_to c \<noteq> zero_time
      then '':'' @ show_int (UnixMicro (cu_from c)) @ '':'' @ show_int (UnixMicro (cu_to c)) else '''')"

datatype cursor_error = MalformedCursor | MalformedTimestamp | MalformedSequence | MalformedWindow

definition ParseCursor :: "string \<Rightarrow> cursor_error + cursor option" where
  "ParseCursor s =
     (if s = '''' then Inr None
      else let parts = split_on (CHR '':'') s
      in if length parts \<noteq> 2 \<and> length parts \<noteq> 4 then Inl MalformedCursor
         else case parse_int 64 (parts ! 0) of
           None \<Rightarrow> Inl MalformedTimestamp
         | Some ts \<Rightarrow>
             (case parse_uint 64 (parts ! 1) of
                None \<Rightarrow> Inl MalformedSequence
              | Some sq \<Rightarrow>
                  (let c = \<lparr>cu_ts = 1000 * ts, cu_seq = sq, cu_from = zero_time, cu_to = zero_time\<rparr>
                   in if length parts = 4 then
                        (case (parse_int 64 (parts ! 2), parse_int 64 (parts ! 3)) of
                           (Some from, Some to) \<Rightarrow> Inr (Some (c\<lparr>cu_from := 1000 * from, cu_to := 1000 * to\<rparr>))
                         | _ \<Rightarrow> Inl MalformedWindow)
                      else Inr (Some c))))"

section \<open>Filters written in SQL\<close>

definition mutation_words :: "string list" where
  "mutation_words = [''attach'', ''copy'', ''create'', ''delete'', ''drop'', ''export'', ''insert'', ''install'', ''load'', ''pragma'', ''update'', ''call'']"

text \<open>
  The scan of a quoted piece: how many bytes after the opening quote belong to it, with a doubled
  quote inside it, up to and with its close or to the end.
\<close>

fun quoted_rest :: "char \<Rightarrow> string \<Rightarrow> nat" where
  "quoted_rest q [] = 0"
| "quoted_rest q [c] = 1"
| "quoted_rest q (c # d # s) =
     (if c \<noteq> q then 1 + quoted_rest q (d # s)
      else if d = q then 2 + quoted_rest q s
      else 1)"

definition blank_length :: "string \<Rightarrow> nat option" where
  "blank_length s =
     (case s of
        [] \<Rightarrow> None
      | c # rest \<Rightarrow>
          (if c = CHR 39 \<or> c = CHR 34 then Some (1 + quoted_rest c rest)
           else if prefix ''--'' s then Some (case index_of [CHR 10] s of Some at \<Rightarrow> at | None \<Rightarrow> length s)
           else if prefix ''/*'' s then Some (case index_of ''*/'' (drop 2 s) of Some at \<Rightarrow> 2 + at + 2 | None \<Rightarrow> length s)
           else None))"

lemma index_of_le: "index_of t s = Some n \<Longrightarrow> n \<le> length s"
  by (induction s arbitrary: n) (auto split: if_splits)

lemma index_of_positive: "index_of [CHR 10] s = Some n \<Longrightarrow> prefix ''--'' s \<Longrightarrow> 0 < n"
  by (cases s) (auto split: if_splits)

lemma blank_length_positive: "blank_length s = Some n \<Longrightarrow> 0 < n"
  by (auto simp: blank_length_def intro: index_of_positive split: list.splits if_splits option.splits)

function blankQuoted :: "string \<Rightarrow> string" where
  "blankQuoted s =
     (case s of
        [] \<Rightarrow> []
      | c # rest \<Rightarrow>
          (case blank_length s of
             None \<Rightarrow> c # blankQuoted rest
           | Some n \<Rightarrow> replicate n (CHR '' '') @ blankQuoted (drop n s)))"
  by pat_completeness auto
termination
  by (relation "measure length") (auto dest: blank_length_positive simp: gr0_conv_Suc)

declare blankQuoted.simps [simp del]

text \<open>
  The regular expression \<open>(?i)\b(attach|\<dots>|call)\b\<close>: Go folds the case of a letter to every rune that
  folds to it, which for these words adds the long s to \<open>s\<close>; \<open>\b\<close> looks at ASCII word characters.
\<close>

definition word_char :: "char \<Rightarrow> bool" where
  "word_char c \<longleftrightarrow> CHR ''0'' \<le> c \<and> c \<le> CHR ''9'' \<or> CHR ''A'' \<le> c \<and> c \<le> CHR ''Z'' \<or> CHR ''a'' \<le> c \<and> c \<le> CHR ''z'' \<or> c = CHR ''_''"

fun folds :: "string \<Rightarrow> string \<Rightarrow> nat option" where
  "folds [] s = Some 0"
| "folds (w # ws) [] = None"
| "folds (w # ws) (c # s) =
     (if ascii_lower c = w then map_option Suc (folds ws s)
      else if w = CHR ''s'' \<and> c = CHR 0xC5 \<and> s \<noteq> [] \<and> hd s = CHR 0xBF then map_option (\<lambda>n. n + 2) (folds ws (tl s))
      else None)"

definition word_here :: "char option \<Rightarrow> string \<Rightarrow> string \<Rightarrow> nat option" where
  "word_here before s w =
     (if \<not> (case before of Some b \<Rightarrow> word_char b | None \<Rightarrow> False) then
        (case folds w s of
           None \<Rightarrow> None
         | Some n \<Rightarrow> (if drop n s \<noteq> [] \<and> word_char (hd (drop n s)) then None else Some n))
      else None)"

fun find_mutation :: "char option \<Rightarrow> nat \<Rightarrow> string \<Rightarrow> (nat \<times> nat) option" where
  "find_mutation before at [] = None"
| "find_mutation before at (c # s) =
     (case List.map_filter (word_here before (c # s)) mutation_words of
        n # _ \<Rightarrow> Some (at, n)
      | [] \<Rightarrow> find_mutation (Some c) (Suc at) s)"

definition rejectMutations :: "(string \<Rightarrow> string) \<Rightarrow> (string \<Rightarrow> string) \<Rightarrow> string \<Rightarrow> rql_error option" where
  "rejectMutations unicode quoted_text st =
     (case find_mutation None 0 (blankQuoted st) of
        None \<Rightarrow> None
      | Some (at, n) \<Rightarrow>
          Some (RqlError (''only read-only queries are allowed here (found '' @
            quoted_text (to_lower unicode (take n (drop at st))) @ '')'') at))"

definition sqlPredicate :: "(string \<Rightarrow> string) \<Rightarrow> (string \<Rightarrow> string) \<Rightarrow> string \<Rightarrow> sql_result" where
  "sqlPredicate unicode quoted_text expr =
     (let trimmed = trim_space expr
      in if trimmed = '''' then Inr (''TRUE'', [])
         else case index_of '';'' trimmed of
           Some at \<Rightarrow> Inl (RqlError (''a filter is a single expression, so it cannot contain '' @ quote @ '';'' @ quote) at)
         | None \<Rightarrow>
             (case rejectMutations unicode quoted_text trimmed of
                Some err \<Rightarrow> Inl err
              | None \<Rightarrow> Inr (''('' @ trimmed @ indent 0 @ '')'', [])))"

record search_lib =
  sl_rql :: rql_lib
  sl_query :: query_lib
  sl_norm :: norm_lib
  sl_quoted :: "string \<Rightarrow> string"                    \<comment> \<open>\<open>%q\<close>\<close>

definition predicate :: "search_lib \<Rightarrow> request \<Rightarrow> plan \<Rightarrow> sql_result" where
  "predicate lib rq p =
     (if rq_lang rq = LangSQL then sqlPredicate (ql_lower (sl_query lib)) (sl_quoted lib) (rq_query rq)
      else case Parse (sl_rql lib) (runes (rq_query rq)) of
        None \<Rightarrow> Inl (RqlError ''out of fuel'' 0)
      | Some (Inl e) \<Rightarrow> Inl e
      | Some (Inr n) \<Rightarrow> ToSQL (sl_query lib) (rql_resolver (pl_resolver p)) n)"

section \<open>The rows a request may see\<close>

definition time_args :: "plan \<Rightarrow> sql_arg list" where
  "time_args p = [ArgTime (pl_from p), ArgTime (pl_to p)]"

definition scoped :: "engine \<Rightarrow> plan \<Rightarrow> string \<Rightarrow> string \<Rightarrow> sql_arg list \<Rightarrow> string \<times> sql_arg list" where
  "scoped e p strm keyset keysetArgs =
     (''('' @ indent 3 @ ''SELECT * FROM '' @ Source e p @ indent 3 @ ''WHERE '' @
        sep_join (indent 3 @ ''  AND '')
          ([''ts >= ? AND ts <= ?''] @ (if strm \<noteq> '''' then [''stream = ?''] else []) @ (if keyset \<noteq> '''' then [keyset] else [])) @
        indent 2 @ '')'',
      time_args p @ (if strm \<noteq> '''' then [ArgStr strm] else []) @ (if keyset \<noteq> '''' then keysetArgs else []))"

definition int64 :: "nat \<Rightarrow> int" where
  "int64 n = (if n mod 2 ^ 64 < 2 ^ 63 then int (n mod 2 ^ 64) else int (n mod 2 ^ 64) - 2 ^ 64)"

definition uint64 :: "int \<Rightarrow> nat" where "uint64 i = nat (i mod 2 ^ 64)"

definition keyset_of :: "bool \<Rightarrow> cursor option \<Rightarrow> string \<times> sql_arg list" where
  "keyset_of ascending cu =
     (let comparison = (if ascending then ''>'' else ''<'')
      in case cu of
           None \<Rightarrow> ('''', [])
         | Some c \<Rightarrow> (''(ts '' @ comparison @ '' ? OR (ts = ? AND seq '' @ comparison @ '' ?))'',
             [ArgTime (cu_ts c), ArgTime (cu_ts c), ArgInt (int64 (cu_seq c))]))"

definition search_statement :: "engine \<Rightarrow> plan \<Rightarrow> string \<Rightarrow> bool \<Rightarrow> cursor option \<Rightarrow> string \<times> sql_arg list \<Rightarrow> int \<Rightarrow> string \<times> sql_arg list" where
  "search_statement e p strm ascending cu pred limit =
     (let direction = (if ascending then ''ASC'' else ''DESC'');
          (keyset, keysetArgs) = keyset_of ascending cu;
          (source, args) = scoped e p strm keyset keysetArgs
      in (indent 2 @ ''SELECT ts, ingest_ts, stream, seq, level, msg, host, is_json, raw'' @
          indent 2 @ ''FROM '' @ source @ indent 2 @ ''WHERE '' @ fst pred @
          indent 2 @ ''ORDER BY ts '' @ direction @ '', seq '' @ direction @
          indent 2 @ ''LIMIT '' @ show_int limit,
          args @ snd pred))"


section \<open>Search\<close>

text \<open>A row of the envelope as the driver scans it: times in microseconds, nulls where the columns allow them.\<close>

record search_row =
  sw_ts :: int
  sw_ingest_ts :: int
  sw_stream :: string
  sw_seq :: int
  sw_level :: "string option"
  sw_msg :: "string option"
  sw_host :: "string option"
  sw_is_json :: "bool option"
  sw_raw :: "string option"

definition null_string :: "string option \<Rightarrow> string" where
  "null_string v = (case v of Some s \<Rightarrow> s | None \<Rightarrow> '''')"

text \<open>The record of a row, and whether its fields are set (a Go map that is not \<open>nil\<close>).\<close>

definition scan_record :: "norm_lib \<Rightarrow> search_row \<Rightarrow> rec \<times> bool" where
  "scan_record lib w =
     (let raw = null_string (sw_raw w);
          object = (sw_is_json w = Some True \<and> n_valid lib raw);
          r = empty_rec\<lparr>r_ts := 1000 * sw_ts w, r_ingest_ts := 1000 * sw_ingest_ts w, r_stream := sw_stream w,
                r_seq := uint64 (sw_seq w), r_level := null_string (sw_level w), r_msg := null_string (sw_msg w),
                r_host := null_string (sw_host w), r_raw := raw,
                r_type := (if object then ''object'' else ''string''), r_json := (if object then Some raw else None)\<rparr>;
          (r', lowered) = Promote lib r
      in (r', lowered \<noteq> None))"

text \<open>What the driver gives for a column of any type.\<close>

datatype scanned_value = SNull | SBool bool | SInt int | SFloat float64 | SStr string | SOther

definition valueOf :: "kind \<Rightarrow> scanned_value \<Rightarrow> fvalue option" where
  "valueOf k v =
     (case v of
        SBool b \<Rightarrow> Some (BoolV b)
      | SInt i \<Rightarrow> Some (IntV i)
      | SFloat f \<Rightarrow> Some (FloatV f)
      | SStr s \<Rightarrow> Some (if k = KindJSON then JSONV s else StrV s)
      | _ \<Rightarrow> None)"

definition distinct_columns :: "(string \<Rightarrow> string) \<Rightarrow> column list \<Rightarrow> column list" where
  "distinct_columns unicode cs =
     filter (\<lambda>c. length (filter (\<lambda>d. to_lower unicode (cl_name d) = to_lower unicode (cl_name c)) cs) = 1) cs"

definition restored_kind :: "column \<Rightarrow> kind" where
  "restored_kind c = (if cl_polymorphic c then KindString else ParseKind (cl_kind c))"

definition cast_of :: "kind \<Rightarrow> string" where
  "cast_of k = (case k of KindBool \<Rightarrow> ''BOOLEAN'' | KindInt \<Rightarrow> ''BIGINT'' | KindFloat \<Rightarrow> ''DOUBLE'' | _ \<Rightarrow> ''VARCHAR'')"

definition fields_statement :: "engine \<Rightarrow> cat_file \<Rightarrow> column list \<Rightarrow> nat list \<Rightarrow> string \<times> sql_arg list" where
  "fields_statement e f cs seqs =
     (''SELECT seq, '' @ sep_join '', '' (map (\<lambda>c. ''CAST('' @ [CHR 34] @ cl_name c @ [CHR 34] @ '' AS '' @ cast_of (restored_kind c) @ '')'') cs) @
        '' FROM read_parquet('' @ quote_literal (e_root e @ ''/'' @ fl_path f) @ '') WHERE seq IN ('' @
        sep_join '', '' (replicate (length seqs) ''?'') @ '')'',
      map (\<lambda>q. ArgInt (int64 q)) seqs)"

text \<open>The fields of a row: the cells that hold a value, under the names their keys had.\<close>

definition row_fields :: "column list \<Rightarrow> scanned_value list \<Rightarrow> (string \<times> fvalue) list" where
  "row_fields cs cells =
     foldl (\<lambda>fs (c, cell). case valueOf (restored_kind c) cell of
        Some v \<Rightarrow> AList.update (cl_source_key c) v fs | None \<Rightarrow> fs) [] (zip cs cells)"

text \<open>
  The records of a page with the flag of their fields.  \<open>missing\<close> is the map from a sequence number
  to the last record that has it and no fields; a row sets its fields and takes it off.
\<close>

type_synonym page = "(rec \<times> bool) list"

definition missing_of :: "page \<Rightarrow> (nat \<times> nat) list" where
  "missing_of page = fold (\<lambda>i m. if snd (page ! i) then m else AList.update (r_seq (fst (page ! i))) i m) [0..<length page] []"

definition restore_row :: "column list \<Rightarrow> scanned_value \<times> scanned_value list \<Rightarrow> (nat \<times> nat) list \<times> page \<Rightarrow> (nat \<times> nat) list \<times> page" where
  "restore_row cs row st =
     (case fst row of
        SInt i \<Rightarrow>
          (case map_of (fst st) (uint64 i) of
             None \<Rightarrow> st
           | Some j \<Rightarrow>
               (AList.delete (uint64 i) (fst st),
                (snd st)[j := ((fst (snd st ! j))\<lparr>r_fields := row_fields cs (snd row)\<rparr>, True)]))
      | _ \<Rightarrow> st)"

definition readFields ::
  "engine \<Rightarrow> (scanned_value \<times> scanned_value list) db \<Rightarrow> cat_file \<Rightarrow> column list \<Rightarrow> nat list \<Rightarrow> (nat \<times> nat) list \<times> page \<Rightarrow> ((nat \<times> nat) list \<times> page) run"
where
  "readFields e db f cs seqs st =
     (let (stmt, args) = fields_statement e f cs seqs
      in and_then (fetch e db False scan_all stmt args) (\<lambda>rows. give (fold (restore_row cs) rows st)))"

fun restore_files ::
  "(string \<Rightarrow> string) \<Rightarrow> engine \<Rightarrow> (scanned_value \<times> scanned_value list) db \<Rightarrow> plan \<Rightarrow> cat_file list \<Rightarrow> (nat \<times> nat) list \<times> page \<Rightarrow> page run"
where
  "restore_files u e db p [] st = give (snd st)"
| "restore_files u e db p (f # fs) st =
     (if fst st = [] then give (snd st)
      else let cs = distinct_columns u (pl_columns p f);
               seqs = map fst (filter (\<lambda>(q, i). fl_min_seq f \<le> q \<and> q \<le> fl_max_seq f \<and> r_stream (fst (snd st ! i)) = fl_stream f) (fst st))
           in if cs = [] \<or> seqs = [] then restore_files u e db p fs st
              else and_then (readFields e db f cs seqs st) (restore_files u e db p fs))"

definition restoreFields ::
  "(string \<Rightarrow> string) \<Rightarrow> engine \<Rightarrow> (scanned_value \<times> scanned_value list) db \<Rightarrow> plan \<Rightarrow> page \<Rightarrow> page run"
where
  "restoreFields u e db p page = restore_files u e db p (pl_files p) (missing_of page, page)"

record scanned =
  sc_files :: nat
  sc_rows :: int
  sc_bytes :: int
  sc_from :: int
  sc_to :: int

record search_result =
  rs_records :: "rec list"
  rs_next :: "cursor option"
  rs_scanned :: scanned

definition scanned_of :: "plan \<Rightarrow> scanned" where
  "scanned_of p = \<lparr>sc_files = length (pl_files p), sc_rows = pl_rows p, sc_bytes = pl_bytes p, sc_from = pl_from p, sc_to = pl_to p\<rparr>"

definition DefaultLimit :: int where "DefaultLimit = 200"

definition search_limit :: "limits \<Rightarrow> int \<Rightarrow> int" where
  "search_limit l n = (if n \<le> 0 then min (l_max_rows l) DefaultLimit else if n > l_max_rows l then l_max_rows l else n)"

definition search_window :: "request \<Rightarrow> int \<times> int" where
  "search_window rq =
     (case rq_cursor rq of
        Some c \<Rightarrow> (if cu_from c \<noteq> zero_time then (cu_from c, cu_to c) else (rq_from rq, rq_to rq))
      | None \<Rightarrow> (rq_from rq, rq_to rq))"

definition search_predicate :: "search_lib \<Rightarrow> request \<Rightarrow> plan \<Rightarrow> search_error + (string \<times> sql_arg list)" where
  "search_predicate lib rq p = map_sum BadQuery id (predicate lib rq p)"

definition next_cursor :: "plan \<Rightarrow> int \<Rightarrow> page \<Rightarrow> cursor option" where
  "next_cursor p limit page =
     (if int (length page) > limit then
        (let last = fst (page ! nat (limit - 1))
         in Some \<lparr>cu_ts = r_ts last, cu_seq = r_seq last, cu_from = pl_from p, cu_to = pl_to p\<rparr>)
      else None)"

definition Search ::
  "search_lib \<Rightarrow> engine \<Rightarrow> search_row db \<Rightarrow> (scanned_value \<times> scanned_value list) db \<Rightarrow> world \<Rightarrow> request \<Rightarrow> search_result run"
where
  "Search lib e db fdb w rq =
     (let u = ql_lower (sl_query lib); (from, to) = search_window rq
      in and_then (lift (Plan u w (rq_stream rq) from to)) (\<lambda>p.
         and_then (lift (search_predicate lib rq p)) (\<lambda>pred.
           (let limit = search_limit (e_limits e) (rq_limit rq);
                user = (rq_lang rq = LangSQL);
                (stmt, args) = search_statement e p (rq_stream rq) (rq_ascending rq) (rq_cursor rq) pred (limit + 1)
            in and_then (fetch e db user (scan_upto (nat (limit + 1))) stmt args) (\<lambda>rows.
                 let page = map (scan_record (sl_norm lib)) rows
                 in and_then (restoreFields u e fdb p (if int (length page) > limit then take (nat limit) page else page)) (\<lambda>restored.
                   give \<lparr>rs_records = map fst restored, rs_next = next_cursor p limit page, rs_scanned = scanned_of p\<rparr>))))))"

section \<open>The histogram\<close>

record hist_bucket =
  bk_ts :: int
  bk_total :: int
  bk_level :: "(string \<times> int) list"

definition nice_steps :: "int list" where
  "nice_steps = map (\<lambda>s. s * 10 ^ 9)
     [1, 2, 5, 10, 15, 30, 60, 2 * 60, 5 * 60, 10 * 60, 15 * 60, 30 * 60,
      3600, 2 * 3600, 3 * 3600, 6 * 3600, 12 * 3600, 24 * 3600, 7 * 24 * 3600]"

definition niceInterval :: "int \<Rightarrow> int" where
  "niceInterval d = (case find (\<lambda>step. d \<le> step) nice_steps of Some step \<Rightarrow> step | None \<Rightarrow> last nice_steps)"

text \<open>\<open>Time.Sub\<close>, which saturates, and the division of a duration, which rounds towards zero.\<close>

definition time_sub :: "int \<Rightarrow> int \<Rightarrow> int" where
  "time_sub a b = max (- (2 ^ 63)) (min (2 ^ 63 - 1) (a - b))"

definition quotient :: "int \<Rightarrow> int \<Rightarrow> int" where
  "quotient a b = (if a < 0 then - (- a div b) else a div b)"

definition bucket_width :: "plan \<Rightarrow> int \<Rightarrow> int" where
  "bucket_width p buckets = niceInterval (quotient (time_sub (pl_to p) (pl_from p)) buckets)"

text \<open>The buckets in the order they first came; the times are in microseconds.\<close>

definition add_count :: "string \<Rightarrow> int \<Rightarrow> hist_bucket \<Rightarrow> hist_bucket" where
  "add_count level n b =
     b\<lparr>bk_total := bk_total b + n,
       bk_level := (if level = '''' then bk_level b
         else AList.update level ((case map_of (bk_level b) level of Some m \<Rightarrow> m | None \<Rightarrow> 0) + n) (bk_level b))\<rparr>"

fun add_row :: "int \<times> string \<times> int \<Rightarrow> hist_bucket list \<Rightarrow> hist_bucket list" where
  "add_row (at, level, n) [] = [add_count level n \<lparr>bk_ts = 1000 * at, bk_total = 0, bk_level = []\<rparr>]"
| "add_row (at, level, n) (b # bs) =
     (if bk_ts b = 1000 * at then add_count level n b # bs else b # add_row (at, level, n) bs)"

definition histogram_statement :: "engine \<Rightarrow> plan \<Rightarrow> string \<Rightarrow> string \<times> sql_arg list \<Rightarrow> int \<Rightarrow> string \<times> sql_arg list" where
  "histogram_statement e p strm pred width =
     (let (source, args) = scoped e p strm '''' []
      in (indent 2 @ ''SELECT time_bucket(INTERVAL '' @ quote @ show_int (width div 1000) @ '' microseconds'' @ quote @ '', ts) AS bucket,'' @
          indent 2 @ ''       coalesce(level, '' @ quote @ quote @ '') AS level,'' @
          indent 2 @ ''       count(*) AS total'' @
          indent 2 @ ''FROM '' @ source @ indent 2 @ ''WHERE '' @ fst pred @ indent 2 @ ''GROUP BY 1, 2'' @ indent 2 @ ''ORDER BY 1'',
          args @ snd pred))"

definition Histogram ::
  "search_lib \<Rightarrow> engine \<Rightarrow> (int \<times> string \<times> int) db \<Rightarrow> world \<Rightarrow> request \<Rightarrow> int \<Rightarrow> (hist_bucket list \<times> int) run"
where
  "Histogram lib e db w rq buckets0 =
     (let buckets = (if buckets0 < 1 then 60 else buckets0)
      in and_then (lift (Plan (ql_lower (sl_query lib)) w (rq_stream rq) (rq_from rq) (rq_to rq))) (\<lambda>p.
         and_then (lift (search_predicate lib rq p)) (\<lambda>pred.
           (let width = bucket_width p buckets;
                (stmt, args) = histogram_statement e p (rq_stream rq) pred width
            in and_then (fetch e db (rq_lang rq = LangSQL) scan_all stmt args) (\<lambda>rows. give (fold add_row rows [], width))))))"


section \<open>The field explorer\<close>

record field_value =
  fv_value :: string
  fv_count :: int
  fv_share :: float64

definition values_statement :: "engine \<Rightarrow> plan \<Rightarrow> string \<Rightarrow> string \<Rightarrow> string \<times> sql_arg list \<Rightarrow> int \<Rightarrow> string \<times> sql_arg list" where
  "values_statement e p strm expr pred limit =
     (let (source, args) = scoped e p strm '''' []
      in (indent 2 @ ''WITH matched AS ('' @ indent 3 @ ''SELECT CAST('' @ expr @ '' AS VARCHAR) AS value'' @
          indent 3 @ ''FROM '' @ source @ indent 3 @ ''WHERE '' @ fst pred @ indent 2 @ '')'' @
          indent 2 @ ''SELECT value, count(*) AS total, count(*) * 1.0 / sum(count(*)) OVER () AS share'' @
          indent 2 @ ''FROM matched'' @ indent 2 @ ''WHERE value IS NOT NULL'' @ indent 2 @ ''GROUP BY 1'' @
          indent 2 @ ''ORDER BY total DESC, value'' @ indent 2 @ ''LIMIT '' @ show_int limit,
          args @ snd pred))"

definition FieldValues ::
  "search_lib \<Rightarrow> engine \<Rightarrow> field_value db \<Rightarrow> world \<Rightarrow> request \<Rightarrow> string \<Rightarrow> int \<Rightarrow> field_value list run"
where
  "FieldValues lib e db w rq field limit0 =
     (let limit = (if limit0 < 1 then 10 else limit0)
      in and_then (lift (Plan (ql_lower (sl_query lib)) w (rq_stream rq) (rq_from rq) (rq_to rq))) (\<lambda>p.
           (case Resolve (pl_resolver p) field of
              None \<Rightarrow> give []
            | Some (expr, k) \<Rightarrow>
                and_then (lift (search_predicate lib rq p)) (\<lambda>pred.
                  (let (stmt, args) = values_statement e p (rq_stream rq) (render_field expr) pred limit
                   in fetch e db (rq_lang rq = LangSQL) scan_all stmt args)))))"

definition counts_statement :: "engine \<Rightarrow> plan \<Rightarrow> string \<Rightarrow> string \<times> sql_arg list \<Rightarrow> string list \<Rightarrow> string \<times> sql_arg list" where
  "counts_statement e p strm pred projections =
     (let (source, args) = scoped e p strm '''' []
      in (''SELECT '' @ sep_join '', '' projections @ '' FROM '' @ source @ '' WHERE '' @ fst pred, args @ snd pred))"

text \<open>The first row's cells under the names, or nothing where there is no row.\<close>

definition countFields ::
  "engine \<Rightarrow> int list db \<Rightarrow> request \<Rightarrow> plan \<Rightarrow> string \<times> sql_arg list \<Rightarrow> (string \<times> string) list \<Rightarrow> (string \<times> int) list run"
where
  "countFields e db rq p pred wanted =
     (let (stmt, args) = counts_statement e p (rq_stream rq) pred (map snd wanted)
      in and_then (fetch e db (rq_lang rq = LangSQL) (scan_upto 1) stmt args) (\<lambda>rows.
           give (case rows of [] \<Rightarrow> [] | cells # _ \<Rightarrow> foldl (\<lambda>m (n, c). AList.update n c m) [] (zip (map fst wanted) cells))))"

definition drain :: "'r option list \<Rightarrow> cause option \<Rightarrow> cause + 'r list" where
  "drain rs err = (case err of Some c \<Rightarrow> Inl c | None \<Rightarrow> Inr [])"

definition binds :: "engine \<Rightarrow> unit db \<Rightarrow> plan \<Rightarrow> string \<Rightarrow> unit list run" where
  "binds e db p projection = fetch e db False drain (''SELECT '' @ projection @ '' FROM '' @ Source e p @ '' WHERE FALSE'') []"

fun kept_fields :: "engine \<Rightarrow> unit db \<Rightarrow> plan \<Rightarrow> (string \<times> string) list \<Rightarrow> (string \<times> string) list run" where
  "kept_fields e db p [] = give []"
| "kept_fields e db p (f # fs) =
     (\<lambda>n. case binds e db p (snd f) n of
        (Inl _, n') \<Rightarrow> kept_fields e db p fs n'
      | (Inr _, n') \<Rightarrow> and_then (kept_fields e db p fs) (\<lambda>kept. give (f # kept)) n')"

definition count_projections :: "field_resolver \<Rightarrow> string list \<Rightarrow> (string \<times> string) list" where
  "count_projections r wanted =
     List.map_filter (\<lambda>f. case Resolve r f of Some (expr, k) \<Rightarrow> Some (f, ''count('' @ render_field expr @ '')'') | None \<Rightarrow> None) wanted"

definition FieldCounts ::
  "search_lib \<Rightarrow> engine \<Rightarrow> int list db \<Rightarrow> unit db \<Rightarrow> world \<Rightarrow> request \<Rightarrow> string list \<Rightarrow> (string \<times> int) list run"
where
  "FieldCounts lib e db bdb w rq wanted =
     (if wanted = [] then give []
      else and_then (lift (Plan (ql_lower (sl_query lib)) w (rq_stream rq) (rq_from rq) (rq_to rq))) (\<lambda>p.
        and_then (lift (search_predicate lib rq p)) (\<lambda>pred.
          (let found = count_projections (pl_resolver p) wanted
           in if found = [] then give []
              else (\<lambda>n. case countFields e db rq p pred found n of
                  (Inr counts, n') \<Rightarrow> (Inr counts, n')
                | (Inl err, n') \<Rightarrow>
                    and_then (kept_fields e bdb p found) (\<lambda>kept.
                      if kept = [] \<or> length kept = length found then raise err
                      else countFields e db rq p pred kept) n')))))"

section \<open>Statements of the caller's own\<close>

definition sql_statement :: "engine \<Rightarrow> plan \<Rightarrow> string \<Rightarrow> int \<Rightarrow> string \<times> sql_arg list" where
  "sql_statement e p st limit =
     (indent 2 @ ''WITH logs AS ('' @ indent 3 @ ''SELECT * FROM '' @ Source e p @ '' WHERE ts >= ? AND ts <= ?'' @ indent 2 @ '')'' @
      indent 2 @ ''SELECT * FROM ('' @ st @ indent 2 @ '') LIMIT '' @ show_int limit, time_args p)"

text \<open>\<open>names\<close> is what \<open>Columns\<close> returns for the statement.\<close>

definition SQL ::
  "search_lib \<Rightarrow> engine \<Rightarrow> scanned_value list db \<Rightarrow> (string \<Rightarrow> cause + string list) \<Rightarrow> world \<Rightarrow> string \<Rightarrow> request
   \<Rightarrow> (string list \<times> scanned_value list list \<times> scanned) run"
where
  "SQL lib e db names w st rq =
     (case rejectMutations (ql_lower (sl_query lib)) (sl_quoted lib) st of
        Some err \<Rightarrow> raise (BadQuery err)
      | None \<Rightarrow>
          and_then (lift (Plan (ql_lower (sl_query lib)) w (rq_stream rq) (rq_from rq) (rq_to rq))) (\<lambda>p.
            (let limit = (if rq_limit rq \<le> 0 \<or> rq_limit rq > l_max_rows (e_limits e) then l_max_rows (e_limits e) else rq_limit rq);
                 (wrapped, args) = sql_statement e p st limit
             in and_then (query e db True wrapped args) (\<lambda>(rs, err).
                  and_then release (\<lambda>_.
                    (case names wrapped of
                       Inl c \<Rightarrow> raise (failed e c wrapped True)
                     | Inr columns \<Rightarrow>
                         (case scan_upto (nat limit) rs err of
                            Inl c \<Rightarrow> raise (failed e c wrapped True)
                          | Inr rows \<Rightarrow> give (columns, rows, scanned_of p))))))))"

end
