(* ===== verification/QueryPages.thy ===== *)
theory QueryPages
  imports QuerySearch "HOL-Library.Product_Lexorder"
begin

text \<open>
  What the query engine promises: every call gives back the slot it takes and holds one at a time,
  and the pages of a search, followed by their cursors, are the matching records in order.
\<close>

section \<open>Slots\<close>

text \<open>With a slot free the call never waits, and it leaves as many free as it found.\<close>

definition slot_safe :: "'a run \<Rightarrow> bool" where
  "slot_safe m \<longleftrightarrow> (\<forall>n>0. snd (m n) = n \<and> fst (m n) \<noteq> Inl Waits)"

lemma slot_safe_run:
  assumes "slot_safe m" "n > 0"
  obtains r where "m n = (r, n)" "r \<noteq> Inl Waits"
proof -
  from assms have "snd (m n) = n" "fst (m n) \<noteq> Inl Waits" unfolding slot_safe_def by blast+
  with that [of "fst (m n)"] show thesis by (metis prod.collapse)
qed

named_theorems slots

lemma slot_safe_give [slots]: "slot_safe (give x)"
  by (simp add: slot_safe_def give_def)

lemma slot_safe_raise [slots]: "err \<noteq> Waits \<Longrightarrow> slot_safe (raise err)"
  by (simp add: slot_safe_def raise_def)

lemma slot_safe_lift [slots]: "r \<noteq> Inl Waits \<Longrightarrow> slot_safe (lift r)"
  by (simp add: slot_safe_def lift_def)

lemma slot_safe_and_then [slots]:
  assumes m: "slot_safe m" and f: "\<And>x. slot_safe (f x)"
  shows "slot_safe (and_then m f)"
  unfolding slot_safe_def
proof (intro allI impI)
  fix n :: nat assume n: "n > 0"
  obtain r where r: "m n = (r, n)" "r \<noteq> Inl Waits" using slot_safe_run [OF m n] .
  with f n show "snd (and_then m f n) = n \<and> fst (and_then m f n) \<noteq> Inl Waits"
    by (cases r) (simp_all add: and_then_def slot_safe_def)
qed

lemma failed_not_Waits [simp]: "failed e c st user \<noteq> Waits"
  by (simp add: failed_def)

lemma search_predicate_not_Waits [simp]: "search_predicate lib rq p \<noteq> Inl Waits"
  by (cases "predicate lib rq p") (simp_all add: search_predicate_def)

lemma Plan_not_Waits [simp]: "Plan u w s from to \<noteq> Inl Waits"
  by (auto simp: Plan_def Let_def split: prod.split option.split)

text \<open>A statement whose rows are read and given back, in one rule.\<close>

lemma slot_safe_query:
  assumes "\<And>rs err. slot_safe (f (rs, err))"
  shows "slot_safe (and_then (query e db user st args) (\<lambda>x. and_then release (\<lambda>_. f x)))"
  unfolding slot_safe_def
proof (intro allI impI)
  fix n :: nat assume n: "n > 0"
  let ?m = "and_then (query e db user st args) (\<lambda>x. and_then release (\<lambda>_. f x))"
  show "snd (?m n) = n \<and> fst (?m n) \<noteq> Inl Waits"
  proof (cases "db st args")
    case (Rows rs err)
    with n have "?m n = f (rs, err) n"
      by (simp add: and_then_def query_def acquire_def release_def give_def)
    with assms n show ?thesis by (simp add: slot_safe_def)
  qed (use n in \<open>simp_all add: and_then_def query_def acquire_def release_def raise_def\<close>)
qed

lemma slot_safe_fetch [slots]: "slot_safe (fetch e db user scan st args)"
proof -
  have "slot_safe (case scan rs err of Inl c \<Rightarrow> raise (failed e c st user) | Inr out \<Rightarrow> give out)" for rs err
    by (cases "scan rs err") (simp_all add: slots)
  then show ?thesis
    unfolding fetch_def case_prod_beta by (intro slot_safe_query) simp
qed

lemma slot_safe_readFields [slots]: "slot_safe (readFields e db f cs seqs st)"
  by (simp add: readFields_def slots split: prod.split)

lemma slot_safe_restore_files [slots]: "slot_safe (restore_files u e db p fs st)"
  by (induction fs arbitrary: st) (simp_all add: slots Let_def)

lemma slot_safe_restoreFields [slots]: "slot_safe (restoreFields u e db p page)"
  by (simp add: restoreFields_def slots)

lemma slot_safe_Search: "slot_safe (Search lib e db fdb w rq)"
  by (simp add: Search_def Let_def slots split: prod.split)

lemma slot_safe_Histogram: "slot_safe (Histogram lib e db w rq buckets)"
  by (simp add: Histogram_def Let_def slots split: prod.split)

lemma slot_safe_FieldValues: "slot_safe (FieldValues lib e db w rq field limit)"
  unfolding FieldValues_def Let_def by (intro slots) (auto intro!: slots split: prod.split option.split)

lemma slot_safe_countFields [slots]: "slot_safe (countFields e db rq p pred wanted)"
  by (simp add: countFields_def slots split: prod.split)

lemma slot_safe_binds: "slot_safe (binds e db p projection)"
  by (simp add: binds_def slots)

lemma slot_safe_kept_fields [slots]: "slot_safe (kept_fields e db p fs)"
proof (induction fs)
  case (Cons f fs)
  show ?case unfolding slot_safe_def
  proof (intro allI impI)
    fix n :: nat assume n: "n > 0"
    obtain r where b: "binds e db p (snd f) n = (r, n)" using slot_safe_run [OF slot_safe_binds n] .
    have "slot_safe (and_then (kept_fields e db p fs) (\<lambda>kept. give (f # kept)))"
      using Cons by (intro slots)
    with Cons n b show "snd (kept_fields e db p (f # fs) n) = n \<and> fst (kept_fields e db p (f # fs) n) \<noteq> Inl Waits"
      by (auto simp: slot_safe_def split: sum.split)
  qed
qed (simp add: slots)

lemma slot_safe_FieldCounts: "slot_safe (FieldCounts lib e db bdb w rq wanted)"
proof -
  have "slot_safe (\<lambda>n. case countFields e db rq p pred found n of
        (Inr counts, n') \<Rightarrow> (Inr counts, n')
      | (Inl err, n') \<Rightarrow>
          and_then (kept_fields e bdb p found) (\<lambda>kept.
            if kept = [] \<or> length kept = length found then raise err else countFields e db rq p pred kept) n')"
    for p pred found unfolding slot_safe_def
  proof (intro allI impI)
    fix n :: nat assume n: "n > 0"
    obtain r where b: "countFields e db rq p pred found n = (r, n)" and r: "r \<noteq> Inl Waits"
      using slot_safe_run [OF slot_safe_countFields n] .
    show "snd (case countFields e db rq p pred found n of
        (Inr counts, n') \<Rightarrow> (Inr counts, n')
      | (Inl err, n') \<Rightarrow> and_then (kept_fields e bdb p found) (\<lambda>kept.
            if kept = [] \<or> length kept = length found then raise err else countFields e db rq p pred kept) n') = n \<and>
      fst (case countFields e db rq p pred found n of
        (Inr counts, n') \<Rightarrow> (Inr counts, n')
      | (Inl err, n') \<Rightarrow> and_then (kept_fields e bdb p found) (\<lambda>kept.
            if kept = [] \<or> length kept = length found then raise err else countFields e db rq p pred kept) n') \<noteq> Inl Waits"
    proof (cases r)
      case (Inl err)
      with r have "slot_safe (and_then (kept_fields e bdb p found) (\<lambda>kept.
            if kept = [] \<or> length kept = length found then raise err else countFields e db rq p pred kept))"
        by (intro slots) (simp add: slots)
      with n b Inl show ?thesis by (simp add: slot_safe_def)
    next
      case (Inr counts)
      with b show ?thesis by simp
    qed
  qed
  then show ?thesis
    unfolding FieldCounts_def Let_def by (auto intro!: slots)
qed

lemma slot_safe_SQL: "slot_safe (SQL lib e db names w st rq)"
proof (cases "rejectMutations (ql_lower (sl_query lib)) (sl_quoted lib) st")
  case None
  show ?thesis
    unfolding SQL_def Let_def case_prod_beta None option.case
    apply (rule slot_safe_and_then)
     apply (rule slot_safe_lift, rule Plan_not_Waits)
    apply (rule slot_safe_query)
    apply (simp add: slots split: sum.split)
    done
qed (simp add: SQL_def slots)


section \<open>What the pages should hold\<close>

text \<open>
  The reading of a search statement that DuckDB documents.  A bound time counts in microseconds, as
  the driver passes it; \<open>matches\<close> is the meaning of the filter, whose text and arguments the
  statement carries.
\<close>

definition row_key :: "search_row \<Rightarrow> int \<times> int" where "row_key w = (sw_ts w, sw_seq w)"

definition in_scope :: "plan \<Rightarrow> string \<Rightarrow> search_row \<Rightarrow> bool" where
  "in_scope p strm w \<longleftrightarrow> UnixMicro (pl_from p) \<le> sw_ts w \<and> sw_ts w \<le> UnixMicro (pl_to p) \<and> (strm \<noteq> '''' \<longrightarrow> sw_stream w = strm)"

definition ahead :: "bool \<Rightarrow> int \<times> int \<Rightarrow> int \<times> int \<Rightarrow> bool" where
  "ahead ascending k k' \<longleftrightarrow> (if ascending then k < k' else k' < k)"

definition past_cursor :: "bool \<Rightarrow> cursor option \<Rightarrow> search_row \<Rightarrow> bool" where
  "past_cursor ascending cu w \<longleftrightarrow>
     (case cu of None \<Rightarrow> True | Some c \<Rightarrow> ahead ascending (UnixMicro (cu_ts c), int64 (cu_seq c)) (row_key w))"

definition in_order :: "bool \<Rightarrow> search_row list \<Rightarrow> search_row list" where
  "in_order ascending ws = (if ascending then sort_key row_key ws else rev (sort_key row_key ws))"

text \<open>
  A run of searches, one page after another.  Each page has the database, the catalog and the rows of
  the files as they are by then.
\<close>

record moment =
  m_world :: world
  m_rows :: "cat_file \<Rightarrow> search_row list"
  m_matches :: "string \<times> sql_arg list \<Rightarrow> search_row \<Rightarrow> bool"
  m_search :: "search_row db"
  m_fields :: "(scanned_value \<times> scanned_value list) db"

text \<open>The rows that match a request in a window, at a moment; \<open>None\<close> where it cannot be planned or compiled.\<close>

definition matching :: "search_lib \<Rightarrow> moment \<Rightarrow> request \<Rightarrow> int \<times> int \<Rightarrow> (plan \<times> (string \<times> sql_arg list) \<times> search_row list) option" where
  "matching lib m rq window =
     (case Plan (ql_lower (sl_query lib)) (m_world m) (rq_stream rq) (fst window) (snd window) of
        Inl _ \<Rightarrow> None
      | Inr p \<Rightarrow>
          (case search_predicate lib rq p of
             Inl _ \<Rightarrow> None
           | Inr pred \<Rightarrow> Some (p, pred, filter (\<lambda>w. in_scope p (rq_stream rq) w \<and> m_matches m pred w) (concat (map (m_rows m) (pl_files p))))))"

definition page_size :: "engine \<Rightarrow> request \<Rightarrow> int" where
  "page_size e rq = search_limit (e_limits e) (rq_limit rq)"

text \<open>DuckDB answers the statement of a page with the matching rows past the cursor, in order, up to the limit.\<close>

definition answers :: "search_lib \<Rightarrow> engine \<Rightarrow> moment \<Rightarrow> request \<Rightarrow> int \<times> int \<Rightarrow> bool" where
  "answers lib e m rq window \<longleftrightarrow>
     (case matching lib m rq window of
        None \<Rightarrow> True
      | Some (p, pred, ws) \<Rightarrow>
          (\<forall>cu. (case search_statement e p (rq_stream rq) (rq_ascending rq) cu pred (page_size e rq + 1) of
             (stmt, args) \<Rightarrow> m_search m stmt args =
               Rows (map Some (take (nat (page_size e rq + 1)) (in_order (rq_ascending rq) (filter (past_cursor (rq_ascending rq) cu) ws)))) None)))"

text \<open>The columns are 64-bit integers, and no two rows agree on time and sequence number.\<close>

definition row_ok :: "search_row \<Rightarrow> bool" where
  "row_ok w \<longleftrightarrow> - (2 ^ 63) \<le> sw_ts w \<and> sw_ts w < 2 ^ 63 \<and> - (2 ^ 63) \<le> sw_seq w \<and> sw_seq w < 2 ^ 63"

definition rows_ok :: "search_row list \<Rightarrow> bool" where
  "rows_ok ws \<longleftrightarrow> list_all row_ok ws \<and> distinct (map row_key ws)"

section \<open>Following the cursors\<close>

text \<open>The next request of a client: the same, with the cursor it was given as text.\<close>

definition next_request :: "request \<Rightarrow> cursor option \<Rightarrow> request option" where
  "next_request rq cu =
     (case cu of
        None \<Rightarrow> None
      | Some c \<Rightarrow> (case ParseCursor (cursor_string c) of Inr (Some c') \<Rightarrow> Some (rq\<lparr>rq_cursor := Some c'\<rparr>) | _ \<Rightarrow> None))"

primrec walk :: "nat \<Rightarrow> search_lib \<Rightarrow> engine \<Rightarrow> (nat \<Rightarrow> moment) \<Rightarrow> nat \<Rightarrow> request \<Rightarrow> nat \<Rightarrow> (search_error + rec list) option \<times> nat" where
  "walk 0 lib e ms i rq n = (None, n)"
| "walk (Suc k) lib e ms i rq n =
     (case Search lib e (m_search (ms i)) (m_fields (ms i)) (m_world (ms i)) rq n of
        (Inl err, n') \<Rightarrow> (Some (Inl err), n')
      | (Inr res, n') \<Rightarrow>
          (case next_request rq (rs_next res) of
             None \<Rightarrow> (Some (Inr (rs_records res)), n')
           | Some rq' \<Rightarrow> (apfst (map_option (map_sum id (\<lambda>rs. rs_records res @ rs))) (walk k lib e ms (Suc i) rq' n'))))"

text \<open>The window of the first page, and of the later ones, whose cursors carry it in microseconds.\<close>

definition first_window :: "world \<Rightarrow> request \<Rightarrow> int \<times> int" where
  "first_window w rq = plan_window w (rq_from rq) (rq_to rq)"

definition page_window :: "(nat \<Rightarrow> moment) \<Rightarrow> request \<Rightarrow> nat \<Rightarrow> int \<times> int" where
  "page_window ms rq i =
     (let (from, to) = first_window (m_world (ms 0)) rq
      in if i = 0 then (rq_from rq, rq_to rq) else (1000 * UnixMicro from, 1000 * UnixMicro to))"

definition window_ok :: "int \<times> int \<Rightarrow> bool" where
  "window_ok w \<longleftrightarrow> (\<forall>t\<in>{fst w, snd w}. - (2 ^ 63) \<le> UnixMicro t \<and> UnixMicro t < 2 ^ 63 \<and> UnixMicro t \<noteq> UnixMicro zero_time)"

definition no_fields :: "rec \<Rightarrow> rec" where "no_fields r = r\<lparr>r_fields := []\<rparr>"

definition row_record :: "norm_lib \<Rightarrow> search_row \<Rightarrow> rec" where "row_record lib w = no_fields (fst (scan_record lib w))"

section \<open>Cursors\<close>

lemma int64_uint64: "- (2 ^ 63) \<le> i \<Longrightarrow> i < 2 ^ 63 \<Longrightarrow> int64 (uint64 i) = i"
proof -
  assume i: "- (2 ^ 63) \<le> i" "i < 2 ^ 63"
  show ?thesis
  proof (cases "i < 0")
    case True
    have "i mod 2 ^ 64 = (i + 2 ^ 64) mod 2 ^ 64" by simp
    also have "\<dots> = i + 2 ^ 64" using i True by (intro mod_pos_pos_trivial) simp_all
    finally show ?thesis using i True by (simp add: uint64_def int64_def nat_less_iff) 
  next
    case False
    with i have "i mod 2 ^ 64 = i" by (intro mod_pos_pos_trivial) simp_all
    with i False show ?thesis by (simp add: uint64_def int64_def nat_less_iff)
  qed
qed

lemma split_on_plain: "c \<notin> set s \<Longrightarrow> split_on c s = [s]"
  by (induction s) auto

lemma split_on_append: "c \<notin> set a \<Longrightarrow> split_on c (a @ c # b) = a # split_on c b"
  by (induction a) (auto split: list.split)

lemma digits_no_colon: "list_all is_digit s \<Longrightarrow> CHR '':'' \<notin> set s"
proof
  assume "list_all is_digit s" "CHR '':'' \<in> set s"
  then have "is_digit (CHR '':'')" by (simp add: list_all_iff)
  then show False by (simp add: is_digit_def)
qed

lemma show_nat_no_colon: "CHR '':'' \<notin> set (show_nat n)"
  by (rule digits_no_colon) (rule show_nat_digits)

lemma show_int_no_colon: "CHR '':'' \<notin> set (show_int i)"
  by (simp add: show_int_def show_nat_no_colon)

lemma cursor_roundtrip:
  assumes "\<And>t. t \<in> {cu_ts c, cu_from c, cu_to c} \<Longrightarrow> - (2 ^ 63) \<le> UnixMicro t \<and> UnixMicro t < 2 ^ 63" "cu_seq c < 2 ^ 64"
    and "cu_from c \<noteq> zero_time"
  shows "ParseCursor (cursor_string c) =
    Inr (Some (c\<lparr>cu_ts := 1000 * UnixMicro (cu_ts c), cu_from := 1000 * UnixMicro (cu_from c), cu_to := 1000 * UnixMicro (cu_to c)\<rparr>))"
proof -
  let ?t = "show_int (UnixMicro (cu_ts c))" and ?f = "show_int (UnixMicro (cu_from c))" and ?u = "show_int (UnixMicro (cu_to c))"
  have s: "cursor_string c = ?t @ CHR '':'' # show_nat (cu_seq c) @ CHR '':'' # ?f @ CHR '':'' # ?u"
    using assms(3) by (simp add: cursor_string_def)
  have parts: "split_on (CHR '':'') (cursor_string c) = [?t, show_nat (cu_seq c), ?f, ?u]"
    unfolding s by (simp add: split_on_append split_on_plain show_int_no_colon show_nat_no_colon)
  have ints: "parse_int 64 (show_int (UnixMicro t)) = Some (UnixMicro t)" if "t \<in> {cu_ts c, cu_from c, cu_to c}" for t
    using assms(1) [OF that] by (intro parse_int_show) simp_all
  have nonempty: "cursor_string c \<noteq> ''''" unfolding s by simp
  show ?thesis
    unfolding ParseCursor_def Let_def parts using nonempty
    by (simp add: ints parse_uint_show [OF assms(2)])
qed


section \<open>One page\<close>

lemma no_fields_row: "no_fields (r\<lparr>r_fields := fs\<rparr>) = no_fields r"
  by (simp add: no_fields_def)

lemma restore_row_keeps: "map (no_fields \<circ> fst) (snd (restore_row cs row st)) = map (no_fields \<circ> fst) (snd st)"
proof -
  have "map (no_fields \<circ> fst) (page[j := ((fst (page ! j))\<lparr>r_fields := fs\<rparr>, True)]) = map (no_fields \<circ> fst) page" for page :: page and j fs
    by (cases "j < length page") (auto intro!: nth_equalityI simp: nth_list_update no_fields_row)
  then show ?thesis by (simp add: restore_row_def split: scanned_value.split option.split)
qed

lemma restore_rows_keep: "map (no_fields \<circ> fst) (snd (fold (restore_row cs) rows st)) = map (no_fields \<circ> fst) (snd st)"
  by (induction rows arbitrary: st) (simp_all add: restore_row_keeps)

lemma readFields_keeps: "readFields e db f cs seqs st n = (Inr st', n') \<Longrightarrow> map (no_fields \<circ> fst) (snd st') = map (no_fields \<circ> fst) (snd st)"
  by (auto simp: readFields_def and_then_def give_def restore_rows_keep split: prod.splits sum.splits)

lemma restore_files_keeps: "restore_files u e db p fs st n = (Inr page, n') \<Longrightarrow> map (no_fields \<circ> fst) page = map (no_fields \<circ> fst) (snd st)"
proof (induction fs arbitrary: st n)
  case (Cons f fs)
  show ?case
  proof (cases "fst st = []")
    case True
    with Cons show ?thesis by (simp add: give_def)
  next
    case False
    define cs where "cs = distinct_columns u (pl_columns p f)"
    define seqs where "seqs = map fst (filter (\<lambda>(q, i). fl_min_seq f \<le> q \<and> q \<le> fl_max_seq f \<and> r_stream (fst (snd st ! i)) = fl_stream f) (fst st))"
    from False Cons.prems have r: "(if cs = [] \<or> seqs = [] then restore_files u e db p fs st
        else and_then (readFields e db f cs seqs st) (restore_files u e db p fs)) n = (Inr page, n')"
      by (simp only: restore_files.simps Let_def cs_def seqs_def if_False)
    show ?thesis
    proof (cases "cs = [] \<or> seqs = []")
      case True
      with r Cons.IH show ?thesis by simp
    next
      case False
      with r obtain st' n'' where s: "readFields e db f cs seqs st n = (Inr st', n'')" "restore_files u e db p fs st' n'' = (Inr page, n')"
        by (auto simp: and_then_def split: prod.splits sum.splits)
      from trans [OF Cons.IH [OF s(2)] readFields_keeps [OF s(1)]] show ?thesis .
    qed
  qed
qed (simp add: give_def)

lemma restoreFields_keeps: "restoreFields u e db p page n = (Inr page', n') \<Longrightarrow> map (no_fields \<circ> fst) page' = map (no_fields \<circ> fst) page"
  using restore_files_keeps [of u e db p "pl_files p" "(missing_of page, page)"] by (simp add: restoreFields_def)

lemma scan_all_Some: "scan_all (map Some rs) None = Inr rs"
  by (induction rs) auto

lemma scan_upto_Some: "length rs \<le> k \<Longrightarrow> scan_upto k (map Some rs) None = Inr rs"
  by (simp add: scan_upto_def scan_all_Some)

lemma fetch_rows: "db st args = Rows rs err \<Longrightarrow> n > 0 \<Longrightarrow>
  fetch e db user scan st args n = (case scan rs err of Inl c \<Rightarrow> (Inl (failed e c st user), n) | Inr out \<Rightarrow> (Inr out, n))"
  by (simp add: fetch_def query_def acquire_def and_then_def release_def give_def raise_def split: sum.split)

lemma fetch_needs_slot [simp]: "fetch e db user scan st args 0 \<noteq> (Inr x, n')"
  by (simp add: fetch_def query_def acquire_def and_then_def)

lemma Promote_fields: "\<exists>fs. fst (Promote lib r) = r\<lparr>r_fields := fs\<rparr>"
proof -
  have "r = r\<lparr>r_fields := r_fields r\<rparr>" by simp
  then have "\<exists>fs. r = r\<lparr>r_fields := fs\<rparr>" ..
  then show ?thesis by (auto simp: Promote_def split: option.split)
qed

lemma scan_record_key [simp]:
  "r_ts (fst (scan_record lib w)) = 1000 * sw_ts w" "r_seq (fst (scan_record lib w)) = uint64 (sw_seq w)"
proof -
  have "r_ts (fst (Promote lib r)) = r_ts r" "r_seq (fst (Promote lib r)) = r_seq r" for r
    using Promote_fields [of lib r] by auto
  then show "r_ts (fst (scan_record lib w)) = 1000 * sw_ts w" "r_seq (fst (scan_record lib w)) = uint64 (sw_seq w)"
    by (simp_all add: scan_record_def Let_def case_prod_beta)
qed

text \<open>The cursor after a page that ends with \<open>w\<close>.\<close>

definition cursor_after :: "plan \<Rightarrow> search_row \<Rightarrow> cursor" where
  "cursor_after p w = \<lparr>cu_ts = 1000 * sw_ts w, cu_seq = uint64 (sw_seq w), cu_from = pl_from p, cu_to = pl_to p\<rparr>"

definition page_of :: "bool \<Rightarrow> cursor option \<Rightarrow> search_row list \<Rightarrow> search_row list" where
  "page_of ascending cu ws = in_order ascending (filter (past_cursor ascending cu) ws)"

definition good_page :: "search_lib \<Rightarrow> nat \<Rightarrow> plan \<Rightarrow> search_row list \<Rightarrow> search_result \<Rightarrow> bool" where
  "good_page lib k p ws res \<longleftrightarrow>
     map no_fields (rs_records res) = map (row_record (sl_norm lib)) (take k ws) \<and>
     rs_next res = (if k < length ws then Some (cursor_after p (ws ! (k - 1))) else None)"

lemma Search_run:
  assumes m: "matching lib m rq (search_window rq) = Some (p, pred, ws)" and a: "answers lib e m rq (search_window rq)"
    and size: "0 < page_size e rq" and n: "n > 0"
  defines "rows \<equiv> page_of (rq_ascending rq) (rq_cursor rq) ws" and "k \<equiv> nat (page_size e rq)"
  defines "page \<equiv> map (scan_record (sl_norm lib)) (take (Suc k) rows)"
  shows "Search lib e (m_search m) (m_fields m) (m_world m) rq n =
    and_then (restoreFields (ql_lower (sl_query lib)) e (m_fields m) p (take k page)) (\<lambda>restored.
      give \<lparr>rs_records = map fst restored, rs_next = next_cursor p (page_size e rq) page, rs_scanned = scanned_of p\<rparr>) n"
proof -
  obtain stmt args where st: "search_statement e p (rq_stream rq) (rq_ascending rq) (rq_cursor rq) pred (page_size e rq + 1) = (stmt, args)"
    by fastforce
  have lim: "nat (page_size e rq + 1) = Suc k" using size by (simp add: k_def Suc_nat_eq_nat_zadd1 add.commute)
  from a m st have db: "m_search m stmt args = Rows (map Some (take (Suc k) rows)) None"
    by (auto simp: answers_def rows_def page_of_def lim dest!: spec [of _ "rq_cursor rq"])
  obtain f0 t0 where w: "search_window rq = (f0, t0)" by fastforce
  with m have plan: "Plan (ql_lower (sl_query lib)) (m_world m) (rq_stream rq) f0 t0 = Inr p" "search_predicate lib rq p = Inr pred"
    by (auto simp: matching_def split: sum.splits)
  have fetched: "fetch e (m_search m) user (scan_upto (Suc k)) stmt args n = (Inr (take (Suc k) rows), n)" for user
    by (simp add: fetch_rows [of "m_search m" stmt args, OF db n] scan_upto_Some)
  have sel: "(if int (length page) > page_size e rq then take k page else page) = take k page"
    using size by (auto simp: k_def)
  have k: "nat (page_size e rq) = k" by (simp add: k_def)
  show ?thesis
    unfolding Search_def Let_def page_size_def [symmetric] w prod.case
    by (simp only: and_then_def lift_def plan sum.case prod.case st lim fetched k page_def [symmetric] sel)
qed

lemma next_cursor_page:
  assumes "0 < limit"
  shows "next_cursor p limit (map (scan_record lib) (take (Suc (nat limit)) rows)) =
    (if nat limit < length rows then Some (cursor_after p (rows ! (nat limit - 1))) else None)"
proof (cases "nat limit < length rows")
  case True
  with assms have "nat (limit - 1) < Suc (nat limit)" "nat (limit - 1) < length rows" "nat (limit - 1) = nat limit - 1" by auto
  with True assms show ?thesis
    by (simp add: next_cursor_def cursor_after_def Let_def nth_append)
next
  case False
  then show ?thesis using assms by (simp add: next_cursor_def)
qed

lemma Search_page:
  assumes S: "Search lib e (m_search m) (m_fields m) (m_world m) rq n = (Inr res, n')"
    and a: "answers lib e m rq (search_window rq)" and size: "0 < page_size e rq"
  obtains p pred ws where "matching lib m rq (search_window rq) = Some (p, pred, ws)"
    "good_page lib (nat (page_size e rq)) p (page_of (rq_ascending rq) (rq_cursor rq) ws) res" "n > 0"
proof -
  have n: "n > 0"
  proof (rule ccontr)
    assume "\<not> n > 0"
    with S show False
      by (auto simp: Search_def and_then_def lift_def Let_def split: prod.splits sum.splits)
  qed
  from S obtain p pred ws where m: "matching lib m rq (search_window rq) = Some (p, pred, ws)"
    by (auto simp: Search_def and_then_def lift_def matching_def Let_def split: prod.splits sum.splits)
  let ?k = "nat (page_size e rq)" and ?rows = "page_of (rq_ascending rq) (rq_cursor rq) ws"
  let ?page = "map (scan_record (sl_norm lib)) (take (Suc ?k) ?rows)"
  from S Search_run [OF m a size n] obtain restored n'' where
    r: "restoreFields (ql_lower (sl_query lib)) e (m_fields m) p (take ?k ?page) n = (Inr restored, n'')"
      "res = \<lparr>rs_records = map fst restored, rs_next = next_cursor p (page_size e rq) ?page, rs_scanned = scanned_of p\<rparr>"
    by (auto simp: and_then_def give_def split: prod.splits sum.splits)
  have "map no_fields (rs_records res) = map (no_fields \<circ> fst) restored" by (simp add: r(2))
  also have "\<dots> = map (no_fields \<circ> fst) (take ?k ?page)" by (rule restoreFields_keeps [OF r(1)])
  also have "\<dots> = map (row_record (sl_norm lib)) (take ?k ?rows)"
    by (simp add: take_map row_record_def comp_def)
  finally have "good_page lib ?k p ?rows res"
    using r(2) by (simp add: good_page_def next_cursor_page [OF size])
  with m n that show thesis by blast
qed


section \<open>Order\<close>

definition row_ahead :: "bool \<Rightarrow> search_row \<Rightarrow> search_row \<Rightarrow> bool" where
  "row_ahead ascending a b \<longleftrightarrow> ahead ascending (row_key a) (row_key b)"

lemma ahead_trans: "ahead asc a b \<Longrightarrow> ahead asc b c \<Longrightarrow> ahead asc a c"
  by (auto simp: ahead_def split: if_splits)

lemma ahead_irrefl: "\<not> ahead asc a a"
  by (simp add: ahead_def)

lemma set_in_order [simp]: "set (in_order asc ws) = set ws"
  by (simp add: in_order_def)

lemma in_order_sorted:
  assumes "distinct (map row_key ws)"
  shows "sorted_wrt (row_ahead asc) (in_order asc ws)"
proof -
  have d: "distinct (map row_key (sort_key row_key ws))"
    using assms by (simp add: distinct_map)
  have "sorted_wrt (<) (map row_key (sort_key row_key ws))"
    using d sorted_sort_key [of row_key ws] by (simp add: strict_sorted_iff)
  then have s: "sorted_wrt (\<lambda>a b. row_key a < row_key b) (sort_key row_key ws)" by (simp add: sorted_wrt_map)
  show ?thesis
  proof (cases asc)
    case True
    with s show ?thesis by (simp add: in_order_def row_ahead_def [abs_def] ahead_def)
  next
    case False
    with s show ?thesis by (simp add: in_order_def row_ahead_def [abs_def] ahead_def sorted_wrt_rev)
  qed
qed

lemma filter_in_order: "filter P (in_order asc ws) = in_order asc (filter P ws)"
  by (simp add: in_order_def filter_sort rev_filter [symmetric])

lemma take_before_drop:
  assumes s: "sorted_wrt (row_ahead asc) L" and k: "0 < k" "k \<le> length L"
  shows "x \<in> set (take k L) \<Longrightarrow> x = L ! (k - 1) \<or> row_ahead asc x (L ! (k - 1))"
    and "x \<in> set (drop k L) \<Longrightarrow> row_ahead asc (L ! (k - 1)) x"
proof -
  assume "x \<in> set (take k L)"
  then obtain j where j: "j < k" "x = L ! j" using k(2) by (auto simp: in_set_conv_nth)
  show "x = L ! (k - 1) \<or> row_ahead asc x (L ! (k - 1))"
  proof (cases "j = k - 1")
    case False
    with j k have "j < k - 1" "k - 1 < length L" by auto
    with s have "row_ahead asc (L ! j) (L ! (k - 1))" by (rule sorted_wrt_nth_less)
    with j show ?thesis by simp
  qed (use j in simp)
next
  assume "x \<in> set (drop k L)"
  then obtain j where j: "j < length L - k" "x = L ! (k + j)" by (auto simp: in_set_conv_nth)
  with k have "k - 1 < k + j" "k + j < length L" by auto
  with s have "row_ahead asc (L ! (k - 1)) (L ! (k + j))" by (rule sorted_wrt_nth_less)
  with j show "row_ahead asc (L ! (k - 1)) x" by simp
qed

lemma filter_after:
  assumes s: "sorted_wrt (row_ahead asc) L" and k: "0 < k" "k \<le> length L"
  shows "filter (row_ahead asc (L ! (k - 1))) L = drop k L"
proof -
  have "filter (row_ahead asc (L ! (k - 1))) (take k L) = []"
  proof -
    have "\<not> row_ahead asc (L ! (k - 1)) x" if "x \<in> set (take k L)" for x
      using take_before_drop(1) [OF s k that] ahead_trans ahead_irrefl unfolding row_ahead_def by metis
    then show ?thesis by (simp add: filter_empty_conv)
  qed
  moreover have "filter (row_ahead asc (L ! (k - 1))) (drop k L) = drop k L"
    using take_before_drop(2) [OF s k] by (simp add: filter_id_conv)
  ultimately show ?thesis by (metis append_take_drop_id filter_append self_append_conv2)
qed

section \<open>From page to page\<close>

lemma UnixMicro_thousand [simp]: "UnixMicro (1000 * t) = t"
  by (simp add: UnixMicro_def)

definition later_cursor :: "int \<times> int \<Rightarrow> search_row \<Rightarrow> cursor" where
  "later_cursor win w = \<lparr>cu_ts = 1000 * sw_ts w, cu_seq = uint64 (sw_seq w),
     cu_from = 1000 * UnixMicro (fst win), cu_to = 1000 * UnixMicro (snd win)\<rparr>"

text \<open>The request of page \<open>i\<close>: the first one, or one with the cursor of a row.\<close>

definition request_at :: "(nat \<Rightarrow> moment) \<Rightarrow> request \<Rightarrow> nat \<Rightarrow> request \<Rightarrow> bool" where
  "request_at ms rq i rq' \<longleftrightarrow> i = 0 \<and> rq' = rq \<or>
     i > 0 \<and> (\<exists>w. row_ok w \<and> rq' = rq\<lparr>rq_cursor := Some (later_cursor (first_window (m_world (ms 0)) rq) w)\<rparr>)"

lemma past_later_cursor:
  assumes "row_ok w"
  shows "past_cursor asc (Some (later_cursor win w)) w' \<longleftrightarrow> row_ahead asc w w'"
proof -
  have "int64 (uint64 (sw_seq w)) = sw_seq w" using assms unfolding row_ok_def by (intro int64_uint64) blast+
  then show ?thesis by (simp add: past_cursor_def later_cursor_def row_ahead_def row_key_def)
qed

lemma search_predicate_cursor [simp]: "search_predicate lib (rq\<lparr>rq_cursor := c\<rparr>) p = search_predicate lib rq p"
  by (simp add: search_predicate_def predicate_def)

lemma matching_cursor [simp]: "matching lib m (rq\<lparr>rq_cursor := c\<rparr>) = matching lib m rq"
  by (rule ext) (simp add: matching_def cong: sum.case_cong)

lemma page_size_cursor [simp]: "page_size e (rq\<lparr>rq_cursor := c\<rparr>) = page_size e rq"
  by (simp add: page_size_def)

lemma answers_cursor [simp]: "answers lib e m (rq\<lparr>rq_cursor := c\<rparr>) = answers lib e m rq"
  by (rule ext) (simp add: answers_def cong: option.case_cong)

lemma window_ok_times:
  assumes "window_ok win" "t \<in> {fst win, snd win}"
  shows "- (2 ^ 63) \<le> UnixMicro t" "UnixMicro t < 2 ^ 63" "t \<noteq> zero_time" "1000 * UnixMicro t \<noteq> zero_time"
proof -
  have b: "- (2 ^ 63) \<le> UnixMicro t \<and> UnixMicro t < 2 ^ 63 \<and> UnixMicro t \<noteq> UnixMicro zero_time"
    using assms unfolding window_ok_def by blast
  then show "- (2 ^ 63) \<le> UnixMicro t" "UnixMicro t < 2 ^ 63" "t \<noteq> zero_time" by auto
  from b show "1000 * UnixMicro t \<noteq> zero_time" by (metis UnixMicro_thousand)
qed

lemma search_window_at:
  assumes "request_at ms rq i rq'" "rq_cursor rq = None" "window_ok (first_window (m_world (ms 0)) rq)"
  shows "search_window rq' = page_window ms rq i"
  using assms(1)
proof (unfold request_at_def, elim disjE conjE exE)
  assume "i = 0" "rq' = rq"
  then show ?thesis using assms(2) by (simp add: search_window_def page_window_def case_prod_beta)
next
  fix w assume w: "i > 0" "rq' = rq\<lparr>rq_cursor := Some (later_cursor (first_window (m_world (ms 0)) rq) w)\<rparr>"
  have "1000 * UnixMicro (fst (first_window (m_world (ms 0)) rq)) \<noteq> zero_time"
    using window_ok_times(4) [OF assms(3)] by blast
  with w show ?thesis by (simp add: search_window_def page_window_def later_cursor_def case_prod_beta Let_def)
qed

lemma Plan_window:
  assumes "Plan u w strm f t = Inr p"
  shows "(pl_from p, pl_to p) = plan_window w f t"
  using assms by (auto simp: Plan_def Let_def split: prod.splits if_splits option.splits)

lemma matching_window:
  assumes "matching lib (ms i) rq (page_window ms rq i) = Some (p, pred, ws)" "window_ok (first_window (m_world (ms 0)) rq)"
  shows "UnixMicro (pl_from p) = UnixMicro (fst (first_window (m_world (ms 0)) rq))"
    "UnixMicro (pl_to p) = UnixMicro (snd (first_window (m_world (ms 0)) rq))"
    "pl_from p \<noteq> zero_time"
proof -
  let ?win = "first_window (m_world (ms 0)) rq"
  note ok = window_ok_times [OF assms(2)]
  have "(pl_from p, pl_to p) = plan_window (m_world (ms i)) (fst (page_window ms rq i)) (snd (page_window ms rq i))"
    using assms(1) by (intro Plan_window) (auto simp: matching_def split: sum.splits)
  also have "\<dots> = (if i = 0 then ?win else (1000 * UnixMicro (fst ?win), 1000 * UnixMicro (snd ?win)))"
    using ok(4) [of "fst ?win"] ok(4) [of "snd ?win"]
    by (cases "i = 0") (simp_all add: page_window_def plan_window_def first_window_def case_prod_beta Let_def)
  finally have p: "(pl_from p, pl_to p) = (if i = 0 then ?win else (1000 * UnixMicro (fst ?win), 1000 * UnixMicro (snd ?win)))" .
  then show "UnixMicro (pl_from p) = UnixMicro (fst ?win)" "UnixMicro (pl_to p) = UnixMicro (snd ?win)"
    by (cases "i = 0"; cases ?win; simp)+
  from p ok(3) [of "fst ?win"] ok(4) [of "fst ?win"] show "pl_from p \<noteq> zero_time"
    by (cases "i = 0"; cases ?win; simp)
qed

lemma uint64_less: "uint64 i < 2 ^ 64"
proof -
  have "i mod 2 ^ 64 < 2 ^ 64" by simp
  then show ?thesis unfolding uint64_def by (simp add: nat_less_iff)
qed

lemma next_request_cursor:
  assumes p: "UnixMicro (pl_from p) = UnixMicro (fst win)" "UnixMicro (pl_to p) = UnixMicro (snd win)" "pl_from p \<noteq> zero_time"
    and win: "window_ok win" and w: "row_ok w"
  shows "next_request rq (Some (cursor_after p w)) = Some (rq\<lparr>rq_cursor := Some (later_cursor win w)\<rparr>)"
proof -
  have "ParseCursor (cursor_string (cursor_after p w)) = Inr (Some (later_cursor win w))"
  proof (subst cursor_roundtrip)
    show "- (2 ^ 63) \<le> UnixMicro t \<and> UnixMicro t < 2 ^ 63" if "t \<in> {cu_ts (cursor_after p w), cu_from (cursor_after p w), cu_to (cursor_after p w)}" for t
      using that w window_ok_times(1,2) [OF win, of "fst win"] window_ok_times(1,2) [OF win, of "snd win"] p
      by (auto simp: cursor_after_def row_ok_def)
    show "cu_seq (cursor_after p w) < 2 ^ 64" by (simp add: cursor_after_def uint64_less del: power_numeral)
    show "cu_from (cursor_after p w) \<noteq> zero_time" using p(3) by (simp add: cursor_after_def)
  qed (simp add: cursor_after_def later_cursor_def p)
  then show ?thesis by (simp add: next_request_def)
qed

end
