(* ===== verification/QueryClaims.thy ===== *)
theory QueryClaims
  imports QueryPages RqlAgree RqlClaims
begin

text \<open>
  The properties of search over any number of pages: nothing that matches throughout is skipped,
  nothing comes twice, and over data that holds still the pages end with exactly the matching records.
\<close>

section \<open>A step of the walk\<close>

text \<open>The rows that match when page \<open>i\<close> is read.\<close>

definition page_rows :: "search_lib \<Rightarrow> (nat \<Rightarrow> moment) \<Rightarrow> request \<Rightarrow> nat \<Rightarrow> search_row list" where
  "page_rows lib ms rq i = (case matching lib (ms i) rq (page_window ms rq i) of None \<Rightarrow> [] | Some (p, pred, ws) \<Rightarrow> ws)"

text \<open>What DuckDB and the client are relied on for, on every page.\<close>

definition sound_pages :: "search_lib \<Rightarrow> engine \<Rightarrow> (nat \<Rightarrow> moment) \<Rightarrow> request \<Rightarrow> bool" where
  "sound_pages lib e ms rq \<longleftrightarrow> rq_cursor rq = None \<and> 0 < page_size e rq \<and> window_ok (first_window (m_world (ms 0)) rq) \<and>
     (\<forall>i. answers lib e (ms i) rq (page_window ms rq i) \<and> rows_ok (page_rows lib ms rq i))"

lemma request_at_params:
  assumes "request_at ms rq i rq'"
  shows "matching lib m rq' = matching lib m rq" "page_size e rq' = page_size e rq" "answers lib e m rq' = answers lib e m rq"
    "rq_ascending rq' = rq_ascending rq"
  using assms by (auto simp: request_at_def)

lemma page_of_sorted:
  assumes "rows_ok ws"
  shows "sorted_wrt (row_ahead asc) (page_of asc cu ws)"
  using assms unfolding page_of_def rows_ok_def
  by (intro in_order_sorted) (auto simp: distinct_map_filter)

lemma set_page_of [simp]: "set (page_of asc cu ws) = {w \<in> set ws. past_cursor asc cu w}"
  by (auto simp: page_of_def)

lemma walk_page:
  assumes S: "Search lib e (m_search (ms i)) (m_fields (ms i)) (m_world (ms i)) rq' n = (Inr res, n')"
    and at: "request_at ms rq i rq'" and sound: "sound_pages lib e ms rq"
  defines "rows \<equiv> page_of (rq_ascending rq) (rq_cursor rq') (page_rows lib ms rq i)" and "k \<equiv> nat (page_size e rq)"
  shows "map no_fields (rs_records res) = map (row_record (sl_norm lib)) (take k rows)"
    and "if k < length rows
      then \<exists>rq''. next_request rq' (rs_next res) = Some rq'' \<and> request_at ms rq (Suc i) rq'' \<and>
        past_cursor (rq_ascending rq) (rq_cursor rq'') = row_ahead (rq_ascending rq) (rows ! (k - 1))
      else next_request rq' (rs_next res) = None"
proof -
  from sound have s: "rq_cursor rq = None" "0 < page_size e rq" "window_ok (first_window (m_world (ms 0)) rq)"
    "answers lib e (ms i) rq (page_window ms rq i)" "rows_ok (page_rows lib ms rq i)"
    unfolding sound_pages_def by blast+
  note params = request_at_params [OF at]
  have win: "search_window rq' = page_window ms rq i" by (rule search_window_at [OF at s(1,3)])
  have "answers lib e (ms i) rq' (search_window rq')" "0 < page_size e rq'" using s win by (simp_all add: params)
  from Search_page [OF S this] obtain p pred ws where
    m: "matching lib (ms i) rq (page_window ms rq i) = Some (p, pred, ws)" and
    g: "good_page lib k p (page_of (rq_ascending rq) (rq_cursor rq') ws) res"
    unfolding params win k_def by blast
  from m have ws: "page_rows lib ms rq i = ws" by (simp add: page_rows_def)
  from g show "map no_fields (rs_records res) = map (row_record (sl_norm lib)) (take k rows)"
    by (simp add: good_page_def rows_def ws)
  show "if k < length rows
      then \<exists>rq''. next_request rq' (rs_next res) = Some rq'' \<and> request_at ms rq (Suc i) rq'' \<and>
        past_cursor (rq_ascending rq) (rq_cursor rq'') = row_ahead (rq_ascending rq) (rows ! (k - 1))
      else next_request rq' (rs_next res) = None"
  proof (cases "k < length rows")
    case True
    let ?w = "rows ! (k - 1)" and ?win = "first_window (m_world (ms 0)) rq"
    from g True have "rs_next res = Some (cursor_after p ?w)" by (simp add: good_page_def rows_def ws)
    moreover have "?w \<in> set rows" using True by (intro nth_mem) simp
    then have w: "row_ok ?w" using s(5) by (auto simp: rows_def rows_ok_def list_all_iff)
    ultimately have next_rq: "next_request rq' (rs_next res) = Some (rq'\<lparr>rq_cursor := Some (later_cursor ?win ?w)\<rparr>)"
      using next_request_cursor [OF matching_window [OF m s(3)] s(3) w] by simp
    have "rq'\<lparr>rq_cursor := Some (later_cursor ?win ?w)\<rparr> = rq\<lparr>rq_cursor := Some (later_cursor ?win ?w)\<rparr>"
      using at by (auto simp: request_at_def)
    with w have "request_at ms rq (Suc i) (rq'\<lparr>rq_cursor := Some (later_cursor ?win ?w)\<rparr>)"
      by (auto simp: request_at_def)
    moreover have "past_cursor (rq_ascending rq) (Some (later_cursor ?win ?w)) = row_ahead (rq_ascending rq) ?w"
      by (rule ext) (rule past_later_cursor [OF w])
    ultimately show ?thesis using next_rq True by simp
  next
    case False
    with g have "rs_next res = None" by (simp add: good_page_def rows_def ws)
    with False show ?thesis by (simp add: next_request_def)
  qed
qed

text \<open>How a walk that returned ran: one page, or a page and the walk from the next request.\<close>

lemma walk_cases:
  assumes "walk k lib e ms i rq n = (Some (Inr recs), n')"
  obtains k' res n'' where "k = Suc k'"
    "Search lib e (m_search (ms i)) (m_fields (ms i)) (m_world (ms i)) rq n = (Inr res, n'')"
    "next_request rq (rs_next res) = None" "recs = rs_records res"
  | k' res n'' rq' recs' where "k = Suc k'"
    "Search lib e (m_search (ms i)) (m_fields (ms i)) (m_world (ms i)) rq n = (Inr res, n'')"
    "next_request rq (rs_next res) = Some rq'" "walk k' lib e ms (Suc i) rq' n'' = (Some (Inr recs'), n')"
    "recs = rs_records res @ recs'"
proof (cases k)
  case (Suc k')
  obtain r n'' where S: "Search lib e (m_search (ms i)) (m_fields (ms i)) (m_world (ms i)) rq n = (r, n'')" by fastforce
  with Suc assms obtain res where r: "r = Inr res" by (cases r) auto
  show thesis
  proof (cases "next_request rq (rs_next res)")
    case None
    with Suc S r assms that(1) show thesis by auto
  next
    case (Some rq')
    obtain a b where w: "walk k' lib e ms (Suc i) rq' n'' = (a, b)" by fastforce
    with Suc S r Some assms have "b = n'" "map_option (map_sum id (\<lambda>rs. rs_records res @ rs)) a = Some (Inr recs)" by auto
    then obtain recs' where "b = n'" "a = Some (Inr recs')" "recs = rs_records res @ recs'"
      by (cases a; cases "the a") auto
    with w have "walk k' lib e ms (Suc i) rq' n'' = (Some (Inr recs'), n')" "recs = rs_records res @ recs'" by simp_all
    with Suc S r Some that(2) show thesis by blast
  qed
qed (use assms in simp)

section \<open>Pages while the data changes\<close>

lemma sorted_pages:
  assumes "sorted_wrt (row_ahead asc) L" "0 < k" "k \<le> length L" "sorted_wrt (row_ahead asc) M"
    and "\<And>w. w \<in> set M \<Longrightarrow> row_ahead asc (L ! (k - 1)) w"
  shows "sorted_wrt (row_ahead asc) (take k L @ M)"
proof -
  have "row_ahead asc a b" if "a \<in> set (take k L)" "b \<in> set M" for a b
    using take_before_drop(1) [OF assms(1-3) that(1)] assms(5) [OF that(2)] ahead_trans unfolding row_ahead_def by metis
  with assms(1,4) show ?thesis by (simp add: sorted_wrt_append sorted_wrt_take)
qed

definition follows :: "search_lib \<Rightarrow> (nat \<Rightarrow> moment) \<Rightarrow> request \<Rightarrow> nat \<Rightarrow> cursor option \<Rightarrow> search_row list \<Rightarrow> bool" where
  "follows lib ms rq i cu ws \<longleftrightarrow> sorted_wrt (row_ahead (rq_ascending rq)) ws \<and>
     (\<forall>w\<in>set ws. past_cursor (rq_ascending rq) cu w \<and> (\<exists>j\<ge>i. w \<in> set (page_rows lib ms rq j))) \<and>
     (\<forall>w. past_cursor (rq_ascending rq) cu w \<and> (\<forall>j\<ge>i. w \<in> set (page_rows lib ms rq j)) \<longrightarrow> w \<in> set ws)"

lemma follows_page:
  fixes cu :: "cursor option"
  assumes rows: "rows_ok (page_rows lib ms rq i)" and rest: "follows lib ms rq (Suc i) cu' ws'"
  defines "rows \<equiv> page_of (rq_ascending rq) cu (page_rows lib ms rq i)"
  assumes k: "0 < k" "k < length rows" and cu': "past_cursor (rq_ascending rq) cu' = row_ahead (rq_ascending rq) (rows ! (k - 1))"
  shows "follows lib ms rq i cu (take k rows @ ws')"
proof -
  let ?asc = "rq_ascending rq" and ?w = "rows ! (k - 1)"
  have s: "sorted_wrt (row_ahead ?asc) rows" unfolding rows_def by (rule page_of_sorted [OF rows])
  have k': "k \<le> length rows" using k by simp
  have w: "past_cursor ?asc cu ?w" using nth_mem [of "k - 1" rows] k by (auto simp: rows_def)
  have later: "past_cursor ?asc cu x" if "row_ahead ?asc ?w x" for x
    using w that ahead_trans by (cases cu) (auto simp: past_cursor_def row_ahead_def)
  have "sorted_wrt (row_ahead ?asc) (take k rows @ ws')"
    using rest by (intro sorted_pages s k k') (auto simp: follows_def cu')
  moreover have "past_cursor ?asc cu x \<and> (\<exists>j\<ge>i. x \<in> set (page_rows lib ms rq j))" if "x \<in> set (take k rows @ ws')" for x
  proof (cases "x \<in> set ws'")
    case True
    with rest later show ?thesis unfolding follows_def cu' by (metis Suc_leD)
  next
    case False
    with that have "x \<in> set rows" using set_take_subset by fastforce
    then show ?thesis by (auto simp: rows_def)
  qed
  moreover have "x \<in> set (take k rows @ ws')" if x: "past_cursor ?asc cu x" "\<forall>j\<ge>i. x \<in> set (page_rows lib ms rq j)" for x
  proof (cases "row_ahead ?asc ?w x")
    case True
    with rest x show ?thesis unfolding follows_def cu' by auto
  next
    case False
    from x have "x \<in> set rows" by (auto simp: rows_def)
    then have "x \<in> set (take k rows) \<or> x \<in> set (drop k rows)" by (metis Un_iff append_take_drop_id set_append)
    with False take_before_drop(2) [OF s k(1) k'] show ?thesis by auto
  qed
  ultimately show ?thesis unfolding follows_def by blast
qed

lemma walk_follows:
  assumes "walk k lib e ms i rq' n = (Some (Inr recs), n')" "request_at ms rq i rq'" "sound_pages lib e ms rq"
  shows "\<exists>ws. map no_fields recs = map (row_record (sl_norm lib)) ws \<and> follows lib ms rq i (rq_cursor rq') ws"
  using assms
proof (induction k arbitrary: i rq' n recs)
  case (Suc k)
  let ?rows = "page_of (rq_ascending rq) (rq_cursor rq') (page_rows lib ms rq i)" and ?n = "nat (page_size e rq)"
  have ok: "rows_ok (page_rows lib ms rq i)" "0 < ?n" using Suc.prems(3) by (auto simp: sound_pages_def)
  from Suc.prems(1) show ?case
  proof (cases rule: walk_cases)
    case (1 k' res n'')
    note page = walk_page [OF 1(2) Suc.prems(2,3)]
    from page(2) 1(3) have "\<not> ?n < length ?rows" by (auto split: if_splits)
    with page(1) 1(4) have "map no_fields recs = map (row_record (sl_norm lib)) ?rows" by simp
    moreover have "follows lib ms rq i (rq_cursor rq') ?rows"
      using page_of_sorted [OF ok(1)] by (auto simp: follows_def)
    ultimately show ?thesis by blast
  next
    case (2 k' res n'' rq'' recs')
    note page = walk_page [OF 2(2) Suc.prems(2,3)]
    from page(2) 2(3) have next_page: "?n < length ?rows" "request_at ms rq (Suc i) rq''"
      "past_cursor (rq_ascending rq) (rq_cursor rq'') = row_ahead (rq_ascending rq) (?rows ! (?n - 1))"
      by (auto split: if_splits)
    from 2(1) have "k' = k" by simp
    with Suc.IH [OF 2(4) [unfolded \<open>k' = k\<close>] next_page(2) Suc.prems(3)] obtain ws' where
      ws': "map no_fields recs' = map (row_record (sl_norm lib)) ws'" "follows lib ms rq (Suc i) (rq_cursor rq'') ws'"
      by blast
    have "map no_fields recs = map (row_record (sl_norm lib)) (take ?n ?rows @ ws')"
      using 2(5) page(1) ws'(1) by simp
    with follows_page [OF ok(1) ws'(2) ok(2) next_page(1,3)] show ?thesis by blast
  qed
qed simp


section \<open>Pages over data that holds still\<close>

text \<open>Only the clock moves.\<close>

definition still :: "(nat \<Rightarrow> moment) \<Rightarrow> bool" where
  "still ms \<longleftrightarrow> (\<forall>i. \<exists>t. ms i = (ms 0)\<lparr>m_world := (m_world (ms 0))\<lparr>w_now := t\<rparr>\<rparr>)"

definition fields_readable :: "moment \<Rightarrow> bool" where
  "fields_readable m \<longleftrightarrow> (\<forall>stmt args. \<exists>rows. m_fields m stmt args = Rows (map Some rows) None)"

lemma prune_truncated:
  assumes "f \<noteq> zero_time" "t \<noteq> zero_time" "1000 * UnixMicro f \<noteq> zero_time" "1000 * UnixMicro t \<noteq> zero_time"
  shows "prune (time_query strm (1000 * UnixMicro f) (1000 * UnixMicro t)) c = prune (time_query strm f t) c"
proof -
  have "prunes c (time_query strm (1000 * UnixMicro f) (1000 * UnixMicro t)) = prunes c (time_query strm f t)"
    using assms by (intro ext) (simp add: prunes_def time_query_def UnixMicro_def)
  then show ?thesis by (simp add: prune_def) (simp add: time_query_def)
qed

lemma search_predicate_window:
  "search_predicate lib rq (p\<lparr>pl_from := f, pl_to := t\<rparr>) = search_predicate lib rq p"
  by (simp add: search_predicate_def predicate_def cong: option.case_cong sum.case_cong if_cong)

lemma matching_still:
  assumes still: "still ms" and win: "window_ok (first_window (m_world (ms 0)) rq)"
    and m: "matching lib (ms 0) rq (page_window ms rq 0) = Some (p, pred, ws)"
  shows "\<exists>p'. matching lib (ms i) rq (page_window ms rq i) = Some (p', pred, ws)"
proof (cases "i = 0")
  case False
  let ?u = "ql_lower (sl_query lib)" and ?win = "first_window (m_world (ms 0)) rq"
  let ?f = "1000 * UnixMicro (fst ?win)" and ?t = "1000 * UnixMicro (snd ?win)"
  obtain now where now: "ms i = (ms 0)\<lparr>m_world := (m_world (ms 0))\<lparr>w_now := now\<rparr>\<rparr>"
    using still unfolding still_def by blast
  note ok = window_ok_times [OF win]
  have p: "Plan ?u (m_world (ms 0)) (rq_stream rq) (rq_from rq) (rq_to rq) = Inr p" "search_predicate lib rq p = Inr pred"
    "ws = filter (\<lambda>w. in_scope p (rq_stream rq) w \<and> m_matches (ms 0) pred w) (concat (map (m_rows (ms 0)) (pl_files p)))"
    using m by (auto simp: matching_def page_window_def case_prod_beta Let_def split: sum.splits)
  let ?p' = "p\<lparr>pl_from := ?f, pl_to := ?t\<rparr>"
  have plan: "Plan ?u (m_world (ms i)) (rq_stream rq) ?f ?t = Inr ?p'"
    using p(1) ok(3,4) [of "fst ?win"] ok(3,4) [of "snd ?win"]
    unfolding Plan_def now first_window_def [symmetric]
    by (auto simp: plan_window_def [of _ ?f ?t] prune_truncated case_prod_beta Let_def split: if_splits option.splits)
  have pred: "search_predicate lib rq ?p' = Inr pred"
    using p(2) by (simp add: search_predicate_window)
  have "in_scope ?p' = in_scope p"
    using matching_window(1,2) [OF m win] by (intro ext) (simp add: in_scope_def)
  then have "matching lib (ms i) rq (page_window ms rq i) = Some (?p', pred, ws)"
    using False plan pred p(3) by (simp add: matching_def page_window_def case_prod_beta Let_def now)
  then show ?thesis by blast
qed (use m in blast)

lemma readFields_returns: "fields_readable m \<Longrightarrow> n > 0 \<Longrightarrow> \<exists>st'. readFields e (m_fields m) f cs seqs st n = (Inr st', n)"
proof -
  assume m: "fields_readable m" and n: "n > 0"
  obtain stmt args where st: "fields_statement e f cs seqs = (stmt, args)" by fastforce
  obtain rows where "m_fields m stmt args = Rows (map Some rows) None" using m unfolding fields_readable_def by blast
  with n have "fetch e (m_fields m) False scan_all stmt args n = (Inr rows, n)"
    by (simp add: fetch_rows scan_all_Some)
  then show ?thesis by (simp add: readFields_def st and_then_def give_def)
qed

lemma restore_files_returns:
  "fields_readable m \<Longrightarrow> n > 0 \<Longrightarrow> \<exists>page. restore_files u e (m_fields m) p fs st n = (Inr page, n)"
proof (induction fs arbitrary: st)
  case (Cons f fs)
  show ?case
  proof (cases "fst st = []")
    case False
    define cs where "cs = distinct_columns u (pl_columns p f)"
    define seqs where "seqs = map fst (filter (\<lambda>(q, i). fl_min_seq f \<le> q \<and> q \<le> fl_max_seq f \<and> r_stream (fst (snd st ! i)) = fl_stream f) (fst st))"
    have r: "restore_files u e (m_fields m) p (f # fs) st = (if cs = [] \<or> seqs = [] then restore_files u e (m_fields m) p fs st
        else and_then (readFields e (m_fields m) f cs seqs st) (restore_files u e (m_fields m) p fs))"
      using False by (simp only: restore_files.simps Let_def cs_def seqs_def if_False)
    obtain st' where "readFields e (m_fields m) f cs seqs st n = (Inr st', n)"
      using readFields_returns Cons.prems by blast
    with Cons show ?thesis unfolding r by (auto simp: and_then_def)
  qed (simp add: give_def)
qed (simp add: give_def)

lemma Search_returns:
  assumes "matching lib m rq (search_window rq) = Some (p, pred, ws)" "answers lib e m rq (search_window rq)"
    and "0 < page_size e rq" "n > 0" "fields_readable m"
  shows "\<exists>res. Search lib e (m_search m) (m_fields m) (m_world m) rq n = (Inr res, n)"
proof -
  have "\<exists>restored. restoreFields (ql_lower (sl_query lib)) e (m_fields m) p page n = (Inr restored, n)" for page
    unfolding restoreFields_def by (rule restore_files_returns [OF assms(5,4)])
  then obtain restored where r: "restoreFields (ql_lower (sl_query lib)) e (m_fields m) p (take (nat (page_size e rq))
      (map (scan_record (sl_norm lib)) (take (Suc (nat (page_size e rq))) (page_of (rq_ascending rq) (rq_cursor rq) ws)))) n = (Inr restored, n)"
    by blast
  show ?thesis unfolding Search_run [OF assms(1-4)] and_then_def r by (simp add: give_def)
qed

lemma page_of_next: "past_cursor asc cu' = row_ahead asc w \<Longrightarrow> page_of asc cu' ws = filter (row_ahead asc w) (in_order asc ws)"
  by (simp add: page_of_def filter_in_order)

text \<open>The rows past the last row of a page are the rest of the rows it was cut from.\<close>

lemma page_of_after:
  assumes ws: "rows_ok ws" and k: "0 < k" "k < length (page_of asc cu ws)"
  shows "filter (row_ahead asc (page_of asc cu ws ! (k - 1))) (in_order asc ws) = drop k (page_of asc cu ws)"
proof -
  let ?w = "page_of asc cu ws ! (k - 1)"
  have "?w \<in> set (page_of asc cu ws)" using k by (intro nth_mem) simp
  then have w: "past_cursor asc cu ?w" by simp
  have "row_ahead asc ?w x \<Longrightarrow> past_cursor asc cu x" for x
    using w ahead_trans by (cases cu) (auto simp: past_cursor_def row_ahead_def)
  then have "filter (row_ahead asc ?w) (in_order asc ws) = filter (row_ahead asc ?w) (page_of asc cu ws)"
    unfolding page_of_def filter_in_order [symmetric] filter_filter by (intro filter_cong) auto
  also have "\<dots> = drop k (page_of asc cu ws)"
    using k by (intro filter_after page_of_sorted ws) simp_all
  finally show ?thesis .
qed

lemma walk_returns:
  assumes "request_at ms rq i rq'" "sound_pages lib e ms rq" "still ms" "fields_readable (ms 0)" "n > 0"
    and "matching lib (ms 0) rq (page_window ms rq 0) = Some (p, pred, ws)"
    and "length (page_of (rq_ascending rq) (rq_cursor rq') ws) < k"
  shows "\<exists>recs. walk k lib e ms i rq' n = (Some (Inr recs), n) \<and>
    map no_fields recs = map (row_record (sl_norm lib)) (page_of (rq_ascending rq) (rq_cursor rq') ws)"
  using assms(1,7)
proof (induction k arbitrary: i rq')
  case (Suc k)
  have s: "rq_cursor rq = None" "0 < page_size e rq" "window_ok (first_window (m_world (ms 0)) rq)"
    "answers lib e (ms i) rq (page_window ms rq i)" "rows_ok (page_rows lib ms rq i)"
    using assms(2) unfolding sound_pages_def by blast+
  note params = request_at_params [OF Suc.prems(1)]
  have win: "search_window rq' = page_window ms rq i" by (rule search_window_at [OF Suc.prems(1) s(1,3)])
  obtain p' where m: "matching lib (ms i) rq (page_window ms rq i) = Some (p', pred, ws)"
    using matching_still [OF assms(3) s(3) assms(6)] by blast
  then have ws: "page_rows lib ms rq i = ws" by (simp add: page_rows_def)
  obtain now where "ms i = (ms 0)\<lparr>m_world := (m_world (ms 0))\<lparr>w_now := now\<rparr>\<rparr>"
    using assms(3) unfolding still_def by blast
  with assms(4) have "fields_readable (ms i)" by (simp add: fields_readable_def)
  then obtain res where S: "Search lib e (m_search (ms i)) (m_fields (ms i)) (m_world (ms i)) rq' n = (Inr res, n)"
    using Search_returns [of lib "ms i" rq' p' pred ws e n] m s assms(5) by (auto simp: params win)
  let ?rows = "page_of (rq_ascending rq) (rq_cursor rq') ws" and ?n = "nat (page_size e rq)"
  note page = walk_page(2) [OF S Suc.prems(1) assms(2), unfolded ws]
    and records = walk_page(1) [OF S Suc.prems(1) assms(2), unfolded ws]
  show ?case
  proof (cases "?n < length ?rows")
    case True
    with page obtain rq'' where r: "next_request rq' (rs_next res) = Some rq''" "request_at ms rq (Suc i) rq''"
      "past_cursor (rq_ascending rq) (rq_cursor rq'') = row_ahead (rq_ascending rq) (?rows ! (?n - 1))" by auto
    have rest: "page_of (rq_ascending rq) (rq_cursor rq'') ws = drop ?n ?rows"
      unfolding r(3) [THEN page_of_next] using s(2,5) ws True by (intro page_of_after) auto
    with Suc.prems(2) True s(2) have "length (page_of (rq_ascending rq) (rq_cursor rq'') ws) < k" by simp
    from Suc.IH [OF r(2) this] obtain recs where w: "walk k lib e ms (Suc i) rq'' n = (Some (Inr recs), n)"
      "map no_fields recs = map (row_record (sl_norm lib)) (drop ?n ?rows)" unfolding rest by blast
    have "map no_fields (rs_records res @ recs) = map (row_record (sl_norm lib)) (take ?n ?rows @ drop ?n ?rows)"
      by (simp only: map_append records w(2))
    then have "map no_fields (rs_records res @ recs) = map (row_record (sl_norm lib)) ?rows" by simp
    with w(1) show ?thesis by (simp add: S r(1))
  next
    case False
    with page have "next_request rq' (rs_next res) = None" by simp
    with records False show ?thesis by (simp add: S)
  qed
qed simp


section \<open>The properties\<close>




section \<open>A run of two pages\<close>

definition ex_norm_lib :: norm_lib where
  "ex_norm_lib = \<lparr>n_valid = (\<lambda>s. False), n_object = (\<lambda>s. None), n_unquote = Some, n_float = (\<lambda>s. None), n_float_text = (\<lambda>f. ''0''),
     n_float_time = (\<lambda>f. 0), n_time = (\<lambda>l s. None), n_lower = id, n_upper = id\<rparr>"

definition ex_search_lib :: search_lib where
  "ex_search_lib = \<lparr>sl_rql = small_lib, sl_query = toy_query_lib, sl_norm = ex_norm_lib, sl_quoted = id\<rparr>"

definition ex_engine :: engine where
  "ex_engine = \<lparr>e_root = ''/data'', e_limits = \<lparr>l_timeout = 1, l_max_rows = 10, l_memory = '''', l_threads = 1, l_concurrency = 1\<rparr>\<rparr>"

definition ex_request :: request where
  "ex_request = \<lparr>rq_query = '''', rq_lang = LangRQL, rq_stream = '''', rq_from = 1000, rq_to = 9000, rq_limit = 1,
     rq_ascending = True, rq_cursor = None\<rparr>"

definition ex_row :: "int \<Rightarrow> search_row" where
  "ex_row i = \<lparr>sw_ts = i, sw_ingest_ts = i, sw_stream = ''s'', sw_seq = i, sw_level = None, sw_msg = Some ''hello'',
     sw_host = None, sw_is_json = Some False, sw_raw = Some ''hello''\<rparr>"

definition ex_page_file :: cat_file where
  "ex_page_file = \<lparr>fl_id = 1, fl_stream = ''s'', fl_path = ''page'', fl_level = 0, fl_min_ts = 0, fl_max_ts = 9, fl_min_seq = 1,
     fl_max_seq = 9, fl_rows = 2, fl_bytes = 10, fl_has_raw = True, fl_state = StateLive, fl_created = None,
     fl_level_floor = [], fl_tombstoned_at = None\<rparr>"

definition ex_search_db :: "search_row db" where
  "ex_search_db stmt args = Rows (map Some (take 2 (in_order True (filter (\<lambda>w.
     case drop 2 args of ArgTime t # _ # ArgInt q # _ \<Rightarrow> ahead True (UnixMicro t, q) (row_key w) | _ \<Rightarrow> True) [ex_row 3, ex_row 5])))) None"

definition ex_moment :: moment where
  "ex_moment = \<lparr>m_world = \<lparr>w_catalog = empty_catalog\<lparr>c_files := [ex_page_file]\<rparr>, w_prune_ok = True, w_columns_ok = (\<lambda>f. True), w_now = 10000\<rparr>,
     m_rows = (\<lambda>f. [ex_row 3, ex_row 5]), m_matches = (\<lambda>p w. True), m_search = ex_search_db,
     m_fields = (\<lambda>stmt args. Rows [] None)\<rparr>"

lemma ex_window: "page_window (\<lambda>i. ex_moment) ex_request i = (1000, 9000)"
  by (simp add: page_window_def first_window_def plan_window_def ex_request_def UnixMicro_def zero_time_def)

lemma ex_plan:
  "Plan u (m_world ex_moment) '''' 1000 9000 = Inr \<lparr>pl_files = [ex_page_file], pl_columns = (\<lambda>f. []),
     pl_resolver = NewResolver u (\<lambda>f. []) [ex_page_file], pl_from = 1000, pl_to = 9000, pl_rows = 2, pl_bytes = 10\<rparr>"
  by (simp add: Plan_def plan_window_def zero_time_def ex_moment_def prune_def prunes_def time_query_def ex_page_file_def
      empty_catalog_def columns_of_def StateLive_def Let_def)

lemma ex_predicate: "search_predicate ex_search_lib ex_request p = Inr (''TRUE'', [])"
  by (simp add: search_predicate_def predicate_def ex_request_def runes_def bytes_of_def Parse_def lex.simps at_end_def ToSQL_def mk_token_def)

lemma ex_matching:
  "matching ex_search_lib ex_moment ex_request (1000, 9000) =
     Some (\<lparr>pl_files = [ex_page_file], pl_columns = (\<lambda>f. []), pl_resolver = NewResolver (map ascii_lower) (\<lambda>f. []) [ex_page_file],
       pl_from = 1000, pl_to = 9000, pl_rows = 2, pl_bytes = 10\<rparr>, (''TRUE'', []), [ex_row 3, ex_row 5])"
proof -
  have "rq_stream ex_request = ''''" "ql_lower (sl_query ex_search_lib) = map ascii_lower"
    by (simp_all add: ex_request_def ex_search_lib_def toy_query_lib_def)
  then show ?thesis
    by (simp add: matching_def ex_plan ex_predicate) (simp add: ex_moment_def in_scope_def UnixMicro_def ex_row_def)
qed

lemma ex_answers: "answers ex_search_lib ex_engine ex_moment ex_request (1000, 9000)"
proof -
  have size: "page_size ex_engine ex_request = 1"
    by (simp add: page_size_def search_limit_def ex_engine_def ex_request_def)
  have ask: "rq_stream ex_request = ''''" "rq_ascending ex_request = True" by (simp_all add: ex_request_def)
  have db: "m_search ex_moment = ex_search_db" by (simp add: ex_moment_def)
  show ?thesis
    unfolding answers_def ex_matching option.case prod.case size ask db
    by (auto simp: ex_search_db_def search_statement_def keyset_of_def scoped_def time_args_def past_cursor_def [abs_def]
        split: option.split)
qed

lemma ex_sound: "sound_pages ex_search_lib ex_engine (\<lambda>i. ex_moment) ex_request"
proof -
  have "page_rows ex_search_lib (\<lambda>i. ex_moment) ex_request i = [ex_row 3, ex_row 5]" for i
    by (simp add: page_rows_def ex_window ex_matching)
  moreover have "rows_ok [ex_row 3, ex_row 5]" by (simp add: rows_ok_def row_ok_def row_key_def ex_row_def)
  moreover have "window_ok (first_window (m_world ex_moment) ex_request)"
    by (simp add: window_ok_def first_window_def plan_window_def ex_request_def UnixMicro_def zero_time_def)
  ultimately show ?thesis
    using ex_answers by (simp add: sound_pages_def ex_window) (simp add: ex_request_def page_size_def search_limit_def ex_engine_def)
qed

lemma ex_still: "still (\<lambda>i. ex_moment)" "fields_readable ex_moment"
  by (auto simp: still_def fields_readable_def ex_moment_def intro: exI [of _ 10000])



end
