(* ===== verification/IngestHttp.thy ===== *)
theory IngestHttp
  imports Normalize LogStore
begin

text \<open>
  The HTTP ingest endpoint, \<open>src/internal/ingest/http.go\<close>: reading a body line by line, storing what
  it holds, and what the response says of it.  A body is the bytes that arrive and how they end; the
  store is a function from an outcome and a record to whether it was appended and the new store.
\<close>

section \<open>Bodies\<close>

datatype body_error = EOF | MaxBytesError int | TooLarge string int | DeadlineExceeded | BodyError string

type_synonym body = "string \<times> body_error"

definition DefaultMaxBody :: int where "DefaultMaxBody = 32 * 2 ^ 20"
definition DefaultStream :: string where "DefaultStream = ''http''"
definition maxLine :: nat where "maxLine = 2 ^ 20"
definition maxInflation :: int where "maxInflation = 8"
definition lineBuffer :: nat where "lineBuffer = 2 ^ 16"

definition byteCount :: "int \<Rightarrow> string" where
  "byteCount n = (if n \<ge> 2 ^ 20 then show_int (n div 2 ^ 20) @ ''MB'' else show_int n @ '' bytes'')"

fun body_error_text :: "body_error \<Rightarrow> string" where
  "body_error_text EOF = ''EOF''"
| "body_error_text (MaxBytesError n) = ''http: request body too large''"
| "body_error_text (TooLarge what limit) = what @ '' exceeds '' @ byteCount limit"
| "body_error_text DeadlineExceeded = ''i/o timeout''"
| "body_error_text (BodyError t) = t"

definition statusOf :: "body_error \<Rightarrow> nat" where
  "statusOf e =
     (case e of MaxBytesError _ \<Rightarrow> 413 | TooLarge _ _ \<Rightarrow> 413 | DeadlineExceeded \<Rightarrow> 408 | _ \<Rightarrow> 400)"

text \<open>
  \<open>http.MaxBytesReader\<close>, and \<open>inflateLimit\<close> over a decompressor: the bytes up to the limit are
  delivered, then an error that is not the end.
\<close>

definition limited :: "int \<Rightarrow> body \<Rightarrow> body" where
  "limited maxBody b = (if int (length (fst b)) > maxBody then (take (nat maxBody) (fst b), MaxBytesError maxBody) else b)"

definition inflateLimit :: "int \<Rightarrow> body \<Rightarrow> body" where
  "inflateLimit limit b =
     (if int (length (fst b)) > limit then (take (nat limit) (fst b), TooLarge ''decompressed body'' limit) else b)"

record http_options =
  ho_max_body :: int
  ho_default :: string

definition http_withDefaults :: "http_options \<Rightarrow> http_options" where
  "http_withDefaults o' =
     o'\<lparr>ho_max_body := (if ho_max_body o' = 0 then DefaultMaxBody else ho_max_body o'),
        ho_default := (if ho_default o' = '''' then DefaultStream else ho_default o')\<rparr>"

text \<open>\<open>gunzip\<close> and \<open>unzstd\<close> are the decompressors, which may refuse a body when they are opened.\<close>

record decoders =
  dc_gunzip :: "body \<Rightarrow> string + body"
  dc_unzstd :: "body \<Rightarrow> string + body"
  dc_lower :: "string \<Rightarrow> string"
  dc_quoted :: "string \<Rightarrow> string"

definition open_body :: "decoders \<Rightarrow> http_options \<Rightarrow> string \<Rightarrow> body \<Rightarrow> body_error + body" where
  "open_body dc opts header b =
     (let encoding = to_lower (dc_lower dc) (trim_space header);
          raw = limited (ho_max_body opts) b;
          inflated = maxInflation * ho_max_body opts
      in if encoding = '''' \<or> encoding = ''identity'' then Inr raw
         else if encoding = ''gzip'' then
           (case dc_gunzip dc raw of
              Inl e \<Rightarrow> Inl (BodyError (''reading gzip body: '' @ e))
            | Inr b' \<Rightarrow> Inr (inflateLimit inflated b'))
         else if encoding = ''zstd'' then
           (case dc_unzstd dc raw of
              Inl e \<Rightarrow> Inl (BodyError (''reading zstd body: '' @ e))
            | Inr b' \<Rightarrow> Inr (inflateLimit inflated b'))
         else Inl (BodyError (''unsupported Content-Encoding '' @ dc_quoted dc encoding)))"

section \<open>Reading a line\<close>

text \<open>
  \<open>bufio.Reader.ReadSlice\<close>: the bytes up to and with the newline, or a full buffer, or what is left
  and the error that ends the body.
\<close>

datatype slice_end = SliceLine | BufferFull | SliceError body_error

definition readSlice :: "body \<Rightarrow> string \<times> slice_end \<times> body" where
  "readSlice b =
     (let s = fst b; piece = takeWhile (\<lambda>c. c \<noteq> CHR 10) s
      in if length piece < length s \<and> length piece < lineBuffer
         then (piece @ [CHR 10], SliceLine, drop (length piece + 1) s, snd b)
         else if length s \<ge> lineBuffer then (take lineBuffer s, BufferFull, drop lineBuffer s, snd b)
         else (s, SliceError (snd b), [], snd b))"

text \<open>The line so far with a chunk added, held to \<open>maxLine\<close>, and whether the chunk was cut.\<close>

definition add_chunk :: "string \<Rightarrow> bool \<Rightarrow> string \<Rightarrow> string \<times> bool" where
  "add_chunk line was_cut chunk =
     (let room = maxLine - length line
      in if length chunk > room then (line @ take room chunk, True) else (line @ chunk, was_cut))"

lemma readSlice_shorter: "readSlice b = (chunk, BufferFull, b') \<Longrightarrow> length (fst b') < length (fst b)"
  by (auto simp: readSlice_def Let_def lineBuffer_def split: if_splits)

function readLine_loop :: "body \<Rightarrow> string \<Rightarrow> bool \<Rightarrow> string \<times> bool \<times> body_error option \<times> body" where
  "readLine_loop b line was_cut =
     (case readSlice b of
        (chunk, SliceLine, b') \<Rightarrow> (case add_chunk line was_cut (butlast chunk) of (l, c) \<Rightarrow> (l, c, None, b'))
      | (chunk, SliceError e, b') \<Rightarrow> (case add_chunk line was_cut chunk of (l, c) \<Rightarrow> (l, c, Some e, b'))
      | (chunk, BufferFull, b') \<Rightarrow> (case add_chunk line was_cut chunk of (l, c) \<Rightarrow> readLine_loop b' l c))"
  by pat_completeness auto
termination
  by (relation "measure (\<lambda>(b, _). length (fst b))") (auto dest: readSlice_shorter [OF sym])

declare readLine_loop.simps [simp del]

definition readLine :: "body \<Rightarrow> string \<times> bool \<times> body_error option \<times> body" where
  "readLine b = readLine_loop b [] False"

text \<open>What it amounts to: the bytes before the newline or the end, cut at \<open>maxLine\<close>.\<close>

definition line_of :: "string \<Rightarrow> string" where "line_of s = takeWhile (\<lambda>c. c \<noteq> CHR 10) s"

lemma add_chunk_take: "length line \<le> maxLine \<Longrightarrow>
  add_chunk (take maxLine line) (length line > maxLine) chunk = (take maxLine (line @ chunk), length (line @ chunk) > maxLine)"
  by (auto simp: add_chunk_def Let_def)

lemma add_chunk_full: "add_chunk (take maxLine line) (length line > maxLine) chunk =
  (take maxLine (line @ chunk), length (line @ chunk) > maxLine)"
proof (cases "length line \<le> maxLine")
  case False
  then show ?thesis by (cases "chunk = []") (auto simp: add_chunk_def Let_def)
qed (rule add_chunk_take)

lemma takeWhile_drop_prefix:
  "n \<le> length (takeWhile P s) \<Longrightarrow> takeWhile P s = take n s @ takeWhile P (drop n s)"
proof (induction s arbitrary: n)
  case (Cons c s)
  show ?case
  proof (cases n)
    case (Suc m)
    with Cons.prems have "P c" "m \<le> length (takeWhile P s)" by (auto split: if_splits)
    with Suc Cons.IH [of m] show ?thesis by simp
  qed simp
qed simp

lemma readLine_loop_eq:
  "readLine_loop b (take maxLine line) (length line > maxLine) =
     (let whole = line @ line_of (fst b); n = length (line_of (fst b))
      in if n < length (fst b) then (take maxLine whole, length whole > maxLine, None, drop (n + 1) (fst b), snd b)
         else (take maxLine whole, length whole > maxLine, Some (snd b), [], snd b))"
proof (induction "length (fst b)" arbitrary: b line rule: less_induct)
  case less
  obtain s e where b: "b = (s, e)" by (cases b)
  let ?n = "length (line_of s)"
  have n: "?n \<le> length s" by (simp add: line_of_def length_takeWhile_le)
  consider (line) "?n < length s" "?n < lineBuffer" | (full) "\<not> (?n < length s \<and> ?n < lineBuffer)" "length s \<ge> lineBuffer"
    | (last) "?n = length s" "length s < lineBuffer"
    using n by linarith
  then show ?case
  proof cases
    case line
    then have r: "readSlice b = (line_of s @ [CHR 10], SliceLine, drop (?n + 1) s, e)" by (simp add: readSlice_def b line_of_def Let_def)
    have "butlast (line_of s @ [CHR 10]) = line_of s" by simp
    with line show ?thesis
      unfolding readLine_loop.simps [of b] r prod.case slice_end.case unfolding b add_chunk_full fst_conv snd_conv Let_def by simp
  next
    case full
    then have r: "readSlice b = (take lineBuffer s, BufferFull, drop lineBuffer s, e)"
      by (auto simp: readSlice_def b line_of_def Let_def)
    have big: "lineBuffer \<le> ?n" using full n by linarith
    have split: "line_of s = take lineBuffer s @ line_of (drop lineBuffer s)"
      unfolding line_of_def by (rule takeWhile_drop_prefix) (use big in \<open>simp add: line_of_def\<close>)
    have m: "length (line_of (drop lineBuffer s)) = ?n - lineBuffer" using split full(2) by simp
    have "length (fst (drop lineBuffer s, e)) < length (fst b)" using full(2) by (simp add: b lineBuffer_def)
    note IH = less.hyps [OF this, of "line @ take lineBuffer s"]
    have step: "readLine_loop b (take maxLine line) (length line > maxLine) =
        readLine_loop (drop lineBuffer s, e) (take maxLine (line @ take lineBuffer s)) (length (line @ take lineBuffer s) > maxLine)"
      unfolding readLine_loop.simps [of b] r prod.case slice_end.case add_chunk_full ..
    have whole: "(line @ take lineBuffer s) @ line_of (drop lineBuffer s) = line @ line_of s"
      using split by (metis append.assoc)
    have cond: "?n - lineBuffer < length (drop lineBuffer s) \<longleftrightarrow> ?n < length s" using big full(2) by auto
    have rest: "drop (?n - lineBuffer + 1) (drop lineBuffer s) = drop (?n + 1) s" using big by simp
    show ?thesis unfolding step IH fst_conv snd_conv m Let_def whole cond rest unfolding b fst_conv snd_conv ..
  next
    case last
    then have r: "readSlice b = (s, SliceError e, [], e)" by (simp add: readSlice_def b line_of_def Let_def)
    have "line_of s = s" using last by (metis line_of_def takeWhile_eq_take take_all_iff order_refl)
    with last show ?thesis
      unfolding readLine_loop.simps [of b] r prod.case slice_end.case unfolding b add_chunk_full fst_conv snd_conv Let_def by simp
  qed
qed

lemma readLine_eq:
  "readLine (s, e) =
     (let l = line_of s
      in if length l < length s then (take maxLine l, length l > maxLine, None, drop (length l + 1) s, e)
         else (take maxLine s, length s > maxLine, Some e, [], e))"
proof -
  have "length (line_of s) \<ge> length s \<Longrightarrow> line_of s = s"
    by (metis line_of_def length_takeWhile_le order_antisym takeWhile_eq_take take_all_iff order_refl)
  then show ?thesis
    using readLine_loop_eq [of "(s, e)" "[]"] by (auto simp: readLine_def Let_def)
qed


section \<open>The handler\<close>

record http_stats =
  hs_received :: nat
  hs_rejected :: nat
  hs_bytes :: nat
  hs_requests :: nat

record ingest_result =
  ir_accepted :: nat
  ir_rejected :: nat
  ir_errors :: "string list"

text \<open>
  What a request brings: its query's stream, its encoding, its peer and its body; and the outcomes of
  the calls: the clock and the store's answer line by line, and whether the sync succeeds.
\<close>

record 'io ingest_request =
  iq_stream :: string
  iq_encoding :: string
  iq_host :: string
  iq_body :: body
  iq_clock :: "nat \<Rightarrow> int"
  iq_append :: "nat \<Rightarrow> 'io"
  iq_append_error :: "nat \<Rightarrow> string"
  iq_sync :: "string option"

text \<open>The loop stops with a status and an error, where the batch ended early.\<close>

record 'st lines_state =
  li_store :: 'st
  li_accepted :: nat
  li_truncated :: nat
  li_stats :: http_stats

definition blank :: "string \<Rightarrow> bool" where "blank line \<longleftrightarrow> trim_space line = ''''"

definition line_record :: "norm_lib \<Rightarrow> 'io ingest_request \<Rightarrow> string \<Rightarrow> nat \<Rightarrow> string \<Rightarrow> rec" where
  "line_record lib rq strm i line = FromLine lib (iq_clock rq i) strm (iq_host rq) 0 line"

lemma readLine_shorter: "readLine b = (line, was_cut, None, b') \<Longrightarrow> length (fst b') < length (fst b)"
  by (cases b) (auto simp: readLine_eq Let_def split: if_splits)

function lines_loop ::
  "norm_lib \<Rightarrow> ('io \<Rightarrow> rec \<Rightarrow> 'st \<Rightarrow> bool \<times> 'st) \<Rightarrow> 'io ingest_request \<Rightarrow> string \<Rightarrow> body \<Rightarrow> nat \<Rightarrow> 'st lines_state
   \<Rightarrow> (nat \<times> string option) \<times> 'st lines_state"
where
  "lines_loop lib put rq strm b i s =
     (case readLine b of (line, was_cut, err, b') \<Rightarrow>
        if err \<noteq> None \<and> err \<noteq> Some EOF then
          ((statusOf (the err), Some (''reading the body: '' @ body_error_text (the err))), s)
        else if err \<noteq> None \<and> line = '''' then ((200, None), s)
        else if \<not> blank line then
          (let t = s\<lparr>li_truncated := li_truncated s + (if was_cut then 1 else 0),
                     li_stats := (li_stats s)\<lparr>hs_bytes := hs_bytes (li_stats s) + length line\<rparr>\<rparr>
           in case put (iq_append rq i) (line_record lib rq strm i line) (li_store s) of
                (False, st') \<Rightarrow> ((503, Some (''storing records: '' @ iq_append_error rq i)), t\<lparr>li_store := st'\<rparr>)
              | (True, st') \<Rightarrow>
                  (let t' = t\<lparr>li_store := st', li_accepted := li_accepted s + 1,
                              li_stats := (li_stats t)\<lparr>hs_received := hs_received (li_stats t) + 1\<rparr>\<rparr>
                   in if err \<noteq> None then ((200, None), t') else lines_loop lib put rq strm b' (i + 1) t'))
        else
          (let t = s\<lparr>li_accepted := li_accepted s + 1\<rparr>
           in if err \<noteq> None then ((200, None), t) else lines_loop lib put rq strm b' (i + 1) t))"
  by pat_completeness auto
termination
  by (relation "measure (\<lambda>(lib, put, rq, strm, b, i, s). length (fst b))") (auto dest: readLine_shorter [OF sym])

declare lines_loop.simps [simp del]

definition finish :: "'io ingest_request \<Rightarrow> nat \<Rightarrow> string option \<Rightarrow> 'st lines_state \<Rightarrow> nat \<times> ingest_result \<times> http_stats" where
  "finish rq status0 err0 s =
     (let failed = (if li_accepted s \<noteq> 0 then iq_sync rq else None);
          status = (case failed of Some _ \<Rightarrow> 503 | None \<Rightarrow> status0);
          err = (case failed of Some e \<Rightarrow> Some (''storing records: '' @ e) | None \<Rightarrow> err0);
          accepted = (case failed of Some _ \<Rightarrow> 0 | None \<Rightarrow> li_accepted s);
          notes = (if li_truncated s \<noteq> 0
            then [show_nat (li_truncated s) @ '' line(s) exceeded '' @ show_nat maxLine @ '' bytes and were truncated''] else [])
      in (status,
          \<lparr>ir_accepted = accepted, ir_rejected = (case err of Some _ \<Rightarrow> 1 | None \<Rightarrow> 0),
           ir_errors = notes @ (case err of Some e \<Rightarrow> [e] | None \<Rightarrow> [])\<rparr>,
          (li_stats s)\<lparr>hs_rejected := hs_rejected (li_stats s) + (case err of Some _ \<Rightarrow> 1 | None \<Rightarrow> 0)\<rparr>))"

definition fail :: "http_stats \<Rightarrow> nat \<Rightarrow> string \<Rightarrow> nat \<times> ingest_result \<times> http_stats" where
  "fail stats status err =
     (status, \<lparr>ir_accepted = 0, ir_rejected = 1, ir_errors = [err]\<rparr>, stats\<lparr>hs_rejected := hs_rejected stats + 1\<rparr>)"

definition Lines ::
  "norm_lib \<Rightarrow> decoders \<Rightarrow> http_options \<Rightarrow> ('io \<Rightarrow> rec \<Rightarrow> 'st \<Rightarrow> bool \<times> 'st) \<Rightarrow> 'io ingest_request \<Rightarrow> http_stats \<Rightarrow> 'st
   \<Rightarrow> (nat \<times> ingest_result \<times> http_stats) \<times> 'st"
where
  "Lines lib dc opts put rq stats0 st =
     (let stats = stats0\<lparr>hs_requests := hs_requests stats0 + 1\<rparr>;
          strm = (if iq_stream rq = '''' then ho_default opts else iq_stream rq)
      in case open_body dc opts (iq_encoding rq) (iq_body rq) of
           Inl e \<Rightarrow> (fail stats (statusOf e) (body_error_text e), st)
         | Inr b \<Rightarrow>
             (case lines_loop lib put rq strm b 0 \<lparr>li_store = st, li_accepted = 0, li_truncated = 0, li_stats = stats\<rparr> of
                ((status, err), s) \<Rightarrow> (finish rq status err s, li_store s)))"

section \<open>What a body holds\<close>

text \<open>
  The lines of a body: those its newlines end and, where the body ended as it should, the rest after
  the last newline if it is not empty.
\<close>

function body_lines :: "body \<Rightarrow> string list" where
  "body_lines b =
     (let l = line_of (fst b)
      in if length l < length (fst b) then l # body_lines (drop (length l + 1) (fst b), snd b)
         else if snd b = EOF \<and> fst b \<noteq> '''' then [fst b] else [])"
  by pat_completeness auto
termination
  by (relation "measure (\<lambda>b. length (fst b))") auto

declare body_lines.simps [simp del]

definition stored_line :: "string \<Rightarrow> string" where "stored_line l = take maxLine l"

text \<open>The records of the lines from number \<open>i\<close> on.\<close>

fun line_records :: "norm_lib \<Rightarrow> 'io ingest_request \<Rightarrow> string \<Rightarrow> nat \<Rightarrow> string list \<Rightarrow> rec list" where
  "line_records lib rq strm i [] = []"
| "line_records lib rq strm i (l # ls) =
     (if blank (stored_line l) then [] else [line_record lib rq strm i (stored_line l)]) @ line_records lib rq strm (Suc i) ls"

text \<open>A record as it was handed to the store, without the number the store gave it.\<close>

definition unnumbered :: "rec \<Rightarrow> rec" where "unnumbered r = r\<lparr>r_seq := 0\<rparr>"

definition stores_as :: "rec list \<Rightarrow> rec list \<Rightarrow> bool" where
  "stores_as h rs \<longleftrightarrow> map unnumbered h = map unnumbered rs"

lemma body_lines_step:
  "readLine b = (line, was_cut, err, b') \<Longrightarrow>
    body_lines b = (case err of
        None \<Rightarrow> (if length (line_of (fst b)) < length (fst b) then line_of (fst b) # body_lines b' else [])
      | Some e \<Rightarrow> (if e = EOF \<and> fst b \<noteq> '''' then [fst b] else []))"
proof (cases b)
  case (Pair s e)
  assume "readLine b = (line, was_cut, err, b')"
  with Pair show ?thesis by (auto simp: readLine_eq body_lines.simps [of "(s, e)"] Let_def split: if_splits)
qed

lemma readLine_line:
  "readLine b = (line, was_cut, None, b') \<Longrightarrow> line = stored_line (line_of (fst b)) \<and> length (line_of (fst b)) < length (fst b)"
  "readLine b = (line, was_cut, Some e, b') \<Longrightarrow> line = stored_line (fst b) \<and> e = snd b"
  by (cases b; auto simp: readLine_eq stored_line_def Let_def split: if_splits)+

lemma stored_line_empty: "stored_line l = '''' \<longleftrightarrow> l = ''''"
  by (simp add: stored_line_def maxLine_def)

section \<open>What is stored and what is reported\<close>

text \<open>
  What a run of the loop over the lines \<open>ls\<close>, that end with \<open>e\<close>, may come to: \<open>k\<close> of them accepted,
  with the status and the error.
\<close>

definition loop_outcome :: "string list \<Rightarrow> body_error \<Rightarrow> nat \<Rightarrow> nat \<times> string option \<Rightarrow> bool" where
  "loop_outcome ls e k out \<longleftrightarrow> k \<le> length ls \<and>
     (case snd out of
        None \<Rightarrow> fst out = 200 \<and> k = length ls \<and> e = EOF
      | Some _ \<Rightarrow> fst out = 503 \<and> k < length ls \<and> \<not> blank (stored_line (ls ! k))
          \<or> fst out = statusOf e \<and> k = length ls \<and> e \<noteq> EOF)"

lemma stores_as_simps [simp]: "stores_as [] []" "stores_as (r # h) (r' # rs) \<longleftrightarrow> unnumbered r = unnumbered r' \<and> stores_as h rs"
  by (simp_all add: stores_as_def)

lemma unnumbered_seq [simp]: "unnumbered (r\<lparr>r_seq := q\<rparr>) = unnumbered r"
  by (simp add: unnumbered_def)

context log_store
begin

definition stored :: "'st \<Rightarrow> rec list \<Rightarrow> 'st \<Rightarrow> rec list \<Rightarrow> bool" where
  "stored st h st' rs \<longleftrightarrow> (\<exists>h'. repr st' (h @ h') \<and> stores_as h' rs)"

lemma stored_refused: "repr st h \<Longrightarrow> append_rec io r st = (False, st') \<Longrightarrow> stored st h st' []"
  using refused [of st h io r st'] unfolding stored_def by (metis append.right_neutral stores_as_simps(1))

lemma stored_accepted:
  assumes "repr st h" "append_rec io r st = (True, st')"
  obtains r' where "repr st' (h @ [r'])" "unnumbered r' = unnumbered r"
  using accepted [OF assms] by (metis unnumbered_seq)

lemma stored_more: "stored st' (h @ [r']) st'' rs \<Longrightarrow> unnumbered r' = unnumbered r \<Longrightarrow> stored st h st'' (r # rs)"
  unfolding stored_def by (metis append.assoc append_Cons append_Nil stores_as_simps(2))

lemma lines_loop_stores:
  assumes "repr (li_store s) h" "lines_loop lib append_rec rq strm b i s = (out, s')"
  shows "\<exists>k. loop_outcome (body_lines b) (snd b) k out \<and> li_accepted s' = li_accepted s + k \<and>
    stored (li_store s) h (li_store s') (line_records lib rq strm i (take k (body_lines b)))"
  using assms
proof (induction "length (fst b)" arbitrary: b i s h rule: less_induct)
  case less
  obtain line was_cut err b' where r: "readLine b = (line, was_cut, err, b')" by (metis prod_cases4)
  have none: "stored (li_store s) h (li_store s) []"
    using less.prems(1) unfolding stored_def by (metis append.right_neutral stores_as_simps(1))
  let ?r = "line_record lib rq strm i line"
  obtain ok st' where put: "append_rec (iq_append rq i) ?r (li_store s) = (ok, st')" by fastforce
  note loop = less.prems(2) [unfolded lines_loop.simps [of _ _ _ _ b] r prod.case put, simplified Let_def]
  show ?case
  proof (cases err)
    case (Some e)
    note rl = readLine_line(2) [OF r [unfolded Some]]
    have lines: "body_lines b = (if e = EOF \<and> fst b \<noteq> '''' then [fst b] else [])"
      using body_lines_step [OF r] Some by simp
    consider (broken) "e \<noteq> EOF" | (over) "e = EOF" "line = ''''" | (blank) "e = EOF" "line \<noteq> ''''" "blank line"
      | (refused) "e = EOF" "line \<noteq> ''''" "\<not> blank line" "\<not> ok" | (accepted) "e = EOF" "line \<noteq> ''''" "\<not> blank line" ok
      by blast
    then show ?thesis
    proof cases
      case broken
      with loop Some lines rl none show ?thesis by (auto simp: loop_outcome_def intro!: exI [of _ 0])
    next
      case over
      with loop Some lines rl none stored_line_empty [of "fst b"] show ?thesis
        by (auto simp: loop_outcome_def intro!: exI [of _ 0])
    next
      case blank
      with loop Some lines rl none stored_line_empty [of "fst b"] show ?thesis
        by (auto simp: loop_outcome_def intro!: exI [of _ 1])
    next
      case refused
      with loop Some lines rl stored_line_empty [of "fst b"] stored_refused [OF less.prems(1)] put show ?thesis
        by (auto simp: loop_outcome_def intro!: exI [of _ 0])
    next
      case accepted
      from accepted(4) put have "append_rec (iq_append rq i) ?r (li_store s) = (True, st')" by simp
      from stored_accepted [OF less.prems(1) this] obtain r' where
        r': "repr st' (h @ [r'])" "unnumbered r' = unnumbered ?r" .
      then have one: "stored (li_store s) h st' [?r]" unfolding stored_def by (metis stores_as_simps)
      from accepted loop Some have out: "out = (200, None)" and s': "li_store s' = st'" "li_accepted s' = li_accepted s + 1" by auto
      from accepted rl stored_line_empty [of "fst b"] have "fst b \<noteq> ''''" "snd b = EOF" by auto
      with lines accepted(1) have one_line: "body_lines b = [fst b]" "snd b = EOF" by auto
      have "loop_outcome (body_lines b) (snd b) 1 out" by (simp add: loop_outcome_def out one_line)
      moreover have "line_records lib rq strm i (take 1 (body_lines b)) = [?r]" using accepted(3) rl by (simp add: one_line)
      ultimately show ?thesis using one s' by metis
    qed
  next
    case None
    note rl = readLine_line(1) [OF r [unfolded None]]
    have lines: "body_lines b = line_of (fst b) # body_lines b'" using body_lines_step [OF r] None rl by simp
    have b': "snd b' = snd b" "length (fst b') < length (fst b)"
      using r None readLine_shorter [of b] by (cases b; auto simp: readLine_eq Let_def split: if_splits)+
    show ?thesis
    proof (cases "blank line")
      case True
      let ?s = "s\<lparr>li_accepted := li_accepted s + 1\<rparr>"
      have "lines_loop lib append_rec rq strm b' (i + 1) ?s = (out, s')" using loop None True by simp
      from less.hyps [OF b'(2) _ this, of h] less.prems(1) obtain k where
        "loop_outcome (body_lines b') (snd b) k out" "li_accepted s' = li_accepted s + 1 + k"
        "stored (li_store s) h (li_store s') (line_records lib rq strm (i + 1) (take k (body_lines b')))"
        by (auto simp: b')
      then show ?thesis using True rl lines
        by (intro exI [of _ "Suc k"]) (auto simp: loop_outcome_def split: option.splits)
    next
      case nonblank: False
      show ?thesis
      proof (cases ok)
        case False
        with loop None nonblank stored_refused [OF less.prems(1)] put rl lines show ?thesis
          by (auto simp: loop_outcome_def intro!: exI [of _ 0])
      next
        case True
        from True put have "append_rec (iq_append rq i) ?r (li_store s) = (True, st')" by simp
        from stored_accepted [OF less.prems(1) this] obtain r' where
          r': "repr st' (h @ [r'])" "unnumbered r' = unnumbered ?r" .
        let ?t = "s\<lparr>li_truncated := li_truncated s + (if was_cut then 1 else 0),
          li_stats := (li_stats s)\<lparr>hs_bytes := hs_bytes (li_stats s) + length line\<rparr>\<rparr>"
        let ?s = "?t\<lparr>li_store := st', li_accepted := li_accepted s + 1,
          li_stats := (li_stats ?t)\<lparr>hs_received := hs_received (li_stats ?t) + 1\<rparr>\<rparr>"
        have "lines_loop lib append_rec rq strm b' (i + 1) ?s = (out, s')" using loop None True nonblank by simp
        from less.hyps [OF b'(2) _ this, of "h @ [r']"] r'(1) obtain k where
          k: "loop_outcome (body_lines b') (snd b) k out" "li_accepted s' = li_accepted s + 1 + k"
          "stored st' (h @ [r']) (li_store s') (line_records lib rq strm (i + 1) (take k (body_lines b')))"
          by (auto simp: b')
        from stored_more [OF k(3) r'(2)] k(1,2) nonblank rl lines show ?thesis
          by (intro exI [of _ "Suc k"]) (auto simp: loop_outcome_def split: option.splits)
      qed
    qed
  qed
qed

end

section \<open>The whole request\<close>

text \<open>What a response may say where \<open>k\<close> of the lines \<open>ls\<close>, that end with \<open>e\<close>, were accepted.\<close>

definition reported :: "string list \<Rightarrow> body_error \<Rightarrow> string option \<Rightarrow> nat \<Rightarrow> nat \<Rightarrow> ingest_result \<Rightarrow> bool" where
  "reported ls e sync k status out \<longleftrightarrow> k \<le> length ls \<and>
     (if k \<noteq> 0 \<and> sync \<noteq> None then status = 503 \<and> ir_accepted out = 0
      else ir_accepted out = k \<and>
        (status = 200 \<and> k = length ls \<and> e = EOF \<or>
         status = 503 \<and> k < length ls \<and> \<not> blank (stored_line (ls ! k)) \<or>
         status = statusOf e \<and> k = length ls \<and> e \<noteq> EOF)) \<and>
     ir_rejected out = (if status = 200 then 0 else 1)"

lemma statusOf_not_ok: "statusOf e \<noteq> 200" "statusOf e \<noteq> 503"
  by (cases e; simp add: statusOf_def)+

lemma finish_reports:
  assumes "loop_outcome ls e k (status0, err)" "li_accepted s = k"
  shows "reported ls e (iq_sync rq) k (fst (finish rq status0 err s)) (fst (snd (finish rq status0 err s)))"
  using assms statusOf_not_ok [of e]
  by (cases "iq_sync rq"; cases err) (auto simp: finish_def reported_def loop_outcome_def Let_def)

context log_store
begin

lemma Lines_stores:
  assumes "repr st h" "Lines lib dc opts append_rec rq stats st = ((status, out, stats'), st')"
    and "open_body dc opts (iq_encoding rq) (iq_body rq) = Inr b"
  shows "\<exists>k. reported (body_lines b) (snd b) (iq_sync rq) k status out \<and>
    stored st h st' (line_records lib rq (if iq_stream rq = '''' then ho_default opts else iq_stream rq) 0 (take k (body_lines b)))"
proof -
  let ?strm = "if iq_stream rq = '''' then ho_default opts else iq_stream rq"
  let ?s = "\<lparr>li_store = st, li_accepted = 0, li_truncated = 0, li_stats = stats\<lparr>hs_requests := hs_requests stats + 1\<rparr>\<rparr>"
  obtain status0 err s where l: "lines_loop lib append_rec rq ?strm b 0 ?s = ((status0, err), s)" by (metis prod.collapse)
  with assms(2,3) have f: "finish rq status0 err s = (status, out, stats')" "li_store s = st'" by (auto simp: Lines_def Let_def)
  have "repr (li_store ?s) h" using assms(1) by simp
  from lines_loop_stores [OF this l] obtain k where k: "loop_outcome (body_lines b) (snd b) k (status0, err)" "li_accepted s = k"
    "stored st h st' (line_records lib rq ?strm 0 (take k (body_lines b)))" by (auto simp: f(2))
  from finish_reports [OF k(1,2), of rq] k(3) show ?thesis by (auto simp: f(1))
qed

end

end
