(* ===== verification/IngestClaims.thy ===== *)
theory IngestClaims
  imports DurableSystem IngestHttp
begin

text \<open>
  What an answer of the HTTP endpoint promises, over the durable store: the records of the lines it
  counts are the newest of the write-ahead log, in order, and nothing else is.
\<close>

section \<open>The log of a durable store\<close>

text \<open>\<open>n\<close> of the records \<open>h\<close> are no longer in the active segment; the others are, in order.\<close>

definition logged :: "nat \<Rightarrow> durable \<Rightarrow> rec list \<Rightarrow> bool" where
  "logged n d h \<longleftrightarrow> durable_repr d h \<and> n \<le> length h \<and> a_recs (d_log d) = drop n h"

lemma durable_append_log:
  assumes "durable_append io r d = (ok, kick, d')"
  shows "a_recs (d_log d') = (if ok then a_recs (d_log d) @ [r\<lparr>r_seq := d_seq d + 1\<rparr>] else a_recs (d_log d))"
  using assms by (cases "io_append io") (auto simp: durable_append_def alog_append_def Let_def)

lemma append_accepts_append:
  assumes "append_accepts io r d = (ok, d')"
  obtains kick where "durable_append io r d = (ok, kick, d')"
  using assms by (auto simp: append_accepts_def split: prod.splits)

interpretation active: log_store "logged n" append_accepts durable_backlog d_fanout
  "\<lambda>d. nat (o_backlog (d_opts d))" for n
proof
  show "logged n d h \<Longrightarrow> seq_sorted h \<and> (\<forall>r\<in>set h. 0 < r_seq r)" for d h
    by (simp add: logged_def durable_repr_def)
  show "durable_backlog s limit d = last_n (if limit \<le> 0 then nat (o_backlog (d_opts d)) else nat limit) (of_stream s h)"
    if "logged n d h" "limit \<le> int (nat (o_backlog (d_opts d)))" for d h limit s
    using durable_repr_backlog that by (simp add: logged_def)
  show "\<exists>q names. logged n d' (h @ [r\<lparr>r_seq := q\<rparr>]) \<and> nat (o_backlog (d_opts d')) = nat (o_backlog (d_opts d)) \<and>
      d_fanout d' = published (r\<lparr>r_seq := q\<rparr>) names (d_fanout d)"
    if l: "logged n d h" and a: "append_accepts io r d = (True, d')" for d h io r d'
  proof -
    from a obtain kick where run: "durable_append io r d = (True, kick, d')" by (rule append_accepts_append)
    note rep = durable_append_repr [OF _ run, of h] and log = durable_append_log [OF run]
    from run show ?thesis
    proof (cases rule: durable_append_cases)
      case (accepted names)
      with l rep log show ?thesis by (intro exI [of _ "d_seq d + 1"] exI [of _ names]) (auto simp: logged_def)
    qed simp
  qed
  show "logged n d' h \<and> nat (o_backlog (d_opts d')) = nat (o_backlog (d_opts d)) \<and> d_fanout d' = d_fanout d"
    if l: "logged n d h" and a: "append_accepts io r d = (False, d')" for d h io r d'
  proof -
    from a obtain kick where run: "durable_append io r d = (False, kick, d')" by (rule append_accepts_append)
    from run show ?thesis
      by (cases rule: durable_append_cases) (use l in \<open>auto simp: logged_def durable_repr_def\<close>)
  qed
qed

text \<open>
  C40: the endpoint acknowledges what it stored, and only that.  Whatever the body, the clock, the
  store's failures and the sync do, there is a number \<open>k\<close> of lines such that the records of the first
  \<open>k\<close> lines, blank ones apart, each cut at the line limit, are exactly what the request added to the
  log, in order; and the answer is an honest account of it: it counts \<open>k\<close> lines, with 200 only when
  they are all the lines of a body that ended well, with 503 when the line after them was refused,
  with 400, 408 or 413 when the body broke off, and with 503 and a count of 0 when the log was not synced.
\<close>

theorem ingest_acknowledges:
  assumes "durable_repr d h" "a_recs (d_log d) = drop n h"
    and "Lines lib dc opts append_accepts rq stats d = ((status, out, stats'), d')"
    and "open_body dc opts (iq_encoding rq) (iq_body rq) = Inr b"
  shows "\<exists>k h'. reported (body_lines b) (snd b) (iq_sync rq) k status out \<and>
    a_recs (d_log d') = a_recs (d_log d) @ h' \<and> durable_repr d' (h @ h') \<and>
    stores_as h' (line_records lib rq (if iq_stream rq = '''' then ho_default opts else iq_stream rq) 0 (take k (body_lines b)))"
proof -
  let ?n = "min n (length h)"
  have "logged ?n d h" using assms(1,2) by (cases "n \<le> length h") (auto simp: logged_def)
  from active.Lines_stores [OF this assms(3,4)] show ?thesis
    using assms(2) by (fastforce simp: active.stored_def logged_def min_def)
qed

definition ex_ingest_lib :: norm_lib where
  "ex_ingest_lib = \<lparr>n_valid = (\<lambda>s. False), n_object = (\<lambda>s. None), n_unquote = Some, n_float = (\<lambda>s. None),
     n_float_text = (\<lambda>f. ''0''), n_float_time = (\<lambda>f. 0), n_time = (\<lambda>l s. None), n_lower = id, n_upper = id\<rparr>"

definition ex_decoders :: decoders where
  "ex_decoders = \<lparr>dc_gunzip = (\<lambda>b. Inl ''not gzip''), dc_unzstd = (\<lambda>b. Inl ''not zstd''), dc_lower = id, dc_quoted = id\<rparr>"

definition ex_ingest :: "store_io ingest_request" where
  "ex_ingest = \<lparr>iq_stream = ''web'', iq_encoding = '''', iq_host = ''::1'', iq_body = (''a'' @ [CHR 10] @ ''b'', EOF),
     iq_clock = (\<lambda>i. 5), iq_append = (\<lambda>i. demo_store_io), iq_append_error = (\<lambda>i. ''disk''), iq_sync = None\<rparr>"

abbreviation ex_answer :: "(nat \<times> ingest_result \<times> http_stats) \<times> durable" where
  "ex_answer \<equiv> Lines ex_ingest_lib ex_decoders (http_withDefaults \<lparr>ho_max_body = 0, ho_default = ''''\<rparr>) append_accepts
     ex_ingest \<lparr>hs_received = 0, hs_rejected = 0, hs_bytes = 0, hs_requests = 0\<rparr> (z_store demo_fresh)"

lemma ex_trim: "trim_space ''a'' = ''a''" "trim_space ''b'' = ''b''"
  by (rule trim_space_ascii; simp add: is_ascii_def is_space_def)+

lemma ex_ingest_open:
  "open_body ex_decoders (http_withDefaults \<lparr>ho_max_body = 0, ho_default = ''''\<rparr>) (iq_encoding ex_ingest) (iq_body ex_ingest) =
     Inr (''a'' @ [CHR 10] @ ''b'', EOF)"
  by (simp add: open_body_def ex_ingest_def ex_decoders_def http_withDefaults_def limited_def DefaultMaxBody_def
      ex_trim to_lower_def is_ascii_def Let_def)

lemma ex_ingest_lines: "body_lines (''a'' @ [CHR 10] @ ''b'', EOF) = [''a'', ''b'']"
  by (simp add: body_lines.simps line_of_def Let_def)

text \<open>A body of two lines on a store just opened: the answer counts what the log then holds.\<close>

theorem ingest_acknowledges_witness:
  "ir_accepted (fst (snd (fst ex_answer))) = length (a_recs (d_log (snd ex_answer)))"
proof -
  obtain status out stats' d' where run: "ex_answer = ((status, out, stats'), d')" by (metis prod.collapse)
  have "0 < o_backlog (withDefaults demo_opts)" by (simp add: withDefaults_def demo_opts_def)
  then have fresh: "durable_repr (z_store demo_fresh) []" "a_recs (d_log (z_store demo_fresh)) = drop 0 []"
    by (simp_all add: durable_repr_def demo_fresh_eq(1) empty_alog_def seq_sorted_def rings_hold_def)
  from ingest_acknowledges [OF fresh run ex_ingest_open] obtain k h' where
    k: "reported [''a'', ''b''] EOF None k status out" and log: "a_recs (d_log d') = h'"
    and as: "stores_as h' (line_records ex_ingest_lib ex_ingest ''web'' 0 (take k [''a'', ''b'']))"
    unfolding ex_ingest_lines fresh by (auto simp: ex_ingest_def)
  have "\<not> blank (stored_line ''a'')" "\<not> blank (stored_line ''b'')"
    by (simp_all add: blank_def stored_line_def maxLine_def ex_trim)
  then have "length (line_records ex_ingest_lib ex_ingest ''web'' 0 (take k [''a'', ''b''])) = min k 2"
    by (cases k; cases "k - 1") (auto simp: take_Cons')
  with as have "length h' = min k 2" unfolding stores_as_def by (metis length_map)
  with k log show ?thesis by (simp add: run reported_def)
qed

end
