(* ===== verification/Syslog.thy ===== *)
theory Syslog
  imports NormalizeInv IngestHttp
begin

text \<open>
  The syslog receiver, \<open>src/internal/ingest/syslog.go\<close>: reading a message in either format, and the two
  framings of a connection.  A message is the bytes that arrived; the parsers of time stamps, the
  local time zone and the clock are parameters.
\<close>

section \<open>Strings\<close>

text \<open>\<open>strings.Cut\<close> at one character, and at two.\<close>

definition str_cut :: "char \<Rightarrow> string \<Rightarrow> string \<times> string \<times> bool" where
  "str_cut c s =
     (let a = takeWhile (\<lambda>x. x \<noteq> c) s
      in if length a < length s then (a, drop (length a + 1) s, True) else (s, '''', False))"

fun str_cut2 :: "char \<Rightarrow> char \<Rightarrow> string \<Rightarrow> string \<times> string \<times> bool" where
  "str_cut2 c d [] = ('''', '''', False)"
| "str_cut2 c d (x # s) =
     (if x = c \<and> prefix [d] s then ('''', tl s, True)
      else (case str_cut2 c d s of (a, b, found) \<Rightarrow> (x # a, b, found)))"

definition trim_left :: "string \<Rightarrow> string" where "trim_left s = dropWhile (\<lambda>c. c = CHR '' '') s"

definition trim_frame :: "string \<Rightarrow> string" where
  "trim_frame s = rev (dropWhile (\<lambda>c. c = CHR 13 \<or> c = CHR 10 \<or> c = CHR 0x00) (rev s))"

lemma takeWhile_until:
  "c \<notin> set a \<Longrightarrow> takeWhile (\<lambda>x. x \<noteq> c) (a @ c # s) = a" "c \<notin> set a \<Longrightarrow> takeWhile (\<lambda>x. x \<noteq> c) a = a"
  by (induction a) auto

lemma str_cut_at: "c \<notin> set a \<Longrightarrow> str_cut c (a @ c # s) = (a, s, True)"
  by (simp add: str_cut_def Let_def takeWhile_until)

lemma str_cut_none: "c \<notin> set a \<Longrightarrow> str_cut c a = (a, '''', False)"
  by (simp add: str_cut_def Let_def takeWhile_until)

lemma trim_left_id: "s = '''' \<or> hd s \<noteq> CHR '' '' \<Longrightarrow> trim_left s = s"
  by (cases s) (auto simp: trim_left_def)

lemma length_trim_left: "length (trim_left s) \<le> length s"
  by (simp add: trim_left_def length_dropWhile_le)

section \<open>Priorities\<close>

definition severities :: "string list" where
  "severities = [''EMERGENCY'', ''ALERT'', ''CRITICAL'', ''ERROR'', ''WARN'', ''NOTICE'', ''INFO'', ''DEBUG'']"

definition facilities :: "string list" where
  "facilities = [''kern'', ''user'', ''mail'', ''daemon'', ''auth'', ''syslog'', ''lpr'', ''news'',
     ''uucp'', ''cron'', ''authpriv'', ''ftp'', ''ntp'', ''audit'', ''alert'', ''clock'',
     ''local0'', ''local1'', ''local2'', ''local3'', ''local4'', ''local5'', ''local6'', ''local7'']"

definition readPriority :: "string \<Rightarrow> (nat \<times> string) option" where
  "readPriority text' =
     (if \<not> prefix ''<'' text' then None
      else let at = length (takeWhile (\<lambda>c. c \<noteq> CHR ''>'') text')
        in if at = length text' \<or> at < 2 \<or> at > 4 then None
           else case parse_int 64 (take (at - 1) (drop 1 text')) of
             None \<Rightarrow> None
           | Some p \<Rightarrow> (if p < 0 \<or> p > 191 then None else Some (nat p, drop (at + 1) text')))"

section \<open>RFC 5424\<close>

record stamp_lib =
  sy_norm :: norm_lib
  sy_bsd_time :: "string \<Rightarrow> (nat \<times> nat \<times> nat \<times> nat \<times> nat) option"  \<comment> \<open>\<open>time.Stamp\<close>: month, day, hour, minute, second\<close>
  sy_year :: "int \<Rightarrow> int"                                     \<comment> \<open>the local year of an instant\<close>
  sy_date :: "int \<Rightarrow> nat \<times> nat \<times> nat \<times> nat \<times> nat \<Rightarrow> int"  \<comment> \<open>\<open>time.Date\<close> in the local zone\<close>
  sy_year_before :: "int \<Rightarrow> int"                              \<comment> \<open>\<open>AddDate(-1, 0, 0)\<close>\<close>

definition RFC3339Nano :: string where "RFC3339Nano = ''2006-01-02T15:04:05.999999999Z07:00''"

definition set_field :: "string \<Rightarrow> string \<Rightarrow> rec \<Rightarrow> rec" where
  "set_field key v r = r\<lparr>r_fields := AList.update key (StrV v) (r_fields r)\<rparr>"

text \<open>The header's fields: at most five, the text running out earlier leaves fewer.\<close>

fun cut_fields :: "nat \<Rightarrow> string \<Rightarrow> string list \<times> string" where
  "cut_fields 0 rest = ([], rest)"
| "cut_fields (Suc n) rest =
     (case str_cut CHR '' '' rest of
        (f, remainder, found) \<Rightarrow>
          (if found then (case cut_fields n remainder of (fs, r) \<Rightarrow> (f # fs, r)) else ([f], remainder)))"

text \<open>The bracket that closes an element, given what follows its opening one.\<close>

fun element_end :: "bool \<Rightarrow> string \<Rightarrow> nat option" where
  "element_end quoted [] = None"
| "element_end quoted (c # s) =
     (if c = CHR 92 then (case s of [] \<Rightarrow> None | _ # s' \<Rightarrow> map_option (\<lambda>n. n + 2) (element_end quoted s'))
      else if c = CHR 34 then map_option Suc (element_end (\<not> quoted) s)
      else if c = CHR '']'' \<and> \<not> quoted then Some 0
      else map_option Suc (element_end quoted s))"

definition findElementEnd :: "string \<Rightarrow> nat option" where
  "findElementEnd text' = map_option Suc (element_end False (drop 1 text'))"

function split_params :: "bool \<Rightarrow> string \<Rightarrow> string \<Rightarrow> string list" where
  "split_params quoted current [] = (if current = '''' then [] else [current])"
| "split_params quoted current (c # s) =
     (if c = CHR 92 \<and> s \<noteq> [] then split_params quoted (current @ [c, hd s]) (tl s)
      else if c = CHR 34 then split_params (\<not> quoted) (current @ [c]) s
      else if c = CHR '' '' \<and> \<not> quoted then (if current = '''' then [] else [current]) @ split_params quoted '''' s
      else split_params quoted (current @ [c]) s)"
  by pat_completeness auto
termination
  by (relation "measure (\<lambda>(_, _, s). length s)") auto

definition splitParams :: "string \<Rightarrow> string list" where
  "splitParams params = split_params False '''' params"

text \<open>One quote off each end, and \<open>strings.NewReplacer\<close> of the three escapes.\<close>

definition trim_quotes :: "string \<Rightarrow> string" where
  "trim_quotes v =
     (let a = (if prefix [CHR 34] v then tl v else v) in if suffix [CHR 34] a then butlast a else a)"

fun unescape :: "string \<Rightarrow> string" where
  "unescape (c # d # s) =
     (if c = CHR 92 \<and> (d = CHR 34 \<or> d = CHR 92 \<or> d = CHR '']'') then d # unescape s else c # unescape (d # s))"
| "unescape s = s"

definition set_param :: "string \<Rightarrow> rec \<Rightarrow> string \<Rightarrow> rec" where
  "set_param id' r pair =
     (case str_cut CHR ''='' pair of
        (key, v, found) \<Rightarrow> (if found then set_field (id' @ ''.'' @ key) (unescape (trim_quotes v)) r else r))"

definition parseElement :: "rec \<Rightarrow> string \<Rightarrow> rec" where
  "parseElement r element =
     (case str_cut CHR '' '' element of
        (id', params, _) \<Rightarrow> (if id' = '''' then r else foldl (set_param id') r (splitParams params)))"

function read_elements :: "rec \<Rightarrow> string \<Rightarrow> rec \<times> string" where
  "read_elements r rest =
     (if \<not> prefix ''['' rest then (r, rest)
      else case findElementEnd rest of
        None \<Rightarrow> (r, rest)
      | Some at \<Rightarrow> read_elements (parseElement r (drop 1 (take at rest))) (trim_left (drop (at + 1) rest)))"
  by pat_completeness auto
termination
proof (relation "measure (\<lambda>(_, rest). length rest)")
  fix r :: rec and rest at assume "\<not> \<not> prefix ''['' rest" "findElementEnd rest = Some at"
  then have "0 < length rest" by (cases rest) auto
  moreover have "length (trim_left (drop (at + 1) rest)) \<le> length rest - Suc at"
    using length_trim_left [of "drop (at + 1) rest"] by simp
  ultimately have "length (trim_left (drop (at + 1) rest)) < length rest" by linarith
  then show "((parseElement r (drop 1 (take at rest)), trim_left (drop (at + 1) rest)), r, rest)
      \<in> measure (\<lambda>(_, rest). length rest)" by simp
qed simp

declare read_elements.simps [simp del]

definition readStructuredData :: "rec \<Rightarrow> string \<Rightarrow> rec \<times> string" where
  "readStructuredData r rest0 =
     (let rest = trim_left rest0 in if prefix ''-'' rest then (r, drop 1 rest) else read_elements r rest)"

definition given :: "string \<Rightarrow> bool" where "given s \<longleftrightarrow> s \<noteq> ''-'' \<and> s \<noteq> ''''"

definition parse5424 :: "stamp_lib \<Rightarrow> int \<Rightarrow> rec \<Rightarrow> string \<Rightarrow> rec" where
  "parse5424 lib now r0 text' =
     (case cut_fields 5 text' of
        ([stamp, hostname, app, pid, msgid], rest) \<Rightarrow>
          (let r1 = (case n_time (sy_norm lib) RFC3339Nano stamp of
                 Some ts \<Rightarrow> (if Plausible now ts then r0\<lparr>r_ts := ts\<rparr> else r0)
               | None \<Rightarrow> r0);
               r2 = (if given hostname then set_field ''hostname'' hostname r1 else r1);
               r3 = (if given app then set_field ''app'' app (r2\<lparr>r_stream := app\<rparr>) else r2);
               r4 = (if given pid then set_field ''pid'' pid r3 else r3);
               r5 = (if given msgid then set_field ''msgid'' msgid r4 else r4)
           in case readStructuredData r5 rest of (r6, msg) \<Rightarrow> r6\<lparr>r_msg := trim_space msg\<rparr>)
      | (_, rest) \<Rightarrow> r0\<lparr>r_msg := trim_space rest\<rparr>)"

section \<open>RFC 3164\<close>

definition resolve3164 :: "stamp_lib \<Rightarrow> int \<Rightarrow> nat \<times> nat \<times> nat \<times> nat \<times> nat \<Rightarrow> int" where
  "resolve3164 lib now stamp =
     (let at = sy_date lib (sy_year lib now) stamp
      in if at - now > 25 * 3600 * 10 ^ 9 then sy_year_before lib at else at)"

text \<open>The stamp, in either form, and what follows it.\<close>

definition stamp3164 :: "stamp_lib \<Rightarrow> int \<Rightarrow> rec \<Rightarrow> string \<Rightarrow> rec \<times> string" where
  "stamp3164 lib now r rest =
     (case str_cut CHR '' '' rest of
        (stamp, remainder, _) \<Rightarrow>
          (case n_time (sy_norm lib) RFC3339Nano stamp of
             Some ts \<Rightarrow> ((if Plausible now ts then r\<lparr>r_ts := ts\<rparr> else r), trim_left remainder)
           | None \<Rightarrow>
               (if length rest > 15 then
                  (case sy_bsd_time lib (take 15 rest) of
                     Some at \<Rightarrow> (r\<lparr>r_ts := resolve3164 lib now at\<rparr>, trim_left (drop 15 rest))
                   | None \<Rightarrow> (r, rest))
                else (r, rest))))"

text \<open>The program and, in brackets, its process.\<close>

definition tag_parts :: "string \<Rightarrow> string \<times> string option" where
  "tag_parts tag =
     (let at = length (takeWhile (\<lambda>c. c \<noteq> CHR ''['') tag)
      in if 0 < at \<and> at < length tag \<and> suffix '']'' tag
         then (take at tag, Some (drop (at + 1) (butlast tag))) else (tag, None))"

definition parse3164 :: "stamp_lib \<Rightarrow> int \<Rightarrow> rec \<Rightarrow> string \<Rightarrow> rec" where
  "parse3164 lib now r0 text' =
     (case stamp3164 lib now r0 (trim_left text') of
        (r1, rest) \<Rightarrow>
          (case str_cut CHR '' '' rest of
             (hostname, remainder, found) \<Rightarrow>
               (if \<not> found then r1\<lparr>r_msg := rest\<rparr>
                else let r2 = set_field ''hostname'' hostname r1
                  in case str_cut2 CHR '':'' CHR '' '' remainder of
                       (tag0, msg, found) \<Rightarrow>
                         (if \<not> found then r2\<lparr>r_msg := remainder\<rparr>
                          else case tag_parts tag0 of
                            (tag, pid) \<Rightarrow>
                              (let r3 = (case pid of Some p \<Rightarrow> set_field ''pid'' p r2 | None \<Rightarrow> r2);
                                   r4 = (if tag = '''' then r3 else set_field ''app'' tag (r3\<lparr>r_stream := tag\<rparr>))
                               in r4\<lparr>r_msg := msg\<rparr>)))))"

section \<open>Either\<close>

definition received_line :: "int \<Rightarrow> string \<Rightarrow> string \<Rightarrow> string \<Rightarrow> rec" where
  "received_line now host strm text' =
     empty_rec\<lparr>r_stream := strm, r_host := host, r_ts := now, r_ingest_ts := now, r_raw := text', r_type := ''string'', r_msg := text'\<rparr>"

definition with_priority :: "nat \<Rightarrow> rec \<Rightarrow> rec" where
  "with_priority p r =
     (let level = severities ! (p mod 8);
          r1 = r\<lparr>r_level := level\<rparr>;
          r2 = (if p div 8 < length facilities then set_field ''facility'' (facilities ! (p div 8)) r1 else r1)
      in set_field ''severity'' level r2)"

definition parseSyslog :: "stamp_lib \<Rightarrow> int \<Rightarrow> string \<Rightarrow> string \<Rightarrow> string \<Rightarrow> rec option" where
  "parseSyslog lib now host defaultStream raw =
     (let text' = trim_frame raw
      in case readPriority text' of
           None \<Rightarrow> None
         | Some (p, rest) \<Rightarrow>
             (let r = with_priority p (received_line now host defaultStream text');
                  r' = (if prefix ''1 '' rest then parse5424 lib now r (drop 2 rest) else parse3164 lib now r rest)
              in Some (Sanitize (if r_msg r' = '''' then r'\<lparr>r_msg := text'\<rparr> else r'))))"

text \<open>A library for examples, in which no text is a time.\<close>

definition ex_stamp_lib :: stamp_lib where
  "ex_stamp_lib = \<lparr>sy_norm = \<lparr>n_valid = (\<lambda>s. False), n_object = (\<lambda>s. None), n_unquote = Some, n_float = (\<lambda>s. None),
     n_float_text = (\<lambda>f. ''0''), n_float_time = (\<lambda>f. 0), n_time = (\<lambda>l s. None), n_lower = id, n_upper = id\<rparr>,
     sy_bsd_time = (\<lambda>s. None), sy_year = (\<lambda>t. 2026), sy_date = (\<lambda>y s. 0), sy_year_before = (\<lambda>t. t)\<rparr>"

end
