(* ===== verification/SyslogRound.thy ===== *)
theory SyslogRound
  imports Syslog
begin

text \<open>
  An RFC 5424 message written out as the standard says comes back as the record it describes.
\<close>

section \<open>Messages as the standard writes them\<close>

record syslog_message =
  sm_priority :: nat
  sm_stamp :: string
  sm_host :: string
  sm_app :: string
  sm_pid :: string
  sm_msgid :: string
  sm_data :: "(string \<times> (string \<times> string) list) list"
  sm_text :: string

definition special :: "char \<Rightarrow> bool" where
  "special c \<longleftrightarrow> c = CHR 34 \<or> c = CHR 92 \<or> c = CHR '']''"

fun escape_param :: "string \<Rightarrow> string" where
  "escape_param [] = []"
| "escape_param (c # s) = (if special c then [CHR 92, c] else [c]) @ escape_param s"

definition param_text :: "string \<times> string \<Rightarrow> string" where
  "param_text kv = fst kv @ CHR ''='' # CHR 34 # escape_param (snd kv) @ [CHR 34]"

definition element_inner :: "string \<times> (string \<times> string) list \<Rightarrow> string" where
  "element_inner e = fst e @ concat (map (\<lambda>p. CHR '' '' # param_text p) (snd e))"

definition element_text :: "string \<times> (string \<times> string) list \<Rightarrow> string" where
  "element_text e = CHR ''['' # element_inner e @ '']''"

definition data_text :: "(string \<times> (string \<times> string) list) list \<Rightarrow> string" where
  "data_text es = (if es = [] then ''-'' else concat (map element_text es))"

definition message_text :: "syslog_message \<Rightarrow> string" where
  "message_text m =
     CHR ''<'' # show_nat (sm_priority m) @ CHR ''>'' # ''1 '' @ sm_stamp m @ CHR '' '' # sm_host m @ CHR '' '' # sm_app m
       @ CHR '' '' # sm_pid m @ CHR '' '' # sm_msgid m @ CHR '' '' # data_text (sm_data m)
       @ (if sm_text m = '''' then '''' else CHR '' '' # sm_text m)"

definition plain_name :: "string \<Rightarrow> bool" where
  "plain_name s \<longleftrightarrow> s \<noteq> '''' \<and> (\<forall>c\<in>set s. \<not> special c \<and> c \<noteq> CHR '' '' \<and> c \<noteq> CHR ''='')"

definition header_ok :: "string \<Rightarrow> bool" where "header_ok s \<longleftrightarrow> CHR '' '' \<notin> set s"

definition element_ok :: "string \<times> (string \<times> string) list \<Rightarrow> bool" where
  "element_ok e \<longleftrightarrow> plain_name (fst e) \<and> (\<forall>p\<in>set (snd e). plain_name (fst p))"

definition line_end :: "char \<Rightarrow> bool" where "line_end c \<longleftrightarrow> c = CHR 13 \<or> c = CHR 10 \<or> c = CHR 0x00"

text \<open>
  A text that opens with a bracket is told from an element only by the dash of a message without
  elements.
\<close>

definition message_ok :: "syslog_message \<Rightarrow> bool" where
  "message_ok m \<longleftrightarrow> sm_priority m \<le> 191 \<and> header_ok (sm_stamp m) \<and> header_ok (sm_host m) \<and> header_ok (sm_app m) \<and>
     header_ok (sm_pid m) \<and> header_ok (sm_msgid m) \<and> (\<forall>e\<in>set (sm_data m). element_ok e) \<and>
     (sm_data m = [] \<or> \<not> prefix ''['' (trim_left (sm_text m))) \<and> (sm_text m = '''' \<or> \<not> line_end (last (sm_text m)))"

section \<open>Escapes\<close>

lemma unescape_plain: "c \<noteq> CHR 92 \<Longrightarrow> unescape (c # s) = c # unescape s"
  by (cases s) auto

lemma unescape_escape: "unescape (escape_param v) = v"
  by (induction v) (auto simp: special_def unescape_plain)

lemma trim_quotes_quoted: "trim_quotes (CHR 34 # s @ [CHR 34]) = s"
  by (simp add: trim_quotes_def Let_def suffix_def)

lemma set_param_text:
  assumes "plain_name (fst kv)"
  shows "set_param id' r (param_text kv) = set_field (id' @ ''.'' @ fst kv) (snd kv) r"
proof -
  have "CHR ''='' \<notin> set (fst kv)" using assms by (auto simp: plain_name_def)
  then have "str_cut CHR ''='' (param_text kv) = (fst kv, CHR 34 # escape_param (snd kv) @ [CHR 34], True)"
    unfolding param_text_def by (rule str_cut_at)
  then show ?thesis by (simp only: set_param_def prod.case trim_quotes_quoted unescape_escape if_True)
qed

section \<open>Elements\<close>

definition shifted :: "nat \<Rightarrow> nat option \<Rightarrow> nat option" where "shifted n x = map_option (\<lambda>k. k + n) x"

lemma shifted_simps [simp]:
  "shifted 0 x = x" "shifted n (shifted m x) = shifted (m + n) x" "shifted n (Some k) = Some (k + n)"
  by (cases x; simp add: shifted_def)+

lemma element_end_Cons:
  "\<not> special c \<Longrightarrow> element_end q (c # s) = shifted 1 (element_end q s)"
  "element_end q (CHR 34 # s) = shifted 1 (element_end (\<not> q) s)"
  "element_end q (CHR 92 # c # s) = shifted 2 (element_end q s)"
  "element_end True (CHR '']'' # s) = shifted 1 (element_end True s)"
  "element_end False (CHR '']'' # s) = Some 0"
  by (simp_all add: special_def shifted_def)

lemma element_end_plain:
  "\<forall>c\<in>set n. \<not> special c \<Longrightarrow> element_end q (n @ s) = shifted (length n) (element_end q s)"
  by (induction n) (simp_all add: element_end_Cons del: element_end.simps)

lemma element_end_escape: "element_end True (escape_param v @ s) = shifted (length (escape_param v)) (element_end True s)"
  by (induction v) (simp_all add: element_end_Cons del: element_end.simps)

lemma element_end_param:
  assumes "plain_name (fst kv)"
  shows "element_end False (param_text kv @ s) = shifted (length (param_text kv)) (element_end False s)"
proof -
  have "\<not> special CHR ''=''" by (simp add: special_def)
  with assms show ?thesis
    by (simp add: param_text_def plain_name_def element_end_plain element_end_escape element_end_Cons ac_simps del: element_end.simps)
qed

abbreviation params_text :: "(string \<times> string) list \<Rightarrow> string" where
  "params_text ps \<equiv> concat (map (\<lambda>p. CHR '' '' # param_text p) ps)"

lemma element_end_params:
  assumes "\<forall>p\<in>set ps. plain_name (fst p)"
  shows "element_end False (params_text ps @ s) = shifted (length (params_text ps)) (element_end False s)"
proof -
  have "\<not> special CHR '' ''" by (simp add: special_def)
  with assms show ?thesis
    by (induction ps) (simp_all add: element_end_param element_end_Cons ac_simps del: element_end.simps)
qed

lemma findElementEnd_text:
  assumes "element_ok e"
  shows "findElementEnd (element_text e @ s) = Some (Suc (length (element_inner e)))"
proof -
  have "\<forall>c\<in>set (fst e). \<not> special c" "\<forall>p\<in>set (snd e). plain_name (fst p)"
    using assms by (auto simp: element_ok_def plain_name_def)
  then show ?thesis
    by (simp add: findElementEnd_def element_text_def element_inner_def element_end_plain element_end_params element_end_Cons
        del: element_end.simps)
qed

lemma split_params_plain:
  "\<forall>c\<in>set n. \<not> special c \<and> c \<noteq> CHR '' '' \<Longrightarrow> split_params False cur (n @ s) = split_params False (cur @ n) s"
  by (induction n arbitrary: cur) (auto simp: special_def)

lemma split_params_escape: "split_params True cur (escape_param v @ s) = split_params True (cur @ escape_param v) s"
  by (induction v arbitrary: cur) (auto simp: special_def)

lemma split_params_param: "plain_name (fst kv) \<Longrightarrow> split_params False cur (param_text kv @ s) = split_params False (cur @ param_text kv) s"
  by (simp add: param_text_def plain_name_def split_params_plain split_params_escape)

lemma split_params_all:
  "\<forall>p\<in>set (p # ps). plain_name (fst p) \<Longrightarrow> splitParams (param_text p @ params_text ps) = map param_text (p # ps)"
proof (induction ps arbitrary: p)
  case Nil
  then show ?case using split_params_param [of p "[]" "[]"] by (simp add: splitParams_def) (simp add: param_text_def)
next
  case (Cons q ps)
  have "param_text p \<noteq> ''''" by (simp add: param_text_def)
  with Cons.prems split_params_param [of p "[]" "CHR '' '' # param_text q @ params_text ps"] Cons.IH [of q]
  show ?case by (simp add: splitParams_def)
qed

section \<open>Fields\<close>

definition set_fields :: "(string \<times> string) list \<Rightarrow> rec \<Rightarrow> rec" where
  "set_fields fs r = foldl (\<lambda>r (k, v). set_field k v r) r fs"

definition element_fields :: "string \<times> (string \<times> string) list \<Rightarrow> (string \<times> string) list" where
  "element_fields e = map (\<lambda>(k, v). (fst e @ ''.'' @ k, v)) (snd e)"

lemma parseElement_inner:
  assumes "element_ok e"
  shows "parseElement r (element_inner e) = set_fields (element_fields e) r"
proof -
  obtain id' ps where e: "e = (id', ps)" by (cases e)
  have id': "id' \<noteq> ''''" "CHR '' '' \<notin> set id'" and ps: "\<forall>p\<in>set ps. plain_name (fst p)"
    using assms by (auto simp: e element_ok_def plain_name_def)
  have fold: "foldl (set_param id') r (map param_text ps) = set_fields (element_fields (id', ps)) r" for r
    using ps by (induction ps arbitrary: r) (auto simp: set_fields_def element_fields_def set_param_text)
  show ?thesis
  proof (cases ps)
    case Nil
    with id' show ?thesis
      by (simp add: e parseElement_def element_inner_def str_cut_none splitParams_def set_fields_def element_fields_def)
  next
    case (Cons p ps')
    have "str_cut CHR '' '' (element_inner e) = (id', param_text p @ concat (map (\<lambda>p. CHR '' '' # param_text p) ps'), True)"
      using str_cut_at [OF id'(2)] by (simp add: e Cons element_inner_def)
    with ps id' split_params_all [of p ps'] fold [of r] show ?thesis by (simp add: parseElement_def e Cons)
  qed
qed

lemma set_fields_append: "set_fields (fs @ gs) r = set_fields gs (set_fields fs r)"
  by (simp add: set_fields_def)

lemma elements_hd: "es \<noteq> [] \<Longrightarrow> trim_left (concat (map element_text es) @ s) = concat (map element_text es) @ s"
  by (cases es) (auto simp: element_text_def intro: trim_left_id)

lemma read_elements_text:
  assumes "\<forall>e\<in>set es. element_ok e" "es \<noteq> []"
  shows "read_elements r (concat (map element_text es) @ s) =
    read_elements (set_fields (concat (map element_fields es)) r) (trim_left s)"
  using assms
proof (induction es arbitrary: r)
  case (Cons e es)
  let ?rest = "concat (map element_text es) @ s"
  have ok: "element_ok e" using Cons.prems(1) by simp
  have step: "read_elements r (element_text e @ ?rest) = read_elements (set_fields (element_fields e) r) (trim_left ?rest)"
    unfolding read_elements.simps [of r "element_text e @ ?rest"] findElementEnd_text [OF ok]
    by (simp add: element_text_def parseElement_inner [OF ok])
  show ?case
  proof (cases "es = []")
    case False
    then show ?thesis using step Cons.IH [OF _ False] Cons.prems(1) by (simp add: elements_hd set_fields_append)
  qed (use step in simp)
qed simp

lemma readStructuredData_elements:
  assumes "\<forall>e\<in>set es. element_ok e" "es \<noteq> []"
  shows "readStructuredData r (data_text es @ s) =
    read_elements (set_fields (concat (map element_fields es)) r) (trim_left s)"
proof -
  obtain e es' where es: "es = e # es'" using assms(2) by (cases es) auto
  have "\<not> prefix ''-'' (concat (map element_text es) @ s)" by (simp add: es element_text_def)
  with assms show ?thesis by (simp add: readStructuredData_def data_text_def elements_hd read_elements_text Let_def)
qed

lemma readStructuredData_text:
  assumes "\<forall>e\<in>set es. element_ok e" "es = [] \<or> \<not> prefix ''['' (trim_left s)"
  shows "readStructuredData r (data_text es @ s) =
    (set_fields (concat (map element_fields es)) r, if es = [] then s else trim_left s)"
proof (cases "es = []")
  case True
  then show ?thesis by (simp add: readStructuredData_def data_text_def trim_left_id set_fields_def Let_def)
next
  case False
  with assms show ?thesis by (simp add: readStructuredData_elements read_elements.simps [of _ "trim_left s"])
qed

text \<open>
  Without that: where there are elements, a text that opens with something in brackets loses it.  It
  is read as one more element, though the standard has the elements end at the space.
\<close>

lemma bracketed_text_lost:
  assumes "\<forall>e\<in>set es. element_ok e" "es \<noteq> []" "element_ok e"
  shows "readStructuredData r (data_text es @ CHR '' '' # element_text e @ s) = readStructuredData r (data_text (es @ [e]) @ s)"
proof -
  have "trim_left (CHR '' '' # element_text e @ s) = concat (map element_text [e]) @ s"
    by (simp add: trim_left_def element_text_def)
  with assms show ?thesis
    by (simp add: readStructuredData_elements read_elements_text [of "[e]", simplified] set_fields_append)
qed

section \<open>The header\<close>

lemma length_show_nat: "n < 1000 \<Longrightarrow> length (show_nat n) \<le> 3"
  by (subst show_nat.simps, subst show_nat.simps, subst show_nat.simps) auto

lemma readPriority_text:
  assumes "p \<le> 191"
  shows "readPriority (CHR ''<'' # show_nat p @ CHR ''>'' # s) = Some (p, s)"
proof -
  let ?head = "CHR ''<'' # show_nat p"
  have digits: "CHR ''>'' \<notin> set (show_nat p)" using show_nat_digits [of p] by (auto simp: list_all_iff is_digit_def)
  then have "takeWhile (\<lambda>c. c \<noteq> CHR ''>'') (?head @ CHR ''>'' # s) = ?head" by (intro takeWhile_until) simp
  moreover have "1 \<le> length (show_nat p)" "length (show_nat p) \<le> 3"
    using length_show_nat [of p] assms by (auto simp: Suc_le_eq)
  moreover have "parse_int 64 (show_nat p) = Some (int p)" using parse_int_show [of 64 "int p"] assms by (simp add: show_int_def)
  ultimately show ?thesis using assms by (simp add: readPriority_def Let_def)
qed

lemma cut_fields_step: "header_ok a \<Longrightarrow>
  cut_fields (Suc n) (a @ CHR '' '' # s) = (case cut_fields n s of (fs, r) \<Rightarrow> (a # fs, r))"
  by (simp add: header_ok_def str_cut_at)

lemma trim_frame_text:
  assumes "\<forall>c\<in>set e. line_end c" "s \<noteq> ''''" "\<not> line_end (last s)"
  shows "trim_frame (s @ e) = s"
proof -
  have "dropWhile line_end (rev e @ rev s) = dropWhile line_end (rev s)" using assms(1) by (intro dropWhile_append2) simp
  also have "\<dots> = rev s" using assms(2,3) by (cases s rule: rev_cases) auto
  finally show ?thesis by (simp add: trim_frame_def line_end_def [abs_def])
qed

lemma trim_space_space: "trim_space (CHR '' '' # s) = trim_space s"
proof -
  have "decode_runes (bytes_of (CHR '' '' # s)) = (32, [32]) # decode_runes (bytes_of s)"
    by (simp add: bytes_of_def decode_runes_not_Nil decode_rune.simps)
  then show ?thesis by (simp add: trim_space_def is_space_def)
qed

lemma trim_space_left: "trim_space (trim_left s) = trim_space s"
  by (induction s) (auto simp: trim_left_def trim_space_space)

section \<open>The record a message describes\<close>

text \<open>The fields, in the order they are set; where a name comes twice the later one is kept.\<close>

definition message_fields :: "syslog_message \<Rightarrow> (string \<times> string) list" where
  "message_fields m =
     [(''facility'', facilities ! (sm_priority m div 8)), (''severity'', severities ! (sm_priority m mod 8))]
     @ filter (\<lambda>f. given (snd f)) [(''hostname'', sm_host m), (''app'', sm_app m), (''pid'', sm_pid m), (''msgid'', sm_msgid m)]
     @ concat (map element_fields (sm_data m))"

definition message_time :: "stamp_lib \<Rightarrow> int \<Rightarrow> syslog_message \<Rightarrow> int" where
  "message_time lib now m =
     (case n_time (sy_norm lib) RFC3339Nano (sm_stamp m) of
        Some ts \<Rightarrow> (if Plausible now ts then ts else now) | None \<Rightarrow> now)"

definition described :: "stamp_lib \<Rightarrow> int \<Rightarrow> string \<Rightarrow> string \<Rightarrow> syslog_message \<Rightarrow> rec" where
  "described lib now host strm m =
     set_fields (message_fields m)
       ((received_line now host (if given (sm_app m) then sm_app m else strm) (message_text m))
         \<lparr>r_ts := message_time lib now m, r_level := severities ! (sm_priority m mod 8),
          r_msg := (if trim_space (sm_text m) = '''' then message_text m else trim_space (sm_text m))\<rparr>)"

definition put_all :: "(string \<times> string) list \<Rightarrow> (string \<times> fvalue) list \<Rightarrow> (string \<times> fvalue) list" where
  "put_all fs f = foldl (\<lambda>f (k, v). AList.update k (StrV v) f) f fs"

lemma set_fields_eq: "set_fields fs r = r\<lparr>r_fields := put_all fs (r_fields r)\<rparr>"
  by (induction fs arbitrary: r) (auto simp: set_fields_def put_all_def set_field_def)

lemma put_all_append: "put_all (fs @ gs) f = put_all gs (put_all fs f)"
  by (simp add: put_all_def)

lemma put_all_simps: "put_all [] f = f" "put_all ((k, v) # fs) f = put_all fs (AList.update k (StrV v) f)"
  by (simp_all add: put_all_def)

lemma map_of_put_all: "map_of (put_all fs f) = map_of f ++ (map_option StrV \<circ> map_of (rev fs))"
proof (induction fs rule: rev_induct)
  case Nil
  then show ?case by (simp add: put_all_def fun_eq_iff map_add_def)
next
  case (snoc x xs)
  obtain k v where x: "x = (k, v)" by (cases x)
  have "map_of (put_all (xs @ [x]) f) = (map_of (put_all xs f))(k \<mapsto> StrV v)"
    by (simp add: put_all_def x update_conv')
  with snoc show ?case by (simp add: x fun_eq_iff map_add_def)
qed

lemma message_end:
  assumes "message_ok m"
  shows "\<not> line_end (last (message_text m))"
proof (cases "sm_text m = ''''")
  case True
  have "last (data_text es) = CHR ''-'' \<or> last (data_text es) = CHR '']''" "data_text es \<noteq> ''''" for es
    by (cases es rule: rev_cases; simp add: data_text_def element_text_def)+
  from this [of "sm_data m"] True have "last (message_text m) = CHR ''-'' \<or> last (message_text m) = CHR '']''"
    by (simp add: message_text_def)
  then show ?thesis by (auto simp: line_end_def)
next
  case False
  with assms show ?thesis by (simp add: message_text_def message_ok_def)
qed

lemma parse5424_text:
  assumes "message_ok m"
  shows "parse5424 lib now r (sm_stamp m @ CHR '' '' # sm_host m @ CHR '' '' # sm_app m
       @ CHR '' '' # sm_pid m @ CHR '' '' # sm_msgid m @ CHR '' '' # data_text (sm_data m)
       @ (if sm_text m = '''' then '''' else CHR '' '' # sm_text m)) =
    (set_fields (drop 2 (message_fields m)) r)
      \<lparr>r_ts := (case n_time (sy_norm lib) RFC3339Nano (sm_stamp m) of
          Some ts \<Rightarrow> (if Plausible now ts then ts else r_ts r) | None \<Rightarrow> r_ts r),
       r_stream := (if given (sm_app m) then sm_app m else r_stream r), r_msg := trim_space (sm_text m)\<rparr>"
proof -
  let ?tail = "if sm_text m = '''' then '''' else CHR '' '' # sm_text m"
  have h: "header_ok (sm_stamp m)" "header_ok (sm_host m)" "header_ok (sm_app m)" "header_ok (sm_pid m)" "header_ok (sm_msgid m)"
    and d: "\<forall>e\<in>set (sm_data m). element_ok e" "sm_data m = [] \<or> \<not> prefix ''['' (trim_left ?tail)"
    using assms by (auto simp: message_ok_def trim_left_def)
  have five: "(5::nat) = Suc (Suc (Suc (Suc (Suc 0))))" by simp
  have head: "cut_fields 5 (sm_stamp m @ CHR '' '' # sm_host m @ CHR '' '' # sm_app m
       @ CHR '' '' # sm_pid m @ CHR '' '' # sm_msgid m @ CHR '' '' # data_text (sm_data m) @ ?tail) =
      ([sm_stamp m, sm_host m, sm_app m, sm_pid m, sm_msgid m], data_text (sm_data m) @ ?tail)"
    unfolding five cut_fields_step [OF h(1)] cut_fields_step [OF h(2)] cut_fields_step [OF h(3)]
      cut_fields_step [OF h(4)] cut_fields_step [OF h(5)] by simp
  have text': "trim_space (if sm_data m = [] then ?tail else trim_left ?tail) = trim_space (sm_text m)"
    by (simp add: trim_space_space trim_space_left)
  show ?thesis
    unfolding parse5424_def head
    by (cases r) (simp add: readStructuredData_text [OF d] text' message_fields_def set_field_def set_fields_eq put_all_append
        put_all_simps split: option.split)
qed



definition ex_message :: syslog_message where
  "ex_message = \<lparr>sm_priority = 165, sm_stamp = ''-'', sm_host = ''db1'', sm_app = ''cron'', sm_pid = ''-'', sm_msgid = ''-'',
     sm_data = [(''job'', [(''cmd'', ''say '' @ [CHR 34] @ ''a]'' @ [CHR 34]), (''run'', ''7'')])], sm_text = ''up''\<rparr>"

lemma ex_message_ok: "message_ok ex_message"
  by (simp add: message_ok_def ex_message_def header_ok_def element_ok_def plain_name_def special_def line_end_def trim_left_def)


end
