(* ===== verification/SyslogConn.thy ===== *)
theory SyslogConn
  imports Syslog
begin

text \<open>
  The transports of the syslog receiver, \<open>src/internal/ingest/syslog.go\<close>: datagrams, and connections
  that carry messages counted or ended by a newline.  A connection is the bytes that arrive and how
  they end, be it the peer, the idle deadline or the shutdown.
\<close>

section \<open>A message\<close>

definition maxOctetDigits :: nat where "maxOctetDigits = 10"
definition maxDatagram :: nat where "maxDatagram = 65507"

record 'st syslog_state =
  ss_store :: 'st
  ss_received :: nat
  ss_invalid :: nat
  ss_bytes :: nat

text \<open>The receiver's parameters, the clock and the store's outcome for the message with each number.\<close>

record 'io syslog_source =
  sc_host :: string
  sc_default :: string
  sc_clock :: "nat \<Rightarrow> int"
  sc_append :: "nat \<Rightarrow> 'io"

type_synonym ('io, 'st) appender = "'io \<Rightarrow> rec \<Rightarrow> 'st \<Rightarrow> bool \<times> 'st"

definition handle ::
  "stamp_lib \<Rightarrow> ('io, 'st) appender \<Rightarrow> 'io syslog_source \<Rightarrow> nat \<Rightarrow> string \<Rightarrow> 'st syslog_state \<Rightarrow> 'st syslog_state"
where
  "handle lib put c i raw s =
     (case parseSyslog lib (sc_clock c i) (sc_host c) (sc_default c) raw of
        None \<Rightarrow> s\<lparr>ss_invalid := ss_invalid s + 1\<rparr>
      | Some r \<Rightarrow> s\<lparr>ss_received := ss_received s + 1, ss_store := snd (put (sc_append c i) r (ss_store s))\<rparr>)"

definition add_bytes :: "nat \<Rightarrow> 'st syslog_state \<Rightarrow> 'st syslog_state" where
  "add_bytes n s = s\<lparr>ss_bytes := ss_bytes s + n\<rparr>"

section \<open>Datagrams\<close>

fun serveUDP ::
  "stamp_lib \<Rightarrow> ('io, 'st) appender \<Rightarrow> 'io syslog_source \<Rightarrow> nat \<Rightarrow> (string \<times> string) list \<Rightarrow> 'st syslog_state \<Rightarrow> 'st syslog_state"
where
  "serveUDP lib put c i [] s = s"
| "serveUDP lib put c i ((peer, packet) # ps) s =
     (let raw = take maxDatagram packet
      in serveUDP lib put c (Suc i) ps (handle lib put (c\<lparr>sc_host := peer\<rparr>) i raw (add_bytes (length raw) s)))"

section \<open>Octet counts\<close>

datatype count_end = Counted nat | CountStops | CountBad

fun read_count :: "nat \<Rightarrow> nat \<Rightarrow> string \<Rightarrow> count_end \<times> string" where
  "read_count digits n [] = (CountStops, [])"
| "read_count digits n (c # s) =
     (if c = CHR '' '' \<and> digits \<noteq> 0 then (Counted n, s)
      else if \<not> is_digit c \<or> digits = maxOctetDigits then (CountBad, s)
      else read_count (Suc digits) (10 * n + digit_val c) s)"

text \<open>One counted message: whether the connection goes on, and what is left of it.\<close>

definition readCounted ::
  "stamp_lib \<Rightarrow> ('io, 'st) appender \<Rightarrow> 'io syslog_source \<Rightarrow> nat \<Rightarrow> body \<Rightarrow> 'st syslog_state \<Rightarrow> bool \<times> body \<times> 'st syslog_state"
where
  "readCounted lib put c i b s =
     (case read_count 0 0 (fst b) of
        (CountStops, rest) \<Rightarrow> (False, (rest, snd b), s)
      | (CountBad, rest) \<Rightarrow> (False, (rest, snd b), s\<lparr>ss_invalid := ss_invalid s + 1\<rparr>)
      | (Counted n, rest) \<Rightarrow>
          (if n = 0 then (False, (rest, snd b), s\<lparr>ss_invalid := ss_invalid s + 1\<rparr>)
           else if length rest < min n maxLine then (False, ([], snd b), s)
           else let s' = handle lib put c i (take (min n maxLine) rest) (add_bytes (min n maxLine) s)
             in (\<not> (n > maxLine \<and> length rest < n), (drop n rest, snd b), s')))"

lemma read_count_shorter: "read_count digits n s = (Counted m, rest) \<Longrightarrow> length rest < length s"
  by (induction digits n s rule: read_count.induct) (fastforce split: if_splits)+

lemma readCounted_shorter: "readCounted lib put c i b s = (True, b', s') \<Longrightarrow> length (fst b') < length (fst b)"
  by (auto simp: readCounted_def Let_def dest!: read_count_shorter split: prod.splits count_end.splits if_splits)

section \<open>Connections\<close>

function serveConn ::
  "stamp_lib \<Rightarrow> ('io, 'st) appender \<Rightarrow> 'io syslog_source \<Rightarrow> nat \<Rightarrow> body \<Rightarrow> 'st syslog_state \<Rightarrow> 'st syslog_state"
where
  "serveConn lib put c i b s =
     (if fst b = '''' then s
      else if is_digit (hd (fst b)) then
        (case readCounted lib put c i b s of
           (True, b', s') \<Rightarrow> serveConn lib put c (Suc i) b' s'
         | (False, b', s') \<Rightarrow> s')
      else
        (case readLine b of
           (line, was_cut, err, b') \<Rightarrow>
             (let s' = (if line = '''' then s else handle lib put c i line (add_bytes (length line) s))
              in if err \<noteq> None then s' else serveConn lib put c (Suc i) b' s')))"
  by pat_completeness auto
termination
  by (relation "measure (\<lambda>(lib, put, c, i, b, s). length (fst b))")
    (auto dest: readCounted_shorter [OF sym] readLine_shorter [OF sym])

declare serveConn.simps [simp del]

section \<open>Frames\<close>

text \<open>A message as a sender puts it on a connection, in either framing.\<close>

datatype syslog_frame = Octets string | Line string

fun frame_text :: "syslog_frame \<Rightarrow> string" where
  "frame_text (Octets m) = show_nat (length m) @ CHR '' '' # m"
| "frame_text (Line m) = m @ [CHR 10]"

fun frame_message :: "syslog_frame \<Rightarrow> string" where
  "frame_message (Octets m) = take maxLine m"
| "frame_message (Line m) = take maxLine m"

fun frame_ok :: "syslog_frame \<Rightarrow> bool" where
  "frame_ok (Octets m) \<longleftrightarrow> m \<noteq> '''' \<and> length m < 10 ^ 10"
| "frame_ok (Line m) \<longleftrightarrow> CHR 10 \<notin> set m \<and> (m = '''' \<or> \<not> is_digit (hd m))"

text \<open>The messages with their numbers; an empty line is none.\<close>

fun numbered_frames :: "nat \<Rightarrow> syslog_frame list \<Rightarrow> (nat \<times> string) list" where
  "numbered_frames i [] = []"
| "numbered_frames i (f # fs) = (if frame_message f = '''' then [] else [(i, frame_message f)]) @ numbered_frames (Suc i) fs"

definition handle_message ::
  "stamp_lib \<Rightarrow> ('io, 'st) appender \<Rightarrow> 'io syslog_source \<Rightarrow> 'st syslog_state \<Rightarrow> nat \<times> string \<Rightarrow> 'st syslog_state"
where
  "handle_message lib put c s im = handle lib put c (fst im) (snd im) (add_bytes (length (snd im)) s)"

lemma read_count_digits:
  "list_all is_digit ds \<Longrightarrow> digits + length ds \<le> maxOctetDigits \<Longrightarrow> 0 < digits + length ds \<Longrightarrow>
    read_count digits n (ds @ CHR '' '' # s) = (Counted (foldl (\<lambda>n c. 10 * n + digit_val c) n ds), s)"
proof (induction ds arbitrary: digits n)
  case (Cons d ds)
  have "d \<noteq> CHR '' ''" using Cons.prems(1) by (auto simp: is_digit_def)
  with Cons show ?case by simp
qed simp

lemma length_show_nat_bound: "n < 10 ^ k \<Longrightarrow> 0 < k \<Longrightarrow> length (show_nat n) \<le> k"
proof (induction k arbitrary: n)
  case (Suc k)
  show ?case
  proof (cases "n < 10")
    case True
    then show ?thesis by (subst show_nat.simps) simp
  next
    case False
    with Suc.prems have "0 < k" by (cases k) auto
    moreover have "n div 10 < 10 ^ k" using Suc.prems(1) by (simp add: less_mult_imp_div_less mult.commute)
    ultimately have "length (show_nat (n div 10)) \<le> k" using Suc.IH by blast
    with False show ?thesis by (subst show_nat.simps) simp
  qed
qed simp

lemma read_count_text: "n < 10 ^ 10 \<Longrightarrow> read_count 0 0 (show_nat n @ CHR '' '' # s) = (Counted n, s)"
  using read_count_digits [of "show_nat n" 0 0 s] length_show_nat_bound [of n 10] nat_of_show_nat [of n] show_nat_digits [of n]
  by (simp add: maxOctetDigits_def nat_of_digits_def)

lemma serveConn_frame:
  assumes "frame_ok f"
  shows "serveConn lib put c i (frame_text f @ s, e) st =
    serveConn lib put c (Suc i) (s, e)
      (if frame_message f = '''' then st else handle_message lib put c st (i, frame_message f))"
proof (cases f)
  case (Octets m)
  have m: "m \<noteq> ''''" "length m < 10 ^ 10" using assms by (simp_all add: Octets)
  have "frame_message f \<noteq> ''''" using m(1) by (simp add: Octets maxLine_def)
  moreover have "is_digit (hd (frame_text f @ s))" using hd_show_nat [of "length m"] by (simp add: Octets)
  moreover have "readCounted lib put c i (frame_text f @ s, e) st =
      (True, (s, e), handle_message lib put c st (i, frame_message f))"
    using read_count_text [OF m(2), of "m @ s"] m(1)
    by (simp add: readCounted_def Octets handle_message_def min_def Let_def)
  ultimately show ?thesis by (simp add: serveConn.simps [of lib put c i "(show_nat (length m) @ CHR '' '' # m @ s, e)"] Octets maxLine_def)
next
  case (Line m)
  have m: "CHR 10 \<notin> set m" "m = '''' \<or> \<not> is_digit (hd m)" using assms by (simp_all add: Line)
  have "takeWhile (\<lambda>x. x \<noteq> CHR 10) (m @ CHR 10 # s) = m" using m(1) by (rule takeWhile_until(1))
  then have "readLine (frame_text f @ s, e) = (take maxLine m, length m > maxLine, None, (s, e))"
    by (simp add: readLine_eq line_of_def Line Let_def)
  moreover have "\<not> is_digit (hd (frame_text f @ s))" using m(2) by (cases m) (auto simp: Line is_digit_def)
  ultimately show ?thesis
    by (simp add: serveConn.simps [of lib put c i "(m @ CHR 10 # s, e)"] Line handle_message_def maxLine_def)
qed

lemma serveConn_frames:
  "\<forall>f\<in>set fs. frame_ok f \<Longrightarrow>
    serveConn lib put c i (concat (map frame_text fs), e) st = foldl (handle_message lib put c) st (numbered_frames i fs)"
proof (induction fs arbitrary: i st)
  case Nil
  then show ?case by (simp add: serveConn.simps [of lib put c i "([], e)"])
next
  case (Cons f fs)
  then show ?case by (simp add: serveConn_frame)
qed

section \<open>What a connection delivers\<close>

text \<open>The appends that messages come to, and the messages that are not syslog.\<close>

definition parsed_as :: "stamp_lib \<Rightarrow> 'io syslog_source \<Rightarrow> nat \<times> string \<Rightarrow> rec option" where
  "parsed_as lib c im = parseSyslog lib (sc_clock c (fst im)) (sc_host c) (sc_default c) (snd im)"

definition appends :: "stamp_lib \<Rightarrow> 'io syslog_source \<Rightarrow> (nat \<times> string) list \<Rightarrow> ('io \<times> rec) list" where
  "appends lib c ms = List.map_filter (\<lambda>im. map_option (Pair (sc_append c (fst im))) (parsed_as lib c im)) ms"

definition put_each :: "('io, 'st) appender \<Rightarrow> ('io \<times> rec) list \<Rightarrow> 'st \<Rightarrow> 'st" where
  "put_each put rs st = foldl (\<lambda>st (io, r). snd (put io r st)) st rs"

lemma handle_messages:
  "foldl (handle_message lib put c) s ms =
    s\<lparr>ss_store := put_each put (appends lib c ms) (ss_store s),
      ss_received := ss_received s + length (appends lib c ms),
      ss_invalid := ss_invalid s + length (filter (\<lambda>im. parsed_as lib c im = None) ms),
      ss_bytes := ss_bytes s + sum_list (map (length \<circ> snd) ms)\<rparr>"
proof (induction ms arbitrary: s)
  case Nil
  then show ?case by (simp add: put_each_def appends_def map_filter_simps)
next
  case (Cons im ms)
  then show ?case
    by (cases "parsed_as lib c im")
      (simp_all add: handle_message_def handle_def add_bytes_def parsed_as_def put_each_def appends_def map_filter_simps)
qed

text \<open>
  C23: a connection delivers every message a sender framed, in either framing, mixed as it likes:
  the store is handed the records of exactly those messages, in order, each message cut at the
  line limit, the counters say how many were syslog, how many were not and how many bytes they had,
  and what a refused append does stays with its message.
\<close>

theorem connection_delivers:
  assumes "\<forall>f\<in>set fs. frame_ok f"
  shows "serveConn lib put c i (concat (map frame_text fs), e) s =
    s\<lparr>ss_store := put_each put (appends lib c (numbered_frames i fs)) (ss_store s),
      ss_received := ss_received s + length (appends lib c (numbered_frames i fs)),
      ss_invalid := ss_invalid s + length (filter (\<lambda>im. parsed_as lib c im = None) (numbered_frames i fs)),
      ss_bytes := ss_bytes s + sum_list (map (length \<circ> snd) (numbered_frames i fs))\<rparr>"
  unfolding serveConn_frames [OF assms] by (rule handle_messages)

definition ex_frames :: "syslog_frame list" where
  "ex_frames = [Octets (''<13>up'' @ [CHR 10]), Line ''no syslog'', Line '''', Octets ''12'']"

definition ex_source :: "unit syslog_source" where
  "ex_source = \<lparr>sc_host = ''::1'', sc_default = ''syslog'', sc_clock = (\<lambda>i. 5), sc_append = (\<lambda>i. ())\<rparr>"

lemma parseSyslog_None: "parseSyslog lib now host strm raw = None \<longleftrightarrow> readPriority (trim_frame raw) = None"
  by (simp add: parseSyslog_def Let_def split: option.split)

text \<open>A store that counts its records: one message of three is syslog, and the empty line is none.\<close>

theorem connection_delivers_witness:
  "serveConn ex_stamp_lib (\<lambda>io r n. (True, n + 1)) ex_source 0 (concat (map frame_text ex_frames), EOF)
     \<lparr>ss_store = 0, ss_received = 0, ss_invalid = 0, ss_bytes = 0\<rparr> =
   \<lparr>ss_store = (1::nat), ss_received = 1, ss_invalid = 2, ss_bytes = 18\<rparr>"
proof -
  have ok: "\<forall>f\<in>set ex_frames. frame_ok f" by (simp add: ex_frames_def is_digit_def)
  have ms: "numbered_frames 0 ex_frames = [(0, ''<13>up'' @ [CHR 10]), (1, ''no syslog''), (3, ''12'')]"
    by (simp add: ex_frames_def maxLine_def)
  have "readPriority (trim_frame (''<13>up'' @ [CHR 10])) \<noteq> None"
    by (simp add: readPriority_def trim_frame_def parse_int_def is_digit_def nat_of_digits_def digit_val_def)
  then obtain r where p0: "parsed_as ex_stamp_lib ex_source (0, ''<13>up'' @ [CHR 10]) = Some r"
    unfolding parsed_as_def fst_conv snd_conv using parseSyslog_None by (metis not_None_eq)
  have p1: "parsed_as ex_stamp_lib ex_source (1, ''no syslog'') = None" "parsed_as ex_stamp_lib ex_source (3, ''12'') = None"
    by (simp_all add: parsed_as_def parseSyslog_None readPriority_def trim_frame_def)
  have one: "appends ex_stamp_lib ex_source (numbered_frames 0 ex_frames) = [((), r)]"
    unfolding ms using p0 p1 by (simp add: appends_def map_filter_simps ex_source_def)
  have two: "length (filter (\<lambda>im. parsed_as ex_stamp_lib ex_source im = None) (numbered_frames 0 ex_frames)) = 2"
    unfolding ms using p0 p1 by simp
  have bytes: "sum_list (map (length \<circ> snd) (numbered_frames 0 ex_frames)) = 18" unfolding ms by simp
  show ?thesis unfolding connection_delivers [OF ok] one two bytes by (simp add: put_each_def)
qed

end
