(* ===== verification/Otlp.thy ===== *)
theory Otlp
  imports Normalize IngestHttp
begin

text \<open>
  The OpenTelemetry endpoint, \<open>src/internal/ingest/otlp.go\<close>: from the attributes, resources and entries
  of a decoded request to records, and what is stored and answered.  The two decoders of a body are
  parameters, as is the text of a JSON string and of a float; the records made here have no float that
  is not finite, so rendering them as JSON never fails.
\<close>

section \<open>Severities and values\<close>

record otlp_lib =
  ol_norm :: norm_lib
  ol_json_float :: "float64 \<Rightarrow> string"
  ol_json_string :: "string \<Rightarrow> string"

definition severityName :: "otlp_lib \<Rightarrow> int \<Rightarrow> string \<Rightarrow> string" where
  "severityName lib n text' =
     (if 1 \<le> n \<and> n \<le> 4 then ''TRACE''
      else if 5 \<le> n \<and> n \<le> 8 then ''DEBUG''
      else if 9 \<le> n \<and> n \<le> 12 then ''INFO''
      else if 13 \<le> n \<and> n \<le> 16 then ''WARN''
      else if 17 \<le> n \<and> n \<le> 20 then ''ERROR''
      else if 21 \<le> n \<and> n \<le> 24 then ''FATAL''
      else Level (n_lower (ol_norm lib)) (n_upper (ol_norm lib)) text')"

datatype any_value = Unset | AString string | ABool bool | AInt int | ADouble float64 | ABytes string
  | AArray "any_value list" | AKvlist "(string \<times> any_value) list"

definition hex_bytes :: "string \<Rightarrow> string" where
  "hex_bytes raw = concat (map (\<lambda>c. [hex_digit (of_char c div 16), hex_digit (of_char c mod 16)]) raw)"

definition json_array :: "string list \<Rightarrow> string" where
  "json_array items = ''['' @ concat (case items of [] \<Rightarrow> [] | i # is \<Rightarrow> i # map (\<lambda>j. '','' @ j) is) @ '']''"

text \<open>A map is written with its keys in order.\<close>

definition json_members :: "(string \<Rightarrow> string) \<Rightarrow> (string \<times> string) list \<Rightarrow> string list" where
  "json_members json_string kvs = map (\<lambda>k. json_string k @ '':'' @ the (map_of kvs k)) (sort (remdups (map fst kvs)))"

definition json_object :: "(string \<Rightarrow> string) \<Rightarrow> (string \<times> string) list \<Rightarrow> string" where
  "json_object json_string kvs =
     ''{'' @ concat (case json_members json_string kvs of [] \<Rightarrow> [] | i # is \<Rightarrow> i # map (\<lambda>j. '','' @ j) is) @ ''}''"

definition of_value :: "otlp_lib \<Rightarrow> fvalue \<Rightarrow> string" where
  "of_value lib = value_json (ol_json_float lib) (ol_json_string lib)"

definition put_attribute :: "(string \<times> fvalue) list \<Rightarrow> string \<times> fvalue \<Rightarrow> (string \<times> fvalue) list" where
  "put_attribute m kv = AList.update (fst kv) (snd kv) m"

text \<open>The value, and whether something in it had to be cut.\<close>

fun anyValue :: "otlp_lib \<Rightarrow> any_value \<Rightarrow> fvalue \<times> bool" where
  "anyValue lib Unset = (NullV, False)"
| "anyValue lib (AString s) = (StrV (take maxLine s), length s > maxLine)"
| "anyValue lib (ABool b) = (BoolV b, False)"
| "anyValue lib (AInt i) = (IntV i, False)"
| "anyValue lib (ADouble f) = (if float_nonfinite f then StrV (n_float_text (ol_norm lib) f) else FloatV f, False)"
| "anyValue lib (ABytes raw) = (StrV (hex_bytes (take (maxLine div 2) raw)), length raw > maxLine div 2)"
| "anyValue lib (AArray vs) =
     (let rs = map (anyValue lib) vs in (JSONV (json_array (map (of_value lib \<circ> fst) rs)), list_ex snd rs))"
| "anyValue lib (AKvlist kvs) =
     (let rs = map (\<lambda>kv. (fst kv, anyValue lib (snd kv))) kvs
      in (JSONV (json_object (ol_json_string lib)
            (map (\<lambda>(k, v). (k, of_value lib v)) (foldl put_attribute [] (map (\<lambda>(k, r). (k, fst r)) rs)))),
          list_ex (snd \<circ> snd) rs))"

definition attributeMap :: "otlp_lib \<Rightarrow> (string \<times> any_value) list \<Rightarrow> (string \<times> fvalue) list \<times> bool" where
  "attributeMap lib kvs =
     (foldl put_attribute [] (map (\<lambda>(k, v). (k, fst (anyValue lib v))) kvs), list_ex (\<lambda>(k, v). snd (anyValue lib v)) kvs)"

section \<open>Requests\<close>

record log_entry =
  le_time :: nat
  le_observed :: nat
  le_severity :: int
  le_severity_text :: string
  le_body :: any_value
  le_attributes :: "(string \<times> any_value) list"
  le_trace :: string
  le_span :: string

type_synonym scope_logs = "string \<times> log_entry list"
type_synonym resource_logs = "(string \<times> any_value) list \<times> scope_logs list"

text \<open>Base64 of whole groups of three bytes, and hexadecimal digits read back.\<close>

definition base64_char :: "nat \<Rightarrow> char" where
  "base64_char n =
     (if n < 26 then char_of (65 + n) else if n < 52 then char_of (71 + n)
      else if n < 62 then char_of (n - 4) else if n = 62 then CHR ''+'' else CHR ''/'')"

fun base64 :: "string \<Rightarrow> string" where
  "base64 (a # b # c # s) =
     (let n = (of_char a * 256 + of_char b) * 256 + of_char c
      in map base64_char [n div 262144, n div 4096 mod 64, n div 64 mod 64, n mod 64] @ base64 s)"
| "base64 s = ''''"

definition hex_value :: "char \<Rightarrow> nat option" where
  "hex_value c =
     (let n = of_char c
      in if 48 \<le> n \<and> n \<le> 57 then Some (n - 48)
         else if 97 \<le> n \<and> n \<le> 102 then Some (n - 87)
         else if 65 \<le> n \<and> n \<le> 70 then Some (n - 55) else None)"

fun hex_decode :: "string \<Rightarrow> string option" where
  "hex_decode [] = Some ''''"
| "hex_decode [c] = None"
| "hex_decode (c # d # s) =
     (case (hex_value c, hex_value d, hex_decode s) of
        (Some a, Some b, Some t) \<Rightarrow> Some (char_of (16 * a + b) # t)
      | _ \<Rightarrow> None)"

definition fromHex :: "string \<Rightarrow> nat \<Rightarrow> string" where
  "fromHex id' size' =
     (if 2 * size' * 6 div 8 \<noteq> length id' then id'
      else case hex_decode (base64 id') of
        None \<Rightarrow> id'
      | Some t \<Rightarrow> (if length t = size' then t else id'))"

definition hexIDs :: "resource_logs list \<Rightarrow> resource_logs list" where
  "hexIDs = map (\<lambda>(attrs, scopes). (attrs, map (\<lambda>(name, entries). (name,
     map (\<lambda>e. e\<lparr>le_trace := fromHex (le_trace e) 16, le_span := fromHex (le_span e) 8\<rparr>) entries)) scopes))"

section \<open>Records\<close>

fun first_stream :: "(string \<times> fvalue) list \<Rightarrow> string list \<Rightarrow> string option" where
  "first_stream attrs [] = None"
| "first_stream attrs (k # ks) =
     (case map_of attrs k of
        Some v \<Rightarrow> (if v_kind v = KindString \<and> v_str v \<noteq> '''' then Some (v_str v) else first_stream attrs ks)
      | None \<Rightarrow> first_stream attrs ks)"

definition streamOf :: "http_options \<Rightarrow> (string \<times> fvalue) list \<Rightarrow> string" where
  "streamOf opts attrs =
     (case first_stream attrs [''service.name'', ''service'', ''k8s.deployment.name'', ''host.name''] of
        Some s \<Rightarrow> s | None \<Rightarrow> ho_default opts)"

definition signed64 :: "nat \<Rightarrow> int" where
  "signed64 n = (if n \<ge> 2 ^ 63 then int n - 2 ^ 64 else int n)"

definition entry_time :: "int \<Rightarrow> log_entry \<Rightarrow> int" where
  "entry_time now e =
     (if Plausible now (signed64 (le_time e)) then signed64 (le_time e)
      else if Plausible now (signed64 (le_observed e)) then signed64 (le_observed e) else now)"

definition entry_fields ::
  "otlp_lib \<Rightarrow> (string \<times> fvalue) list \<Rightarrow> string \<Rightarrow> log_entry \<Rightarrow> (string \<times> fvalue) list" where
  "entry_fields lib resource scope e =
     foldl put_attribute (foldl put_attribute resource (fst (attributeMap lib (le_attributes e))))
       ((if scope \<noteq> '''' then [(''otel.scope'', StrV scope)] else [])
        @ (if le_trace e \<noteq> '''' then [(''trace_id'', StrV (hex_bytes (le_trace e)))] else [])
        @ (if le_span e \<noteq> '''' then [(''span_id'', StrV (hex_bytes (le_span e)))] else []))"

definition rendering :: "otlp_lib \<Rightarrow> string \<Rightarrow> string \<Rightarrow> (string \<times> fvalue) list \<Rightarrow> string" where
  "rendering lib msg level fs =
     json_object (ol_json_string lib) (map (\<lambda>(k, v). (k, of_value lib v))
       (foldl put_attribute
         ([(''msg'', StrV msg)] @ (if level \<noteq> '''' then [(''level'', StrV level)] else [])) fs))"

definition entry_record ::
  "otlp_lib \<Rightarrow> int \<Rightarrow> log_entry \<Rightarrow> (string \<times> fvalue) list \<Rightarrow> string \<Rightarrow> string \<Rightarrow> string \<Rightarrow> rec \<times> bool" where
  "entry_record lib now e resource scope strm host =
     (let level = severityName lib (le_severity e) (le_severity_text e);
          (body, cut1) = anyValue lib (le_body e);
          msg = (if v_kind body = KindString then v_str body else if v_kind body = KindNull then ''''
                 else value_text (n_float_text (ol_norm lib)) body);
          fs = entry_fields lib resource scope e;
          raw = rendering lib msg level fs
      in (Sanitize (empty_rec\<lparr>r_stream := strm, r_host := host, r_ingest_ts := now, r_ts := entry_time now e,
            r_level := level, r_msg := msg, r_fields := fs, r_raw := raw, r_json := Some raw, r_type := ''object''\<rparr>),
          cut1 \<or> snd (attributeMap lib (le_attributes e))))"

section \<open>The handler\<close>

definition maxRecord :: nat where "maxRecord = 8 * maxLine"

definition readAll :: "body \<Rightarrow> int \<Rightarrow> body_error + string" where
  "readAll b limit =
     (if int (length (fst b)) > limit then Inl (TooLarge ''body'' limit)
      else if body_error_text (snd b) = ''EOF'' then Inr (fst b) else Inl (snd b))"

text \<open>The entries in the order they are stored, each with what it has from its resource and scope.\<close>

record numbered_entry =
  ne_entry :: log_entry
  ne_resource :: "(string \<times> fvalue) list"
  ne_cut :: bool
  ne_scope :: string
  ne_stream :: string

definition entries_of :: "otlp_lib \<Rightarrow> http_options \<Rightarrow> resource_logs list \<Rightarrow> numbered_entry list" where
  "entries_of lib opts rs =
     concat (map (\<lambda>(attrs, scopes).
       (let (resource, was_cut) = attributeMap lib attrs
        in concat (map (\<lambda>(scope, es). map (\<lambda>e. \<lparr>ne_entry = e, ne_resource = resource, ne_cut = was_cut,
             ne_scope = scope, ne_stream = streamOf opts resource\<rparr>) es) scopes))) rs)"

record 'st otlp_state =
  ot_store :: 'st
  ot_accepted :: nat
  ot_rejected :: nat
  ot_truncated :: nat
  ot_received :: nat

definition made_of :: "otlp_lib \<Rightarrow> 'io ingest_request \<Rightarrow> nat \<Rightarrow> numbered_entry \<Rightarrow> rec \<times> bool" where
  "made_of lib rq i n =
     entry_record lib (iq_clock rq i) (ne_entry n) (ne_resource n) (ne_scope n) (ne_stream n) (iq_host rq)"

text \<open>The loop over the entries; it ends early with the error of an append.\<close>

fun otlp_loop ::
  "otlp_lib \<Rightarrow> ('io \<Rightarrow> rec \<Rightarrow> 'st \<Rightarrow> bool \<times> 'st) \<Rightarrow> 'io ingest_request \<Rightarrow> nat \<Rightarrow> numbered_entry list \<Rightarrow> 'st otlp_state
   \<Rightarrow> string option \<times> 'st otlp_state"
where
  "otlp_loop lib put rq i [] s = (None, s)"
| "otlp_loop lib put rq i (n # ns) s =
     (case made_of lib rq i n of (r, was_cut) \<Rightarrow>
        if length (r_raw r) > maxRecord then otlp_loop lib put rq (Suc i) ns (s\<lparr>ot_rejected := ot_rejected s + 1\<rparr>)
        else let t = s\<lparr>ot_truncated := ot_truncated s + (if was_cut \<or> ne_cut n then 1 else 0)\<rparr>
          in case put (iq_append rq i) r (ot_store s) of
               (False, st') \<Rightarrow> (Some (iq_append_error rq i), t\<lparr>ot_store := st'\<rparr>)
             | (True, st') \<Rightarrow>
                 otlp_loop lib put rq (Suc i) ns
                   (t\<lparr>ot_store := st', ot_accepted := ot_accepted s + 1, ot_received := ot_received s + 1\<rparr>))"

record otlp_response =
  RejectedLogRecords :: nat
  ErrorMessage :: string

definition otlp_notes :: "nat \<Rightarrow> nat \<Rightarrow> string list" where
  "otlp_notes truncated rejected =
     (if truncated \<noteq> 0 then [show_nat truncated @ '' log record(s) had a value over '' @ byteCount (int maxLine) @ '', truncated to it''] else [])
     @ (if rejected \<noteq> 0 then [show_nat rejected @ '' log record(s) exceeded '' @ byteCount (int maxRecord) @ '' and were not stored''] else [])"

definition joined :: "string list \<Rightarrow> string" where
  "joined notes = concat (case notes of [] \<Rightarrow> [] | n # ns \<Rightarrow> n # map (\<lambda>m. ''; '' @ m) ns)"

record otlp_decoders =
  od_open :: decoders
  od_json :: "string \<Rightarrow> string + resource_logs list"
  od_proto :: "string \<Rightarrow> string + resource_logs list"

definition decode_body :: "otlp_decoders \<Rightarrow> string \<Rightarrow> string \<Rightarrow> string + resource_logs list" where
  "decode_body od content_type raw =
     (if prefix ''application/json'' (to_lower (dc_lower (od_open od)) (trim_space content_type))
      then (case od_json od raw of Inl e \<Rightarrow> Inl (''decoding OTLP JSON: '' @ e) | Inr rs \<Rightarrow> Inr (hexIDs rs))
      else (case od_proto od raw of Inl e \<Rightarrow> Inl (''decoding OTLP protobuf: '' @ e) | Inr rs \<Rightarrow> Inr rs))"

definition with_bytes :: "nat \<Rightarrow> http_stats \<Rightarrow> http_stats" where
  "with_bytes n stats = stats\<lparr>hs_bytes := hs_bytes stats + n\<rparr>"

text \<open>The answer once the batch is through: a failure, or what was rejected of it.\<close>

definition otlp_answer ::
  "'io ingest_request \<Rightarrow> http_stats \<Rightarrow> string option \<times> 'st otlp_state \<Rightarrow> (nat \<times> (ingest_result + otlp_response)) \<times> http_stats"
where
  "otlp_answer rq stats0 run =
     (let s = snd run;
          stats = stats0\<lparr>hs_received := hs_received stats0 + ot_received s\<rparr>;
          failed = (case fst run of Some e \<Rightarrow> Some e | None \<Rightarrow> if ot_accepted s \<noteq> 0 then iq_sync rq else None)
      in case failed of
           Some e \<Rightarrow> (case fail stats 503 (''storing records: '' @ e) of (status, out, stats') \<Rightarrow> ((status, Inl out), stats'))
         | None \<Rightarrow>
             ((200, Inr \<lparr>RejectedLogRecords = ot_rejected s, ErrorMessage = joined (otlp_notes (ot_truncated s) (ot_rejected s))\<rparr>),
              stats\<lparr>hs_rejected := hs_rejected stats + ot_rejected s\<rparr>))"

definition OTLP ::
  "otlp_lib \<Rightarrow> otlp_decoders \<Rightarrow> http_options \<Rightarrow> ('io \<Rightarrow> rec \<Rightarrow> 'st \<Rightarrow> bool \<times> 'st) \<Rightarrow> string \<Rightarrow> 'io ingest_request \<Rightarrow> http_stats \<Rightarrow> 'st
   \<Rightarrow> ((nat \<times> (ingest_result + otlp_response)) \<times> http_stats) \<times> 'st"
where
  "OTLP lib od opts put content_type rq stats0 st =
     (let stats = stats0\<lparr>hs_requests := hs_requests stats0 + 1\<rparr>;
          refuse = (\<lambda>stats status e. case fail stats status e of (status, out, stats') \<Rightarrow> (((status, Inl out), stats'), st))
      in case open_body (od_open od) opts (iq_encoding rq) (iq_body rq) of
           Inl e \<Rightarrow> refuse stats (statusOf e) (body_error_text e)
         | Inr b \<Rightarrow>
             (case readAll b (ho_max_body opts) of
                Inl e \<Rightarrow> refuse stats (statusOf e) (body_error_text e)
              | Inr raw \<Rightarrow>
                  (case decode_body od content_type raw of
                     Inl e \<Rightarrow> refuse (with_bytes (length raw) stats) 400 e
                   | Inr rs \<Rightarrow>
                       (let run = otlp_loop lib put rq 0 (entries_of lib opts rs)
                              \<lparr>ot_store = st, ot_accepted = 0, ot_rejected = 0, ot_truncated = 0, ot_received = 0\<rparr>
                        in (otlp_answer rq (with_bytes (length raw) stats) run, ot_store (snd run))))))"

section \<open>Every value is finite\<close>

text \<open>No record has a float that JSON cannot spell, so none is refused by the log for it.\<close>

definition finite_value :: "fvalue \<Rightarrow> bool" where
  "finite_value v \<longleftrightarrow> v_kind v = KindFloat \<longrightarrow> \<not> float_nonfinite (v_float v)"

lemma anyValue_finite: "finite_value (fst (anyValue lib v))"
  by (induction v) (auto simp: finite_value_def NullV_def StrV_def BoolV_def IntV_def FloatV_def JSONV_def Let_def)

lemma put_attribute_finite:
  "\<forall>v\<in>snd ` set m. finite_value v \<Longrightarrow> \<forall>v\<in>snd ` set kvs. finite_value v \<Longrightarrow> \<forall>v\<in>snd ` set (foldl put_attribute m kvs). finite_value v"
proof (induction kvs arbitrary: m)
  case (Cons kv kvs)
  have sub: "snd ` set (AList.update (fst kv) (snd kv) m) \<subseteq> insert (snd kv) (snd ` set m)"
    by (induction m) auto
  have "\<forall>v\<in>snd ` set (put_attribute m kv). finite_value v"
  proof
    fix v assume "v \<in> snd ` set (put_attribute m kv)"
    with sub have "v \<in> insert (snd kv) (snd ` set m)" unfolding put_attribute_def by (rule subsetD)
    with Cons.prems show "finite_value v" by (elim insertE) auto
  qed
  from Cons.IH [OF this] Cons.prems(2) show ?case by simp
qed simp

lemma attributeMap_finite: "\<forall>v\<in>snd ` set (fst (attributeMap lib kvs)). finite_value v"
  unfolding attributeMap_def fst_conv by (rule put_attribute_finite) (auto simp: anyValue_finite)

lemma entry_fields_finite:
  assumes "\<forall>v\<in>snd ` set resource. finite_value v"
  shows "\<forall>v\<in>snd ` set (entry_fields lib resource scope e). finite_value v"
  unfolding entry_fields_def
  by (intro put_attribute_finite assms attributeMap_finite) (auto simp: finite_value_def StrV_def NullV_def)

section \<open>What is stored\<close>

text \<open>The records of the entries from number \<open>i\<close> on, but for those over the limit.\<close>

fun kept_records :: "otlp_lib \<Rightarrow> 'io ingest_request \<Rightarrow> nat \<Rightarrow> numbered_entry list \<Rightarrow> rec list" where
  "kept_records lib rq i [] = []"
| "kept_records lib rq i (n # ns) =
     (let r = fst (made_of lib rq i n) in if length (r_raw r) > maxRecord then [] else [r]) @ kept_records lib rq (Suc i) ns"

context log_store
begin

lemma otlp_loop_stores:
  assumes "repr (ot_store s) h" "otlp_loop lib append_rec rq i ns s = (err, s')"
  shows "\<exists>k. k \<le> length ns \<and> (err = None \<longrightarrow> k = length ns) \<and>
    ot_accepted s' = ot_accepted s + length (kept_records lib rq i (take k ns)) \<and>
    ot_rejected s' + length (kept_records lib rq i (take k ns)) = ot_rejected s + k \<and>
    stored (ot_store s) h (ot_store s') (kept_records lib rq i (take k ns))"
  using assms
proof (induction ns arbitrary: i s h)
  case Nil
  then show ?case unfolding stored_def by (auto intro!: exI [of _ "[]"])
next
  case (Cons n ns)
  obtain r was_cut where m: "made_of lib rq i n = (r, was_cut)" by fastforce
  obtain ok st' where put: "append_rec (iq_append rq i) r (ot_store s) = (ok, st')" by fastforce
  note run = Cons.prems(2) [unfolded otlp_loop.simps m prod.case put Let_def]
  consider (large) "length (r_raw r) > maxRecord" | (refused) "\<not> length (r_raw r) > maxRecord" "\<not> ok"
    | (accepted) "\<not> length (r_raw r) > maxRecord" ok by blast
  then show ?case
  proof cases
    case large
    let ?s = "s\<lparr>ot_rejected := ot_rejected s + 1\<rparr>"
    from large run have "otlp_loop lib append_rec rq (Suc i) ns ?s = (err, s')" by simp
    from Cons.IH [OF _ this, of h] Cons.prems(1) obtain k where k: "k \<le> length ns" "err = None \<longrightarrow> k = length ns"
      "ot_accepted s' = ot_accepted s + length (kept_records lib rq (Suc i) (take k ns))"
      "ot_rejected s' + length (kept_records lib rq (Suc i) (take k ns)) = ot_rejected s + 1 + k"
      "stored (ot_store s) h (ot_store s') (kept_records lib rq (Suc i) (take k ns))" by auto
    with large m show ?thesis by (intro exI [of _ "Suc k"]) (simp add: Let_def)
  next
    case refused
    then have ends: "err \<noteq> None" "ot_store s' = st'" "ot_accepted s' = ot_accepted s" "ot_rejected s' = ot_rejected s"
      using run by auto
    have "stored (ot_store s) h st' []" using refused put by (intro stored_refused [OF Cons.prems(1)]) simp
    with ends show ?thesis by (intro exI [of _ 0]) simp
  next
    case accepted
    then have "append_rec (iq_append rq i) r (ot_store s) = (True, st')" using put by simp
    from stored_accepted [OF Cons.prems(1) this] obtain r' where r': "repr st' (h @ [r'])" "unnumbered r' = unnumbered r" .
    let ?s = "s\<lparr>ot_truncated := ot_truncated s + (if was_cut \<or> ne_cut n then 1 else 0), ot_store := st',
      ot_accepted := ot_accepted s + 1, ot_received := ot_received s + 1\<rparr>"
    from accepted run have "otlp_loop lib append_rec rq (Suc i) ns ?s = (err, s')" by simp
    from Cons.IH [OF _ this, of "h @ [r']"] r'(1) obtain k where k: "k \<le> length ns" "err = None \<longrightarrow> k = length ns"
      "ot_accepted s' = ot_accepted s + 1 + length (kept_records lib rq (Suc i) (take k ns))"
      "ot_rejected s' + length (kept_records lib rq (Suc i) (take k ns)) = ot_rejected s + k"
      "stored st' (h @ [r']) (ot_store s') (kept_records lib rq (Suc i) (take k ns))" by auto
    from stored_more [OF k(5) r'(2)] k(1-4) accepted(1) m show ?thesis by (intro exI [of _ "Suc k"]) auto
  qed
qed

text \<open>A batch that is acknowledged is stored: all of it, in order, but for the entries reported as rejected.\<close>

lemma OTLP_acknowledges:
  assumes "repr st h" "OTLP lib od opts append_rec content_type rq stats st = (((200, out), stats'), st')"
  obtains raw b rs answer where "open_body (od_open od) opts (iq_encoding rq) (iq_body rq) = Inr b"
    "readAll b (ho_max_body opts) = Inr raw" "decode_body od content_type raw = Inr rs" "out = Inr answer"
    "RejectedLogRecords answer + length (kept_records lib rq 0 (entries_of lib opts rs)) = length (entries_of lib opts rs)"
    "stored st h st' (kept_records lib rq 0 (entries_of lib opts rs))"
proof -
  note run = assms(2) [unfolded OTLP_def Let_def fail_def prod.case]
  obtain b where b: "open_body (od_open od) opts (iq_encoding rq) (iq_body rq) = Inr b"
    using run statusOf_not_ok(1) by (cases "open_body (od_open od) opts (iq_encoding rq) (iq_body rq)") auto
  obtain raw where raw: "readAll b (ho_max_body opts) = Inr raw"
    using run b statusOf_not_ok(1) by (cases "readAll b (ho_max_body opts)") auto
  obtain rs where rs: "decode_body od content_type raw = Inr rs"
    using run b raw by (cases "decode_body od content_type raw") auto
  let ?s = "\<lparr>ot_store = st, ot_accepted = 0, ot_rejected = 0, ot_truncated = 0, ot_received = 0\<rparr>"
  obtain err s where l: "otlp_loop lib append_rec rq 0 (entries_of lib opts rs) ?s = (err, s)" by fastforce
  have st': "st' = ot_store s" using run b raw rs l by simp
  have answer: "otlp_answer rq (with_bytes (length raw) (stats\<lparr>hs_requests := hs_requests stats + 1\<rparr>)) (err, s) = ((200, out), stats')"
    using run b raw rs l by simp
  then have ok: "err = None" "\<exists>a. out = Inr a \<and> RejectedLogRecords a = ot_rejected s"
    by (auto simp: otlp_answer_def fail_def Let_def split: option.splits if_splits)
  from otlp_loop_stores [OF _ l, of h] assms(1) ok(1) obtain k where "k = length (entries_of lib opts rs)"
    "ot_rejected s + length (kept_records lib rq 0 (take k (entries_of lib opts rs))) = k"
    "stored st h (ot_store s) (kept_records lib rq 0 (take k (entries_of lib opts rs)))" by auto
  with ok(2) st' that [OF b raw rs] show ?thesis by auto
qed

end

end
