(* ===== verification/Tail.thy ===== *)
theory Tail
  imports RqlPredicate LogStore
begin

text \<open>
  The live tail, \<open>src/internal/api/sse.go\<close>: one connection that subscribes, sends the backlog and then
  the lines that arrive, over a store that goes on taking records from others.  The frames sent are
  a list; the store is a record of the operations the handler calls.
\<close>

section \<open>The handler\<close>

definition subscriberBuffer :: int where "subscriberBuffer = 1024"

text \<open>The filter, compiled once; \<open>None\<close> is a parser that does not return, which there is not.\<close>

definition tail_filter :: "rql_lib \<Rightarrow> query_lib \<Rightarrow> rtext \<Rightarrow> (rql_error + predicate) option" where
  "tail_filter lib qlib text' =
     (case Parse lib text' of
        None \<Rightarrow> None | Some (Inl e) \<Rightarrow> Some (Inl e) | Some (Inr node) \<Rightarrow> Some (ToPredicate qlib node))"

datatype sse = SseStreams "string list" | SseBacklog "rec list" | SseLine rec | SseDropped nat nat | SsePing

datatype tail_phase = TailStart | TailSubscribed | TailListed | TailStreaming | TailWoken | TailEnded

record tail =
  tl_phase :: tail_phase
  tl_id :: "nat option"
  tl_floor :: nat
  tl_reported :: nat
  tl_reported_at :: "int option"
  tl_out :: "sse list"

definition new_tail :: tail where
  "new_tail = \<lparr>tl_phase = TailStart, tl_id = None, tl_floor = 0, tl_reported = 0, tl_reported_at = None, tl_out = []\<rparr>"

definition sendEvent :: "sse list \<Rightarrow> tail \<Rightarrow> tail" where
  "sendEvent es t = t\<lparr>tl_out := tl_out t @ es\<rparr>"

definition tail_subscribe :: "string \<Rightarrow> tail \<Rightarrow> fanout \<Rightarrow> tail \<times> fanout" where
  "tail_subscribe strm t f =
     (case subscribe strm subscriberBuffer f of (_, i, f') \<Rightarrow> (t\<lparr>tl_phase := TailSubscribed, tl_id := i\<rparr>, f'))"

definition tail_streams :: "string list \<Rightarrow> tail \<Rightarrow> tail" where
  "tail_streams names t = (sendEvent [SseStreams names] t)\<lparr>tl_phase := TailListed\<rparr>"

definition highest_seq :: "rec list \<Rightarrow> nat" where
  "highest_seq rs = foldl (\<lambda>m r. max m (r_seq r)) 0 rs"

definition tail_backlog :: "predicate \<Rightarrow> rec list \<Rightarrow> tail \<Rightarrow> tail" where
  "tail_backlog matches rs t =
     (sendEvent [SseBacklog (filter matches rs)] t)\<lparr>tl_phase := TailStreaming, tl_floor := highest_seq rs\<rparr>"

text \<open>One event from the subscription: what is sent of it.\<close>

definition tail_event :: "predicate \<Rightarrow> nat \<Rightarrow> event \<Rightarrow> sse list" where
  "tail_event matches floor e =
     (case e of
        EventStreams names \<Rightarrow> [SseStreams names]
      | EventLine r \<Rightarrow> (if floor < r_seq r \<and> matches r then [SseLine r] else []))"

text \<open>The loop woken by the ticker, or by the subscription, whose channel may be closed.\<close>

definition tail_wake :: "predicate \<Rightarrow> bool \<Rightarrow> tail \<Rightarrow> fanout \<Rightarrow> tail \<times> fanout" where
  "tail_wake matches tick t f =
     (if tick then ((sendEvent [SsePing] t)\<lparr>tl_phase := TailWoken\<rparr>, f)
      else case tl_id t of
        None \<Rightarrow> (t\<lparr>tl_phase := TailEnded\<rparr>, f)
      | Some i \<Rightarrow>
          (case fan_receive i f of
             (None, f') \<Rightarrow> (t, f')
           | (Some e, f') \<Rightarrow> ((sendEvent (tail_event matches (tl_floor t) e) t)\<lparr>tl_phase := TailWoken\<rparr>, f')))"

definition dropped_of :: "tail \<Rightarrow> fanout \<Rightarrow> nat" where
  "dropped_of t f =
     (case tl_id t of None \<Rightarrow> 0 | Some i \<Rightarrow> (case map_of (f_subs f) i of None \<Rightarrow> 0 | Some s \<Rightarrow> s_dropped s))"

text \<open>The notice of lines lost, at most one a second.\<close>

definition tail_lost :: "int \<Rightarrow> nat \<Rightarrow> tail \<Rightarrow> tail" where
  "tail_lost now lost t =
     (if lost > tl_reported t \<and> (case tl_reported_at t of None \<Rightarrow> True | Some at \<Rightarrow> now - at \<ge> 10 ^ 9)
      then (sendEvent [SseDropped (lost - tl_reported t) lost] t)
        \<lparr>tl_phase := TailStreaming, tl_reported := lost, tl_reported_at := Some now\<rparr>
      else t\<lparr>tl_phase := TailStreaming\<rparr>)"

section \<open>The store around it\<close>

record ('io, 'st) store_ops =
  op_append :: "'io \<Rightarrow> rec \<Rightarrow> 'st \<Rightarrow> bool \<times> 'st"
  op_backlog :: "string \<Rightarrow> int \<Rightarrow> 'st \<Rightarrow> rec list"
  op_streams :: "'st \<Rightarrow> string list"
  op_feeds :: "'st \<Rightarrow> fanout"
  op_with_feeds :: "fanout \<Rightarrow> 'st \<Rightarrow> 'st"
  op_keep :: "'st \<Rightarrow> nat"
  op_seq :: "'st \<Rightarrow> nat"
  op_quiet :: "'st \<Rightarrow> 'st \<Rightarrow> bool"  \<comment> \<open>its work in the background\<close>

text \<open>
  The system: the store, the records it accepted with the numbers it gave them, and how many those
  were when the tail read the backlog.
\<close>

record 'st tail_sys =
  ts_store :: 'st
  ts_accepted :: "rec list"
  ts_read :: "nat option"
  ts_tail :: tail

definition other_client :: "nat option \<Rightarrow> fan_op \<Rightarrow> bool" where
  "other_client i op =
     (case op of FanSubscribe _ _ \<Rightarrow> True | FanUnsubscribe j \<Rightarrow> Some j \<noteq> i | FanReceive j \<Rightarrow> Some j \<noteq> i | _ \<Rightarrow> False)"

inductive tail_step ::
  "('io, 'st) store_ops \<Rightarrow> string \<Rightarrow> predicate \<Rightarrow> 'st tail_sys \<Rightarrow> 'st tail_sys \<Rightarrow> bool"
for ops strm matches where
  append: "op_append ops io r (ts_store s) = (ok, st) \<Longrightarrow>
    tail_step ops strm matches s (s\<lparr>ts_store := st,
      ts_accepted := (if ok then ts_accepted s @ [r\<lparr>r_seq := op_seq ops st\<rparr>] else ts_accepted s)\<rparr>)"
| quiet: "op_quiet ops (ts_store s) st \<Longrightarrow> tail_step ops strm matches s (s\<lparr>ts_store := st\<rparr>)"
| others: "other_client (tl_id (ts_tail s)) op \<Longrightarrow>
    tail_step ops strm matches s
      (s\<lparr>ts_store := op_with_feeds ops (fan_run [op] (op_feeds ops (ts_store s))) (ts_store s)\<rparr>)"
| subscribes: "tl_phase (ts_tail s) = TailStart \<Longrightarrow>
    tail_subscribe strm (ts_tail s) (op_feeds ops (ts_store s)) = (t, f) \<Longrightarrow>
    tail_step ops strm matches s (s\<lparr>ts_store := op_with_feeds ops f (ts_store s), ts_tail := t\<rparr>)"
| lists: "tl_phase (ts_tail s) = TailSubscribed \<Longrightarrow>
    tail_step ops strm matches s (s\<lparr>ts_tail := tail_streams (op_streams ops (ts_store s)) (ts_tail s)\<rparr>)"
| reads: "tl_phase (ts_tail s) = TailListed \<Longrightarrow>
    tail_step ops strm matches s (s\<lparr>ts_tail := tail_backlog matches (op_backlog ops strm 0 (ts_store s)) (ts_tail s),
      ts_read := Some (length (ts_accepted s))\<rparr>)"
| wakes: "tl_phase (ts_tail s) = TailStreaming \<Longrightarrow>
    tail_wake matches tick (ts_tail s) (op_feeds ops (ts_store s)) = (t, f) \<Longrightarrow>
    tail_step ops strm matches s (s\<lparr>ts_store := op_with_feeds ops f (ts_store s), ts_tail := t\<rparr>)"
| checks: "tl_phase (ts_tail s) = TailWoken \<Longrightarrow>
    tail_step ops strm matches s
      (s\<lparr>ts_tail := tail_lost now (dropped_of (ts_tail s) (op_feeds ops (ts_store s))) (ts_tail s)\<rparr>)"

definition tail_from :: "'st \<Rightarrow> rec list \<Rightarrow> 'st tail_sys" where
  "tail_from st h = \<lparr>ts_store = st, ts_accepted = h, ts_read = None, ts_tail = new_tail\<rparr>"

definition tail_reach ::
  "('io, 'st) store_ops \<Rightarrow> string \<Rightarrow> predicate \<Rightarrow> 'st tail_sys \<Rightarrow> 'st tail_sys \<Rightarrow> bool" where
  "tail_reach ops strm matches = (tail_step ops strm matches)\<^sup>*\<^sup>*"

section \<open>What a client is shown\<close>

definition shown :: "sse list \<Rightarrow> rec list" where
  "shown out = concat (map (\<lambda>e. case e of SseBacklog rs \<Rightarrow> rs | SseLine r \<Rightarrow> [r] | _ \<Rightarrow> []) out)"

definition noticed :: "sse list \<Rightarrow> nat" where
  "noticed out = sum_list (map (\<lambda>e. case e of SseDropped n _ \<Rightarrow> n | _ \<Rightarrow> 0) out)"

text \<open>What is due: the backlog when it was read, and what came after, of the stream, that matches.\<close>

definition due_to :: "string \<Rightarrow> predicate \<Rightarrow> nat \<Rightarrow> nat \<Rightarrow> rec list \<Rightarrow> rec list" where
  "due_to strm matches keep n h =
     filter matches (last_n keep (of_stream strm (take n h)) @ of_stream strm (drop n h))"

lemma shown_append [simp]: "shown (xs @ ys) = shown xs @ shown ys"
  by (simp add: shown_def)

lemma noticed_append [simp]: "noticed (xs @ ys) = noticed xs + noticed ys"
  by (simp add: noticed_def)

definition tail_lines :: "event list \<Rightarrow> rec list" where
  "tail_lines es = concat (map (\<lambda>e. case e of EventLine r \<Rightarrow> [r] | _ \<Rightarrow> []) es)"

lemma tail_lines_append [simp]: "tail_lines (xs @ ys) = tail_lines xs @ tail_lines ys"
  by (simp add: tail_lines_def)

lemma tail_lines_simps [simp]:
  "tail_lines [] = []" "tail_lines (EventLine r # es) = r # tail_lines es" "tail_lines (EventStreams ns # es) = tail_lines es"
  by (simp_all add: tail_lines_def)

text \<open>Of the events not received, each can cost a line at most.\<close>

lemma lines_missing:
  assumes "subseq got base"
  shows "subseq (filter P (tail_lines got)) (filter P (tail_lines base)) \<and>
    length (filter P (tail_lines base)) + length got \<le> length (filter P (tail_lines got)) + length base"
  using assms
proof (induction rule: list_emb.induct)
  case (list_emb_Nil ys)
  have "length (filter P (tail_lines ys)) \<le> length ys"
    by (induction ys) (auto simp: tail_lines_def split: event.split)
  then show ?case by simp
next
  case (list_emb_Cons xs ys y)
  then show ?case by (cases y) auto
next
  case (list_emb_Cons2 x y xs ys)
  then show ?case by (cases y) auto
qed

lemma highest_seq_ge: "r \<in> set rs \<Longrightarrow> r_seq r \<le> highest_seq rs"
  unfolding highest_seq_def by (induction rs rule: rev_induct) auto

lemma highest_seq_in: "highest_seq rs = 0 \<or> highest_seq rs \<in> r_seq ` set rs"
  unfolding highest_seq_def by (induction rs rule: rev_induct) (auto simp: max_def)

lemma of_stream_append: "of_stream s (xs @ ys) = of_stream s xs @ of_stream s ys"
  by (simp add: of_stream_def)

lemma of_stream_set: "set (of_stream s xs) \<subseteq> set xs"
  by (auto simp: of_stream_def)

text \<open>The floor parts what the backlog covers from what came after it.\<close>

lemma floor_parts:
  assumes sorted: "seq_sorted h" "\<forall>r\<in>set h. 0 < r_seq r" and n: "m \<le> n" "n \<le> length h" and k: "0 < k"
  shows "filter (\<lambda>r. highest_seq (last_n k (of_stream s (take n h))) < r_seq r \<and> P r) (of_stream s (drop m h)) =
    filter P (of_stream s (drop n h))"
proof -
  let ?old = "of_stream s (take n h)"
  let ?floor = "highest_seq (last_n k ?old)"
  have parts: "of_stream s (drop m h) = of_stream s (take (n - m) (drop m h)) @ of_stream s (drop n h)"
    using n append_take_drop_id [of "n - m" "drop m h"] by (metis drop_drop le_add_diff_inverse2 of_stream_append)
  have "seq_sorted (take n h)" using sorted(1) by (simp add: seq_sorted_def sorted_wrt_take flip: take_map)
  then have "seq_sorted ?old" using seq_sorted_filter by (simp add: of_stream_def)
  have below: "r_seq r \<le> ?floor" if "r \<in> set ?old" for r
  proof -
    obtain xs x where old: "?old = xs @ [x]" using \<open>r \<in> set ?old\<close> by (cases ?old rule: rev_cases) auto
    have "x \<in> set (last_n k ?old)" using k by (simp add: old last_n_def drop_append)
    then have "r_seq x \<le> ?floor" by (rule highest_seq_ge)
    moreover have "r_seq r \<le> r_seq x" using \<open>seq_sorted ?old\<close> that
      by (auto simp: old seq_sorted_def sorted_wrt_append)
    ultimately show ?thesis by simp
  qed
  have above: "?floor < r_seq r" if "r \<in> set (of_stream s (drop n h))" for r
  proof -
    have r: "r \<in> set (drop n h)" using that of_stream_set by fast
    consider "?floor = 0" | x where "x \<in> set (last_n k ?old)" "?floor = r_seq x"
      using highest_seq_in [of "last_n k ?old"] by auto
    then show ?thesis
    proof cases
      case 1
      then show ?thesis using sorted(2) in_set_dropD [OF r] by simp
    next
      case 2
      have "x \<in> set (take n h)" using 2(1) set_last_n of_stream_set by fast
      moreover have "sorted_wrt (<) (map r_seq (take n h) @ map r_seq (drop n h))"
        using sorted(1) by (simp add: seq_sorted_def flip: map_append)
      ultimately show ?thesis using r 2(2) by (auto simp: sorted_wrt_append)
    qed
  qed
  have "set (take (n - m) (drop m h)) \<subseteq> set (take n h)"
    using n(1) by (metis drop_take set_drop_subset)
  then have "set (of_stream s (take (n - m) (drop m h))) \<subseteq> set ?old" by (auto simp: of_stream_def split: if_splits)
  with below have "\<forall>r\<in>set (of_stream s (take (n - m) (drop m h))). \<not> ?floor < r_seq r" by (auto simp: not_less)
  then have "filter (\<lambda>r. ?floor < r_seq r \<and> P r) (of_stream s (take (n - m) (drop m h))) = []" by (auto simp: filter_empty_conv)
  moreover have "filter (\<lambda>r. ?floor < r_seq r \<and> P r) (of_stream s (drop n h)) = filter P (of_stream s (drop n h))"
    using above by (intro filter_cong) auto
  ultimately show ?thesis by (simp add: parts)
qed

end
