(* ===== verification/TailClaims.thy ===== *)
theory TailClaims
  imports Tail DurableSystem
begin

text \<open>
  What a live tail shows, over any store that numbers and publishes what it accepts: the interface as
  a locale that extends \<open>log_store\<close>, the invariant of a connection among appends and other clients,
  and both stores of the server as instances.
\<close>

section \<open>The interface\<close>

locale tail_store = log_store repr "op_append ops" "op_backlog ops" "op_feeds ops" "op_keep ops"
  for repr :: "'st \<Rightarrow> rec list \<Rightarrow> bool" and ops :: "('io, 'st) store_ops" +
  assumes numbers: "repr st h \<Longrightarrow> op_append ops io r st = (True, st') \<Longrightarrow>
      \<exists>names. repr st' (h @ [r\<lparr>r_seq := op_seq ops st'\<rparr>]) \<and> op_keep ops st' = op_keep ops st \<and>
        op_feeds ops st' = published (r\<lparr>r_seq := op_seq ops st'\<rparr>) names (op_feeds ops st)"
    and with_feeds: "repr st h \<Longrightarrow> repr (op_with_feeds ops f st) h \<and> op_feeds ops (op_with_feeds ops f st) = f \<and>
        op_keep ops (op_with_feeds ops f st) = op_keep ops st"
    and stays: "repr st h \<Longrightarrow> op_quiet ops st st' \<Longrightarrow>
        repr st' h \<and> op_feeds ops st' = op_feeds ops st \<and> op_keep ops st' = op_keep ops st"
    and keeps: "repr st h \<Longrightarrow> 0 < op_keep ops st"

section \<open>The invariant\<close>

definition published_ops :: "rec \<Rightarrow> string list option \<Rightarrow> fan_op list" where
  "published_ops r names = (case names of None \<Rightarrow> [] | Some ns \<Rightarrow> [FanStreams ns]) @ [FanLine r]"

lemma published_run: "published r names f = fan_run (published_ops r names) f"
  by (cases names) (simp_all add: published_def published_ops_def)

lemma published_received: "fan_received i (published_ops r names) f = []"
  by (cases names) (simp_all add: published_ops_def)

lemma published_lines:
  "tail_lines (filter (watches sub) (fan_events (published_ops r names))) = of_stream (s_stream sub) [r]"
  by (cases names) (auto simp: published_ops_def watches_def of_stream_def)

lemma published_not_leaves: "FanUnsubscribe i \<notin> set (published_ops r names)"
  by (cases names) (simp_all add: published_ops_def)

text \<open>
  The subscription of a tail, given what it received and how many records there were when it was
  opened: what was published to it is what came since, and is received, queued or counted as dropped.
\<close>

definition fed :: "string \<Rightarrow> nat \<Rightarrow> event list \<Rightarrow> nat \<Rightarrow> rec list \<Rightarrow> fanout \<Rightarrow> bool" where
  "fed strm i got m h f \<longleftrightarrow> fan_ok f \<and> m \<le> length h \<and>
     (\<exists>sub base. map_of (f_subs f) i = Some sub \<and> s_stream sub = strm \<and> accounts got 0 base sub \<and>
        tail_lines base = of_stream strm (drop m h))"

lemma fan_run_ok: "fan_ok f \<Longrightarrow> map_of (f_subs f) i = Some s \<Longrightarrow> FanUnsubscribe i \<notin> set ops \<Longrightarrow>
  fan_ok (fan_run ops f) \<and> (\<exists>s'. map_of (f_subs (fan_run ops f)) i = Some s' \<and> s_stream s' = s_stream s)"
proof (induction ops arbitrary: f s)
  case (Cons op ops)
  have "\<forall>j. op = FanUnsubscribe j \<longrightarrow> j \<noteq> i" using Cons.prems(3) by auto
  from fan_step_sub [OF Cons.prems(1,2) this] obtain s1 where
    s1: "fan_ok (fan_run [op] f)" "map_of (f_subs (fan_run [op] f)) i = Some s1" "s_stream s1 = s_stream s"
    by (cases op) auto
  from Cons.IH [OF s1(1,2)] Cons.prems(3) s1(3) show ?case by (subst (1 2) fan_run_cons) auto
qed auto

lemma fed_append:
  assumes "fed strm i got m h f"
  shows "fed strm i got m (h @ [r]) (published r names f)"
proof -
  from assms obtain sub base where s: "fan_ok f" "m \<le> length h" "map_of (f_subs f) i = Some sub" "s_stream sub = strm"
    "accounts got 0 base sub" "tail_lines base = of_stream strm (drop m h)" by (auto simp: fed_def)
  let ?ops = "published_ops r names"
  let ?base = "base @ filter (watches sub) (fan_events ?ops)"
  from fan_run_accounts [OF s(1,3) published_not_leaves s(5), of r names] obtain s' where
    s': "map_of (f_subs (fan_run ?ops f)) i = Some s'" "accounts got 0 ?base s'"
    by (auto simp: published_received)
  from fan_run_ok [OF s(1,3) published_not_leaves, of r names] s'(1) s(4) have "fan_ok (fan_run ?ops f)" "s_stream s' = strm" by auto
  moreover have "tail_lines ?base = of_stream strm (drop m (h @ [r]))"
    using s(2,4,6) by (simp add: published_lines of_stream_append)
  ultimately show ?thesis using s(2) s' unfolding fed_def published_run by auto
qed

lemma fed_others:
  assumes "fed strm i got m h f" "other_client (Some i) op"
  shows "fed strm i got m h (fan_run [op] f)"
proof -
  from assms(1) obtain sub base where s: "fan_ok f" "map_of (f_subs f) i = Some sub" "s_stream sub = strm"
    "accounts got 0 base sub" "tail_lines base = of_stream strm (drop m h)" "m \<le> length h" by (auto simp: fed_def)
  have op: "op \<noteq> FanUnsubscribe i" "fan_received i [op] f = []" "fan_events [op] = []"
    using assms(2) by (cases op; auto simp: other_client_def split: prod.splits option.splits)+
  from fan_step_accounts [OF s(1,2) op(1) s(4)] obtain s' where "fan_ok (fan_run [op] f)"
    "map_of (f_subs (fan_run [op] f)) i = Some s'" "s_stream s' = s_stream sub" "accounts got 0 base s'" by (auto simp: op)
  with s show ?thesis by (auto simp: fed_def)
qed

lemma fed_receive:
  assumes "fed strm i got m h f" "fan_receive i f = (e, f')"
  shows "fed strm i (got @ (case e of None \<Rightarrow> [] | Some e \<Rightarrow> [e])) m h f'"
proof -
  from assms(1) obtain sub base where s: "fan_ok f" "map_of (f_subs f) i = Some sub" "s_stream sub = strm"
    "accounts got 0 base sub" "tail_lines base = of_stream strm (drop m h)" "m \<le> length h" by (auto simp: fed_def)
  from fan_step_accounts [OF s(1,2) _ s(4), of "FanReceive i"] obtain s' where "fan_ok f'"
    "map_of (f_subs f') i = Some s'" "s_stream s' = s_stream sub"
    "accounts (got @ (case e of None \<Rightarrow> [] | Some e \<Rightarrow> [e])) 0 base s'" by (auto simp: assms(2) split: option.splits)
  with s show ?thesis by (auto simp: fed_def)
qed

lemma fed_subscribe:
  assumes "fan_ok f" "\<not> f_closed f" "tail_subscribe strm t f = (t', f')"
  obtains i where "t' = t\<lparr>tl_phase := TailSubscribed, tl_id := Some i\<rparr>" "fed strm i [] (length h) h f'" "\<not> f_closed f'"
proof -
  from assms have "t' = t\<lparr>tl_phase := TailSubscribed, tl_id := Some (f_next f)\<rparr>" "\<not> f_closed f'"
    "fed strm (f_next f) [] (length h) h f'"
    by (auto simp: tail_subscribe_def subscribe_def subscriberBuffer_def Let_def fed_def fan_ok_def accounts_def of_stream_def less_SucI
        split: if_splits)
  then show ?thesis using that by blast
qed

lemma fan_step_closed: "f_closed (fan_run [op] f) = f_closed f"
  by (cases op) (auto simp: subscribe_def unsubscribe_def publish_line_def publish_streams_def fan_receive_def Let_def split: option.split)

lemma fan_run_closed: "f_closed (fan_run ops f) = f_closed f"
  by (induction ops arbitrary: f) (simp, subst fan_run_cons, simp only: fan_step_closed)

lemma dropped_grows:
  assumes "tl_id t = Some i" "fan_ok f" "map_of (f_subs f) i = Some s" "FanUnsubscribe i \<notin> set ops"
  shows "dropped_of t f \<le> dropped_of t (fan_run ops f)"
  using assms(2-4)
proof (induction ops arbitrary: f s)
  case (Cons op ops)
  have op: "\<forall>j. op = FanUnsubscribe j \<longrightarrow> j \<noteq> i" using Cons.prems(3) by auto
  from fan_step_sub [OF Cons.prems(1,2) op] obtain s1 where
    s1: "fan_ok (fan_run [op] f)" "map_of (f_subs (fan_run [op] f)) i = Some s1" "s_dropped s \<le> s_dropped s1"
    by (cases op) (auto simp: sees_def send_def receive_def split: list.split)
  then have "dropped_of t f \<le> dropped_of t (fan_run [op] f)" using Cons.prems(2) assms(1) by (simp add: dropped_of_def)
  also have "\<dots> \<le> dropped_of t (fan_run (op # ops) f)"
    using Cons.IH [OF s1(1,2)] Cons.prems(3) by (subst fan_run_cons) simp
  finally show ?case .
qed simp

lemma fed_dropped:
  assumes "fed strm i got m h f" "tl_id t = Some i" "FanUnsubscribe i \<notin> set ops"
  shows "dropped_of t f \<le> dropped_of t (fan_run ops f)"
  using assms dropped_grows by (auto simp: fed_def)

lemma dropped_of_id: "tl_id t' = tl_id t \<Longrightarrow> dropped_of t' f = dropped_of t f"
  by (simp add: dropped_of_def)

text \<open>What a connection that reads from the subscription has been shown by what it received.\<close>

definition has_shown :: "string \<Rightarrow> predicate \<Rightarrow> nat \<Rightarrow> nat \<Rightarrow> rec list \<Rightarrow> event list \<Rightarrow> tail \<Rightarrow> bool" where
  "has_shown strm matches k n h got t \<longleftrightarrow>
     (let old = last_n k (of_stream strm (take n h))
      in tl_floor t = highest_seq old \<and>
         shown (tl_out t) = filter matches old @ filter (\<lambda>r. highest_seq old < r_seq r \<and> matches r) (tail_lines got))"

text \<open>A connection with its subscription, before and after it read the backlog.\<close>

definition connected ::
  "string \<Rightarrow> predicate \<Rightarrow> nat \<Rightarrow> nat option \<Rightarrow> rec list \<Rightarrow> fanout \<Rightarrow> tail \<Rightarrow> bool"
where
  "connected strm matches k read_at h f t \<longleftrightarrow>
     (\<exists>i got m. tl_id t = Some i \<and> fed strm i got m h f \<and> tl_reported t \<le> dropped_of t f \<and>
        (case read_at of
           None \<Rightarrow> got = [] \<and> shown (tl_out t) = [] \<and> tl_phase t \<in> {TailSubscribed, TailListed}
         | Some n \<Rightarrow> m \<le> n \<and> n \<le> length h \<and> tl_phase t \<in> {TailStreaming, TailWoken} \<and>
             has_shown strm matches k n h got t))"

lemma has_shown_later: "n \<le> length h \<Longrightarrow> has_shown strm matches k n h got t \<Longrightarrow> has_shown strm matches k n (h @ h') got t"
  by (simp add: has_shown_def)

lemma connected_append:
  assumes "connected strm matches k read_at h f t"
  shows "connected strm matches k read_at (h @ [r]) (published r names f) t"
proof -
  from assms obtain i got m where c: "tl_id t = Some i" "fed strm i got m h f" "tl_reported t \<le> dropped_of t f"
    "case read_at of None \<Rightarrow> got = [] \<and> shown (tl_out t) = [] \<and> tl_phase t \<in> {TailSubscribed, TailListed}
     | Some n \<Rightarrow> m \<le> n \<and> n \<le> length h \<and> tl_phase t \<in> {TailStreaming, TailWoken} \<and> has_shown strm matches k n h got t"
    unfolding connected_def by blast
  have "tl_reported t \<le> dropped_of t (published r names f)"
    using c(3) fed_dropped [OF c(2,1) published_not_leaves, of r names] by (simp add: published_run)
  with c(1,4) fed_append [OF c(2), of r names] show ?thesis
    unfolding connected_def by (intro exI [of _ i] exI [of _ got] exI [of _ m]) (auto intro: has_shown_later split: option.splits)
qed

lemma connected_others:
  assumes "connected strm matches k read_at h f t" "other_client (tl_id t) op"
  shows "connected strm matches k read_at h (fan_run [op] f) t"
proof -
  from assms obtain i got m where c: "tl_id t = Some i" "fed strm i got m h f" "tl_reported t \<le> dropped_of t f"
    "case read_at of None \<Rightarrow> got = [] \<and> shown (tl_out t) = [] \<and> tl_phase t \<in> {TailSubscribed, TailListed}
     | Some n \<Rightarrow> m \<le> n \<and> n \<le> length h \<and> tl_phase t \<in> {TailStreaming, TailWoken} \<and> has_shown strm matches k n h got t"
    unfolding connected_def by blast
  have "FanUnsubscribe i \<notin> set [op]" using assms(2) c(1) by (auto simp: other_client_def)
  from fed_dropped [OF c(2,1) this] c fed_others [OF c(2), of op] assms(2) show ?thesis
    unfolding connected_def by (intro exI [of _ i] exI [of _ got] exI [of _ m]) simp
qed

lemma connectedE:
  assumes "connected strm matches k read_at h f t"
  obtains (unread) i m where "read_at = None" "tl_id t = Some i" "fed strm i [] m h f" "tl_reported t \<le> dropped_of t f"
      "shown (tl_out t) = []" "tl_phase t \<in> {TailSubscribed, TailListed}"
    | (read) n i got m where "read_at = Some n" "tl_id t = Some i" "fed strm i got m h f" "tl_reported t \<le> dropped_of t f"
      "m \<le> n" "n \<le> length h" "tl_phase t \<in> {TailStreaming, TailWoken}" "has_shown strm matches k n h got t"
  using assms unfolding connected_def by (cases read_at) auto

lemma connected_lists:
  assumes "connected strm matches k read_at h f t" "tl_phase t = TailSubscribed"
  shows "connected strm matches k read_at h f (tail_streams names t)"
  using assms(1)
proof (cases rule: connectedE)
  case (unread i m)
  then show ?thesis unfolding connected_def
    by (intro exI [of _ i] exI [of _ "[]"] exI [of _ m]) (simp add: tail_streams_def sendEvent_def shown_def dropped_of_def)
qed (use assms(2) in auto)

lemma connected_reads:
  assumes "connected strm matches k read_at h f t" "tl_phase t = TailListed"
  shows "connected strm matches k (Some (length h)) h f (tail_backlog matches (last_n k (of_stream strm h)) t)"
  using assms(1)
proof (cases rule: connectedE)
  case (unread i m)
  then have "m \<le> length h" by (simp add: fed_def)
  with unread show ?thesis unfolding connected_def
    by (intro exI [of _ i] exI [of _ "[]"] exI [of _ m])
      (simp add: tail_backlog_def sendEvent_def shown_def dropped_of_def has_shown_def)
qed (use assms(2) in auto)

lemma connected_wakes:
  assumes "connected strm matches k read_at h f t" "tl_phase t = TailStreaming" "tail_wake matches tick t f = (t', f')"
  shows "connected strm matches k read_at h f' t' \<and> f_closed f' = f_closed f"
  using assms(1)
proof (cases rule: connectedE)
  case (read n i got m)
  show ?thesis
  proof (cases tick)
    case True
    with read assms(3) show ?thesis unfolding connected_def
      by (intro conjI exI [of _ i] exI [of _ got] exI [of _ m])
        (auto simp: tail_wake_def sendEvent_def dropped_of_def has_shown_def shown_def Let_def)
  next
    case False
    obtain e f1 where r: "fan_receive i f = (e, f1)" by fastforce
    then have run: "f1 = fan_run [FanReceive i] f" by simp
    have lost: "tl_reported t \<le> dropped_of t f1"
      using read(4) fed_dropped [OF read(3,2), of "[FanReceive i]"] by (simp add: r)
    note fed = fed_receive [OF read(3) r]
    have closed: "f_closed f1 = f_closed f" unfolding run by (rule fan_step_closed)
    show ?thesis
    proof (cases e)
      case None
      with read False assms(2,3) r have "t' = t" "f' = f1" by (auto simp: tail_wake_def)
      with read fed None lost closed show ?thesis unfolding connected_def
        by (intro conjI exI [of _ i] exI [of _ got] exI [of _ m]) simp_all
    next
      case (Some e')
      with read False assms(3) r have t': "t' = (sendEvent (tail_event matches (tl_floor t) e') t)\<lparr>tl_phase := TailWoken\<rparr>" "f' = f1"
        by (auto simp: tail_wake_def)
      have "shown (tail_event matches (tl_floor t) e') = filter (\<lambda>r. tl_floor t < r_seq r \<and> matches r) (tail_lines [e'])"
        by (cases e') (auto simp: tail_event_def shown_def)
      then have "has_shown strm matches k n h (got @ [e']) t'"
        using read(8) by (simp add: has_shown_def t' sendEvent_def Let_def)
      moreover have "tl_reported t' \<le> dropped_of t' f'" using lost by (simp add: t' sendEvent_def dropped_of_def)
      ultimately show ?thesis using read fed Some closed unfolding connected_def
        by (intro conjI exI [of _ i] exI [of _ "got @ [e']"] exI [of _ m]) (simp_all add: t' sendEvent_def)
    qed
  qed
qed (use assms(2) in auto)

lemma connected_checks:
  assumes "connected strm matches k read_at h f t" "tl_phase t = TailWoken"
  shows "connected strm matches k read_at h f (tail_lost now (dropped_of t f) t)"
  using assms(1)
proof (cases rule: connectedE)
  case (read n i got m)
  then show ?thesis unfolding connected_def
    by (intro exI [of _ i] exI [of _ got] exI [of _ m])
      (auto simp: tail_lost_def sendEvent_def dropped_of_def has_shown_def shown_def Let_def)
qed (use assms(2) in auto)

text \<open>The notices add up to what was reported.\<close>

definition reports :: "tail \<Rightarrow> bool" where "reports t \<longleftrightarrow> noticed (tl_out t) = tl_reported t"

lemma reports_steps:
  assumes "reports t"
  shows "reports (tail_streams names t)" "reports (tail_backlog matches rs t)" "reports (tail_lost now lost t)"
    "tail_wake matches tick t f = (t', f') \<Longrightarrow> reports t'" "tail_subscribe strm t f = (t', f') \<Longrightarrow> reports t'"
  using assms
  by (auto simp: reports_def tail_streams_def tail_backlog_def tail_lost_def tail_wake_def tail_subscribe_def sendEvent_def
      noticed_def tail_event_def split: option.splits prod.splits event.splits if_splits)

section \<open>Every run\<close>

context tail_store
begin

definition tail_inv :: "string \<Rightarrow> predicate \<Rightarrow> nat \<Rightarrow> 'st tail_sys \<Rightarrow> bool" where
  "tail_inv strm matches k s \<longleftrightarrow>
     repr (ts_store s) (ts_accepted s) \<and> op_keep ops (ts_store s) = k \<and> reports (ts_tail s) \<and>
     \<not> f_closed (op_feeds ops (ts_store s)) \<and>
     (if tl_phase (ts_tail s) = TailStart
      then ts_read s = None \<and> fan_ok (op_feeds ops (ts_store s)) \<and> tl_id (ts_tail s) = None \<and>
        tl_reported (ts_tail s) = 0 \<and> tl_out (ts_tail s) = []
      else connected strm matches k (ts_read s) (ts_accepted s) (op_feeds ops (ts_store s)) (ts_tail s))"

lemma publish_ok: "fan_ok f \<Longrightarrow> fan_ok (publish_line r f)" "fan_ok f \<Longrightarrow> fan_ok (publish_streams ns f)"
  by (auto simp: fan_ok_def publish_line_def publish_streams_def map_of_map_subs)

lemma published_ok: "fan_ok f \<Longrightarrow> fan_ok (published r names f)"
  using publish_ok by (cases names) (simp_all add: published_def)

lemma other_ok: "fan_ok f \<Longrightarrow> other_client i op \<Longrightarrow> fan_ok (fan_run [op] f)"
  by (cases op) (auto simp: other_client_def fan_ok_def subscribe_def unsubscribe_def fan_receive_def Let_def less_SucI
      delete_conv' update_conv' split: option.splits if_splits)

lemma tail_inv_step:
  assumes "tail_step ops strm matches s s'" "tail_inv strm matches k s"
  shows "tail_inv strm matches k s'"
  using assms
proof (induction rule: tail_step.induct)
  case (append io r s ok st)
  note i = append.prems [unfolded tail_inv_def]
  show ?case
  proof (cases ok)
    case True
    then have a: "op_append ops io r (ts_store s) = (True, st)" using append.hyps by simp
    from numbers [OF conjunct1 [OF i] a] obtain names where
      st: "repr st (ts_accepted s @ [r\<lparr>r_seq := op_seq ops st\<rparr>])" "op_keep ops st = op_keep ops (ts_store s)"
      "op_feeds ops st = published (r\<lparr>r_seq := op_seq ops st\<rparr>) names (op_feeds ops (ts_store s))" by blast
    have "f_closed (op_feeds ops st) = f_closed (op_feeds ops (ts_store s))"
      unfolding st(3) published_run by (rule fan_run_closed)
    with i st True show ?thesis
      by (auto simp: tail_inv_def published_ok connected_append)
  next
    case False
    with append.hyps refused [OF conjunct1 [OF i], of io r st] i show ?thesis by (auto simp: tail_inv_def)
  qed
next
  case (quiet s st)
  with stays [of "ts_store s" "ts_accepted s" st] show ?case by (simp add: tail_inv_def)
next
  case (others s op)
  note i = others.prems [unfolded tail_inv_def]
  have "f_closed (fan_run [op] f) = f_closed f" for f by (rule fan_step_closed)
  with i with_feeds [OF conjunct1 [OF i], of "fan_run [op] (op_feeds ops (ts_store s))"] others.hyps
  show ?case by (auto simp: tail_inv_def other_ok connected_others simp del: fan_run.simps)
next
  case (subscribes s t f)
  note i = subscribes.prems [unfolded tail_inv_def]
  have ok: "fan_ok (op_feeds ops (ts_store s))" "\<not> f_closed (op_feeds ops (ts_store s))" using i subscribes.hyps(1) by auto
  from fed_subscribe [OF ok subscribes.hyps(2), of "ts_accepted s"] obtain j where
    j: "t = (ts_tail s)\<lparr>tl_phase := TailSubscribed, tl_id := Some j\<rparr>" "fed strm j [] (length (ts_accepted s)) (ts_accepted s) f"
      "\<not> f_closed f" by blast
  have "connected strm matches k None (ts_accepted s) f t" unfolding connected_def
    using i j subscribes.hyps(1) by (intro exI [of _ j] exI [of _ "[]"] exI [of _ "length (ts_accepted s)"]) (simp add: shown_def)
  with i j with_feeds [OF conjunct1 [OF i], of f] reports_steps(5) [OF _ subscribes.hyps(2)] subscribes.hyps(1)
  show ?case by (simp add: tail_inv_def)
next
  case (lists s)
  note i = lists.prems [unfolded tail_inv_def]
  from i lists.hyps show ?case
    by (simp add: tail_inv_def connected_lists reports_steps(1)) (simp add: tail_streams_def sendEvent_def)
next
  case (reads s)
  note i = reads.prems [unfolded tail_inv_def]
  have "op_backlog ops strm 0 (ts_store s) = last_n k (of_stream strm (ts_accepted s))"
    using newest [OF conjunct1 [OF i], of 0 strm] i by simp
  moreover have "connected strm matches k (ts_read s) (ts_accepted s) (op_feeds ops (ts_store s)) (ts_tail s)"
    using i reads.hyps by simp
  note connected_reads [OF this reads.hyps]
  ultimately show ?case using i reads.hyps
    by (simp add: tail_inv_def reports_steps(2)) (simp add: tail_backlog_def sendEvent_def)
next
  case (wakes s tick t f)
  note i = wakes.prems [unfolded tail_inv_def]
  have c: "connected strm matches k (ts_read s) (ts_accepted s) (op_feeds ops (ts_store s)) (ts_tail s)" using i wakes.hyps(1) by simp
  note c' = connected_wakes [OF c wakes.hyps]
  then have "tl_phase t \<noteq> TailStart" by (auto elim: connectedE)
  moreover have "reports t" using reports_steps(4) [OF _ wakes.hyps(2)] i by blast
  moreover note with_feeds [OF conjunct1 [OF i], of f]
  ultimately show ?case using c' i unfolding tail_inv_def by simp
next
  case (checks s now)
  note i = checks.prems [unfolded tail_inv_def]
  from i checks.hyps show ?case
    by (simp add: tail_inv_def connected_checks reports_steps(3)) (simp add: tail_lost_def sendEvent_def)
qed

lemma tail_inv_reach:
  assumes "tail_reach ops strm matches (tail_from st h) s" "repr st h" "fan_ok (op_feeds ops st)" "\<not> f_closed (op_feeds ops st)"
  shows "tail_inv strm matches (op_keep ops st) s"
  using assms(1) unfolding tail_reach_def
proof (induction rule: rtranclp_induct)
  case base
  with assms(2-4) show ?case by (simp add: tail_inv_def tail_from_def new_tail_def reports_def noticed_def)
next
  case (step s s')
  then show ?case using tail_inv_step by blast
qed

lemma tail_shows:
  assumes "tail_reach ops strm matches (tail_from st h) s" "repr st h" "fan_ok (op_feeds ops st)" "\<not> f_closed (op_feeds ops st)"
    and "ts_read s = Some n"
  shows "\<exists>i sub. tl_id (ts_tail s) = Some i \<and> map_of (f_subs (op_feeds ops (ts_store s))) i = Some sub \<and>
    subseq (shown (tl_out (ts_tail s))) (due_to strm matches (op_keep ops st) n (ts_accepted s)) \<and>
    length (due_to strm matches (op_keep ops st) n (ts_accepted s)) \<le>
      length (shown (tl_out (ts_tail s))) + length (s_queue sub) + s_dropped sub \<and>
    noticed (tl_out (ts_tail s)) \<le> s_dropped sub"
proof -
  let ?k = "op_keep ops st" and ?h = "ts_accepted s" and ?t = "ts_tail s"
  note i = tail_inv_reach [OF assms(1-4), unfolded tail_inv_def]
  have rep: "repr (ts_store s) ?h" using i by simp
  have "tl_phase ?t \<noteq> TailStart" using i assms(5) by (auto split: if_splits)
  with i have "connected strm matches ?k (ts_read s) ?h (op_feeds ops (ts_store s)) ?t" by simp
  then show ?thesis
  proof (cases rule: connectedE)
    case (read n' j got m)
    then have n: "n' = n" using assms(5) by simp
    from read(3) obtain sub base where sub: "map_of (f_subs (op_feeds ops (ts_store s))) j = Some sub"
      "accounts got 0 base sub" "tail_lines base = of_stream strm (drop m ?h)" by (auto simp: fed_def)
    let ?old = "last_n ?k (of_stream strm (take n ?h))"
    let ?P = "\<lambda>r. highest_seq ?old < r_seq r \<and> matches r"
    have base: "filter ?P (tail_lines base) = filter matches (of_stream strm (drop n ?h))"
      unfolding sub(3) using floor_parts [OF _ _ read(5,6)] ordered [OF rep] keeps [OF assms(2)] by (simp add: n)
    have "subseq got (got @ s_queue sub)" by (simp add: prefix_imp_subseq)
    with sub(2) have "subseq got base" unfolding accounts_def by (meson subseq_order.order_trans)
    from lines_missing [OF this, of ?P] base have lines:
      "subseq (filter ?P (tail_lines got)) (filter matches (of_stream strm (drop n ?h)))"
      "length (filter matches (of_stream strm (drop n ?h))) + length got \<le> length (filter ?P (tail_lines got)) + length base"
      by auto
    have out: "shown (tl_out ?t) = filter matches ?old @ filter ?P (tail_lines got)"
      using read(8) by (simp add: has_shown_def n Let_def)
    have "noticed (tl_out ?t) \<le> s_dropped sub" using i read(2,4) sub(1) by (simp add: reports_def dropped_of_def)
    moreover have "length base = s_dropped sub + length got + length (s_queue sub)" using sub(2) by (simp add: accounts_def)
    ultimately show ?thesis using read(2) sub(1) lines
      by (intro exI [of _ j] exI [of _ sub]) (auto simp: out due_to_def intro: list_emb_append_mono)
  qed (use assms(5) in simp)
qed

end

section \<open>Both stores\<close>

definition memory_ops :: "(unit, memory) store_ops" where
  "memory_ops = \<lparr>op_append = (\<lambda>_ r m. (True, memory_append r m)), op_backlog = memory_backlog, op_streams = memory_streams,
     op_feeds = m_fanout, op_with_feeds = (\<lambda>f m. m\<lparr>m_fanout := f\<rparr>), op_keep = m_size, op_seq = m_seq,
     op_quiet = (\<lambda>_ _. False)\<rparr>"

text \<open>In the background the durable store moves records into files and cleans up after itself.\<close>

definition quiet_durable :: "durable \<Rightarrow> durable \<Rightarrow> bool" where
  "quiet_durable d d' \<longleftrightarrow> d_opts d' = d_opts d \<and> d_streams d' = d_streams d \<and> d_seq d' = d_seq d \<and> d_fanout d' = d_fanout d"

lemma quiet_refl: "quiet_durable d d"
  by (simp add: quiet_durable_def)

lemma quiet_trans: "quiet_durable d d' \<Longrightarrow> quiet_durable d' d'' \<Longrightarrow> quiet_durable d d''"
  by (simp add: quiet_durable_def)

lemma replay_segment_quiet: "quiet_durable d (snd (snd (replay_segment size_of cols io n d)))"
  by (auto simp: replay_segment_def quiet_durable_def Let_def split: option.split prod.split)

lemma retry_segments_quiet: "quiet_durable d (snd (retry_segments size_of cols io ns d))"
proof (induction ns arbitrary: d)
  case (Cons n ns)
  have "quiet_durable d (snd (snd (replay_segment size_of cols io n d)))" by (rule replay_segment_quiet)
  from quiet_trans [OF this Cons.IH] show ?case by (simp add: case_prod_beta)
qed (simp add: quiet_refl)

lemma retry_quiet: "quiet_durable d (snd (retry size_of cols io d))"
  using retry_segments_quiet [of d size_of cols io "d_unflushed d"]
  by (simp add: retry_def case_prod_beta quiet_durable_def)

lemma flush_quiet: "quiet_durable d (snd (flush size_of cols io d))"
proof -
  obtain retried d1 where r: "retry size_of cols io d = (retried, d1)" by fastforce
  with retry_quiet [of d size_of cols io] have d1: "quiet_durable d d1" by simp
  have "quiet_durable d1 (snd (flush size_of cols io d))" if "\<not> d_closed d"
    using that by (auto simp: flush_def r seal_def backOff_def quiet_durable_def Let_def
        split: prod.split option.split seal_result.split bool.split)
  with quiet_trans [OF d1] show ?thesis by (cases "d_closed d") (auto simp: flush_def quiet_refl)
qed

text \<open>Flushes, the sweep and the collection are background work in that sense.\<close>

lemma background_quiet:
  "quiet_durable d (snd (flush size_of cols io d))" "quiet_durable d (snd (sweep io d))"
  "quiet_durable d (snd (collect io d))" "quiet_durable d (unkick d)"
  by (rule flush_quiet) (simp_all add: quiet_durable_def sweep_def collect_def unkick_def Let_def split: prod.split)

definition durable_ops :: "(store_io, durable) store_ops" where
  "durable_ops = \<lparr>op_append = append_accepts, op_backlog = durable_backlog, op_streams = durable_streams,
     op_feeds = d_fanout, op_with_feeds = (\<lambda>f d. d\<lparr>d_fanout := f\<rparr>), op_keep = (\<lambda>d. nat (o_backlog (d_opts d))),
     op_seq = d_seq, op_quiet = quiet_durable\<rparr>"

lemma memory_numbers:
  assumes "memory_repr m h" "m' = memory_append r m"
  shows "\<exists>names. memory_repr m' (h @ [r\<lparr>r_seq := m_seq m'\<rparr>]) \<and> m_size m' = m_size m \<and>
    m_fanout m' = published (r\<lparr>r_seq := m_seq m'\<rparr>) names (m_fanout m)"
  using memory_append_repr [OF assms(1), of r] memory_append_feeds [of r m] by (auto simp: assms(2))

lemma memory_store: "tail_store memory_repr memory_ops"
proof (rule tail_store.intro)
  show "log_store memory_repr (op_append memory_ops) (op_backlog memory_ops) (op_feeds memory_ops) (op_keep memory_ops)"
    using memory.log_store_axioms by (simp add: memory_ops_def)
  show "tail_store_axioms memory_repr memory_ops"
  proof
    show "\<exists>names. memory_repr m' (h @ [r\<lparr>r_seq := op_seq memory_ops m'\<rparr>]) \<and> op_keep memory_ops m' = op_keep memory_ops m \<and>
        op_feeds memory_ops m' = published (r\<lparr>r_seq := op_seq memory_ops m'\<rparr>) names (op_feeds memory_ops m)"
      if "memory_repr m h" "op_append memory_ops io r m = (True, m')" for m h io r m'
    proof -
      have "m' = memory_append r m" using that(2) by (simp add: memory_ops_def)
      from memory_numbers [OF that(1) this] show ?thesis by (simp add: memory_ops_def)
    qed
  qed (simp_all add: memory_ops_def memory_repr_def rings_hold_def)
qed

interpretation live_memory: tail_store memory_repr memory_ops
  by (rule memory_store)

lemma durable_numbers:
  assumes "durable_repr d h" "append_accepts io r d = (True, d')"
  shows "\<exists>names. durable_repr d' (h @ [r\<lparr>r_seq := d_seq d'\<rparr>]) \<and> d_opts d' = d_opts d \<and>
    d_fanout d' = published (r\<lparr>r_seq := d_seq d'\<rparr>) names (d_fanout d)"
proof -
  from assms(2) obtain kick where a: "durable_append io r d = (True, kick, d')"
    by (auto simp: append_accepts_def split: prod.splits)
  from a durable_append_repr [OF assms(1) a] show ?thesis by (cases rule: durable_append_cases) auto
qed

lemma durable_store: "tail_store durable_repr durable_ops"
proof (rule tail_store.intro)
  show "log_store durable_repr (op_append durable_ops) (op_backlog durable_ops) (op_feeds durable_ops) (op_keep durable_ops)"
    using durable.log_store_axioms by (simp add: durable_ops_def)
  show "tail_store_axioms durable_repr durable_ops"
  proof
    show "\<exists>names. durable_repr d' (h @ [r\<lparr>r_seq := op_seq durable_ops d'\<rparr>]) \<and> op_keep durable_ops d' = op_keep durable_ops d \<and>
        op_feeds durable_ops d' = published (r\<lparr>r_seq := op_seq durable_ops d'\<rparr>) names (op_feeds durable_ops d)"
      if "durable_repr d h" "op_append durable_ops io r d = (True, d')" for d h io r d'
      using durable_numbers [OF that(1), of io r d'] that(2) by (auto simp: durable_ops_def)
  qed (auto simp: durable_ops_def durable_repr_def quiet_durable_def rings_hold_def)
qed

interpretation live_durable: tail_store durable_repr durable_ops
  by (rule durable_store)

text \<open>
  C26: a live tail over the durable store shows every matching record once, in the order of the store,
  or counts what it lost.  At any moment of any run, among any appends, refused or not, other clients
  coming, reading and leaving, and the store's background work: what it was shown, backlog and lines
  together, is what was due to it (the newest records of its stream when the backlog was read, and
  every one accepted since, that match) less no more than what is still queued for it or was dropped;
  and the notices it got do not tell of more lost than there were.
\<close>

theorem tail_shows_each_once:
  assumes "durable_repr d h" "fan_ok (d_fanout d)" "\<not> f_closed (d_fanout d)"
    and "tail_reach durable_ops strm matches (tail_from d h) s" "ts_read s = Some n"
  shows "\<exists>i sub. tl_id (ts_tail s) = Some i \<and> map_of (f_subs (d_fanout (ts_store s))) i = Some sub \<and>
    subseq (shown (tl_out (ts_tail s))) (due_to strm matches (nat (o_backlog (d_opts d))) n (ts_accepted s)) \<and>
    length (due_to strm matches (nat (o_backlog (d_opts d))) n (ts_accepted s)) \<le>
      length (shown (tl_out (ts_tail s))) + length (s_queue sub) + s_dropped sub \<and>
    noticed (tl_out (ts_tail s)) \<le> s_dropped sub"
  using live_durable.tail_shows [OF assms(4,1) _ _ assms(5)] assms(2,3) by (simp add: durable_ops_def)

text \<open>The same over the store in memory.\<close>

lemma memory_tail_shows:
  assumes "tail_reach memory_ops strm matches (tail_from (new_memory n) []) s" "ts_read s = Some k"
  shows "\<exists>i sub. tl_id (ts_tail s) = Some i \<and> map_of (f_subs (m_fanout (ts_store s))) i = Some sub \<and>
    subseq (shown (tl_out (ts_tail s))) (due_to strm matches (m_size (new_memory n)) k (ts_accepted s)) \<and>
    length (due_to strm matches (m_size (new_memory n)) k (ts_accepted s)) \<le>
      length (shown (tl_out (ts_tail s))) + length (s_queue sub) + s_dropped sub \<and>
    noticed (tl_out (ts_tail s)) \<le> s_dropped sub"
proof -
  have "memory_repr (new_memory n) []" using memory_run [of "[]" n] by (simp add: numbered_def)
  moreover have "fan_ok (m_fanout (new_memory n))" "\<not> f_closed (m_fanout (new_memory n))"
    by (simp_all add: new_memory_def empty_fanout_def fan_ok_def)
  ultimately show ?thesis
    using live_memory.tail_shows [OF assms(1) _ _ _ assms(2)] by (simp add: memory_ops_def)
qed

text \<open>A connection to a fresh store: nothing in the backlog, then the one line that is appended.\<close>

abbreviation ex_sub :: subscription where
  "ex_sub \<equiv> \<lparr>s_stream = '''', s_cap = 1024, s_queue = [], s_dropped = 0, s_closed = False\<rparr>"

abbreviation ex_feeds :: "subscription \<Rightarrow> fanout" where
  "ex_feeds sub \<equiv> \<lparr>f_next = 1, f_subs = [(0, sub)], f_gone = [], f_closed = False\<rparr>"

abbreviation ex_line :: rec where "ex_line \<equiv> demo_line\<lparr>r_seq := 1\<rparr>"

definition ex_tail :: "tail_phase \<Rightarrow> sse list \<Rightarrow> tail" where
  "ex_tail phase out = \<lparr>tl_phase = phase, tl_id = Some 0, tl_floor = 0, tl_reported = 0, tl_reported_at = None, tl_out = out\<rparr>"

definition ex_store :: "subscription \<Rightarrow> durable" where
  "ex_store sub = (snd (append_accepts demo_store_io demo_line (z_store demo_fresh)))\<lparr>d_fanout := ex_feeds sub\<rparr>"

lemma ex_tail_append:
  "append_accepts demo_store_io demo_line ((z_store demo_fresh)\<lparr>d_fanout := ex_feeds ex_sub\<rparr>) =
     (True, ex_store (ex_sub\<lparr>s_queue := [EventStreams [''web''], EventLine ex_line]\<rparr>))"
  "d_seq (ex_store sub) = 1" "d_fanout (ex_store sub) = ex_feeds sub"
  by (simp_all add: append_accepts_def ex_store_def demo_fresh_eq durable_append_def alog_append_def demo_io_append Let_def
      publish_line_def publish_streams_def send_def empty_rec_def)

lemma ex_tail_reach:
  "tail_reach durable_ops '''' (\<lambda>r. True) (tail_from (z_store demo_fresh) [])
     \<lparr>ts_store = ex_store ex_sub, ts_accepted = [ex_line], ts_read = Some 0,
      ts_tail = ex_tail TailWoken [SseStreams [], SseBacklog [], SseStreams [''web''], SseLine ex_line]\<rparr>"
proof -
  let ?step = "tail_step durable_ops '''' (\<lambda>r. True)"
  let ?d = "(z_store demo_fresh)\<lparr>d_fanout := ex_feeds ex_sub\<rparr>"
  let ?s = "\<lambda>st h n t. \<lparr>ts_store = st, ts_accepted = h, ts_read = n, ts_tail = t\<rparr>"
  let ?q1 = "ex_sub\<lparr>s_queue := [EventStreams [''web''], EventLine ex_line]\<rparr>"
  let ?q2 = "ex_sub\<lparr>s_queue := [EventLine ex_line]\<rparr>"
  have 1: "?step (tail_from (z_store demo_fresh) []) (?s ?d [] None (ex_tail TailSubscribed []))"
    using tail_step.subscribes [of "tail_from (z_store demo_fresh) []" "''''" durable_ops _ _ "\<lambda>r. True"]
    by (simp add: tail_from_def new_tail_def tail_subscribe_def subscribe_def subscriberBuffer_def durable_ops_def
        demo_fresh_eq(1) empty_fanout_def ex_tail_def Let_def)
  have 2: "?step (?s ?d [] None (ex_tail TailSubscribed [])) (?s ?d [] None (ex_tail TailListed [SseStreams []]))"
    using tail_step.lists [of "?s ?d [] None (ex_tail TailSubscribed [])" durable_ops "''''" "\<lambda>r. True"]
    by (simp add: tail_streams_def sendEvent_def durable_ops_def durable_streams_def demo_fresh_eq(1) ex_tail_def)
  have 3: "?step (?s ?d [] None (ex_tail TailListed [SseStreams []]))
      (?s ?d [] (Some 0) (ex_tail TailStreaming [SseStreams [], SseBacklog []]))"
    using tail_step.reads [of "?s ?d [] None (ex_tail TailListed [SseStreams []])" durable_ops "''''" "\<lambda>r. True"]
    by (simp add: tail_backlog_def sendEvent_def durable_ops_def durable_backlog_def rings_backlog_def demo_fresh_eq(1)
        ex_tail_def highest_seq_def Let_def)
  let ?t1 = "ex_tail TailStreaming [SseStreams [], SseBacklog []]"
  let ?out2 = "[SseStreams [], SseBacklog [], SseStreams [''web'']]"
  let ?out3 = "[SseStreams [], SseBacklog [], SseStreams [''web''], SseLine ex_line]"
  have "op_append durable_ops demo_store_io demo_line (ts_store (?s ?d [] (Some 0) ?t1)) = (True, ex_store ?q1)"
    by (simp only: durable_ops_def store_ops.simps tail_sys.simps ex_tail_append(1))
  from tail_step.append [OF this, of "''''" "\<lambda>r. True"]
  have 4: "?step (?s ?d [] (Some 0) ?t1) (?s (ex_store ?q1) [ex_line] (Some 0) ?t1)"
    by (simp add: durable_ops_def ex_tail_append(2))
  have feeds: "op_feeds durable_ops (ex_store sub) = ex_feeds sub"
    "op_with_feeds durable_ops (ex_feeds sub') (ex_store sub) = ex_store sub'" for sub sub'
    by (simp_all add: durable_ops_def ex_store_def)
  have wake: "tail_wake (\<lambda>r. True) False (ex_tail TailStreaming out) (ex_feeds (ex_sub\<lparr>s_queue := e # es\<rparr>)) =
      (ex_tail TailWoken (out @ tail_event (\<lambda>r. True) 0 e), ex_feeds (ex_sub\<lparr>s_queue := es\<rparr>))" for out e es
    by (simp add: tail_wake_def ex_tail_def fan_receive_def receive_def sendEvent_def)
  have wakes: "?step (?s (ex_store (ex_sub\<lparr>s_queue := e # es\<rparr>)) h n (ex_tail TailStreaming out))
      (?s (ex_store (ex_sub\<lparr>s_queue := es\<rparr>)) h n (ex_tail TailWoken (out @ tail_event (\<lambda>r. True) 0 e)))" for e es h n out
  proof -
    have "tl_phase (ts_tail (?s (ex_store (ex_sub\<lparr>s_queue := e # es\<rparr>)) h n (ex_tail TailStreaming out))) = TailStreaming"
      by (simp add: ex_tail_def)
    from tail_step.wakes [where ops = durable_ops and strm = "''''" and matches = "\<lambda>r. True" and tick = False,
        OF this, unfolded tail_sys.simps feeds, OF wake] show ?thesis
      by (simp only: tail_sys.simps feeds)
  qed
  have 5: "?step (?s (ex_store ?q1) [ex_line] (Some 0) ?t1) (?s (ex_store ?q2) [ex_line] (Some 0) (ex_tail TailWoken ?out2))"
    using wakes [of "EventStreams [''web'']" "[EventLine ex_line]" "[ex_line]" "Some 0" "[SseStreams [], SseBacklog []]"]
    by (simp add: tail_event_def)
  have 6: "?step (?s (ex_store ?q2) [ex_line] (Some 0) (ex_tail TailWoken ?out2))
      (?s (ex_store ?q2) [ex_line] (Some 0) (ex_tail TailStreaming ?out2))"
    using tail_step.checks [of "?s (ex_store ?q2) [ex_line] (Some 0) (ex_tail TailWoken ?out2)" durable_ops "''''" "\<lambda>r. True" 0]
    by (simp add: ex_tail_def tail_lost_def dropped_of_def durable_ops_def ex_tail_append(3))
  have 7: "?step (?s (ex_store ?q2) [ex_line] (Some 0) (ex_tail TailStreaming ?out2))
      (?s (ex_store ex_sub) [ex_line] (Some 0) (ex_tail TailWoken ?out3))"
    using wakes [of "EventLine ex_line" "[]" "[ex_line]" "Some 0" ?out2] by (simp add: tail_event_def)
  show ?thesis unfolding tail_reach_def
    by (intro converse_rtranclp_into_rtranclp [where r = ?step, OF 1] converse_rtranclp_into_rtranclp [where r = ?step, OF 2] converse_rtranclp_into_rtranclp [where r = ?step, OF 3]
        converse_rtranclp_into_rtranclp [where r = ?step, OF 4] converse_rtranclp_into_rtranclp [where r = ?step, OF 5] converse_rtranclp_into_rtranclp [where r = ?step, OF 6]
        converse_rtranclp_into_rtranclp [where r = ?step, OF 7] rtranclp.rtrancl_refl)
qed

theorem tail_shows_each_once_witness:
  "\<exists>s. tail_reach durable_ops '''' (\<lambda>r. True) (tail_from (z_store demo_fresh) []) s \<and> ts_accepted s = [ex_line] \<and>
     shown (tl_out (ts_tail s)) = due_to '''' (\<lambda>r. True) 2 0 [ex_line] \<and> due_to '''' (\<lambda>r. True) 2 0 [ex_line] = [ex_line]"
proof -
  have keep: "nat (o_backlog (d_opts (z_store demo_fresh))) = 2"
    unfolding demo_fresh_eq(1) by (simp add: withDefaults_def demo_opts_def)
  have fresh: "durable_repr (z_store demo_fresh) []" "fan_ok (d_fanout (z_store demo_fresh))" "\<not> f_closed (d_fanout (z_store demo_fresh))"
    using keep by (simp_all add: durable_repr_def seq_sorted_def rings_hold_def fan_ok_def empty_fanout_def demo_fresh_eq(1))
  let ?out = "[SseStreams [], SseBacklog [], SseStreams [''web''], SseLine ex_line]"
  have due: "due_to '''' (\<lambda>r. True) 2 0 [x] = [x]" for x by (simp add: due_to_def of_stream_def last_n_def)
  from tail_shows_each_once [OF fresh ex_tail_reach] have
    "subseq (shown ?out) [ex_line] \<and> length [ex_line] \<le> length (shown ?out)"
    unfolding keep by (auto simp: due ex_tail_def ex_tail_append(3))
  then have "shown ?out = [ex_line]" using subseq_same_length [of "shown ?out" "[ex_line]"] list_emb_length by fastforce
  with ex_tail_reach due show ?thesis by (auto simp: ex_tail_def intro!: exI)
qed

end
