(* ===== verification/Auth.thy ===== *)
theory Auth
  imports GoStrings "HOL-Library.Sublist"
begin

text \<open>
  The shared token, \<open>src/internal/auth/auth.go\<close>: what a request must carry, what a guarded handler does
  with one, and which addresses are reachable only from this machine.  A request is what the guard
  reads of it; parsing an address and looking a name up are parameters.
\<close>

record guard =
  gd_token :: string
  gd_secure :: bool

record http_request =
  hr_method :: string
  hr_path :: string
  hr_authorization :: string
  hr_rtail_token :: string
  hr_cookie :: "string option"
  hr_query_token :: string
  hr_accept :: string
  hr_stripped :: string  \<comment> \<open>its address without the token\<close>

definition New :: "string \<Rightarrow> bool \<Rightarrow> guard" where
  "New token secure = \<lparr>gd_token = trim_space token, gd_secure = secure\<rparr>"

definition Enabled :: "guard \<Rightarrow> bool" where "Enabled g \<longleftrightarrow> gd_token g \<noteq> ''''"

text \<open>\<open>subtle.ConstantTimeCompare\<close> tells equal from not; its time is not modelled.\<close>

definition guard_matches :: "guard \<Rightarrow> string \<Rightarrow> bool" where
  "guard_matches g candidate \<longleftrightarrow> candidate = gd_token g"

definition Allows :: "guard \<Rightarrow> http_request \<Rightarrow> bool" where
  "Allows g r \<longleftrightarrow>
     \<not> Enabled g
     \<or> prefix ''Bearer '' (hr_authorization r) \<and> guard_matches g (drop 7 (hr_authorization r))
     \<or> hr_rtail_token r \<noteq> '''' \<and> guard_matches g (hr_rtail_token r)
     \<or> (case hr_cookie r of None \<Rightarrow> False | Some v \<Rightarrow> guard_matches g v)"

record cookie =
  ck_value :: string
  ck_secure :: bool
  ck_http_only :: bool

definition SetCookie :: "guard \<Rightarrow> cookie" where
  "SetCookie g = \<lparr>ck_value = gd_token g, ck_secure = gd_secure g, ck_http_only = True\<rparr>"

datatype denial = SignInPage | DeniedJSON

definition wantsHTML :: "http_request \<Rightarrow> bool" where
  "wantsHTML r \<longleftrightarrow> sublist ''text/html'' (hr_accept r)"

definition deny :: "http_request \<Rightarrow> denial" where
  "deny r = (if wantsHTML r then SignInPage else DeniedJSON)"

datatype wrapped = Served | Redirected string cookie | Denied denial

definition Wrap :: "guard \<Rightarrow> string list \<Rightarrow> http_request \<Rightarrow> wrapped" where
  "Wrap g exempt r =
     (if \<not> Enabled g then Served
      else if hr_path r \<in> set exempt then Served
      else if hr_query_token r \<noteq> '''' \<and> guard_matches g (hr_query_token r) then
        (if hr_method r \<noteq> ''GET'' \<and> hr_method r \<noteq> ''HEAD'' then Served
         else Redirected (hr_stripped r) (SetCookie g))
      else if \<not> Allows g r then Denied (deny r)
      else Served)"

text \<open>The addresses a name stands for, where it is not an address itself; each is loopback or not.\<close>

record net_lib =
  nt_parse :: "string \<Rightarrow> bool option"       \<comment> \<open>an address, and whether it is loopback\<close>
  nt_lookup :: "string \<Rightarrow> bool list option"

definition IsLoopback :: "net_lib \<Rightarrow> string \<Rightarrow> bool" where
  "IsLoopback lib host =
     (if host = '''' then False
      else case nt_parse lib host of
        Some loopback \<Rightarrow> loopback
      | None \<Rightarrow> (case nt_lookup lib host of None \<Rightarrow> False | Some addrs \<Rightarrow> addrs \<noteq> [] \<and> list_all id addrs))"

section \<open>What a guard lets through\<close>

text \<open>The token is in one of the four places a client may put it.\<close>

definition carries :: "string \<Rightarrow> http_request \<Rightarrow> bool" where
  "carries token r \<longleftrightarrow>
     hr_authorization r = ''Bearer '' @ token \<or> hr_rtail_token r = token \<or> hr_cookie r = Some token \<or> hr_query_token r = token"

lemma Allows_carries: "Enabled g \<Longrightarrow> Allows g r \<Longrightarrow> carries (gd_token g) r"
  by (auto simp: Allows_def carries_def guard_matches_def prefix_def split: option.splits)

lemma Wrap_closed: "Enabled g \<Longrightarrow> hr_path r \<notin> set exempt \<Longrightarrow> \<not> carries (gd_token g) r \<Longrightarrow> Wrap g exempt r = Denied (deny r)"
  using Allows_carries by (auto simp: Wrap_def carries_def guard_matches_def)

lemma Wrap_open: "Enabled g \<Longrightarrow> carries (gd_token g) r \<Longrightarrow> Wrap g exempt r = Served \<or> Wrap g exempt r = Redirected (hr_stripped r) (SetCookie g)"
  by (auto simp: Wrap_def carries_def guard_matches_def Allows_def Enabled_def)

end
