(* ===== verification/Config.thy ===== *)
theory Config
  imports Auth Severity
begin

text \<open>
  The server's configuration, \<open>src/internal/config/config.go\<close>: from the environment and the command line
  to the values of the options, and the checks that refuse dangerous ones.  A configuration is the
  value of every option by its long name.  How arguments are split into flags, durations and floats
  are parsed, and values are quoted is the standard library's, and a parameter.
\<close>

section \<open>Values\<close>

datatype opt_kind = OptString | OptDuration | OptInt | OptBool

datatype opt_value = VString string | VDuration int | VInt int | VBool bool

record config_lib =
  cl_net :: net_lib
  cl_lower :: "string \<Rightarrow> string"
  cl_upper :: "string \<Rightarrow> string"
  cl_quoted :: "string \<Rightarrow> string"
  cl_duration_text :: "int \<Rightarrow> string"
  cl_duration :: "string \<Rightarrow> int option"           \<comment> \<open>\<open>time.ParseDuration\<close>\<close>
  cl_count :: "string \<Rightarrow> int \<Rightarrow> int option"  \<comment> \<open>a finite float that many times, where that fits\<close>

definition day :: int where "day = 24 * 3600 * 10 ^ 9"

definition ParseDuration :: "config_lib \<Rightarrow> string \<Rightarrow> string + int" where
  "ParseDuration lib v =
     (let trimmed = trim_space v;
          multiplier = (if suffix ''d'' trimmed then day else if suffix ''w'' trimmed then 7 * day else 0)
      in if trimmed = '''' then Inr 0
         else if multiplier \<noteq> 0 then
           (case cl_count lib (butlast trimmed) multiplier of
              None \<Rightarrow> Inl (''bad duration '' @ cl_quoted lib v) | Some n \<Rightarrow> Inr n)
         else case cl_duration lib trimmed of
           None \<Rightarrow> Inl (''bad duration '' @ cl_quoted lib v @ '' (try 30d, 12h, 90m)'') | Some n \<Rightarrow> Inr n)"

definition true_words :: "string list" where "true_words = [''1'', ''t'', ''T'', ''TRUE'', ''true'', ''True'']"
definition false_words :: "string list" where "false_words = [''0'', ''f'', ''F'', ''FALSE'', ''false'', ''False'']"

definition parse_bool :: "string \<Rightarrow> bool option" where
  "parse_bool s = (if s \<in> set true_words then Some True else if s \<in> set false_words then Some False else None)"

section \<open>The environment\<close>

definition envKey :: "config_lib \<Rightarrow> string \<Rightarrow> string" where
  "envKey lib name = ''RTAIL_'' @ to_upper (cl_upper lib) (map (\<lambda>c. if c = CHR ''-'' then CHR ''_'' else c) name)"

definition serviceLink :: "string \<Rightarrow> string \<Rightarrow> bool" where
  "serviceLink key v \<longleftrightarrow> suffix ''_PORT'' key \<and> (\<exists>scheme\<in>set [''tcp://'', ''udp://'', ''sctp://'']. prefix scheme v)"

type_synonym environ = "string \<Rightarrow> string option"

definition env :: "config_lib \<Rightarrow> environ \<Rightarrow> string \<Rightarrow> string \<Rightarrow> string" where
  "env lib e name fallback = (case e (envKey lib name) of Some v \<Rightarrow> v | None \<Rightarrow> fallback)"

text \<open>The value, the fallback where there is an error, and the error.\<close>

definition envInt :: "config_lib \<Rightarrow> environ \<Rightarrow> string \<Rightarrow> int \<Rightarrow> int \<times> string option" where
  "envInt lib e name fallback =
     (case e (envKey lib name) of
        None \<Rightarrow> (fallback, None)
      | Some v \<Rightarrow>
          (if serviceLink (envKey lib name) v then (fallback, None)
           else case parse_int 64 (trim_space v) of
             Some n \<Rightarrow> (n, None)
           | None \<Rightarrow> (fallback, Some (envKey lib name @ ''='' @ cl_quoted lib v @ '' is not a whole number''))))"

definition envBool :: "config_lib \<Rightarrow> environ \<Rightarrow> string \<Rightarrow> bool \<Rightarrow> bool \<times> string option" where
  "envBool lib e name fallback =
     (case e (envKey lib name) of
        None \<Rightarrow> (fallback, None)
      | Some v \<Rightarrow>
          (case parse_bool (trim_space v) of
             Some b \<Rightarrow> (b, None)
           | None \<Rightarrow> (fallback, Some (envKey lib name @ ''='' @ cl_quoted lib v @ '' is not true or false''))))"

definition envDuration :: "config_lib \<Rightarrow> environ \<Rightarrow> string \<Rightarrow> int \<Rightarrow> int \<times> string option" where
  "envDuration lib e name fallback =
     (case e (envKey lib name) of
        None \<Rightarrow> (fallback, None)
      | Some v \<Rightarrow>
          (case ParseDuration lib v of
             Inr n \<Rightarrow> (n, None) | Inl err \<Rightarrow> (fallback, Some (envKey lib name @ '': '' @ err))))"

section \<open>Options\<close>

record option_def =
  od_long :: string
  od_short :: string
  od_fallback :: opt_value

definition str_opt :: "string \<Rightarrow> string \<Rightarrow> string \<Rightarrow> option_def" where
  "str_opt long short fallback = \<lparr>od_long = long, od_short = short, od_fallback = VString fallback\<rparr>"
definition num_opt :: "string \<Rightarrow> string \<Rightarrow> int \<Rightarrow> option_def" where
  "num_opt long short fallback = \<lparr>od_long = long, od_short = short, od_fallback = VInt fallback\<rparr>"
definition dur_opt :: "string \<Rightarrow> int \<Rightarrow> option_def" where
  "dur_opt long fallback = \<lparr>od_long = long, od_short = '''', od_fallback = VDuration fallback\<rparr>"
definition bool_opt :: "string \<Rightarrow> bool \<Rightarrow> option_def" where
  "bool_opt long fallback = \<lparr>od_long = long, od_short = '''', od_fallback = VBool fallback\<rparr>"

definition option_defs :: "option_def list" where
  "option_defs = [str_opt ''udp-host'' ''uh'' ''127.0.0.1'', num_opt ''udp-port'' ''up'' 9999,
     str_opt ''web-host'' ''wh'' ''127.0.0.1'', num_opt ''web-port'' ''wp'' 8888, num_opt ''backlog'' ''b'' 100,
     str_opt ''data'' '''' '''', str_opt ''web-root'' '''' '''',
     dur_opt ''compact-interval'' (5 * 60 * 10 ^ 9), str_opt ''cluster-by'' '''' ''level'', dur_opt ''retention'' 0,
     dur_opt ''retention-raw'' 0, dur_opt ''downsample-after'' 0, str_opt ''downsample-level'' '''' ''WARN'',
     num_opt ''syslog-port'' '''' 0, str_opt ''syslog-host'' '''' '''', str_opt ''ingest-stream'' '''' ''http'',
     num_opt ''max-body-mb'' '''' 32, str_opt ''auth-token'' '''' '''', str_opt ''tls-cert'' '''' '''',
     str_opt ''tls-key'' '''' '''', bool_opt ''insecure'' False, bool_opt ''verbose'' False]"

definition from_env :: "config_lib \<Rightarrow> environ \<Rightarrow> option_def \<Rightarrow> opt_value \<times> string option" where
  "from_env lib e d =
     (case od_fallback d of
        VString s \<Rightarrow> (VString (env lib e (od_long d) s), None)
      | VInt n \<Rightarrow> (case envInt lib e (od_long d) n of (v, err) \<Rightarrow> (VInt v, err))
      | VDuration n \<Rightarrow> (case envDuration lib e (od_long d) n of (v, err) \<Rightarrow> (VDuration v, err))
      | VBool b \<Rightarrow> (case envBool lib e (od_long d) b of (v, err) \<Rightarrow> (VBool v, err)))"

text \<open>A flag's text as the kind of value its option has; integers are read by the flag package.\<close>

definition flag_value :: "config_lib \<Rightarrow> (string \<Rightarrow> int option) \<Rightarrow> opt_value \<Rightarrow> string \<Rightarrow> opt_value option" where
  "flag_value lib flag_int kind v =
     (case kind of
        VString _ \<Rightarrow> Some (VString v)
      | VInt _ \<Rightarrow> map_option VInt (flag_int v)
      | VDuration _ \<Rightarrow> (case ParseDuration lib v of Inr n \<Rightarrow> Some (VDuration n) | Inl _ \<Rightarrow> None)
      | VBool _ \<Rightarrow> map_option VBool (parse_bool v))"

definition long_name :: "string \<Rightarrow> string option" where
  "long_name name =
     (case filter (\<lambda>d. od_long d = name \<or> od_short d \<noteq> '''' \<and> od_short d = name) option_defs of
        [] \<Rightarrow> None | d # _ \<Rightarrow> Some (od_long d))"

type_synonym config = "string \<Rightarrow> opt_value option"

text \<open>The flags in the order they are given; a later one wins, a bad one ends it.\<close>

fun set_flags :: "config_lib \<Rightarrow> (string \<Rightarrow> int option) \<Rightarrow> (string \<times> string) list \<Rightarrow> config \<Rightarrow> config option" where
  "set_flags lib flag_int [] c = Some c"
| "set_flags lib flag_int ((name, v) # fs) c =
     (case long_name name of
        None \<Rightarrow> None
      | Some long \<Rightarrow>
          (case c long of
             None \<Rightarrow> None
           | Some old \<Rightarrow>
               (case flag_value lib flag_int old v of
                  None \<Rightarrow> None
                | Some new \<Rightarrow> set_flags lib flag_int fs (c(long \<mapsto> new)))))"

definition cfg_string :: "config \<Rightarrow> string \<Rightarrow> string" where
  "cfg_string c name = (case c name of Some (VString s) \<Rightarrow> s | _ \<Rightarrow> '''')"
definition cfg_int :: "config \<Rightarrow> string \<Rightarrow> int" where
  "cfg_int c name = (case c name of Some (VInt n) \<Rightarrow> n | Some (VDuration n) \<Rightarrow> n | _ \<Rightarrow> 0)"
definition cfg_bool :: "config \<Rightarrow> string \<Rightarrow> bool" where
  "cfg_bool c name = (case c name of Some (VBool b) \<Rightarrow> b | _ \<Rightarrow> False)"

section \<open>Checks\<close>

definition negative_knob :: "config_lib \<Rightarrow> config \<Rightarrow> string option" where
  "negative_knob lib c =
     (case filter (\<lambda>k. cfg_int c k < 0) [''compact-interval'', ''retention'', ''retention-raw'', ''downsample-after''] of
        [] \<Rightarrow> None
      | k # _ \<Rightarrow> Some (''--'' @ k @ '' cannot be negative (got '' @ cl_duration_text lib (cfg_int c k) @ ''); 0 turns it off''))"

definition validateValues :: "config_lib \<Rightarrow> config \<Rightarrow> string + config" where
  "validateValues lib c =
     (case negative_knob lib c of
        Some e \<Rightarrow> Inl e
      | None \<Rightarrow>
          (let level = Level (cl_lower lib) (cl_upper lib) (cfg_string c ''downsample-level'')
           in if cfg_int c ''max-body-mb'' \<le> 0 then Inl ''--max-body-mb must be a positive number of megabytes''
              else if (level \<noteq> '''' \<or> cfg_int c ''downsample-after'' > 0) \<and> map_of SeverityRank level = None
              then Inl (''--downsample-level '' @ cl_quoted lib (cfg_string c ''downsample-level'') @ '' is not a level'')
              else Inr (c(''downsample-level'' \<mapsto> VString level))))"

definition Validate :: "config_lib \<Rightarrow> config \<Rightarrow> string + config" where
  "Validate lib c =
     (case validateValues lib c of
        Inl e \<Rightarrow> Inl e
      | Inr c1 \<Rightarrow>
          (if (cfg_string c1 ''tls-cert'' = '''') \<noteq> (cfg_string c1 ''tls-key'' = '''')
           then Inl ''--tls-cert and --tls-key must be given together''
           else let token = trim_space (cfg_string c1 ''auth-token''); c2 = c1(''auth-token'' \<mapsto> VString token)
             in if token \<noteq> '''' \<or> cfg_bool c2 ''insecure'' then Inr c2
                else if IsLoopback (cl_net lib) (cfg_string c2 ''web-host'') then Inr c2
                else Inl (''refusing to listen on '' @ cfg_string c2 ''web-host'' @ '' with no --auth-token'')))"

text \<open>The command line as the flag package splits it, or its error, or a request for the version.\<close>

datatype command_line = BadArgs string | Version | Flags "(string \<times> string) list"

definition first_env_error :: "config_lib \<Rightarrow> environ \<Rightarrow> string list \<Rightarrow> string option" where
  "first_env_error lib e given =
     (case filter (\<lambda>d. snd (from_env lib e d) \<noteq> None \<and> od_long d \<notin> set given) option_defs of
        [] \<Rightarrow> None | d # _ \<Rightarrow> snd (from_env lib e d))"

definition ports :: "string list" where "ports = [''udp-port'', ''web-port'', ''syslog-port'']"

definition Parse_config :: "config_lib \<Rightarrow> (string \<Rightarrow> int option) \<Rightarrow> environ \<Rightarrow> command_line \<Rightarrow> string + config" where
  "Parse_config lib flag_int e args =
     (case args of
        BadArgs err \<Rightarrow> Inl err
      | Version \<Rightarrow> Inl ''flag: help requested''
      | Flags fs \<Rightarrow>
          (case set_flags lib flag_int fs (map_of (map (\<lambda>d. (od_long d, fst (from_env lib e d))) option_defs)) of
             None \<Rightarrow> Inl ''invalid flag''
           | Some c \<Rightarrow>
               (case first_env_error lib e (List.map_filter (\<lambda>f. long_name (fst f)) fs) of
                  Some err \<Rightarrow> Inl err
                | None \<Rightarrow>
                    (if cfg_int c ''backlog'' < 1 then Inl ''--backlog must be a positive integer''
                     else if list_ex (\<lambda>p. cfg_int c p < 0 \<or> cfg_int c p > 65535) ports
                     then Inl ''ports must be between 0 and 65535''
                     else Validate lib c))))"

end
