(* ===== verification/Udp.thy ===== *)
theory Udp
  imports SyslogConn QueryEngine
begin

text \<open>
  The receiver of the first protocol, \<open>src/internal/ingest/udp.go\<close>: each datagram is counted, decoded and
  appended as a record.  Decoding is \<open>encoding/json\<close>'s, a parameter: the stream, the time stamp in
  milliseconds and the text of the content.  A packet longer than the buffer is cut by the socket.
\<close>

type_synonym datagram = "string \<times> int \<times> string"

record 'io udp_source =
  ud_decode :: "string \<Rightarrow> datagram option"
  ud_norm :: norm_lib
  ud_clock :: "nat \<Rightarrow> int"
  ud_append :: "nat \<Rightarrow> 'io"

record 'st udp_state =
  us_received :: nat
  us_invalid :: nat
  us_bytes :: nat
  us_store :: 'st

text \<open>The time of the client, where it sent one.\<close>

definition client_time :: "int \<Rightarrow> int" where
  "client_time millis = (if millis = 0 then zero_time else millis * 10 ^ 6)"

definition datagram_record :: "'io udp_source \<Rightarrow> nat \<Rightarrow> string \<times> int \<Rightarrow> datagram \<Rightarrow> rec" where
  "datagram_record c i remote d =
     (case d of (name, millis, content) \<Rightarrow>
        FromPayload (ud_norm c) (ud_clock c i) name (fst remote) (snd remote) (client_time millis) content)"

definition receive_datagram ::
  "('io, 'st) appender \<Rightarrow> 'io udp_source \<Rightarrow> nat \<Rightarrow> (string \<times> int) \<times> string \<Rightarrow> 'st udp_state \<Rightarrow> 'st udp_state"
where
  "receive_datagram put c i p s0 =
     (let packet = take maxDatagram (snd p);
          s = s0\<lparr>us_received := us_received s0 + 1, us_bytes := us_bytes s0 + length packet\<rparr>
      in case ud_decode c packet of
           None \<Rightarrow> s\<lparr>us_invalid := us_invalid s + 1\<rparr>
         | Some d \<Rightarrow>
             (if fst d = '''' then s\<lparr>us_invalid := us_invalid s + 1\<rparr>
              else s\<lparr>us_store := snd (put (ud_append c i) (datagram_record c i (fst p) d) (us_store s))\<rparr>))"

text \<open>The packets until the socket is closed, each with where it is from; what an append refuses is only logged.\<close>

fun udp_serve ::
  "('io, 'st) appender \<Rightarrow> 'io udp_source \<Rightarrow> nat \<Rightarrow> ((string \<times> int) \<times> string) list \<Rightarrow> 'st udp_state \<Rightarrow> 'st udp_state"
where
  "udp_serve put c i [] s = s"
| "udp_serve put c i (p # ps) s = udp_serve put c (Suc i) ps (receive_datagram put c i p s)"

text \<open>\<open>itoa\<close>, for the port; the digits are put in front of those after them.\<close>

fun itoa_digits :: "nat \<Rightarrow> string \<Rightarrow> string" where
  "itoa_digits n ds = (if n > 0 then itoa_digits (n div 10) (char_of (48 + n mod 10) # ds) else ds)"

declare itoa_digits.simps [simp del]

definition itoa :: "nat \<Rightarrow> string" where
  "itoa n = (if n = 0 then ''0'' else itoa_digits n [])"

lemma itoa_digits_show: "0 < n \<Longrightarrow> itoa_digits n ds = show_nat n @ ds"
proof (induction n arbitrary: ds rule: less_induct)
  case (less n)
  show ?case
  proof (cases "n < 10")
    case True
    then show ?thesis using less.prems
      by (simp add: itoa_digits.simps [of n] itoa_digits.simps [of 0] show_nat.simps [of n] digit_char_def)
  next
    case False
    then show ?thesis using less
      by (simp add: itoa_digits.simps [of n] show_nat.simps [of n] digit_char_def)
  qed
qed

lemma itoa_show: "itoa n = show_nat n"
proof (cases "n = 0")
  case True
  moreover have "digit_char 0 = CHR ''0''" by code_simp
  ultimately show ?thesis by (simp add: itoa_def show_nat.simps [of 0])
qed (simp add: itoa_def itoa_digits_show)

section \<open>Decoded datagrams\<close>

text \<open>Packets that all decode to a stream with a name: each is stored, in the order it came.\<close>

fun packet_records :: "'io udp_source \<Rightarrow> nat \<Rightarrow> ((string \<times> int) \<times> datagram) list \<Rightarrow> ('io \<times> rec) list" where
  "packet_records c i [] = []"
| "packet_records c i (d # ds) =
     (ud_append c i, datagram_record c i (fst d) (snd d)) # packet_records c (Suc i) ds"

lemma udp_serve_decoded:
  assumes "list_all2 (\<lambda>p d. fst d = fst p \<and> length (snd p) \<le> maxDatagram \<and> ud_decode c (snd p) = Some (snd d) \<and> fst (snd d) \<noteq> '''') ps ds"
  shows "udp_serve put c i ps s =
    s\<lparr>us_received := us_received s + length ps, us_bytes := us_bytes s + sum_list (map (length \<circ> snd) ps),
      us_store := put_each put (packet_records c i ds) (us_store s)\<rparr>"
  using assms
proof (induction ps arbitrary: ds i s)
  case Nil
  then show ?case by (simp add: put_each_def)
next
  case (Cons p ps)
  let ?P = "\<lambda>p d. fst d = fst p \<and> length (snd p) \<le> maxDatagram \<and> ud_decode c (snd p) = Some (snd d) \<and> fst (snd d) \<noteq> ''''"
  from Cons.prems obtain d ds' where ds: "ds = d # ds'" and "?P p d" and rest: "list_all2 ?P ps ds'"
    unfolding list_all2_Cons1 by blast
  then have d: "fst d = fst p" "length (snd p) \<le> maxDatagram" "ud_decode c (snd p) = Some (snd d)" "fst (snd d) \<noteq> ''''" by blast+
  have "receive_datagram put c i p s =
      s\<lparr>us_received := us_received s + 1, us_bytes := us_bytes s + length (snd p),
        us_store := snd (put (ud_append c i) (datagram_record c i (fst d) (snd d)) (us_store s))\<rparr>"
    using d by (simp add: receive_datagram_def Let_def)
  with Cons.IH [OF rest] show ?case by (simp add: ds put_each_def)
qed

end
