(* ===== verification/Server.thy ===== *)
theory Server
  imports Auth Catalog Udp
begin

text \<open>
  The HTTP surface, \<open>src/internal/api/server.go\<close>: which handler a request reaches behind the guard, and
  the two handlers that only report: the health check and the list of streams.  A path is one the
  router has nothing to clean in.
\<close>

section \<open>Routes\<close>

datatype endpoint =
  HealthCheck | StreamList | LiveTail | SearchPage | HistogramSeries | FieldExplorer | SchemaList | SqlQuery
  | IngestLines | IngestOTLP | Webapp

definition routes :: "bool \<Rightarrow> ((string \<times> string) \<times> endpoint) list" where
  "routes http_in =
     [((''GET'', ''/healthz''), HealthCheck), ((''GET'', ''/v1/streams''), StreamList), ((''GET'', ''/v1/tail''), LiveTail),
      ((''GET'', ''/v1/search''), SearchPage), ((''GET'', ''/v1/histogram''), HistogramSeries),
      ((''GET'', ''/v1/fields''), FieldExplorer), ((''GET'', ''/v1/schema''), SchemaList), ((''POST'', ''/v1/sql''), SqlQuery)]
     @ (if http_in then [((''POST'', ''/v1/ingest''), IngestLines), ((''POST'', ''/v1/logs''), IngestOTLP),
          ((''POST'', ''/v1/otlp/v1/logs''), IngestOTLP)] else [])"

text \<open>A pattern for \<open>GET\<close> is also one for \<open>HEAD\<close>; anything else is the web application.\<close>

definition route :: "bool \<Rightarrow> string \<Rightarrow> string \<Rightarrow> endpoint" where
  "route http_in verb path =
     (case map_of (routes http_in) (if verb = ''HEAD'' then ''GET'' else verb, path) of Some e \<Rightarrow> e | None \<Rightarrow> Webapp)"

datatype handled = Reached endpoint | Bounced string cookie | Rejected denial

definition Handler :: "guard option \<Rightarrow> bool \<Rightarrow> http_request \<Rightarrow> handled" where
  "Handler g http_in r =
     (let reached = Reached (route http_in (hr_method r) (hr_path r))
      in case g of
           None \<Rightarrow> reached
         | Some g' \<Rightarrow>
             (case Wrap g' [''/healthz''] r of
                Served \<Rightarrow> reached | Redirected to k \<Rightarrow> Bounced to k | Denied d \<Rightarrow> Rejected d))"

text \<open>Behind the path of the health check there is only the health check, whatever the method.\<close>

lemma route_healthz: "route http_in verb ''/healthz'' \<in> {HealthCheck, Webapp}"
  by (cases "(if verb = ''HEAD'' then ''GET'' else verb) = ''GET''") (simp_all add: route_def routes_def)

section \<open>Reports\<close>

text \<open>\<open>Stats\<close> of the catalog: files, rows and bytes that are live.\<close>

definition cat_stats :: "catalog \<Rightarrow> nat \<times> int \<times> int" where
  "cat_stats c =
     (let files = live c
      in (length files, sum_list (map fl_rows files), sum_list (map fl_bytes files)))"

text \<open>What the server was started with; \<open>sv_stats_ok\<close> is whether the catalog answers.\<close>

record server_parts =
  sv_catalog :: "catalog option"
  sv_stats_ok :: bool
  sv_udp :: "unit udp_state option"
  sv_http :: "http_stats option"
  sv_syslog :: "unit syslog_state option"

record health_report =
  hp_streams :: nat
  hp_store :: "(nat \<times> int \<times> int) option"
  hp_udp :: "(nat \<times> nat \<times> nat) option"
  hp_http :: "(nat \<times> nat \<times> nat \<times> nat) option"
  hp_syslog :: "(nat \<times> nat \<times> nat) option"

definition health :: "server_parts \<Rightarrow> string + string list \<Rightarrow> nat \<times> (string + health_report)" where
  "health sv listed =
     (case listed of
        Inl e \<Rightarrow> (500, Inl e)
      | Inr names \<Rightarrow> (200, Inr
          \<lparr>hp_streams = length names,
           hp_store = (case sv_catalog sv of Some c \<Rightarrow> if sv_stats_ok sv then Some (cat_stats c) else None | None \<Rightarrow> None),
           hp_udp = map_option (\<lambda>u. (us_received u, us_invalid u, us_bytes u)) (sv_udp sv),
           hp_http = map_option (\<lambda>h. (hs_requests h, hs_received h, hs_rejected h, hs_bytes h)) (sv_http sv),
           hp_syslog = map_option (\<lambda>s. (ss_received s, ss_invalid s, ss_bytes s)) (sv_syslog sv)\<rparr>))"

definition stream_list :: "string + string list \<Rightarrow> nat \<times> (string + string list)" where
  "stream_list listed = (case listed of Inl e \<Rightarrow> (500, Inl e) | Inr names \<Rightarrow> (200, Inr names))"

end
