(* ===== verification/ConfigClaims.thy ===== *)
theory ConfigClaims
  imports Config Server
begin

text \<open>
  What a configuration the server accepts promises: a server that other machines reach either asks
  every request for the token or was told not to.  The check (\<open>config.go\<close>, \<open>Validate\<close>) and the guard
  (\<open>auth.go\<close>, \<open>New\<close>), which the server puts before all its routes (\<open>server.go\<close>,
  \<open>Handler\<close>), trim the token separately; they agree because trimming white space is idempotent.
\<close>

section \<open>Trimming\<close>

text \<open>Whether a rune can be read, and which, does not depend on the bytes after it.\<close>

lemma decode_rune_take:
  assumes "snd (decode_rune bs) \<le> k"
  shows "decode_rune (take k bs) = decode_rune bs"
proof (cases bs)
  case (Cons a as)
  with assms have "0 < k" using decode_rune_width [of bs] by simp
  then obtain j where k: "k = Suc j" by (cases k) auto
  have width: "snd (decode_rune (a # as)) \<le> Suc j" using assms Cons k by simp
  consider "a < 0x80" | "0xC2 \<le> a \<and> a \<le> 0xDF" | "0xE0 \<le> a \<and> a \<le> 0xEF" | "0xF0 \<le> a \<and> a \<le> 0xF4"
    | "\<not> (a < 0x80 \<or> (0xC2 \<le> a \<and> a \<le> 0xDF) \<or> (0xE0 \<le> a \<and> a \<le> 0xEF) \<or> (0xF0 \<le> a \<and> a \<le> 0xF4))" by blast
  then have "decode_rune (a # take j as) = decode_rune (a # as)"
  proof cases
    case 2
    then have r: "decode_rune (a # bs) = (case bs of b # _ \<Rightarrow> if is_cont b then ((a - 0xC0) * 64 + (b - 0x80), 2) else (0xFFFD, 1)
      | _ \<Rightarrow> (0xFFFD, 1))" for bs by (simp add: decode_rune.simps)
    show ?thesis using width unfolding r by (cases as; cases j) (auto split: if_splits)
  next
    case 3
    define P where "P b c \<longleftrightarrow> (if a = 0xE0 then 0xA0 else 0x80) \<le> b \<and> b \<le> (if a = 0xED then 0x9F else 0xBF) \<and> is_cont c" for b c :: nat
    have r: "decode_rune (a # bs) = (case bs of b # c # _ \<Rightarrow>
        if P b c then ((a - 0xE0) * 4096 + (b - 0x80) * 64 + (c - 0x80), 3) else (0xFFFD, 1) | _ \<Rightarrow> (0xFFFD, 1))" for bs
      using 3 by (auto simp: decode_rune.simps P_def split: list.split)
    show ?thesis using width unfolding r by (auto simp: take_Cons' split: list.splits if_splits)
  next
    case 4
    define P where "P b c d \<longleftrightarrow> (if a = 0xF0 then 0x90 else 0x80) \<le> b \<and> b \<le> (if a = 0xF4 then 0x8F else 0xBF)
      \<and> is_cont c \<and> is_cont d" for b c d :: nat
    have r: "decode_rune (a # bs) = (case bs of b # c # d # _ \<Rightarrow>
        if P b c d then ((a - 0xF0) * 262144 + (b - 0x80) * 4096 + (c - 0x80) * 64 + (d - 0x80), 4) else (0xFFFD, 1)
        | _ \<Rightarrow> (0xFFFD, 1))" for bs
      using 4 by (auto simp: decode_rune.simps P_def split: list.split)
    show ?thesis using width unfolding r by (auto simp: take_Cons' split: list.splits if_splits)
  next
    case 5
    then have "\<not> a < 0x80" "\<not> (0xC2 \<le> a \<and> a \<le> 0xDF)" "\<not> (0xE0 \<le> a \<and> a \<le> 0xEF)" "\<not> (0xF0 \<le> a \<and> a \<le> 0xF4)"
      by blast+
    then have r: "decode_rune (a # bs) = (0xFFFD, 1)" for bs by (simp only: decode_rune.simps if_False)
    show ?thesis unfolding r by (rule refl)
  qed (simp add: decode_rune.simps)
  then show ?thesis unfolding Cons k by simp
qed simp

lemma decode_runes_prefix: "decode_runes bs = ps @ qs \<Longrightarrow> decode_runes (concat (map snd ps)) = ps"
proof (induction ps arbitrary: bs)
  case (Cons p ps)
  then have "bs \<noteq> []" by auto
  note step = decode_runes_not_Nil [OF this]
  have p: "p = (fst (decode_rune bs), take (snd (decode_rune bs)) bs)"
    and rest: "decode_runes (drop (snd (decode_rune bs)) bs) = ps @ qs" using Cons.prems unfolding step by simp_all
  let ?w = "snd (decode_rune bs)" and ?t = "concat (map snd (p # ps))"
  have w: "0 < ?w" "?w \<le> length bs" using decode_rune_width [OF \<open>bs \<noteq> []\<close>] by simp_all
  have t: "?t = take (length ?t) bs" using concat_decode_runes [of bs] unfolding Cons.prems by (metis append_eq_conv_conj map_append concat_append)
  have len: "?w \<le> length ?t" using w by (simp add: p)
  have d: "decode_rune ?t = decode_rune bs" using decode_rune_take [OF len] t by simp
  have "?t \<noteq> []" using len w(1) by (metis length_greater_0_conv less_le_trans)
  moreover have "take ?w ?t = snd p" "drop ?w ?t = concat (map snd ps)" using w by (simp_all add: p)
  ultimately show ?case using decode_runes_not_Nil [of ?t] Cons.IH [OF rest] p unfolding d by simp
qed simp

lemma decode_runes_suffix: "decode_runes bs = ps @ qs \<Longrightarrow> decode_runes (concat (map snd qs)) = qs"
proof (induction ps arbitrary: bs)
  case Nil
  then show ?case using concat_decode_runes [of bs] by simp
next
  case (Cons p ps)
  then have "bs \<noteq> []" by auto
  from Cons.prems have "decode_runes (drop (snd (decode_rune bs)) bs) = ps @ qs"
    unfolding decode_runes_not_Nil [OF \<open>bs \<noteq> []\<close>] by simp
  then show ?case by (rule Cons.IH)
qed

lemma trim_space_idem [simp]: "trim_space (trim_space s) = trim_space s"
proof -
  let ?sp = "\<lambda>p. is_space (fst (p :: nat \<times> nat list))"
  let ?d = "decode_runes (bytes_of s)"
  let ?m = "rev (dropWhile ?sp (rev (dropWhile ?sp ?d)))"
  have "?d = takeWhile ?sp ?d @ dropWhile ?sp ?d" by simp
  then have left: "decode_runes (concat (map snd (dropWhile ?sp ?d))) = dropWhile ?sp ?d" by (rule decode_runes_suffix)
  have "dropWhile ?sp ?d = ?m @ rev (takeWhile ?sp (rev (dropWhile ?sp ?d)))" by (metis rev_append rev_rev_ident takeWhile_dropWhile_id)
  with left have m: "decode_runes (concat (map snd ?m)) = ?m" by (metis decode_runes_prefix)
  have small: "\<forall>b\<in>set (concat (map snd ?m)). b < 256"
  proof
    fix b assume "b \<in> set (concat (map snd ?m))"
    then have "b \<in> set (concat (map snd ?d))" by (auto dest!: set_dropWhileD)
    then have "b \<in> set (bytes_of s)" unfolding concat_decode_runes .
    then show "b < 256" by (auto simp: bytes_of_def)
  qed
  have bytes_back: "\<forall>b\<in>set xs. b < 256 \<Longrightarrow> bytes_of (string_of_bytes xs) = xs" for xs
    by (simp add: bytes_of_def string_of_bytes_def o_def map_idI)
  have "bytes_of (trim_space s) = concat (map snd ?m)" unfolding trim_space_def by (rule bytes_back [OF small])
  then have "decode_runes (bytes_of (trim_space s)) = ?m" using m by simp
  moreover have "?m = [] \<or> \<not> ?sp (hd ?m)"
  proof (rule disjCI)
    assume "\<not> \<not> ?sp (hd ?m)"
    show "?m = []"
    proof (rule ccontr)
      assume m0: "?m \<noteq> []"
      have "hd ?m = last (dropWhile ?sp (rev (dropWhile ?sp ?d)))" by (rule hd_rev)
      also have "\<dots> = last (rev (dropWhile ?sp ?d))"
        using m0 by (metis last_appendR rev_is_Nil_conv takeWhile_dropWhile_id)
      also have "\<dots> = hd (dropWhile ?sp ?d)" by (rule last_rev)
      finally have "?sp (hd (dropWhile ?sp ?d))" using \<open>\<not> \<not> ?sp (hd ?m)\<close> by metis
      moreover have "dropWhile ?sp ?d \<noteq> []"
      proof
        assume "dropWhile ?sp ?d = []"
        with m0 show False by (simp only: rev.simps dropWhile.simps not_True_eq_False)
      qed
      ultimately show False using hd_dropWhile by blast
    qed
  qed
  then have "dropWhile ?sp ?m = ?m" by (rule dropWhile_hd)
  moreover have "dropWhile ?sp (rev ?m) = rev ?m" by simp
  ultimately show ?thesis by (simp add: trim_space_def)
qed


section \<open>An accepted configuration\<close>

lemma validateValues_same:
  "validateValues lib c = Inr c' \<Longrightarrow> name \<noteq> ''downsample-level'' \<Longrightarrow> c' name = c name"
  by (auto simp: validateValues_def Let_def split: option.splits if_splits)

lemma Validate_accepts:
  assumes "Validate lib c = Inr c'"
  shows "trim_space (cfg_string c' ''auth-token'') = cfg_string c' ''auth-token''"
    and "cfg_string c' ''auth-token'' \<noteq> '''' \<or> cfg_bool c' ''insecure'' \<or> IsLoopback (cl_net lib) (cfg_string c' ''web-host'')"
proof -
  obtain c1 where "validateValues lib c = Inr c1" using assms by (auto simp: Validate_def split: sum.splits)
  with assms have c': "c' = c1(''auth-token'' \<mapsto> VString (trim_space (cfg_string c1 ''auth-token'')))"
    and ok: "trim_space (cfg_string c1 ''auth-token'') \<noteq> '''' \<or> cfg_bool c' ''insecure'' \<or> IsLoopback (cl_net lib) (cfg_string c' ''web-host'')"
    by (auto simp: Validate_def Let_def split: if_splits)
  have token: "cfg_string c' ''auth-token'' = trim_space (cfg_string c1 ''auth-token'')" unfolding c' by (simp add: cfg_string_def)
  show "trim_space (cfg_string c' ''auth-token'') = cfg_string c' ''auth-token''" unfolding token by (rule trim_space_idem)
  show "cfg_string c' ''auth-token'' \<noteq> '''' \<or> cfg_bool c' ''insecure'' \<or> IsLoopback (cl_net lib) (cfg_string c' ''web-host'')"
    using ok unfolding token .
qed

lemma Parse_config_validated:
  assumes "Parse_config lib flag_int e args = Inr c"
  obtains c0 where "Validate lib c0 = Inr c"
    "0 < cfg_int c0 ''backlog''" "list_all (\<lambda>p. 0 \<le> cfg_int c0 p \<and> cfg_int c0 p \<le> 65535) ports"
  using assms by (fastforce simp: Parse_config_def list_all_iff list_ex_iff split: command_line.splits option.splits if_splits)

text \<open>
  C2: when a configuration is accepted whose web address other machines can reach and that does not
  say it is insecure, the server's guard is on and rejects exactly the requests, other than for the
  path of the health check, that do not carry the token in one of the places a client may put it; a
  request without it reaches nothing but the health check, or the web application under its path.
\<close>

theorem exposed_server_guarded:
  assumes "Parse_config lib flag_int e args = Inr c"
    "\<not> IsLoopback (cl_net lib) (cfg_string c ''web-host'')" "\<not> cfg_bool c ''insecure''"
  shows "Enabled (New (cfg_string c ''auth-token'') tls) \<and>
    (Handler (Some (New (cfg_string c ''auth-token'') tls)) http_in r = Rejected (deny r) \<longleftrightarrow>
     hr_path r \<noteq> ''/healthz'' \<and> \<not> carries (cfg_string c ''auth-token'') r) \<and>
    (\<forall>ep. Handler (Some (New (cfg_string c ''auth-token'') tls)) http_in r = Reached ep \<longrightarrow>
       carries (cfg_string c ''auth-token'') r \<or> hr_path r = ''/healthz'' \<and> ep \<in> {HealthCheck, Webapp})"
proof -
  let ?t = "cfg_string c ''auth-token''"
  obtain c0 where "Validate lib c0 = Inr c" by (rule Parse_config_validated [OF assms(1)])
  note ok = Validate_accepts [OF this]
  have on: "Enabled (New ?t tls)" using ok(1,2) assms(2,3) by (auto simp: Enabled_def New_def)
  have token: "gd_token (New ?t tls) = ?t" using ok(1) by (simp add: New_def)
  have health: "hr_path r = ''/healthz'' \<Longrightarrow> Wrap (New ?t tls) [''/healthz''] r = Served" using on by (simp add: Wrap_def)
  note closed = Wrap_closed [OF on, of r "[''/healthz'']", unfolded token]
  note opened = Wrap_open [OF on, of r "[''/healthz'']", unfolded token]
  consider "hr_path r = ''/healthz''" | "hr_path r \<noteq> ''/healthz''" "carries ?t r" | "hr_path r \<noteq> ''/healthz''" "\<not> carries ?t r" by blast
  then show ?thesis
  proof cases
    case 1
    then show ?thesis using on health route_healthz [of http_in "hr_method r"] by (simp add: Handler_def)
  next
    case 2
    then show ?thesis using on opened by (auto simp: Handler_def)
  next
    case 3
    then show ?thesis using on closed by (simp add: Handler_def)
  qed
qed

definition ex_config_lib :: config_lib where
  "ex_config_lib = \<lparr>cl_net = \<lparr>nt_parse = (\<lambda>h. if h = ''127.0.0.1'' then Some True else Some False), nt_lookup = (\<lambda>h. None)\<rparr>,
     cl_lower = id, cl_upper = id, cl_quoted = id, cl_duration_text = (\<lambda>n. ''0s''), cl_duration = (\<lambda>s. None),
     cl_count = (\<lambda>s n. None)\<rparr>"

definition ex_flags :: "(string \<times> string) list" where
  "ex_flags = [(''wh'', ''0.0.0.0''), (''auth-token'', '' s3 '')]"

text \<open>With nothing in the environment, every option has its default.\<close>

lemma from_env_default: "from_env lib (\<lambda>k. None) d = (od_fallback d, None)"
  by (cases "od_fallback d") (simp_all add: from_env_def env_def envInt_def envDuration_def envBool_def)

definition default_config :: config where
  "default_config = map_of (map (\<lambda>d. (od_long d, od_fallback d)) option_defs)"

lemma default_config_get:
  "default_config ''backlog'' = Some (VInt 100)" "default_config ''web-host'' = Some (VString ''127.0.0.1'')"
  "default_config ''auth-token'' = Some (VString '''')" "default_config ''insecure'' = Some (VBool False)"
  "default_config ''udp-port'' = Some (VInt 9999)" "default_config ''web-port'' = Some (VInt 8888)"
  "default_config ''syslog-port'' = Some (VInt 0)" "default_config ''max-body-mb'' = Some (VInt 32)"
  "default_config ''compact-interval'' = Some (VDuration (5 * 60 * 10 ^ 9))" "default_config ''retention'' = Some (VDuration 0)"
  "default_config ''retention-raw'' = Some (VDuration 0)" "default_config ''downsample-after'' = Some (VDuration 0)"
  "default_config ''downsample-level'' = Some (VString ''WARN'')" "default_config ''tls-cert'' = Some (VString '''')"
  "default_config ''tls-key'' = Some (VString '''')"
  by (simp_all add: default_config_def option_defs_def str_opt_def num_opt_def dur_opt_def bool_opt_def)

lemma ex_long_names: "long_name ''wh'' = Some ''web-host''" "long_name ''auth-token'' = Some ''auth-token''"
  by (simp_all add: long_name_def option_defs_def str_opt_def num_opt_def dur_opt_def bool_opt_def)

lemma ex_set_flags:
  "set_flags ex_config_lib (\<lambda>s. None) ex_flags default_config =
     Some (default_config(''web-host'' \<mapsto> VString ''0.0.0.0'', ''auth-token'' \<mapsto> VString '' s3 ''))"
  by (simp add: ex_flags_def ex_long_names default_config_get flag_value_def)

lemma ex_trim_token: "trim_space '' s3 '' = ''s3''"
  by (simp add: trim_space_def bytes_of_def string_of_bytes_def decode_runes_ascii is_space_def) code_simp

lemma ex_level: "Level id id ''WARN'' = ''WARN''"
proof -
  have "trim_space ''WARN'' = ''WARN''" by (rule trim_space_ascii) (simp_all add: is_ascii_def is_space_def)
  moreover have "map ascii_lower ''WARN'' = ''warn''" by code_simp
  moreover have "is_ascii ''WARN''" by (simp add: is_ascii_def)
  moreover have "map_of levelNames ''warn'' = Some ''WARN''" by (simp add: levelNames_def)
  ultimately show ?thesis by (simp add: Level_def normalizeLevel_def StrV_def NullV_def to_lower_def)
qed

lemma ex_rank: "map_of SeverityRank ''WARN'' \<noteq> None"
  by (simp add: SeverityRank_def)

lemma ex_config_read:
  obtains c where "Parse_config ex_config_lib (\<lambda>s. None) (\<lambda>k. None) (Flags ex_flags) = Inr c"
    "cfg_string c ''web-host'' = ''0.0.0.0''" "cfg_string c ''auth-token'' = ''s3''" "\<not> cfg_bool c ''insecure''"
proof
  let ?c = "default_config(''web-host'' \<mapsto> VString ''0.0.0.0'', ''auth-token'' \<mapsto> VString '' s3 '')"
  let ?c' = "?c(''downsample-level'' \<mapsto> VString ''WARN'', ''auth-token'' \<mapsto> VString ''s3'')"
  have lib: "cl_lower ex_config_lib = id" "cl_upper ex_config_lib = id" by (simp_all add: ex_config_lib_def)
  have knobs: "negative_knob ex_config_lib ?c = None" by (simp add: negative_knob_def cfg_int_def default_config_get)
  have checked: "validateValues ex_config_lib ?c = Inr (?c(''downsample-level'' \<mapsto> VString ''WARN''))"
    using ex_rank by (simp add: validateValues_def knobs lib cfg_int_def cfg_string_def default_config_get ex_level Let_def del: fun_upd_apply) (simp add: default_config_get ex_level)
  have "Validate ex_config_lib ?c = Inr ?c'"
    by (simp add: Validate_def checked cfg_string_def default_config_get ex_trim_token Let_def)
  moreover have "first_env_error ex_config_lib (\<lambda>k. None) given = None" for given
    by (simp add: first_env_error_def from_env_default)
  moreover have "map_of (map (\<lambda>d. (od_long d, fst (from_env ex_config_lib (\<lambda>k. None) d))) option_defs) = default_config"
    by (simp add: from_env_default default_config_def)
  ultimately show "Parse_config ex_config_lib (\<lambda>s. None) (\<lambda>k. None) (Flags ex_flags) = Inr ?c'"
    by (simp add: Parse_config_def ex_set_flags cfg_int_def default_config_get ports_def)
  show "cfg_string ?c' ''web-host'' = ''0.0.0.0''" "cfg_string ?c' ''auth-token'' = ''s3''" "\<not> cfg_bool ?c' ''insecure''"
    by (simp_all add: cfg_string_def cfg_bool_def default_config_get)
qed

text \<open>A server told to listen everywhere, with a token in spaces: a request that carries no token is denied.\<close>

definition ex_probe :: http_request where
  "ex_probe = \<lparr>hr_method = ''GET'', hr_path = ''/v1/search'', hr_authorization = '''', hr_rtail_token = ''s4'',
     hr_cookie = None, hr_query_token = '''', hr_accept = '''', hr_stripped = ''/v1/search''\<rparr>"

theorem exposed_server_guarded_witness:
  "Handler (Some (New ''s3'' False)) True ex_probe = Rejected DeniedJSON"
proof -
  obtain c where c: "Parse_config ex_config_lib (\<lambda>s. None) (\<lambda>k. None) (Flags ex_flags) = Inr c"
    "cfg_string c ''web-host'' = ''0.0.0.0''" "cfg_string c ''auth-token'' = ''s3''" "\<not> cfg_bool c ''insecure''"
    by (rule ex_config_read)
  have "\<not> IsLoopback (cl_net ex_config_lib) (cfg_string c ''web-host'')"
    by (simp add: c(2) ex_config_lib_def IsLoopback_def)
  from exposed_server_guarded [OF c(1) this c(4), of False True ex_probe]
  show ?thesis by (simp add: c(3) ex_probe_def carries_def deny_def wantsHTML_def)
qed

end
