(* ===== verification/Client.thy ===== *)
theory Client
  imports SyslogConn Config
begin

text \<open>
  The pipe, \<open>src/internal/client\<close>: \<open>cmd | rtail\<close> passes its input through to standard output and sends
  each line as a datagram.  \<open>flags.go\<close>, \<open>moniker.go\<close>, \<open>ansi.go\<close>, \<open>content.go\<close> and \<open>client.go\<close>.  The input is
  the bytes that arrive and how they end; the end is a read that brings no bytes, as for a file or a
  pipe.  What the JSON packages and the socket do is a parameter.
\<close>

section \<open>Names\<close>

definition adjectives :: "string list" where
  "adjectives = [
     ''amber'', ''ancient'', ''autumn'', ''bitter'', ''bold'', ''brave'', ''calm'', ''cold'',
     ''crimson'', ''damp'', ''dawn'', ''divine'', ''dry'', ''empty'', ''falling'', ''floral'',
     ''frosty'', ''gentle'', ''green'', ''hidden'', ''holy'', ''icy'', ''late'', ''lingering'',
     ''little'', ''lively'', ''long'', ''loud'', ''misty'', ''morning'', ''muddy'', ''nameless'',
     ''old'', ''patient'', ''plain'', ''polished'', ''proud'', ''purple'', ''quiet'', ''rapid'',
     ''restless'', ''rough'', ''round'', ''shy'', ''silent'', ''small'', ''snowy'', ''solitary'',
     ''sparkling'', ''spring'', ''still'', ''summer'', ''throbbing'', ''tight'', ''twilight'',
     ''wandering'', ''weathered'', ''white'', ''wild'', ''winter'', ''wispy'', ''withered'']"

definition nouns :: "string list" where
  "nouns = [
     ''band'', ''bar'', ''base'', ''bird'', ''block'', ''boat'', ''bonus'', ''bread'', ''breeze'',
     ''brook'', ''bush'', ''butterfly'', ''cake'', ''cell'', ''cherry'', ''cloud'', ''credit'',
     ''darkness'', ''dawn'', ''dew'', ''disk'', ''dream'', ''dust'', ''feather'', ''field'',
     ''fire'', ''firefly'', ''flower'', ''fog'', ''forest'', ''frog'', ''frost'', ''glade'',
     ''glitter'', ''grass'', ''hall'', ''hat'', ''haze'', ''heart'', ''hill'', ''king'', ''lab'',
     ''lake'', ''leaf'', ''limit'', ''math'', ''meadow'', ''mode'', ''moon'', ''morning'',
     ''mountain'', ''mouse'', ''mud'', ''night'', ''paper'', ''pine'', ''poetry'', ''pond'',
     ''queen'', ''rain'', ''recipe'', ''resonance'', ''rice'', ''river'', ''salad'', ''scene'',
     ''sea'', ''shadow'', ''shape'', ''silence'', ''sky'', ''smoke'', ''snow'', ''snowflake'',
     ''sound'', ''star'', ''sun'', ''sunset'', ''surf'', ''term'', ''thunder'', ''tooth'',
     ''tree'', ''truth'', ''union'', ''unit'', ''violet'', ''voice'', ''water'', ''waterfall'',
     ''wave'', ''wildflower'', ''wind'', ''wood'']"

text \<open>The two random numbers are below the lengths of the lists.\<close>

definition moniker :: "nat \<Rightarrow> nat \<Rightarrow> string" where
  "moniker i j = adjectives ! i @ ''-'' @ nouns ! j"

section \<open>Flags\<close>

record options =
  op_host :: string
  op_port :: int
  op_id :: string
  op_mute :: bool
  op_tty :: bool
  op_help :: bool
  op_version :: bool

definition default_options :: "string \<Rightarrow> options" where
  "default_options name = \<lparr>op_host = ''127.0.0.1'', op_port = 9999, op_id = name, op_mute = False, op_tty = True,
     op_help = False, op_version = False\<rparr>"

text \<open>\<open>--flag=value\<close> and \<open>--flag value\<close>: the value, and the arguments that are left.\<close>

fun take_value :: "string \<Rightarrow> string \<Rightarrow> bool \<Rightarrow> string list \<Rightarrow> string + (string \<times> string list)" where
  "take_value name inline True args = Inr (inline, args)"
| "take_value name inline False (a # args) = Inr (a, args)"
| "take_value name inline False [] = Inl (''not enough arguments following: '' @ name)"

definition flagOn :: "string \<Rightarrow> string \<Rightarrow> bool \<Rightarrow> bool \<Rightarrow> string + bool" where
  "flagOn name inline has_inline negated =
     (if \<not> has_inline then Inr (\<not> negated)
      else case parse_bool inline of
        None \<Rightarrow> Inl (name @ '' is not a boolean: '' @ inline)
      | Some v \<Rightarrow> Inr (if negated then \<not> v else v))"

definition set_text :: "string \<Rightarrow> string \<Rightarrow> options \<Rightarrow> string + options" where
  "set_text name v o' =
     (if name \<in> {''--host'', ''-h''} then Inr (o'\<lparr>op_host := v\<rparr>)
      else if name \<in> {''--port'', ''-p''} then
        (case parse_int 64 v of None \<Rightarrow> Inl (''port is not a number: '' @ v) | Some n \<Rightarrow> Inr (o'\<lparr>op_port := n\<rparr>))
      else Inr (o'\<lparr>op_id := v\<rparr>))"

definition set_switch :: "string \<Rightarrow> string \<Rightarrow> bool \<Rightarrow> options \<Rightarrow> string + options" where
  "set_switch name inline has o' =
     (let on = flagOn name inline has
      in if name \<in> {''--mute'', ''-m''} then map_sum id (\<lambda>b. o'\<lparr>op_mute := b\<rparr>) (on False)
         else if name = ''--no-mute'' then map_sum id (\<lambda>b. o'\<lparr>op_mute := b\<rparr>) (on True)
         else if name = ''--tty'' then map_sum id (\<lambda>b. o'\<lparr>op_tty := b\<rparr>) (on False)
         else if name = ''--no-tty'' then map_sum id (\<lambda>b. o'\<lparr>op_tty := b\<rparr>) (on True)
         else if name = ''--help'' then map_sum id (\<lambda>b. o'\<lparr>op_help := b\<rparr>) (on False)
         else if name \<in> {''--version'', ''-v''} then map_sum id (\<lambda>b. o'\<lparr>op_version := b\<rparr>) (on False)
         else Inl (''unknown argument: '' @ name))"

lemma take_value_shorter: "take_value name inline has args = Inr (v, args') \<Longrightarrow> length args' \<le> length args"
  by (induction name inline has args rule: take_value.induct) auto

definition text_flags :: "string list" where "text_flags = [''--host'', ''-h'', ''--port'', ''-p'', ''--id'', ''--name'']"

function parse_flags :: "string list \<Rightarrow> options \<Rightarrow> string + options" where
  "parse_flags [] o' = Inr o'"
| "parse_flags (arg # args) o' =
     (case str_cut (CHR ''='') arg of (name, inline, has) \<Rightarrow>
        if name \<in> set text_flags then
          (case take_value name inline has args of
             Inl e \<Rightarrow> Inl e
           | Inr (v, args') \<Rightarrow> (case set_text name v o' of Inl e \<Rightarrow> Inl e | Inr o2 \<Rightarrow> parse_flags args' o2))
        else (case set_switch name inline has o' of Inl e \<Rightarrow> Inl e | Inr o2 \<Rightarrow> parse_flags args o2))"
  by pat_completeness auto
termination
  by (relation "measure (\<lambda>(args, _). length args)") (auto dest!: take_value_shorter [OF sym] take_value_shorter)

definition parseArgs :: "string \<Rightarrow> string list \<Rightarrow> string + options" where
  "parseArgs name args =
     (case parse_flags args (default_options name) of
        Inl e \<Rightarrow> Inl e
      | Inr o' \<Rightarrow>
          (if op_id o' = '''' then Inl ''--id cannot be empty''
           else if 1 > op_port o' \<or> 65535 < op_port o' then Inl (''port out of range: '' @ show_int (op_port o'))
           else Inr o'))"

section \<open>Escapes\<close>

definition ESC :: char where "ESC = CHR 0x1B"

text \<open>What follows a sequence, where one begins here.\<close>

fun scanCSI :: "string \<Rightarrow> string option" where
  "scanCSI [] = None"
| "scanCSI (c # s) =
     (if 0x20 \<le> (of_char c :: nat) \<and> (of_char c :: nat) \<le> 0x3F then scanCSI s
      else if 0x40 \<le> (of_char c :: nat) \<and> (of_char c :: nat) \<le> 0x7E then Some s else None)"

fun scanOSC :: "string \<Rightarrow> string option" where
  "scanOSC [] = None"
| "scanOSC (c # s) =
     (if c = CHR 0x07 then Some s
      else if c = ESC \<and> s \<noteq> [] \<and> hd s = CHR 0x5C then Some (tl s)
      else scanOSC s)"

definition escape_end :: "string \<Rightarrow> string option" where
  "escape_end s =
     (case s of
        [] \<Rightarrow> None
      | c # t \<Rightarrow> (if c = CHR ''['' then scanCSI t else if c = CHR '']'' then scanOSC t else None))"

lemma scanCSI_shorter: "scanCSI s = Some t \<Longrightarrow> length t < length s"
  by (induction s) (auto split: if_splits)

lemma scanOSC_shorter: "scanOSC s = Some t \<Longrightarrow> length t < length s"
  by (induction s rule: scanOSC.induct) (auto split: if_splits)

lemma escape_end_shorter: "escape_end s = Some t \<Longrightarrow> length t < length s"
  by (auto simp: escape_end_def dest: scanCSI_shorter scanOSC_shorter split: list.splits if_splits)

function stripANSI :: "string \<Rightarrow> string" where
  "stripANSI [] = []"
| "stripANSI (c # s) =
     (if c \<noteq> ESC then c # stripANSI s
      else case escape_end s of Some t \<Rightarrow> stripANSI t | None \<Rightarrow> c # stripANSI s)"
  by pat_completeness auto
termination
  by (relation "measure length") (auto dest: escape_end_shorter)

text \<open>Text without escapes is left as it is, and a sequence of colour is removed.\<close>

lemma stripANSI_plain: "ESC \<notin> set s \<Longrightarrow> stripANSI s = s"
  by (induction s) auto

lemma scanCSI_params:
  "\<forall>c\<in>set ps. 0x20 \<le> (of_char c :: nat) \<and> (of_char c :: nat) \<le> 0x3F \<Longrightarrow>
    0x40 \<le> (of_char f :: nat) \<Longrightarrow> (of_char f :: nat) \<le> 0x7E \<Longrightarrow> scanCSI (ps @ f # s) = Some s"
  by (induction ps) auto

lemma stripANSI_colour:
  assumes "ESC \<notin> set a" "\<forall>c\<in>set ps. 0x20 \<le> (of_char c :: nat) \<and> (of_char c :: nat) \<le> 0x3F"
    "0x40 \<le> (of_char f :: nat)" "(of_char f :: nat) \<le> 0x7E"
  shows "stripANSI (a @ [ESC, CHR ''[''] @ ps @ f # s) = a @ stripANSI s"
  using assms(1) by (induction a) (auto simp: escape_end_def scanCSI_params [OF assms(2-4)])

section \<open>Datagrams\<close>

text \<open>
  \<open>json.Valid\<close>; a text read as JSON5 and written as JSON without its newline, where both succeed; and
  a string as JSON.
\<close>

record pipe_lib =
  pl_valid :: "string \<Rightarrow> bool"
  pl_json5 :: "string \<Rightarrow> string option"
  pl_quote :: "string \<Rightarrow> string"

definition encodeContent :: "pipe_lib \<Rightarrow> string \<Rightarrow> string" where
  "encodeContent lib raw =
     (let trimmed = trim_space raw
      in if trimmed \<noteq> '''' \<and> pl_valid lib trimmed then trimmed
         else case (if trimmed \<noteq> '''' then pl_json5 lib trimmed else None) of
           Some encoded \<Rightarrow> encoded
         | None \<Rightarrow> pl_quote lib raw)"

definition json_key :: "string \<Rightarrow> string" where "json_key k = [CHR 34] @ k @ [CHR 34, CHR '':'']"

definition encodeDatagram :: "pipe_lib \<Rightarrow> string \<Rightarrow> int \<Rightarrow> string \<Rightarrow> string" where
  "encodeDatagram lib name timestamp content =
     ''{'' @ json_key ''id'' @ pl_quote lib name @ '','' @ json_key ''timestamp'' @ show_int timestamp
     @ '','' @ json_key ''content'' @ content @ ''}''"

section \<open>The pipe\<close>

definition pipe_maxLine :: nat where "pipe_maxLine = 1024 * 1024"
definition pipe_maxDatagram :: nat where "pipe_maxDatagram = 65507"

text \<open>\<open>bufio.Reader.ReadLine\<close>, over a buffer of the same size as elsewhere: a line without its end, or a part of one.\<close>

definition drop_cr :: "string \<Rightarrow> string" where
  "drop_cr s = (if s \<noteq> [] \<and> last s = CHR 13 then butlast s else s)"

definition ReadLine :: "body \<Rightarrow> body_error + (string \<times> bool \<times> body)" where
  "ReadLine b =
     (case readSlice b of
        (chunk, SliceLine, b') \<Rightarrow> Inr (drop_cr (butlast chunk), False, b')
      | (chunk, BufferFull, b') \<Rightarrow>
          (if last chunk = CHR 13 then Inr (butlast chunk, True, (CHR 13 # fst b', snd b')) else Inr (chunk, True, b'))
      | (chunk, SliceError e, b') \<Rightarrow> (if chunk = [] then Inl e else Inr (chunk, False, b')))"

text \<open>
  What the program meets: its input, whether the terminal shows colour, whether the first dial
  succeeds, whether one in the background has by its \<open>i\<close>-th line, and the clock at that line.
\<close>

record pipe_env =
  pv_stdin :: body
  pv_colour :: bool
  pv_dialled :: bool
  pv_redialled :: "nat \<Rightarrow> bool"
  pv_clock :: "nat \<Rightarrow> int"

record pipe =
  pp_out :: string
  pp_sent :: "string list"
  pp_oversize :: nat
  pp_unsent :: nat
  pp_line :: string
  pp_streaming :: bool
  pp_conn :: bool
  pp_turn :: nat

definition stripped :: "pipe_env \<Rightarrow> options \<Rightarrow> bool" where
  "stripped pv o' \<longleftrightarrow> \<not> pv_colour pv \<or> \<not> op_tty o'"

definition echo :: "pipe_env \<Rightarrow> options \<Rightarrow> string \<Rightarrow> pipe \<Rightarrow> pipe" where
  "echo pv o' text' p =
     (if op_mute o' then p else p\<lparr>pp_out := pp_out p @ (if stripped pv o' then stripANSI text' else text')\<rparr>)"

definition endLine :: "options \<Rightarrow> pipe \<Rightarrow> pipe" where
  "endLine o' p = (if op_mute o' then p else p\<lparr>pp_out := pp_out p @ [CHR 10]\<rparr>)"

text \<open>\<open>link.write\<close>, after whatever the background did; a failed write of the socket is ignored.\<close>

definition link_write :: "pipe_env \<Rightarrow> string \<Rightarrow> pipe \<Rightarrow> bool \<times> pipe" where
  "link_write pv payload p = (if pp_conn p then (True, p\<lparr>pp_sent := pp_sent p @ [payload]\<rparr>) else (False, p))"

definition datagram_of :: "pipe_lib \<Rightarrow> pipe_env \<Rightarrow> options \<Rightarrow> nat \<times> string \<Rightarrow> string" where
  "datagram_of lib pv o' x = encodeDatagram lib (op_id o') (pv_clock pv (fst x)) (encodeContent lib (snd x))"

definition send_line :: "pipe_lib \<Rightarrow> pipe_env \<Rightarrow> options \<Rightarrow> string \<Rightarrow> pipe \<Rightarrow> pipe" where
  "send_line lib pv o' line p0 =
     (let raw = drop_cr line;
          p = endLine o' (echo pv o' raw (p0\<lparr>pp_line := [], pp_conn := pp_conn p0 \<or> pv_redialled pv (pp_turn p0)\<rparr>));
          payload = datagram_of lib pv o' (pp_turn p, raw);
          q = p\<lparr>pp_turn := Suc (pp_turn p)\<rparr>
      in if pipe_maxDatagram < length payload then q\<lparr>pp_oversize := pp_oversize q + 1\<rparr>
         else case link_write pv payload q of (True, q') \<Rightarrow> q' | (False, q') \<Rightarrow> q'\<lparr>pp_unsent := pp_unsent q' + 1\<rparr>)"

definition pipe_chunk :: "pipe_lib \<Rightarrow> pipe_env \<Rightarrow> options \<Rightarrow> string \<Rightarrow> bool \<Rightarrow> pipe \<Rightarrow> pipe" where
  "pipe_chunk lib pv o' chunk goes_on p0 =
     (let p = (if pp_streaming p0 then echo pv o' chunk p0
               else let line = pp_line p0 @ chunk
                 in if pipe_maxLine < length line then echo pv o' line (p0\<lparr>pp_line := [], pp_streaming := True\<rparr>)
                    else p0\<lparr>pp_line := line\<rparr>)
      in if goes_on then p
         else if pp_streaming p then (endLine o' p)\<lparr>pp_oversize := pp_oversize p + 1, pp_streaming := False\<rparr>
         else send_line lib pv o' (pp_line p) p)"

lemma readSlice_line_of:
  "readSlice b =
     (if length (line_of (fst b)) < length (fst b) \<and> length (line_of (fst b)) < lineBuffer
      then (line_of (fst b) @ [CHR 10], SliceLine, drop (length (line_of (fst b)) + 1) (fst b), snd b)
      else if length (fst b) \<ge> lineBuffer then (take lineBuffer (fst b), BufferFull, drop lineBuffer (fst b), snd b)
      else (fst b, SliceError (snd b), [], snd b))"
  unfolding readSlice_def line_of_def Let_def ..

lemma readSlice_cases:
  obtains (newline) "length (line_of (fst b)) < length (fst b)" "length (line_of (fst b)) < lineBuffer"
      "readSlice b = (line_of (fst b) @ [CHR 10], SliceLine, drop (length (line_of (fst b)) + 1) (fst b), snd b)"
    | (full) "\<not> (length (line_of (fst b)) < length (fst b) \<and> length (line_of (fst b)) < lineBuffer)" "lineBuffer \<le> length (fst b)"
      "readSlice b = (take lineBuffer (fst b), BufferFull, drop lineBuffer (fst b), snd b)"
    | (last) "line_of (fst b) = fst b" "length (fst b) < lineBuffer" "readSlice b = (fst b, SliceError (snd b), [], snd b)"
proof -
  let ?l = "line_of (fst b)"
  have "length ?l \<le> length (fst b)" by (simp add: line_of_def length_takeWhile_le)
  moreover have "length ?l = length (fst b) \<Longrightarrow> ?l = fst b"
    by (metis line_of_def takeWhile_eq_take take_all_iff order_refl)
  ultimately consider "length ?l < length (fst b) \<and> length ?l < lineBuffer"
    | "\<not> (length ?l < length (fst b) \<and> length ?l < lineBuffer) \<and> lineBuffer \<le> length (fst b)"
    | "?l = fst b \<and> length (fst b) < lineBuffer"
    by linarith
  then show thesis
  proof cases
    case 1
    with newline show thesis unfolding readSlice_line_of by simp
  next
    case 2
    with full show thesis unfolding readSlice_line_of by auto
  next
    case 3
    then have "line_of (fst b) = fst b" "length (fst b) < lineBuffer" by blast+
    moreover from this have "readSlice b = (fst b, SliceError (snd b), [], snd b)" unfolding readSlice_line_of by simp
    ultimately show thesis by (rule last)
  qed
qed

lemma ReadLine_shorter: "ReadLine b = Inr (chunk, goes_on, b') \<Longrightarrow> length (fst b') < length (fst b)"
  by (cases b rule: readSlice_cases) (auto simp: ReadLine_def lineBuffer_def split: if_splits)

function pipe_loop :: "pipe_lib \<Rightarrow> pipe_env \<Rightarrow> options \<Rightarrow> body \<Rightarrow> pipe \<Rightarrow> pipe \<times> body_error" where
  "pipe_loop lib pv o' b p =
     (case ReadLine b of
        Inl e \<Rightarrow> (p, e)
      | Inr (chunk, goes_on, b') \<Rightarrow> pipe_loop lib pv o' b' (pipe_chunk lib pv o' chunk goes_on p))"
  by pat_completeness auto
termination
  by (relation "measure (\<lambda>(lib, pv, o', b, p). length (fst b))") (auto dest: ReadLine_shorter [OF sym] ReadLine_shorter)

declare pipe_loop.simps [simp del]

datatype run_end = BadArguments string | HelpShown | VersionShown | Piped pipe nat

definition openLink :: "pipe_env \<Rightarrow> pipe" where
  "openLink pv = \<lparr>pp_out = [], pp_sent = [], pp_oversize = 0, pp_unsent = 0, pp_line = [], pp_streaming = False,
     pp_conn = pv_dialled pv, pp_turn = 0\<rparr>"

definition Run :: "pipe_lib \<Rightarrow> pipe_env \<Rightarrow> string \<Rightarrow> string list \<Rightarrow> run_end" where
  "Run lib pv name args =
     (case parseArgs name args of
        Inl e \<Rightarrow> BadArguments e
      | Inr o' \<Rightarrow>
          (if op_help o' then HelpShown
           else if op_version o' then VersionShown
           else case pipe_loop lib pv o' (pv_stdin pv) (openLink pv) of
             (p, e) \<Rightarrow> Piped p (if e = EOF then 0 else 1)))"


end
