(* ===== verification/ClientClaims.thy ===== *)
theory ClientClaims
  imports Client Udp
begin

text \<open>
  What the pipe shows and sends (\<open>client.go\<close>), line by line, and what becomes of its datagrams at the
  receiver (\<open>udp.go\<close>).
\<close>

section \<open>Lines\<close>

text \<open>The lines of an input, without their ends, and what follows its last newline.\<close>

function pipe_lines :: "string \<Rightarrow> string list" where
  "pipe_lines s =
     (if s = [] then []
      else if length (line_of s) < length s then drop_cr (line_of s) # pipe_lines (drop (length (line_of s) + 1) s)
      else [s])"
  by auto
termination by (relation "measure length") auto

declare pipe_lines.simps [simp del]

function final_piece :: "string \<Rightarrow> string" where
  "final_piece s = (if length (line_of s) < length s then final_piece (drop (length (line_of s) + 1) s) else s)"
  by auto
termination by (relation "measure length") auto

declare final_piece.simps [simp del]

lemma drop_cr_append: "b \<noteq> [] \<or> last a \<noteq> CHR 13 \<Longrightarrow> drop_cr (a @ b) = a @ drop_cr b"
  by (cases "b = []") (auto simp: drop_cr_def butlast_append)

text \<open>A line that is being read, as far as it has been.\<close>

definition partial :: "pipe_env \<Rightarrow> options \<Rightarrow> string \<Rightarrow> pipe \<Rightarrow> pipe" where
  "partial pv o' p st =
     (if pipe_maxLine < length p then (echo pv o' p st)\<lparr>pp_line := [], pp_streaming := True\<rparr>
      else st\<lparr>pp_line := p, pp_streaming := False\<rparr>)"

text \<open>A whole line: shown, and sent where it is not too long.\<close>

definition pipe_line :: "pipe_lib \<Rightarrow> pipe_env \<Rightarrow> options \<Rightarrow> pipe \<Rightarrow> string \<Rightarrow> pipe" where
  "pipe_line lib pv o' st l =
     (if pipe_maxLine < length l then (endLine o' (echo pv o' l st))\<lparr>pp_line := [], pp_streaming := False, pp_oversize := pp_oversize st + 1\<rparr>
      else send_line lib pv o' l (st\<lparr>pp_streaming := False, pp_line := l\<rparr>))"

lemma echo_simps [simp]:
  "pp_line (echo pv o' t st) = pp_line st" "pp_streaming (echo pv o' t st) = pp_streaming st"
  "pp_oversize (echo pv o' t st) = pp_oversize st" "pp_line (endLine o' st) = pp_line st"
  "pp_oversize (endLine o' st) = pp_oversize st" "pp_streaming (endLine o' st) = pp_streaming st"
  by (simp_all add: echo_def endLine_def)

lemma echo_update [simp]:
  "echo pv o' t (st\<lparr>pp_line := l\<rparr>) = (echo pv o' t st)\<lparr>pp_line := l\<rparr>"
  "echo pv o' t (st\<lparr>pp_streaming := b\<rparr>) = (echo pv o' t st)\<lparr>pp_streaming := b\<rparr>"
  "endLine o' (st\<lparr>pp_line := l\<rparr>) = (endLine o' st)\<lparr>pp_line := l\<rparr>"
  "endLine o' (st\<lparr>pp_streaming := b\<rparr>) = (endLine o' st)\<lparr>pp_streaming := b\<rparr>"
  by (simp_all add: echo_def endLine_def)

lemma echo_echo: "\<not> stripped pv o' \<Longrightarrow> echo pv o' b (echo pv o' a st) = echo pv o' (a @ b) st"
  by (simp add: echo_def)

lemma pipe_chunk_more:
  assumes "stripped pv o' \<longrightarrow> length (p @ c) \<le> pipe_maxLine"
  shows "pipe_chunk lib pv o' c True (partial pv o' p st) = partial pv o' (p @ c) st"
  using assms by (auto simp: pipe_chunk_def partial_def Let_def echo_echo)

lemma pipe_chunk_end:
  assumes "stripped pv o' \<longrightarrow> length (p @ c) \<le> pipe_maxLine"
  shows "pipe_chunk lib pv o' c False (partial pv o' p st) = pipe_line lib pv o' st (p @ c)"
  using assms by (auto simp: pipe_chunk_def partial_def pipe_line_def Let_def echo_echo)

text \<open>Reading a line chunk by chunk, wherever the buffer cuts it.\<close>

definition fits_strip :: "pipe_env \<Rightarrow> options \<Rightarrow> string \<Rightarrow> bool" where
  "fits_strip pv o' l \<longleftrightarrow> stripped pv o' \<longrightarrow> length l \<le> pipe_maxLine"

lemma line_of_drop: "n \<le> length (line_of s) \<Longrightarrow> line_of s = take n s @ line_of (drop n s)"
  unfolding line_of_def by (rule takeWhile_drop_prefix)

lemma line_of_short: "\<not> length (line_of s) < length s \<Longrightarrow> line_of s = s"
  by (metis line_of_def length_takeWhile_le nat_less_le takeWhile_eq_take take_all_iff order_refl)

lemma pipe_loop_line:
  assumes "length (line_of s) < length s" "fits_strip pv o' (p @ drop_cr (line_of s))"
  shows "pipe_loop lib pv o' (s, e) (partial pv o' p st) =
    pipe_loop lib pv o' (drop (length (line_of s) + 1) s, e) (pipe_line lib pv o' st (p @ drop_cr (line_of s)))"
  using assms
proof (induction "length s" arbitrary: s p rule: less_induct)
  case less
  let ?l = "line_of s"
  note strip = less.prems(2) [unfolded fits_strip_def]
  show ?case
  proof (cases "(s, e)" rule: readSlice_cases)
    case newline
    then have "ReadLine (s, e) = Inr (drop_cr ?l, False, (drop (length ?l + 1) s, e))" by (simp add: ReadLine_def)
    then show ?thesis by (subst pipe_loop.simps) (simp add: pipe_chunk_end [OF strip])
  next
    case full
    have n: "lineBuffer \<le> length ?l" using full(1) less.prems(1) by simp
    obtain B where B: "lineBuffer = Suc B" by (simp add: lineBuffer_def)
    define k where "k = (if s ! B = CHR 13 then B else Suc B)"
    have big: "Suc B \<le> length s" using full(2) by (simp add: B)
    have taken: "take lineBuffer s = take B s @ [s ! B]" unfolding B using big by (intro take_Suc_conv_app_nth) simp
    have cr: "s ! B # drop lineBuffer s = drop B s" unfolding B using big by (intro Cons_nth_drop_Suc) simp
    have "0 < B" using B by (simp add: lineBuffer_def)
    then have k: "k \<le> length ?l" "0 < k" "k \<le> length s" using n big by (auto simp: k_def B)
    have r: "ReadLine (s, e) = Inr (take k s, True, (drop k s, e))"
    proof (cases "s ! B = CHR 13")
      case True
      then show ?thesis using full(3) cr by (simp add: ReadLine_def taken k_def)
    next
      case False
      then show ?thesis using full(3) taken by (simp add: ReadLine_def k_def B)
    qed
    have line: "?l = take k s @ line_of (drop k s)" by (rule line_of_drop [OF k(1)])
    then have m: "length ?l = k + length (line_of (drop k s))" using k(3) by (metis length_append length_take min.absorb2)
    have "line_of (drop k s) \<noteq> [] \<or> last (take k s) \<noteq> CHR 13"
    proof (cases "s ! B = CHR 13")
      case True
      then have "k < length ?l" using n by (simp add: k_def B)
      with m show ?thesis by auto
    next
      case False
      then show ?thesis using taken by (simp add: k_def B)
    qed
    then have whole: "drop_cr ?l = take k s @ drop_cr (line_of (drop k s))" by (subst line) (rule drop_cr_append)
    have less_k: "length (drop k s) < length s" using k by simp
    have rest: "length (line_of (drop k s)) < length (drop k s)" using m less.prems(1) k by simp
    have eq: "(p @ take k s) @ drop_cr (line_of (drop k s)) = p @ drop_cr ?l" unfolding whole by simp
    have fits: "fits_strip pv o' ((p @ take k s) @ drop_cr (line_of (drop k s)))" unfolding eq by (rule less.prems(2))
    then have part: "stripped pv o' \<longrightarrow> length (p @ take k s) \<le> pipe_maxLine" by (auto simp: fits_strip_def)
    have "drop (length (line_of (drop k s)) + 1) (drop k s) = drop (length ?l + 1) s" using m by (simp add: add.commute)
    with less.hyps [OF less_k rest fits] show ?thesis
      by (subst pipe_loop.simps) (simp only: r sum.case prod.case pipe_chunk_more [OF part] eq)
  next
    case last
    with less.prems(1) show ?thesis by simp
  qed
qed

text \<open>The last line, where no newline ends it and it is not as long as the buffer.\<close>

lemma pipe_loop_final:
  assumes "\<not> length (line_of s) < length s" "length s < lineBuffer"
  shows "pipe_loop lib pv o' (s, e) (partial pv o' [] st) = ((if s = [] then partial pv o' [] st else pipe_line lib pv o' st s), e)"
proof -
  have l: "line_of s = s" using assms(1) by (rule line_of_short)
  have stop: "ReadLine ([], e) = Inl e" by (simp add: ReadLine_def readSlice_line_of lineBuffer_def line_of_def)
  show ?thesis
  proof (cases "s = []")
    case True
    then show ?thesis by (subst pipe_loop.simps) (simp add: stop)
  next
    case False
    then have r: "ReadLine (s, e) = Inr (s, False, ([], e))"
      using assms(2) l by (simp add: ReadLine_def readSlice_line_of)
    have "length s \<le> pipe_maxLine" using assms(2) by (simp add: lineBuffer_def pipe_maxLine_def)
    then have "pipe_chunk lib pv o' s False (partial pv o' [] st) = pipe_line lib pv o' st s"
      using pipe_chunk_end [of pv o' "[]" s lib st] by simp
    with False show ?thesis
      by (subst pipe_loop.simps) (simp add: r pipe_loop.simps [of lib pv o' "([], e)"] stop)
  qed
qed

lemma send_line_settled: "pp_line (send_line lib pv o' l st) = []" "pp_streaming (send_line lib pv o' l st) = pp_streaming st"
  by (simp_all add: send_line_def Let_def link_write_def echo_def endLine_def)

lemma pipe_line_settled: "partial pv o' [] (pipe_line lib pv o' st l) = pipe_line lib pv o' st l"
proof -
  have "pp_line (pipe_line lib pv o' st l) = []" "\<not> pp_streaming (pipe_line lib pv o' st l)"
    by (simp_all add: pipe_line_def send_line_settled)
  then show ?thesis by (simp add: partial_def)
qed

lemma pipe_loop_lines:
  assumes "length (final_piece s) < lineBuffer" "\<forall>l\<in>set (pipe_lines s). fits_strip pv o' l" "partial pv o' [] st = st"
  shows "pipe_loop lib pv o' (s, e) st = (foldl (pipe_line lib pv o') st (pipe_lines s), e)"
  using assms
proof (induction s arbitrary: st rule: pipe_lines.induct)
  case (1 s)
  note prems = 1(2-4)
  let ?rest = "drop (length (line_of s) + 1) s"
  consider "s = []" | "s \<noteq> []" "length (line_of s) < length s" | "s \<noteq> []" "\<not> length (line_of s) < length s" by blast
  then show ?case
  proof cases
    case 1
    then show ?thesis using pipe_loop_final [of s lib pv o' e st] prems(3)
      by (simp add: pipe_lines.simps [of "[]"] lineBuffer_def line_of_def)
  next
    case 2
    have lines: "pipe_lines s = drop_cr (line_of s) # pipe_lines ?rest" using 2 by (subst pipe_lines.simps) simp
    have final: "final_piece s = final_piece ?rest" using 2 by (subst final_piece.simps) simp
    have "fits_strip pv o' ([] @ drop_cr (line_of s))" using prems(2) by (simp add: lines)
    from pipe_loop_line [OF 2(2) this, of lib e st]
    have step: "pipe_loop lib pv o' (s, e) st = pipe_loop lib pv o' (?rest, e) (pipe_line lib pv o' st (drop_cr (line_of s)))"
      by (simp add: prems(3))
    have "\<forall>l\<in>set (pipe_lines ?rest). fits_strip pv o' l" "length (final_piece ?rest) < lineBuffer"
      using prems(1,2) by (simp_all add: lines final)
    with 1(1) [OF 2(1,2)] pipe_line_settled show ?thesis unfolding step lines foldl_Cons by blast
  next
    case 3
    have "final_piece s = s" using 3(2) by (subst final_piece.simps) simp
    with prems(1) have "length s < lineBuffer" by simp
    from pipe_loop_final [OF 3(2) this, of lib pv o' e st] 3 prems(3) show ?thesis
      by (simp add: pipe_lines.simps [of s])
  qed
qed

section \<open>What is shown and sent\<close>

text \<open>The lines that are assembled, numbered as they are sent; those whose datagram can be carried; and those that are.\<close>

fun assembled :: "nat \<Rightarrow> string list \<Rightarrow> (nat \<times> string) list" where
  "assembled i [] = []"
| "assembled i (l # ls) = (if pipe_maxLine < length l then assembled i ls else (i, drop_cr l) # assembled (Suc i) ls)"

definition fitting :: "pipe_lib \<Rightarrow> pipe_env \<Rightarrow> options \<Rightarrow> (nat \<times> string) list \<Rightarrow> (nat \<times> string) list" where
  "fitting lib pv o' xs = filter (\<lambda>x. length (datagram_of lib pv o' x) \<le> pipe_maxDatagram) xs"

definition linked :: "pipe_env \<Rightarrow> nat \<Rightarrow> bool" where
  "linked pv i \<longleftrightarrow> pv_dialled pv \<or> (\<exists>j\<le>i. pv_redialled pv j)"

definition shown_text :: "pipe_env \<Rightarrow> options \<Rightarrow> string \<Rightarrow> string" where
  "shown_text pv o' l =
     (let t = (if pipe_maxLine < length l then l else drop_cr l)
      in (if stripped pv o' then stripANSI t else t) @ [CHR 10])"

definition linked_before :: "pipe_env \<Rightarrow> nat \<Rightarrow> bool" where
  "linked_before pv i \<longleftrightarrow> pv_dialled pv \<or> (\<exists>j<i. pv_redialled pv j)"

lemma linked_step: "linked_before pv i \<or> pv_redialled pv i \<longleftrightarrow> linked pv i" "linked_before pv (Suc i) \<longleftrightarrow> linked pv i"
  by (auto simp: linked_def linked_before_def less_Suc_eq_le order_le_less)

lemma pipe_line_long:
  assumes "pipe_maxLine < length l"
  shows "pp_out (pipe_line lib pv o' st l) = pp_out st @ (if op_mute o' then [] else shown_text pv o' l)"
    "pp_sent (pipe_line lib pv o' st l) = pp_sent st" "pp_unsent (pipe_line lib pv o' st l) = pp_unsent st"
    "pp_oversize (pipe_line lib pv o' st l) = pp_oversize st + 1" "pp_turn (pipe_line lib pv o' st l) = pp_turn st"
    "pp_conn (pipe_line lib pv o' st l) = pp_conn st"
  using assms by (simp_all add: pipe_line_def echo_def endLine_def shown_text_def)

lemma pipe_line_short:
  fixes st :: pipe and pv :: pipe_env
  assumes "\<not> pipe_maxLine < length l"
  defines "x \<equiv> (pp_turn st, drop_cr l)" and "up \<equiv> pp_conn st \<or> pv_redialled pv (pp_turn st)"
  shows "pp_out (pipe_line lib pv o' st l) = pp_out st @ (if op_mute o' then [] else shown_text pv o' l)"
    "pp_sent (pipe_line lib pv o' st l) = pp_sent st @ map (datagram_of lib pv o') (filter (\<lambda>x. up) (fitting lib pv o' [x]))"
    "pp_unsent (pipe_line lib pv o' st l) = pp_unsent st + length (filter (\<lambda>x. \<not> up) (fitting lib pv o' [x]))"
    "pp_oversize (pipe_line lib pv o' st l) + length (fitting lib pv o' [x]) = pp_oversize st + 1"
    "pp_turn (pipe_line lib pv o' st l) = Suc (pp_turn st)" "pp_conn (pipe_line lib pv o' st l) = up"
  using assms(1)
  by (simp_all add: pipe_line_def send_line_def Let_def echo_def endLine_def link_write_def shown_text_def fitting_def x_def up_def)

lemma pipe_lines_all:
  fixes st :: pipe and lib :: pipe_lib and o' :: options
  assumes "pp_conn st = linked_before pv (pp_turn st)"
  defines "xs \<equiv> \<lambda>ls. fitting lib pv o' (assembled (pp_turn st) ls)"
  shows "pp_out (foldl (pipe_line lib pv o') st ls) = pp_out st @ (if op_mute o' then [] else concat (map (shown_text pv o') ls))"
    "pp_sent (foldl (pipe_line lib pv o') st ls) = pp_sent st @ map (datagram_of lib pv o') (filter (linked pv \<circ> fst) (xs ls))"
    "pp_unsent (foldl (pipe_line lib pv o') st ls) = pp_unsent st + length (filter (Not \<circ> linked pv \<circ> fst) (xs ls))"
    "pp_oversize (foldl (pipe_line lib pv o') st ls) + length (xs ls) = pp_oversize st + length ls"
proof -
  have "pp_out (foldl (pipe_line lib pv o') st ls) = pp_out st @ (if op_mute o' then [] else concat (map (shown_text pv o') ls)) \<and>
    pp_sent (foldl (pipe_line lib pv o') st ls) = pp_sent st @ map (datagram_of lib pv o') (filter (linked pv \<circ> fst) (xs ls)) \<and>
    pp_unsent (foldl (pipe_line lib pv o') st ls) = pp_unsent st + length (filter (Not \<circ> linked pv \<circ> fst) (xs ls)) \<and>
    pp_oversize (foldl (pipe_line lib pv o') st ls) + length (xs ls) = pp_oversize st + length ls"
    using assms(1) unfolding xs_def
  proof (induction ls arbitrary: st)
    case Nil
    then show ?case by (simp add: fitting_def)
  next
    case (Cons l ls)
    let ?st = "pipe_line lib pv o' st l"
    show ?case
    proof (cases "pipe_maxLine < length l")
      case True
      with Cons.prems have "pp_conn ?st = linked_before pv (pp_turn ?st)" by (simp add: pipe_line_long)
      from Cons.IH [OF this] True show ?thesis by (simp add: pipe_line_long)
    next
      case False
      have conn: "(pp_conn st \<or> pv_redialled pv (pp_turn st)) = linked pv (pp_turn st)"
        unfolding Cons.prems by (rule linked_step(1))
      then have "pp_conn ?st = linked_before pv (pp_turn ?st)" using False by (simp add: pipe_line_short linked_step(2))
      note IH = Cons.IH [OF this]
      have split: "fitting lib pv o' (assembled (pp_turn st) (l # ls)) =
          fitting lib pv o' [(pp_turn st, drop_cr l)] @ fitting lib pv o' (assembled (pp_turn ?st) ls)"
        using False by (simp add: fitting_def pipe_line_short)
      have one: "filter (\<lambda>x. linked pv (pp_turn st)) (fitting lib pv o' [(pp_turn st, drop_cr l)]) =
          filter (linked pv \<circ> fst) (fitting lib pv o' [(pp_turn st, drop_cr l)])"
        "filter (\<lambda>x. \<not> linked pv (pp_turn st)) (fitting lib pv o' [(pp_turn st, drop_cr l)]) =
          filter (Not \<circ> linked pv \<circ> fst) (fitting lib pv o' [(pp_turn st, drop_cr l)])"
        by (simp_all add: fitting_def)
      note short = pipe_line_short [OF False, of lib pv o' st, unfolded conn one]
      show ?thesis using IH short unfolding split foldl_Cons filter_append map_append length_append by (auto simp: o_def)
    qed
  qed
  then show "pp_out (foldl (pipe_line lib pv o') st ls) = pp_out st @ (if op_mute o' then [] else concat (map (shown_text pv o') ls))"
    "pp_sent (foldl (pipe_line lib pv o') st ls) = pp_sent st @ map (datagram_of lib pv o') (filter (linked pv \<circ> fst) (xs ls))"
    "pp_unsent (foldl (pipe_line lib pv o') st ls) = pp_unsent st + length (filter (Not \<circ> linked pv \<circ> fst) (xs ls))"
    "pp_oversize (foldl (pipe_line lib pv o') st ls) + length (xs ls) = pp_oversize st + length ls" by blast+
qed

text \<open>The lines of an input whose datagrams the socket is handed.\<close>

definition carried :: "pipe_lib \<Rightarrow> pipe_env \<Rightarrow> options \<Rightarrow> (nat \<times> string) list" where
  "carried lib pv o' = filter (linked pv \<circ> fst) (fitting lib pv o' (assembled 0 (pipe_lines (fst (pv_stdin pv)))))"

lemma carried_fits: "x \<in> set (carried lib pv o') \<Longrightarrow> length (datagram_of lib pv o' x) \<le> maxDatagram"
  by (simp add: carried_def fitting_def pipe_maxDatagram_def maxDatagram_def)

lemma parseArgs_name: "parseArgs name args = Inr o' \<Longrightarrow> op_id o' \<noteq> ''''"
  by (auto simp: parseArgs_def split: sum.splits if_splits)

lemma Run_pipe:
  assumes "parseArgs name args = Inr o'" "Run lib pv name args = Piped p code"
    "length (final_piece (fst (pv_stdin pv))) < lineBuffer" "\<forall>l\<in>set (pipe_lines (fst (pv_stdin pv))). fits_strip pv o' l"
  shows "p = foldl (pipe_line lib pv o') (openLink pv) (pipe_lines (fst (pv_stdin pv)))"
    "code = (if snd (pv_stdin pv) = EOF then 0 else 1)"
proof -
  have "partial pv o' [] (openLink pv) = openLink pv" by (simp add: partial_def openLink_def)
  from pipe_loop_lines [OF assms(3,4) this, of lib "snd (pv_stdin pv)"]
  show "p = foldl (pipe_line lib pv o') (openLink pv) (pipe_lines (fst (pv_stdin pv)))"
    "code = (if snd (pv_stdin pv) = EOF then 0 else 1)"
    using assms(1,2) by (auto simp: Run_def split: if_splits)
qed

section \<open>From a line to a record\<close>

text \<open>What the receiver makes of the datagram of a line.\<close>

definition line_datagram :: "pipe_lib \<Rightarrow> pipe_env \<Rightarrow> options \<Rightarrow> nat \<times> string \<Rightarrow> datagram" where
  "line_datagram lib pv o' x = (op_id o', pv_clock pv (fst x), encodeContent lib (snd x))"


text \<open>
  A last line exactly as long as the buffer, with no newline after it, is read as a part of a line; the
  end of the input then leaves the loop, and the line is neither shown, nor sent, nor counted.
\<close>

lemma final_line_lost:
  assumes "length s = lineBuffer" "CHR 10 \<notin> set s" "last s \<noteq> CHR 13" "pv_stdin pv = (s, EOF)" "parseArgs name args = Inr o'"
    "\<not> op_help o'" "\<not> op_version o'"
  shows "\<exists>p. Run lib pv name args = Piped p 0 \<and> pp_out p = [] \<and> pp_sent p = [] \<and> pp_oversize p = 0 \<and> pp_unsent p = 0"
proof -
  have "line_of s = s" unfolding line_of_def using assms(2) by (auto simp: takeWhile_eq_all_conv)
  then have r: "ReadLine (s, EOF) = Inr (s, True, ([], EOF))"
    using assms(1,3) by (simp add: ReadLine_def readSlice_line_of)
  have stop: "ReadLine ([], EOF) = Inl EOF" by (simp add: ReadLine_def readSlice_line_of lineBuffer_def line_of_def)
  have "length s \<le> pipe_maxLine" using assms(1) by (simp add: lineBuffer_def pipe_maxLine_def)
  then have "pipe_loop lib pv o' (s, EOF) (openLink pv) = ((openLink pv)\<lparr>pp_line := s\<rparr>, EOF)"
    by (subst pipe_loop.simps) (simp add: r pipe_loop.simps [of lib pv o' "([], EOF)"] stop pipe_chunk_def openLink_def Let_def)
  then show ?thesis using assms(4-7) by (simp add: Run_def openLink_def)
qed

definition ex_pipe_lib :: pipe_lib where
  "ex_pipe_lib = \<lparr>pl_valid = (\<lambda>s. False), pl_json5 = (\<lambda>s. None), pl_quote = (\<lambda>s. [CHR 34] @ s @ [CHR 34])\<rparr>"

definition ex_pipe_env :: pipe_env where
  "ex_pipe_env = \<lparr>pv_stdin = (''hi'' @ [CHR 13, CHR 10] @ ''yo'', EOF), pv_colour = True, pv_dialled = False,
     pv_redialled = (\<lambda>i. i = 1), pv_clock = (\<lambda>i. 5)\<rparr>"

definition ex_pipe_options :: options where "ex_pipe_options = default_options ''calm-sea''"

definition ex_udp :: "unit udp_source" where
  "ex_udp = \<lparr>ud_decode = (\<lambda>d. Some (''calm-sea'', 5, encodeContent ex_pipe_lib ''yo'')),
     ud_norm = \<lparr>n_valid = (\<lambda>s. False), n_object = (\<lambda>s. None), n_unquote = Some, n_float = (\<lambda>s. None),
       n_float_text = (\<lambda>f. ''0''), n_float_time = (\<lambda>f. 0), n_time = (\<lambda>l s. None), n_lower = id, n_upper = id\<rparr>,
     ud_clock = (\<lambda>i. 5), ud_append = (\<lambda>i. ())\<rparr>"

lemma ex_pipe_lines: "pipe_lines (''hi'' @ [CHR 13, CHR 10] @ ''yo'') = [''hi'', ''yo'']"
  by (simp add: pipe_lines.simps line_of_def drop_cr_def)

lemma ex_final_piece: "final_piece (''hi'' @ [CHR 13, CHR 10] @ ''yo'') = ''yo''"
  by (simp add: final_piece.simps line_of_def)

lemma ex_quote: "pl_quote ex_pipe_lib s = [CHR 34] @ s @ [CHR 34]"
  by (simp add: ex_pipe_lib_def)

lemma ex_content: "encodeContent ex_pipe_lib s = [CHR 34] @ s @ [CHR 34]"
  by (simp add: encodeContent_def ex_pipe_lib_def Let_def)

lemma ex_carried: "carried ex_pipe_lib ex_pipe_env ex_pipe_options = [(1, ''yo'')]"
proof -
  have time: "show_int 5 = ''5''" by code_simp
  show ?thesis
    by (simp add: carried_def ex_pipe_env_def ex_pipe_lines [simplified] pipe_maxLine_def drop_cr_def fitting_def datagram_of_def
        encodeDatagram_def ex_content time linked_def pipe_maxDatagram_def json_key_def ex_quote ex_pipe_options_def default_options_def)
qed


end
