(* ===== verification/Api.thy ===== *)
theory Api
  imports QuerySearch Config Server
begin

text \<open>
  The handlers of the search endpoints, \<open>src/internal/api/search.go\<close>: reading a request's parameters, the
  answers, the merged list of fields, and which failures are the client's.  Values of the query string
  are a function, empty where there is none; parsing an RFC 3339 time, the clock at its readings,
  printing a time and decoding a JSON body are parameters.
\<close>

section \<open>Parameters\<close>

record api_lib =
  al_config :: config_lib
  al_search :: search_lib
  al_time :: "string \<Rightarrow> int option"
  al_time_text :: "int \<Rightarrow> string"

definition parseTime :: "api_lib \<Rightarrow> int \<Rightarrow> string \<Rightarrow> string + int" where
  "parseTime lib now v =
     (if v = '''' then Inr zero_time
      else if hd v = CHR ''-'' \<or> hd v = CHR ''+'' then
        (case ParseDuration (al_config lib) v of
           Inl e \<Rightarrow> Inl (''bad relative time '' @ cl_quoted (al_config lib) v) | Inr offset \<Rightarrow> Inr (now + offset))
      else case al_time lib v of
        Some t \<Rightarrow> Inr t
      | None \<Rightarrow>
          (case parse_int 64 v of
             Some millis \<Rightarrow> Inr (millis * 10 ^ 6) | None \<Rightarrow> Inl (''bad time '' @ cl_quoted (al_config lib) v)))"

fun cursor_error_text :: "cursor_error \<Rightarrow> string" where
  "cursor_error_text MalformedCursor = ''malformed cursor''"
| "cursor_error_text MalformedTimestamp = ''malformed cursor timestamp''"
| "cursor_error_text MalformedSequence = ''malformed cursor sequence''"
| "cursor_error_text MalformedWindow = ''malformed cursor window''"

text \<open>\<open>now\<close> is the clock, read once for each end of the window.\<close>

definition searchRequest :: "api_lib \<Rightarrow> (nat \<Rightarrow> int) \<Rightarrow> (string \<Rightarrow> string) \<Rightarrow> string + request" where
  "searchRequest lib now vals =
     bind_sum (parseTime lib (now 0) (vals ''from'')) (\<lambda>from.
     bind_sum (parseTime lib (now 1) (vals ''to'')) (\<lambda>to.
     bind_sum (if vals ''limit'' = '''' then Inr 0
               else case parse_int 64 (vals ''limit'') of
                 Some n \<Rightarrow> if n < 1 then Inl ''limit must be a positive integer'' else Inr n
               | None \<Rightarrow> Inl ''limit must be a positive integer'') (\<lambda>limit.
     (case ParseCursor (vals ''cursor'') of
        Inl e \<Rightarrow> Inl (cursor_error_text e)
      | Inr cu \<Rightarrow> Inr \<lparr>rq_query = vals ''q'', rq_lang = (if vals ''lang'' = ''sql'' then LangSQL else LangRQL),
          rq_stream = vals ''stream'', rq_from = from, rq_to = to, rq_limit = limit,
          rq_ascending = (vals ''order'' = ''asc''), rq_cursor = cu\<rparr>))))"

text \<open>A count within bounds, or its default where it is not given.\<close>

definition count_param :: "string \<Rightarrow> int \<Rightarrow> string \<Rightarrow> string + int" where
  "count_param name fallback v =
     (if v = '''' then Inr fallback
      else case parse_int 64 v of
        Some n \<Rightarrow> if n < 1 \<or> n > 1000 then Inl (name @ '' must be between 1 and 1000'') else Inr n
      | None \<Rightarrow> Inl (name @ '' must be between 1 and 1000''))"

section \<open>Failures\<close>

datatype api_error = BadRequest string | EngineError search_error

record error_payload =
  ep_error :: string
  ep_message :: "string option"
  ep_position :: "nat option"

definition failQuery :: "api_error \<Rightarrow> nat \<times> error_payload" where
  "failQuery e =
     (case e of
        BadRequest m \<Rightarrow> (400, \<lparr>ep_error = m, ep_message = None, ep_position = None\<rparr>)
      | EngineError (BadQuery (RqlError m at)) \<Rightarrow>
          (400, \<lparr>ep_error = m @ '' at position '' @ show_nat at, ep_message = Some m, ep_position = Some at\<rparr>)
      | EngineError (Failed f) \<Rightarrow>
          (if UserFault f then (400, \<lparr>ep_error = Public f, ep_message = Some (Public f), ep_position = None\<rparr>)
           else (500, \<lparr>ep_error = ''query failed'', ep_message = None, ep_position = None\<rparr>))
      | EngineError _ \<Rightarrow> (500, \<lparr>ep_error = ''query failed'', ep_message = None, ep_position = None\<rparr>))"

definition noEngine :: "nat \<times> error_payload" where
  "noEngine = (503, \<lparr>ep_error = ''search needs durable storage; start rtail-server with --data'', ep_message = None, ep_position = None\<rparr>)"

section \<open>Answers\<close>

record scanned_json =
  sj_files :: nat
  sj_rows :: int
  sj_bytes :: int
  sj_from :: string
  sj_to :: string

definition scannedOf :: "api_lib \<Rightarrow> scanned \<Rightarrow> scanned_json" where
  "scannedOf lib s = \<lparr>sj_files = sc_files s, sj_rows = sc_rows s, sj_bytes = sc_bytes s,
     sj_from = al_time_text lib (sc_from s), sj_to = al_time_text lib (sc_to s)\<rparr>"

text \<open>An answer, or a call that waits for a slot.\<close>

datatype 'a reply = Answer nat 'a | Error nat error_payload | Pending

definition refuse :: "api_error \<Rightarrow> 'a reply" where
  "refuse e = (case failQuery e of (status, payload) \<Rightarrow> Error status payload)"

definition reply_with :: "('b \<Rightarrow> 'a) \<Rightarrow> (search_error + 'b) \<times> nat \<Rightarrow> 'a reply \<times> nat" where
  "reply_with f res =
     (case res of (Inl Waits, n) \<Rightarrow> (Pending, n) | (Inl e, n) \<Rightarrow> (refuse (EngineError e), n) | (Inr x, n) \<Rightarrow> (Answer 200 (f x), n))"

text \<open>What the engine is and reads, where there is one.\<close>

record api_engine =
  ae_engine :: engine
  ae_rows :: "search_row db"
  ae_fields :: "(scanned_value \<times> scanned_value list) db"
  ae_buckets :: "(int \<times> string \<times> int) db"
  ae_values :: "field_value db"
  ae_counts :: "int list db"
  ae_binds :: "unit db"
  ae_sql :: "scanned_value list db"
  ae_names :: "string \<Rightarrow> cause + string list"
  ae_world :: world

definition api_search ::
  "api_lib \<Rightarrow> api_engine option \<Rightarrow> (nat \<Rightarrow> int) \<Rightarrow> (string \<Rightarrow> string) \<Rightarrow> nat \<Rightarrow> (rec list \<times> scanned_json \<times> string option) reply \<times> nat"
where
  "api_search lib en now vals n =
     (case en of
        None \<Rightarrow> (Error (fst noEngine) (snd noEngine), n)
      | Some a \<Rightarrow>
          (case searchRequest lib now vals of
             Inl m \<Rightarrow> (refuse (BadRequest m), n)
           | Inr rq \<Rightarrow> reply_with (\<lambda>res. (rs_records res, scannedOf lib (rs_scanned res), map_option cursor_string (rs_next res)))
               (Search (al_search lib) (ae_engine a) (ae_rows a) (ae_fields a) (ae_world a) rq n)))"

definition milliseconds :: "int \<Rightarrow> int" where "milliseconds d = quotient d (10 ^ 6)"

definition api_histogram ::
  "api_lib \<Rightarrow> api_engine option \<Rightarrow> (nat \<Rightarrow> int) \<Rightarrow> (string \<Rightarrow> string) \<Rightarrow> nat \<Rightarrow> (hist_bucket list \<times> int) reply \<times> nat"
where
  "api_histogram lib en now vals n =
     (case en of
        None \<Rightarrow> (Error (fst noEngine) (snd noEngine), n)
      | Some a \<Rightarrow>
          (case bind_sum (searchRequest lib now vals) (\<lambda>rq. map_sum id (Pair rq) (count_param ''buckets'' 60 (vals ''buckets''))) of
             Inl m \<Rightarrow> (refuse (BadRequest m), n)
           | Inr (rq, buckets) \<Rightarrow> reply_with (\<lambda>(series, width). (series, milliseconds width))
               (Histogram (al_search lib) (ae_engine a) (ae_buckets a) (ae_world a) rq buckets n)))"

definition api_fields ::
  "api_lib \<Rightarrow> api_engine option \<Rightarrow> (nat \<Rightarrow> int) \<Rightarrow> (string \<Rightarrow> string) \<Rightarrow> nat \<Rightarrow> (string \<times> field_value list) reply \<times> nat"
where
  "api_fields lib en now vals n =
     (case en of
        None \<Rightarrow> (Error (fst noEngine) (snd noEngine), n)
      | Some a \<Rightarrow>
          (let field = vals ''field''
           in case (if field = '''' then Inl ''field is required'' else
                bind_sum (searchRequest lib now vals) (\<lambda>rq. map_sum id (Pair rq) (count_param ''top'' 10 (vals ''top'')))) of
                Inl m \<Rightarrow> (refuse (BadRequest m), n)
              | Inr (rq, limit) \<Rightarrow> reply_with (Pair field)
                  (FieldValues (al_search lib) (ae_engine a) (ae_values a) (ae_world a) rq field limit n)))"

text \<open>The body of a statement of the caller's own, where it decodes.\<close>

record sql_body =
  sb_sql :: string
  sb_stream :: string
  sb_from :: string
  sb_to :: string
  sb_limit :: int

definition api_sql ::
  "api_lib \<Rightarrow> api_engine option \<Rightarrow> (nat \<Rightarrow> int) \<Rightarrow> sql_body option \<Rightarrow> nat
   \<Rightarrow> (string list \<times> scanned_value list list \<times> scanned_json) reply \<times> nat"
where
  "api_sql lib en now body n =
     (case en of
        None \<Rightarrow> (Error (fst noEngine) (snd noEngine), n)
      | Some a \<Rightarrow>
          (case body of
             None \<Rightarrow> (refuse (BadRequest ''body must be JSON with a sql field''), n)
           | Some b \<Rightarrow>
               (case (if sb_sql b = '''' then Inl ''sql is required''
                      else bind_sum (parseTime lib (now 0) (sb_from b)) (\<lambda>from. map_sum id (Pair from) (parseTime lib (now 1) (sb_to b)))) of
                  Inl m \<Rightarrow> (refuse (BadRequest m), n)
                | Inr (from, to) \<Rightarrow> reply_with (\<lambda>(columns, rows, s). (columns, rows, scannedOf lib s))
                    (SQL (al_search lib) (ae_engine a) (ae_sql a) (ae_names a) (ae_world a) (sb_sql b)
                      \<lparr>rq_query = '''', rq_lang = LangRQL, rq_stream = sb_stream b, rq_from = from, rq_to = to,
                       rq_limit = sb_limit b, rq_ascending = False, rq_cursor = None\<rparr> n))))"

section \<open>The list of fields\<close>

record field_json =
  fj_name :: string
  fj_kind :: string
  fj_polymorphic :: bool
  fj_occurrences :: int
  fj_matches :: "int option"
  fj_stream :: string

text \<open>A row of \<open>schema_keys\<close>: its stream and key, and what is counted of them.\<close>

type_synonym key_row = "(string \<times> string) \<times> schema_key"

text \<open>\<open>SchemaKeys\<close>: the most frequent first, then by name; rows that tie in both are in the table's order.\<close>

definition SchemaKeys :: "string \<Rightarrow> catalog \<Rightarrow> key_row list" where
  "SchemaKeys strm c =
     sort_key (\<lambda>r. - k_occurrences (snd r)) (sort_key (snd \<circ> fst) (filter (\<lambda>r. strm = '''' \<or> fst (fst r) = strm) (c_keys c)))"

definition field_of :: "key_row \<Rightarrow> field_json" where
  "field_of r = \<lparr>fj_name = snd (fst r), fj_kind = k_kind (snd r), fj_polymorphic = k_polymorphic (snd r),
     fj_occurrences = k_occurrences (snd r), fj_matches = None, fj_stream = fst (fst r)\<rparr>"

definition merge_field :: "key_row \<Rightarrow> field_json \<Rightarrow> field_json" where
  "merge_field r f =
     f\<lparr>fj_occurrences := fj_occurrences f + k_occurrences (snd r),
       fj_polymorphic := (fj_polymorphic f \<or> fj_kind f \<noteq> k_kind (snd r) \<or> k_polymorphic (snd r)),
       fj_kind := (if fj_kind f \<noteq> k_kind (snd r) then ''string'' else fj_kind f),
       fj_stream := ''''\<rparr>"

text \<open>The entries by name, in the order the names first came.\<close>

fun add_field :: "field_json list \<Rightarrow> key_row \<Rightarrow> field_json list" where
  "add_field [] r = [field_of r]"
| "add_field (f # fs) r = (if fj_name f = snd (fst r) then merge_field r f # fs else f # add_field fs r)"

definition merged_fields :: "key_row list \<Rightarrow> field_json list" where
  "merged_fields rows = foldl add_field [] rows"

definition envelopeFields :: "string list" where
  "envelopeFields = [''ts'', ''level'', ''msg'', ''stream'', ''host'', ''raw'', ''seq'']"

definition envelope_field :: "string \<Rightarrow> field_json" where
  "envelope_field name = \<lparr>fj_name = name, fj_kind = ''envelope'', fj_polymorphic = False, fj_occurrences = 0,
     fj_matches = None, fj_stream = ''''\<rparr>"

definition with_count :: "(string \<times> int) list \<Rightarrow> field_json \<Rightarrow> field_json" where
  "with_count counts f = f\<lparr>fj_matches := Some (case map_of counts (fj_name f) of Some n \<Rightarrow> n | None \<Rightarrow> 0)\<rparr>"

text \<open>\<open>keys_error\<close> is the error of the catalog's query, where it fails.\<close>

definition api_schema ::
  "api_lib \<Rightarrow> api_engine option \<Rightarrow> catalog option \<Rightarrow> string option \<Rightarrow> (nat \<Rightarrow> int) \<Rightarrow> (string \<Rightarrow> string) \<Rightarrow> nat
   \<Rightarrow> field_json list reply \<times> nat"
where
  "api_schema lib en cat keys_error now vals n =
     (case cat of
        None \<Rightarrow> (Error (fst noEngine) (snd noEngine), n)
      | Some c \<Rightarrow>
          (case keys_error of
             Some e \<Rightarrow> (Error 500 \<lparr>ep_error = e, ep_message = None, ep_position = None\<rparr>, n)
           | None \<Rightarrow>
               (let fs = map envelope_field envelopeFields @ merged_fields (SchemaKeys (vals ''stream'') c)
                in case (en, searchRequest lib now vals) of
                     (Some a, Inr rq) \<Rightarrow>
                       (case FieldCounts (al_search lib) (ae_engine a) (ae_counts a) (ae_binds a) (ae_world a) rq (map fj_name fs) n of
                          (Inl Waits, n') \<Rightarrow> (Pending, n')
                        | (Inl _, n') \<Rightarrow> (Answer 200 fs, n')
                        | (Inr counts, n') \<Rightarrow> (Answer 200 (map (with_count counts) fs), n'))
                   | _ \<Rightarrow> (Answer 200 fs, n))))"

section \<open>What the merged list says\<close>

text \<open>The rows of one name, and the entry they ask for.\<close>

definition rows_of :: "string \<Rightarrow> key_row list \<Rightarrow> key_row list" where
  "rows_of name rows = filter (\<lambda>r. snd (fst r) = name) rows"

definition describes :: "field_json \<Rightarrow> key_row list \<Rightarrow> bool" where
  "describes f rs \<longleftrightarrow> rs \<noteq> [] \<and> fj_occurrences f = sum_list (map (k_occurrences \<circ> snd) rs) \<and>
     (fj_polymorphic f \<longleftrightarrow> (\<exists>r\<in>set rs. k_polymorphic (snd r)) \<or> (\<exists>r\<in>set rs. \<exists>r'\<in>set rs. k_kind (snd r) \<noteq> k_kind (snd r'))) \<and>
     fj_kind f = (if \<exists>r\<in>set rs. k_kind (snd r) \<noteq> k_kind (snd (hd rs)) then ''string'' else k_kind (snd (hd rs))) \<and>
     fj_stream f = (if length rs = 1 then fst (fst (hd rs)) else '''') \<and> fj_matches f = None"

lemma describes_first: "describes (field_of r) [r]"
  by (simp add: describes_def field_of_def)

lemma differ_iff: "rs \<noteq> [] \<Longrightarrow> (\<exists>r\<in>set rs. \<exists>r'\<in>set rs. f r \<noteq> f r') \<longleftrightarrow> (\<exists>r\<in>set rs. f r \<noteq> f (hd rs))"
  by (metis hd_in_set)

lemma describes_next:
  assumes "describes f rs"
  shows "describes (merge_field r f) (rs @ [r])"
proof -
  let ?k = "\<lambda>r. k_kind (snd r)"
  have rs: "rs \<noteq> []" and f: "fj_occurrences f = sum_list (map (k_occurrences \<circ> snd) rs)"
    "fj_polymorphic f \<longleftrightarrow> (\<exists>r\<in>set rs. k_polymorphic (snd r)) \<or> (\<exists>r\<in>set rs. ?k r \<noteq> ?k (hd rs))"
    "fj_kind f = (if \<exists>r\<in>set rs. ?k r \<noteq> ?k (hd rs) then ''string'' else ?k (hd rs))" "fj_matches f = None"
    using assms differ_iff [of rs ?k] by (simp_all add: describes_def)
  define d where "d \<longleftrightarrow> (\<exists>q\<in>set rs. ?k q \<noteq> ?k (hd rs))"
  define p where "p \<longleftrightarrow> (\<exists>q\<in>set rs. k_polymorphic (snd q))"
  have f': "fj_polymorphic f \<longleftrightarrow> p \<or> d" "fj_kind f = (if d then ''string'' else ?k (hd rs))"
    unfolding p_def d_def by (rule f(2), rule f(3))
  have h: "hd (rs @ [r]) = hd rs" "rs @ [r] \<noteq> []" using rs by simp_all
  have ex: "(\<exists>q\<in>set (rs @ [r]). ?k q \<noteq> ?k (hd rs)) \<longleftrightarrow> d \<or> ?k r \<noteq> ?k (hd rs)"
    "(\<exists>q\<in>set (rs @ [r]). k_polymorphic (snd q)) \<longleftrightarrow> p \<or> k_polymorphic (snd r)"
    unfolding d_def p_def by auto
  have "fj_polymorphic (merge_field r f) \<longleftrightarrow> (p \<or> k_polymorphic (snd r)) \<or> (d \<or> ?k r \<noteq> ?k (hd rs))"
    by (cases d) (auto simp: merge_field_def f')
  moreover have "fj_kind (merge_field r f) = (if d \<or> ?k r \<noteq> ?k (hd rs) then ''string'' else ?k (hd rs))"
    by (cases d) (auto simp: merge_field_def f')
  moreover have "fj_occurrences (merge_field r f) = sum_list (map (k_occurrences \<circ> snd) (rs @ [r]))"
    "fj_stream (merge_field r f) = ''''" "fj_matches (merge_field r f) = None" "length (rs @ [r]) \<noteq> 1"
    using rs f(1,4) by (simp_all add: merge_field_def)
  ultimately show ?thesis unfolding describes_def differ_iff [OF h(2)] h(1) ex using h(2) by (simp only: if_False) blast
qed

lemma add_field_names: "map fj_name (add_field fs r) = (if snd (fst r) \<in> fj_name ` set fs then map fj_name fs else map fj_name fs @ [snd (fst r)])"
  by (induction fs) (auto simp: field_of_def merge_field_def)

lemma add_field_entries:
  assumes "distinct (map fj_name fs)" "f \<in> set (add_field fs r)"
  shows "f \<in> set fs \<and> fj_name f \<noteq> snd (fst r) \<or> (\<exists>f0\<in>set fs. fj_name f0 = snd (fst r) \<and> f = merge_field r f0)
    \<or> snd (fst r) \<notin> fj_name ` set fs \<and> f = field_of r"
  using assms
proof (induction fs)
  case (Cons g fs)
  show ?case
  proof (cases "fj_name g = snd (fst r)")
    case True
    then have "f = merge_field r g \<or> f \<in> set fs" using Cons.prems(2) by auto
    moreover have "f \<in> set fs \<Longrightarrow> fj_name f \<noteq> snd (fst r)" using Cons.prems(1) True by (metis distinct.simps(2) image_eqI list.set_map list.simps(9))
    ultimately show ?thesis using True by auto
  next
    case False
    with Cons show ?thesis by auto
  qed
qed simp

text \<open>
  One entry per name, in the order the names first came, each with what the rows of its name say
  together, from whichever streams they are and in whatever order.
\<close>

lemma merged_fields_exact:
  "map fj_name (merged_fields rows) = rev (remdups (rev (map (\<lambda>r. snd (fst r)) rows))) \<and>
   (\<forall>f\<in>set (merged_fields rows). describes f (rows_of (fj_name f) rows))"
proof (induction rows rule: rev_induct)
  case Nil
  then show ?case by (simp add: merged_fields_def)
next
  case (snoc r rows)
  let ?n = "snd (fst r)" and ?fs = "merged_fields rows"
  have names: "map fj_name ?fs = rev (remdups (rev (map (\<lambda>r. snd (fst r)) rows)))"
    and said: "\<forall>f\<in>set ?fs. describes f (rows_of (fj_name f) rows)" using snoc by auto
  have set: "fj_name ` set ?fs = (\<lambda>r. snd (fst r)) ` set rows" using arg_cong [OF names, of set] by simp
  have step: "merged_fields (rows @ [r]) = add_field ?fs r" by (simp add: merged_fields_def)
  show ?case unfolding step
  proof (intro conjI ballI)
    show "map fj_name (add_field ?fs r) = rev (remdups (rev (map (\<lambda>r. snd (fst r)) (rows @ [r]))))"
      unfolding add_field_names names set by auto
    fix f assume f: "f \<in> set (add_field ?fs r)"
    have "distinct (map fj_name ?fs)" unfolding names by simp
    from add_field_entries [OF this f] consider "f \<in> set ?fs" "fj_name f \<noteq> ?n"
      | f0 where "f0 \<in> set ?fs" "fj_name f0 = ?n" "f = merge_field r f0" | "?n \<notin> fj_name ` set ?fs" "f = field_of r" by blast
    then show "describes f (rows_of (fj_name f) (rows @ [r]))"
    proof cases
      case 1
      then show ?thesis using said by (simp add: rows_of_def)
    next
      case 2
      have "fj_name f = ?n" using 2 by (simp add: merge_field_def)
      moreover have "describes f0 (rows_of ?n rows)" using said 2 by auto
      ultimately show ?thesis using describes_next 2(3) by (simp add: rows_of_def)
    next
      case 3
      then have "\<forall>q\<in>set rows. snd (fst q) \<noteq> ?n" unfolding set by (metis image_eqI)
      then have "rows_of ?n rows = []" by (simp add: rows_of_def filter_empty_conv)
      then have "rows_of ?n (rows @ [r]) = [r]" by (simp add: rows_of_def)
      moreover have "fj_name f = ?n" using 3(2) by (simp add: field_of_def)
      ultimately show ?thesis using describes_first [of r] 3(2) by simp
    qed
  qed
qed

section \<open>Whose failure it is\<close>

text \<open>
  A failure that is not the client's says the same whatever it was: no statement, no path and no text
  of the engine reaches the answer.
\<close>

lemma failQuery_hides:
  "fst (failQuery e) \<noteq> 400 \<Longrightarrow> failQuery e = (500, \<lparr>ep_error = ''query failed'', ep_message = None, ep_position = None\<rparr>)"
  by (auto simp: failQuery_def split: api_error.splits search_error.splits rql_error.splits if_splits)

end
