(* ===== verification/Spec2Isabelle.thy ===== *)
theory Spec2Isabelle
  imports WalClaims WalEncoding LogStore CatalogInv Storage LogSpec DurableCollect Severity ParquetRead ParquetSchema
    CompactClaims DurableBacklog RqlClaims RqlAgree NormalizeInv QueryResolveInv QueryClaims IngestClaims SyslogRound SyslogConn Otlp TailClaims ConfigClaims ClientClaims Api
begin

text \<open>
  A verification development for rtail, a log server: lines come in over the network, are made
  into records, appended to a write-ahead log, sealed into Parquet files that a catalog lists,
  merged and expired by a compactor, and searched with a small filter language that runs both as
  a predicate on the live tail and as SQL over the files.

  \<^bold>\<open>Conventions.\<close>  Each definition has the name of the Go function it translates, or names the part of
  it that it translates.  Go strings and byte slices are lists of bytes (a \<open>string\<close>, or 8-bit words
  in the log, where bytes are counted and checksummed); the filter language works on runes (lists
  of numbers).  Structs are records, Go maps and tables association lists or maps, times are
  nanoseconds since the epoch (microseconds in the catalog and in Parquet), machine integers are
  words or integers with their bounds written out.  A function that can fail returns a sum or an
  option.  The outcome of a system call, a database call or the clock is an argument, so a
  theorem over all arguments is one over all failures.  Floats are bit patterns; what the standard
  library, DuckDB and parquet-go compute beyond that (float text, Unicode tables, the JSON
  decoder, regular expressions, column encoding) comes in as a record of functions (\<open>go_lib\<close>,
  \<open>rql_lib\<close>, \<open>query_lib\<close>, \<open>json_lib\<close>, \<open>norm_lib\<close>), with what the code relies on as a hypothesis
  where it is used.

  \<^bold>\<open>The parts and their theories\<close> (paths under \<open>src/internal\<close>).

  Ingest.  \<open>IngestHttp\<close>, \<open>IngestClaims\<close> (\<open>ingest/http.go\<close>): a request's body, decompressed and limited, cut
  into lines, and each line stored, with the answer.  \<open>Otlp\<close> (\<open>ingest/otlp.go\<close>): OpenTelemetry batches.
  \<open>Syslog\<close>, \<open>SyslogRound\<close>, \<open>SyslogConn\<close> (\<open>ingest/syslog.go\<close>): both message formats, and what a datagram or a
  connection delivers.  \<open>Udp\<close> (\<open>ingest/udp.go\<close>): the datagrams of the pipe.  The two HTTP
  endpoints rely on a store through the locale \<open>log_store\<close> (an append is refused or adds one record at
  the end), interpreted on the ring store of \<open>LogStore\<close> and on the durable store.
  \<open>Normalize\<close> and \<open>NormalizeInv\<close> (\<open>normalize/normalize.go\<close>): a line or payload to a
  record, promotion of root keys, level, message and time, and the repair of invalid UTF-8.
  \<open>Severity\<close> (\<open>rql/predicate.go\<close>, the level tables): names and ranks.  \<open>RecordModel\<close>
  (\<open>model/record.go\<close>): the record, its values and their renderings.

  Write-ahead log.  \<open>Wal\<close>, \<open>WalReplay\<close>, \<open>WalSystem\<close>, \<open>WalSafety\<close>, \<open>WalClaims\<close> (\<open>wal/wal.go\<close>): the log
  over file contents as bytes, with frames, checksums, torn writes, and \<open>Sync\<close> split at its
  unlocked fsync; an inductive step relation interleaves all operations, with reachability and
  invariants by rule induction.  \<open>WalEncoding\<close> (\<open>wal/encoding.go\<close>): the record encoding and its round trip.
  \<open>LogSpec\<close>: the log as the store sees it, lists of records per segment, which the byte-level log
  refines (C15).

  Store.  \<open>LogStore\<close> (\<open>logstore/logstore.go\<close>, \<open>memory.go\<close>): subscriptions with bounded queues, the
  fanout, rings.  \<open>Durable\<close>, \<open>DurableInv\<close>, \<open>DurableSystem\<close>, \<open>DurableCollect\<close>, \<open>DurableBacklog\<close>
  (\<open>logstore/durable.go\<close>): append, seal, flush, retry, recovery, replay, collection and the backlog
  after a restart, composed from the log specification, the catalog and the object store; its step
  relation includes crashes, and a flush cut off by a crash is one whose remaining calls fail.

  Catalog and objects.  \<open>Catalog\<close>, \<open>CatalogInv\<close> (\<open>catalog/catalog.go\<close>): the tables and transactions.
  \<open>Storage\<close> (\<open>storage/storage.go\<close>, \<open>local.go\<close>): object names, path resolution, atomic creation.
  \<open>Parquet\<close>, \<open>ParquetFile\<close>, \<open>ParquetSchema\<close>, \<open>ParquetRead\<close> (\<open>parquetio\<close>): the schema of a batch, rows,
  sort order, statistics, and reading back.

  Compaction.  \<open>Compact\<close>, \<open>CompactInv\<close>, \<open>CompactSafety\<close>, \<open>CompactClaims\<close> (\<open>compact/compact.go\<close>): grouping,
  merging, retention by age and by level, over any failure of any call.  The Parquet library is the
  locale \<open>parquet_file\<close>, interpreted on the model of \<open>ParquetFile\<close>.

  Search.  \<open>Rql\<close>, \<open>RqlLex\<close>, \<open>RqlParse\<close>, \<open>RqlRound\<close>, \<open>RqlClaims\<close> (\<open>rql/ast.go\<close>, \<open>parse.go\<close>): syntax, lexer,
  parser and renderer.  \<open>JsonText\<close> (\<open>rql/jsontext.go\<close>), \<open>RqlPredicate\<close> (\<open>rql/predicate.go\<close>), \<open>RqlSql\<close>
  (\<open>rql/sql.go\<close>) and \<open>RqlAgree\<close>: the two compilers and their agreement.  \<open>QueryResolve\<close>,
  \<open>QueryResolveInv\<close> (\<open>query/resolve.go\<close>): which expression reads a field in the files of a query.
  \<open>QueryEngine\<close>, \<open>QuerySearch\<close>, \<open>QueryPages\<close>, \<open>QueryClaims\<close> (\<open>query/engine.go\<close>, \<open>search.go\<close>): planning over the
  catalog, SQL mode and its refusals, the search and its cursors, the histogram and the field explorer.

  Live tail.  \<open>Tail\<close>, \<open>TailClaims\<close> (\<open>api/sse.go\<close>): one client's connection as a state machine among everything
  else the store does.  The locale \<open>tail_store\<close> extends \<open>log_store\<close> with subscriptions and backlogs, and is
  interpreted on the memory store and the durable one.

  Surface.  \<open>Auth\<close> (\<open>auth/auth.go\<close>): the token and the guard.  \<open>Config\<close>, \<open>ConfigClaims\<close> (\<open>config/config.go\<close>): options
  from the environment and the command line, and the configurations that are refused.  \<open>Server\<close>
  (\<open>api/server.go\<close>): the routes behind the guard, and the health report.  \<open>Api\<close> (\<open>api/search.go\<close>): the search
  handlers over the engine, their parameters and failures, and the list of fields, which is proved to
  say of each name what the rows of its name say together.

  Client.  \<open>Client\<close>, \<open>ClientClaims\<close> (\<open>client/*.go\<close>): the pipe from standard input to standard output and to
  datagrams, chunk by chunk, with the link that may appear late; composed with \<open>Udp\<close> up to the store.

  Shared: \<open>Prelude\<close> (bytes, errors, little-endian words, CRC-32C, lists), \<open>GoText\<close> and \<open>GoStrings\<close>
  (decimal text, UTF-8, case and white space of the Go library).

  \<^bold>\<open>What the theorems show.\<close>  The log keeps what it accepted, byte by byte (C1, C4 to C6); a server others
  can reach asks for its token (C2); a piped line is shown, and stored where its datagram arrives (C3);
  live delivery loses only what its counters say and backlogs are exact (C7, C8); the catalog's invariant, atomic replacement, safe discarding and complete pruning
  (C9 to C12); object names stay inside the data directory (C13, C14); the store's view is refined by
  the log (C15), and nothing accepted is lost or stored twice, whatever fails (C16), with a flush that
  works making progress (C17) and collection that cannot undo it (C18); the files keep what is written
  to them (C19 to C22); a connection delivers the messages that were framed (C23) and a syslog message
  reads back as the record it describes (C25); compaction moves every record or counts it (C24, C27), but
  for one defect it inherits (C28); a live tail shows each record once (C26); a restart shows the newest
  records (C29); queries parse, render and mean the same on the tail and in the files (C30 to C35), again
  but for one stated disagreement (C33); records are valid text (C36); a field reads its own key (C37);
  following a search's cursors misses nothing and ends (C38, C39); an acknowledged request is stored (C40).

  \<^bold>\<open>Bounds and fuel.\<close>  The parser recurses on fuel that \<open>Parse\<close> sets from the length of its input;
  \<open>query_parse_returns\<close> (C31) shows it never runs out.  The search for an unused name in \<open>Sanitize\<close> has
  as many tries as there are names, plus one.  Everything else recurses on its data, or on a file's bytes
  with a measure.

  \<^bold>\<open>Not modelled.\<close>  Sockets (binding, accepting, deadlines), encoding of answers as JSON, and the wiring and
  process handling of the programs under \<open>cmd\<close> with the static files of \<open>web\<close>; the
  web interface and the npm package are TypeScript.  Inside the modelled parts: file handles and
  directory syncing below the outcome they report, timers and tickers, logging, the bytes that
  parquet-go writes, and concurrency within an operation that holds a mutex throughout.
\<close>

end
